(* ===== verification/Wing_Prelude.thy ===== *)
theory Wing_Prelude
  imports Main "HOL-Library.Word" "HOL-Library.Sublist"
begin

text \<open>
  Shared vocabulary of the libwing development: the machine integer types of the Rust source,
  the crate's error type and the \<open>Result\<close> plumbing (\<open>?\<close>, \<open>ok_or\<close>), big-endian byte
  conversions, the cursor-reader interface that the binary parsers share (locale
  \<open>cursor_codec\<close>), and the generic list lemmas and named theorem collections.

  Rust \<open>u8\<close>/\<open>i8\<close>, \<open>u16\<close>/\<open>i16\<close>, \<open>u32\<close>/\<open>i32\<close> and \<open>u64\<close> are words of their width; a signed value is
  the same word read with \<^const>\<open>sint\<close>, so the \<open>as\<close> casts between equal widths are the
  identity. An \<open>f32\<close> is its IEEE bit pattern: the wire code only ever moves the bits
  (\<open>from_be_bytes\<close>, \<open>to_be_bytes\<close>, \<open>from_bits\<close>), and comparison is \<open>f32_eq\<close> below. \<open>usize\<close>
  is \<^typ>\<open>nat\<close>, with the 64-bit ceiling written out where the source saturates.
\<close>

section \<open>Machine types\<close>

type_synonym byte = "8 word"
type_synonym u16 = "16 word"
type_synonym i16 = "16 word"
type_synonym u32 = "32 word"
type_synonym i32 = "32 word"
type_synonym u64 = "64 word"
type_synonym f32 = "32 word"

definition usize_max :: nat where
  "usize_max = 2 ^ 64 - 1"

definition saturating_add :: "nat \<Rightarrow> nat \<Rightarrow> nat" where
  "saturating_add a b = min (a + b) usize_max"

definition checked_add :: "nat \<Rightarrow> nat \<Rightarrow> nat option" where
  "checked_add a b = (if a + b \<le> usize_max then Some (a + b) else None)"

text \<open>The same functions with binary arithmetic, for evaluation.\<close>

lemma usize_max_int: "n \<le> usize_max \<longleftrightarrow> int n \<le> 18446744073709551615"
  by (simp add: usize_max_def)

lemma saturating_add_code [code]:
  "saturating_add a b = (if int a + int b \<le> 18446744073709551615 then a + b else usize_max)"
  using usize_max_int [of "a + b"] by (auto simp: saturating_add_def min_def)

lemma checked_add_code [code]:
  "checked_add a b = (if int a + int b \<le> 18446744073709551615 then Some (a + b) else None)"
  using usize_max_int [of "a + b"] by (simp add: checked_add_def)

section \<open>Errors and results\<close>

datatype io_kind = WouldBlock | TimedOut | Interrupted | UnexpectedEof | OtherKind

datatype error =
    Io io_kind
  | InvalidData
  | InvalidInput
  | ConnectionError
  | DiscoveryError
  | MeterNotInitialized
  | Timeout
  | Reconnecting
  | MeterFrameLength nat nat

type_synonym 'a result = "error + 'a"

fun and_then :: "'e + 'a \<Rightarrow> ('a \<Rightarrow> 'e + 'b) \<Rightarrow> 'e + 'b" where
  "and_then (Inl e) f = Inl e"
| "and_then (Inr x) f = f x"

definition ok_or :: "'a option \<Rightarrow> 'e \<Rightarrow> 'e + 'a" where
  "ok_or x e = (case x of None \<Rightarrow> Inl e | Some y \<Rightarrow> Inr y)"

definition is_ok :: "'e + 'a \<Rightarrow> bool" where
  "is_ok r = (case r of Inl _ \<Rightarrow> False | Inr _ \<Rightarrow> True)"

named_theorems wing_defs
  "definitions that the component proofs unfold by default"
named_theorems codec
  "round-trip facts of the cursor readers"

lemma and_then_eq_Inr_iff:
  "and_then r f = Inr y \<longleftrightarrow> (\<exists>x. r = Inr x \<and> f x = Inr y)"
  by (cases r) auto

lemma and_then_eq_Inl_iff:
  "and_then r f = Inl e \<longleftrightarrow> r = Inl e \<or> (\<exists>x. r = Inr x \<and> f x = Inl e)"
  by (cases r) auto

lemmas and_then_iffs = and_then_eq_Inr_iff and_then_eq_Inl_iff

lemma and_then_assoc:
  "and_then (and_then r f) g = and_then r (\<lambda>x. and_then (f x) g)"
  by (cases r) auto

lemma ok_or_simps [simp]:
  "ok_or None e = Inl e" "ok_or (Some y) e = Inr y"
  by (simp_all add: ok_or_def)

lemma ok_or_eq_iffs [simp]:
  "ok_or x e = Inr y \<longleftrightarrow> x = Some y" "ok_or x e = Inl e' \<longleftrightarrow> x = None \<and> e' = e"
  by (auto simp: ok_or_def split: option.splits)

lemma is_ok_simps [simp]:
  "\<not> is_ok (Inl e)" "is_ok (Inr y)"
  by (simp_all add: is_ok_def)

lemma result_option_cases [case_names err wait req]:
  obtains e where "p = Inl e" | "p = Inr None" | q where "p = Inr (Some q)"
  by (metis option.exhaust sum.exhaust)

section \<open>Big-endian bytes\<close>

definition u16_be :: "u16 \<Rightarrow> byte list" where
  "u16_be w = [ucast (drop_bit 8 w), ucast w]"

definition u32_be :: "u32 \<Rightarrow> byte list" where
  "u32_be w = [ucast (drop_bit 24 w), ucast (drop_bit 16 w), ucast (drop_bit 8 w), ucast w]"

definition be_u16 :: "byte \<Rightarrow> byte \<Rightarrow> u16" where
  "be_u16 a b = or (push_bit 8 (ucast a)) (ucast b)"

definition be_u32 :: "byte \<Rightarrow> byte \<Rightarrow> byte \<Rightarrow> byte \<Rightarrow> u32" where
  "be_u32 a b c d =
     or (push_bit 24 (ucast a)) (or (push_bit 16 (ucast b)) (or (push_bit 8 (ucast c)) (ucast d)))"

fun u16_from_be :: "byte list \<Rightarrow> u16" where
  "u16_from_be [a, b] = be_u16 a b"
| "u16_from_be _ = 0"

fun u32_from_be :: "byte list \<Rightarrow> u32" where
  "u32_from_be [a, b, c, d] = be_u32 a b c d"
| "u32_from_be _ = 0"

lemma length_u16_be [simp]: "length (u16_be w) = 2"
  by (simp add: u16_be_def)

lemma length_u32_be [simp]: "length (u32_be w) = 4"
  by (simp add: u32_be_def)

lemma be_u16_of_u16 [simp]: "be_u16 (ucast (drop_bit 8 w)) (ucast w) = w"
  unfolding be_u16_def by (rule bit_word_eqI) (auto simp: bit_simps)

lemma be_u32_of_u32 [simp]:
  "be_u32 (ucast (drop_bit 24 w)) (ucast (drop_bit 16 w)) (ucast (drop_bit 8 w)) (ucast w) = w"
proof (rule bit_word_eqI)
  fix n assume n: "n < LENGTH(32)"
  consider "n < 8" | "8 \<le> n" "n < 16" | "16 \<le> n" "n < 24" | "24 \<le> n" by linarith
  then show "bit (be_u32 (ucast (drop_bit 24 w)) (ucast (drop_bit 16 w)) (ucast (drop_bit 8 w))
      (ucast w)) n = bit w n"
    unfolding be_u32_def by cases (use n in \<open>auto simp: bit_simps\<close>)
qed

lemma u16_from_be_u16_be [simp]: "u16_from_be (u16_be w) = w"
  by (simp add: u16_be_def)

lemma u32_from_be_u32_be [simp]: "u32_from_be (u32_be w) = w"
  by (simp add: u32_be_def)

lemma u16_be_be_u16 [simp]: "u16_be (be_u16 a b) = [a, b]"
proof -
  have "ucast (drop_bit 8 (be_u16 a b)) = a"
    unfolding be_u16_def by (rule bit_word_eqI) (auto simp: bit_simps dest: bit_imp_le_length)
  moreover have "ucast (be_u16 a b) = b"
    unfolding be_u16_def by (rule bit_word_eqI) (auto simp: bit_simps dest: bit_imp_le_length)
  ultimately show ?thesis by (simp add: u16_be_def)
qed

lemma u32_be_be_u32 [simp]: "u32_be (be_u32 a b c d) = [a, b, c, d]"
proof -
  have "ucast (drop_bit 24 (be_u32 a b c d)) = a"
    unfolding be_u32_def by (rule bit_word_eqI) (auto simp: bit_simps dest: bit_imp_le_length)
  moreover have "ucast (drop_bit 16 (be_u32 a b c d)) = b"
    unfolding be_u32_def by (rule bit_word_eqI) (auto simp: bit_simps dest: bit_imp_le_length)
  moreover have "ucast (drop_bit 8 (be_u32 a b c d)) = c"
    unfolding be_u32_def by (rule bit_word_eqI) (auto simp: bit_simps dest: bit_imp_le_length)
  moreover have "ucast (be_u32 a b c d) = d"
    unfolding be_u32_def by (rule bit_word_eqI) (auto simp: bit_simps dest: bit_imp_le_length)
  ultimately show ?thesis by (simp add: u32_be_def)
qed

lemma u16_be_inject [simp]: "u16_be v = u16_be w \<longleftrightarrow> v = w"
  by (metis u16_from_be_u16_be)

lemma u32_be_inject [simp]: "u32_be v = u32_be w \<longleftrightarrow> v = w"
  by (metis u32_from_be_u32_be)

lemma unat_of_nat_u8: "n < 256 \<Longrightarrow> unat (word_of_nat n :: byte) = n"
  by (simp add: unat_of_nat)

lemma unat_of_nat_u16: "n < 65536 \<Longrightarrow> unat (word_of_nat n :: u16) = n"
  by (simp add: unat_of_nat)

lemma unat_of_nat_u32: "n < 4294967296 \<Longrightarrow> unat (word_of_nat n :: u32) = n"
  by (simp add: unat_of_nat)

lemma numeral_le_one_word [simp]:
  "(numeral k :: 'a::len word) \<le> 1 \<longleftrightarrow> uint (numeral k :: 'a word) \<le> 1"
  by (simp add: word_le_def)

lemma one_le_numeral_word [simp]:
  "(1 :: 'a::len word) \<le> numeral k \<longleftrightarrow> 1 \<le> uint (numeral k :: 'a word)"
  by (simp add: word_le_def)

lemma unat_u8_less [simp]: "unat (b :: byte) < 256"
  using unsigned_less [of b] by simp

lemma unat_u8_le [simp]: "unat (b :: byte) \<le> 255"
  using unat_u8_less [of b] by linarith

lemma unat_u16_less [simp]: "unat (w :: u16) < 65536"
  using unsigned_less [of w] by simp

lemma unat_u32_less [simp]: "unat (w :: u32) < 4294967296"
  using unsigned_less [of w] by simp

section \<open>IEEE comparison of f32 bit patterns\<close>

definition f32_is_nan :: "f32 \<Rightarrow> bool" where
  "f32_is_nan x \<longleftrightarrow> (let m = take_bit 31 x in m > 0x7f800000)"

definition f32_is_zero :: "f32 \<Rightarrow> bool" where
  "f32_is_zero x \<longleftrightarrow> take_bit 31 x = 0"

definition f32_eq :: "f32 \<Rightarrow> f32 \<Rightarrow> bool" where
  "f32_eq x y \<longleftrightarrow>
     \<not> f32_is_nan x \<and> \<not> f32_is_nan y \<and> (x = y \<or> f32_is_zero x \<and> f32_is_zero y)"

lemma f32_eq_refl_iff: "f32_eq x x \<longleftrightarrow> \<not> f32_is_nan x"
  by (simp add: f32_eq_def)

lemma f32_eq_sym: "f32_eq x y \<longleftrightarrow> f32_eq y x"
  by (auto simp: f32_eq_def)

section \<open>Cursor readers\<close>

text \<open>
  The source's parsers thread a cursor \<open>i: &mut usize\<close> through a byte slice. Here a reader is
  a function of the slice and the cursor that returns the value and the advanced cursor.
  The locale states the contract a reader has with its encoder: placed anywhere in a buffer,
  an encoding is read back exactly and the cursor lands right behind it.
\<close>

type_synonym ('e, 'a) reader = "byte list \<Rightarrow> nat \<Rightarrow> 'e + ('a \<times> nat)"

fun read_items :: "('e, 'a) reader \<Rightarrow> nat \<Rightarrow> ('e, 'a list) reader" where
  "read_items rd 0 raw i = Inr ([], i)"
| "read_items rd (Suc n) raw i =
     and_then (rd raw i) (\<lambda>(x, i1).
     and_then (read_items rd n raw i1) (\<lambda>(xs, i2). Inr (x # xs, i2)))"

lemma read_items_all:
  assumes "\<And>raw i x j. rd raw i = Inr (x, j) \<Longrightarrow> P x"
  shows "read_items rd n raw i = Inr (xs, j) \<Longrightarrow> list_all P xs \<and> length xs = n"
  by (induction n arbitrary: i xs) (auto simp: and_then_iffs dest: assms)

lemma prefix_same [simp]: "prefix xs (xs @ ys)" "prefix xs xs"
  by (simp_all add: prefix_def)

locale cursor_codec =
  fixes wf :: "'a \<Rightarrow> bool"
    and enc :: "'a \<Rightarrow> byte list"
    and rd :: "byte list \<Rightarrow> nat \<Rightarrow> 'e + ('a \<times> nat)"
  assumes rd_enc: "wf x \<Longrightarrow> rd (pre @ enc x @ post) (length pre) = Inr (x, length pre + length (enc x))"
begin

lemma rd_at:
  assumes "wf x" and "raw = pre @ enc x @ post" and "i = length pre"
  shows "rd raw i = Inr (x, i + length (enc x))"
  using assms by (simp add: rd_enc)

lemma rd_prefix:
  assumes "wf x" and "prefix (enc x) (drop i raw)" and "i \<le> length raw"
  shows "rd raw i = Inr (x, i + length (enc x))"
proof -
  from assms(2) obtain post where "drop i raw = enc x @ post" by (auto simp: prefix_def)
  then have "raw = take i raw @ enc x @ post" by (metis append_take_drop_id)
  with assms(1,3) show ?thesis by (metis length_take min.absorb2 rd_enc)
qed

lemma read_items_enc:
  assumes "list_all wf xs"
  shows "read_items rd (length xs) (pre @ concat (map enc xs) @ post) (length pre)
         = Inr (xs, length pre + length (concat (map enc xs)))"
  using assms
proof (induction xs arbitrary: pre)
  case Nil
  then show ?case by simp
next
  case (Cons x xs)
  then have x: "wf x" and xs: "list_all wf xs" by simp_all
  have "rd (pre @ enc x @ concat (map enc xs) @ post) (length pre)
        = Inr (x, length pre + length (enc x))"
    using rd_enc [OF x, of pre "concat (map enc xs) @ post"] by simp
  moreover have "read_items rd (length xs) ((pre @ enc x) @ concat (map enc xs) @ post)
          (length (pre @ enc x))
        = Inr (xs, length (pre @ enc x) + length (concat (map enc xs)))"
    using Cons.IH [OF xs, of "pre @ enc x"] .
  ultimately show ?case by simp
qed

lemma enc_prefix_free:
  assumes "wf x" and "wf y" and "enc x @ r = enc y @ s"
  shows "x = y \<and> r = s"
proof -
  from rd_enc [OF assms(1), of "[]" r] rd_enc [OF assms(2), of "[]" s] assms(3)
  have "x = y" by simp
  with assms(3) show ?thesis by simp
qed

end

text \<open>
  A reader is well behaved when it never moves the cursor past the end of the slice and when a
  successful read does not depend on bytes behind the cursor it returns.
\<close>

locale bounded_reader =
  fixes rd :: "byte list \<Rightarrow> nat \<Rightarrow> 'e + ('a \<times> nat)"
  assumes rd_bounds: "rd raw i = Inr (x, j) \<Longrightarrow> i \<le> length raw \<Longrightarrow> i \<le> j \<and> j \<le> length raw"
    and rd_extend: "rd raw i = Inr (x, j) \<Longrightarrow> i \<le> length raw \<Longrightarrow> rd (raw @ ext) i = Inr (x, j)"
begin

lemma read_items_bounds:
  "read_items rd n raw i = Inr (xs, j) \<Longrightarrow> i \<le> length raw \<Longrightarrow> i \<le> j \<and> j \<le> length raw"
proof (induction n arbitrary: i xs)
  case 0
  then show ?case by simp
next
  case (Suc n)
  then obtain x i1 ys where 1: "rd raw i = Inr (x, i1)" and 2: "read_items rd n raw i1 = Inr (ys, j)"
    by (auto simp: and_then_iffs)
  from rd_bounds [OF 1 Suc.prems(2)] Suc.IH [OF 2] show ?case by simp
qed

lemma read_items_extend:
  "read_items rd n raw i = Inr (xs, j) \<Longrightarrow> i \<le> length raw \<Longrightarrow>
     read_items rd n (raw @ ext) i = Inr (xs, j)"
proof (induction n arbitrary: i xs)
  case 0
  then show ?case by simp
next
  case (Suc n)
  then obtain x i1 ys where 1: "rd raw i = Inr (x, i1)" and 2: "read_items rd n raw i1 = Inr (ys, j)"
    and xs: "xs = x # ys"
    by (auto simp: and_then_iffs)
  from rd_bounds [OF 1 Suc.prems(2)] have "i1 \<le> length raw" by simp
  from rd_extend [OF 1 Suc.prems(2)] Suc.IH [OF 2 this] xs show ?case by simp
qed

end

lemma bounded_return: "bounded_reader (\<lambda>raw i. Inr (x, i))"
  by unfold_locales auto

lemma bounded_seq:
  assumes "bounded_reader rd" and "\<And>x. bounded_reader (f x)"
  shows "bounded_reader (\<lambda>raw i. and_then (rd raw i) (\<lambda>(x, i). f x raw i))"
proof
  fix raw i y k assume "and_then (rd raw i) (\<lambda>(x, i). f x raw i) = Inr (y, k)" and i: "i \<le> length raw"
  then obtain x j where 1: "rd raw i = Inr (x, j)" and 2: "f x raw j = Inr (y, k)"
    by (auto simp: and_then_iffs)
  note j = bounded_reader.rd_bounds [OF assms(1) 1 i]
  show "i \<le> k \<and> k \<le> length raw"
    using j bounded_reader.rd_bounds [OF assms(2) 2] by simp
  fix ext
  show "and_then (rd (raw @ ext) i) (\<lambda>(x, i). f x (raw @ ext) i) = Inr (y, k)"
    using bounded_reader.rd_extend [OF assms(1) 1 i] bounded_reader.rd_extend [OF assms(2) 2] j
    by simp
qed

lemma bounded_items: "bounded_reader rd \<Longrightarrow> bounded_reader (read_items rd n)"
  by (rule bounded_reader.intro)
    (erule (2) bounded_reader.read_items_bounds, erule (2) bounded_reader.read_items_extend)

lemmas bounded_readers = bounded_seq bounded_return bounded_items

section \<open>Incremental decoders\<close>

text \<open>
  A decoder that is fed a byte stream in fragments. \<open>feed_chunks\<close> is the caller's loop: it
  stops at the first error and otherwise concatenates what each fragment produced. The locale
  asks for the two laws that make fragmentation invisible; its lemma says that any cutting of
  a stream into fragments gives the result of feeding it whole.
\<close>

fun feed_chunks :: "('s \<Rightarrow> 'i list \<Rightarrow> ('e + 'o list) \<times> 's) \<Rightarrow> 's \<Rightarrow> 'i list list \<Rightarrow> ('e + 'o list) \<times> 's"
where
  "feed_chunks feed s [] = (Inr [], s)"
| "feed_chunks feed s (c # cs) =
     (case feed s c of
        (Inl e, s') \<Rightarrow> (Inl e, s')
      | (Inr os, s') \<Rightarrow>
          (case feed_chunks feed s' cs of
             (Inl e, s'') \<Rightarrow> (Inl e, s'')
           | (Inr os', s'') \<Rightarrow> (Inr (os @ os'), s'')))"

locale chunked_decoder =
  fixes feed :: "'s \<Rightarrow> 'i list \<Rightarrow> ('e + 'o list) \<times> 's"
  assumes feed_nil: "feed s [] = (Inr [], s)"
    and feed_append: "feed s (xs @ ys) =
      (case feed s xs of
         (Inl e, s') \<Rightarrow> (Inl e, s')
       | (Inr os, s') \<Rightarrow>
           (case feed s' ys of
              (Inl e, s'') \<Rightarrow> (Inl e, s'')
            | (Inr os', s'') \<Rightarrow> (Inr (os @ os'), s'')))"
begin

lemma feed_chunks_concat: "feed_chunks feed s cs = feed s (concat cs)"
proof (induction cs arbitrary: s)
  case Nil
  then show ?case by (simp add: feed_nil)
next
  case (Cons c cs)
  then show ?case by (simp add: feed_append split: prod.splits sum.splits)
qed

lemma feed_chunks_same_stream:
  "concat cs = concat ds \<Longrightarrow> feed_chunks feed s cs = feed_chunks feed s ds"
  by (simp add: feed_chunks_concat)

end

section \<open>Lists\<close>

definition opt_list :: "'a option \<Rightarrow> 'a list" where
  "opt_list x = (case x of None \<Rightarrow> [] | Some a \<Rightarrow> [a])"

lemma opt_list_simps [simp]: "opt_list None = []" "opt_list (Some a) = [a]"
  by (simp_all add: opt_list_def)

lemma list_all_replicate_iff: "list_all P (replicate n x) \<longleftrightarrow> n = 0 \<or> P x"
  by (induction n) auto

lemma take_drop_append_mid [simp]:
  "take (length ys) (drop (length xs) (xs @ ys @ zs)) = ys"
  by simp

lemma nth_append_here [simp]: "(pre @ x # post) ! length pre = x"
  by (simp add: nth_append)

end
