(* ===== verification/Channel.thy ===== *)
theory Channel
  imports Wing_Prelude
begin

text \<open>
  The Native channel framing of \<open>src/native.rs\<close>: the incremental \<open>ChannelDecoder\<close> that turns a
  TCP byte stream into channel-select and data events, and the encoder
  (\<open>encode_channel\<close>, \<open>append_escaped\<close>) of the opposite direction. A decoder method takes
  \<open>&mut self\<close>, so its model returns the new decoder also when the result is an error.
\<close>

abbreviation ESCAPE :: byte where "ESCAPE \<equiv> 0xdf"
abbreviation ESCAPED_ESCAPE :: byte where "ESCAPED_ESCAPE \<equiv> 0xde"
abbreviation CHANNEL_BASE :: byte where "CHANNEL_BASE \<equiv> 0xd0"
abbreviation CHANNEL_COUNT :: byte where "CHANNEL_COUNT \<equiv> 14"

section \<open>Data and operations\<close>

datatype ChannelEvent = Selected byte | Data byte byte

record ChannelDecoder =
  cd_escaped :: bool
  cd_channel :: "byte option"

definition decoder_default :: ChannelDecoder where
  "decoder_default = \<lparr>cd_escaped = False, cd_channel = None\<rparr>"

definition with_channel :: "byte \<Rightarrow> ChannelDecoder result" where
  "with_channel ch =
     (if ch \<ge> CHANNEL_COUNT then Inl InvalidInput
      else Inr \<lparr>cd_escaped = False, cd_channel = Some ch\<rparr>)"

definition push_byte ::
  "ChannelDecoder \<Rightarrow> byte \<Rightarrow> (ChannelEvent option \<times> ChannelEvent option) result \<times> ChannelDecoder"
where
  "push_byte d byte =
     (if \<not> cd_escaped d then
        if byte = ESCAPE then (Inr (None, None), d\<lparr>cd_escaped := True\<rparr>)
        else (and_then (ok_or (cd_channel d) InvalidData)
                (\<lambda>ch. Inr (Some (Data ch byte), None)), d)
      else
        let d = d\<lparr>cd_escaped := False\<rparr> in
        if byte = ESCAPED_ESCAPE \<or> byte = ESCAPE then
          (and_then (ok_or (cd_channel d) InvalidData)
             (\<lambda>ch. Inr (Some (Data ch ESCAPE), None)), d)
        else if CHANNEL_BASE \<le> byte \<and> byte \<le> 0xdd then
          let ch = byte - CHANNEL_BASE in
          (Inr (Some (Selected ch), None), d\<lparr>cd_channel := Some ch\<rparr>)
        else
          (and_then (ok_or (cd_channel d) InvalidData)
             (\<lambda>ch. Inr (Some (Data ch ESCAPE), Some (Data ch byte))), d))"

fun push :: "ChannelDecoder \<Rightarrow> byte list \<Rightarrow> ChannelEvent list result \<times> ChannelDecoder" where
  "push d [] = (Inr [], d)"
| "push d (byte # input) =
     (case push_byte d byte of
        (Inl e, d') \<Rightarrow> (Inl e, d')
      | (Inr (first, second), d') \<Rightarrow>
          (case push d' input of
             (Inl e, d'') \<Rightarrow> (Inl e, d'')
           | (Inr events, d'') \<Rightarrow> (Inr (opt_list first @ opt_list second @ events), d'')))"

definition finish :: "ChannelDecoder \<Rightarrow> unit result" where
  "finish d = (if cd_escaped d then Inl InvalidData else Inr ())"

definition reset :: "ChannelDecoder \<Rightarrow> ChannelDecoder" where
  "reset d = decoder_default"

fun append_escaped :: "byte list \<Rightarrow> byte list \<Rightarrow> byte list" where
  "append_escaped out [] = out"
| "append_escaped out (byte # payload) =
     append_escaped (out @ [byte] @ (if byte = ESCAPE then [ESCAPED_ESCAPE] else [])) payload"

definition encode_channel :: "byte \<Rightarrow> byte list \<Rightarrow> byte list result" where
  "encode_channel ch payload =
     (if ch \<ge> CHANNEL_COUNT then Inl InvalidInput
      else Inr (append_escaped [ESCAPE, CHANNEL_BASE + ch] payload))"

definition escaped_len :: "byte list \<Rightarrow> nat" where
  "escaped_len payload = sum_list (map (\<lambda>byte. if byte = ESCAPE then 2 else 1) payload)"

section \<open>Escaping\<close>

definition escape :: "byte list \<Rightarrow> byte list" where
  "escape payload = concat (map (\<lambda>b. if b = ESCAPE then [ESCAPE, ESCAPED_ESCAPE] else [b]) payload)"

lemma escape_simps [simp]:
  "escape [] = []"
  "escape (b # bs) = (if b = ESCAPE then ESCAPE # ESCAPED_ESCAPE # escape bs else b # escape bs)"
  by (simp_all add: escape_def)

lemma escape_append [simp]: "escape (xs @ ys) = escape xs @ escape ys"
  by (simp add: escape_def)

lemma append_escaped_eq: "append_escaped out payload = out @ escape payload"
  by (induction payload arbitrary: out) auto

lemma length_escape: "length (escape payload) = escaped_len payload"
  by (induction payload) (auto simp: escaped_len_def)

lemma escaped_len_simps [simp]:
  "escaped_len [] = 0"
  "escaped_len (b # bs) = (if b = ESCAPE then 2 else 1) + escaped_len bs"
  "escaped_len (xs @ ys) = escaped_len xs + escaped_len ys"
  by (simp_all add: escaped_len_def)

lemma escaped_len_bounds: "length payload \<le> escaped_len payload" "escaped_len payload \<le> 2 * length payload"
  by (induction payload) auto

section \<open>The decoder as a chunked decoder\<close>

lemma push_append:
  "push d (xs @ ys) =
     (case push d xs of
        (Inl e, d') \<Rightarrow> (Inl e, d')
      | (Inr os, d') \<Rightarrow>
          (case push d' ys of
             (Inl e, d'') \<Rightarrow> (Inl e, d'')
           | (Inr os', d'') \<Rightarrow> (Inr (os @ os'), d'')))"
  by (induction d xs rule: push.induct) (auto split: prod.splits sum.splits)

interpretation chan: chunked_decoder push
  by unfold_locales (simp_all add: push_append)

section \<open>Channels stay in range\<close>

definition channel_ok :: "byte option \<Rightarrow> bool" where
  "channel_ok c \<longleftrightarrow> (case c of None \<Rightarrow> True | Some ch \<Rightarrow> ch < CHANNEL_COUNT)"

fun event_ok :: "ChannelEvent \<Rightarrow> bool" where
  "event_ok (Selected ch) \<longleftrightarrow> ch < CHANNEL_COUNT"
| "event_ok (Data ch _) \<longleftrightarrow> ch < CHANNEL_COUNT"

lemma channel_ok_simps [simp]:
  "channel_ok None" "channel_ok (Some ch) \<longleftrightarrow> ch < CHANNEL_COUNT"
  by (simp_all add: channel_ok_def)

lemma selected_in_range:
  assumes "CHANNEL_BASE \<le> b" and "b \<le> 0xdd"
  shows "b - CHANNEL_BASE < CHANNEL_COUNT"
proof -
  have "208 \<le> uint b" "uint b \<le> 221" using assms by (simp_all add: word_le_def)
  moreover have "uint (b - CHANNEL_BASE) = uint b - 208"
    using \<open>208 \<le> uint b\<close> \<open>uint b \<le> 221\<close> by (simp add: uint_word_ariths)
  ultimately show ?thesis by (simp add: word_less_def)
qed

lemma push_byte_ok:
  assumes "push_byte d b = (r, d')" and "channel_ok (cd_channel d)"
  shows "channel_ok (cd_channel d')"
    and "r = Inr (x, y) \<Longrightarrow> list_all event_ok (opt_list x @ opt_list y)"
    and "r = Inl e \<Longrightarrow> e = InvalidData"
  using assms selected_in_range [of b]
  by (auto simp: push_byte_def Let_def and_then_iffs split: if_splits)

lemma push_ok:
  assumes "push d bs = (r, d')" and "channel_ok (cd_channel d)"
  shows "channel_ok (cd_channel d') \<and>
    (case r of Inl e \<Rightarrow> e = InvalidData | Inr evs \<Rightarrow> list_all event_ok evs)"
  using assms
proof (induction d bs arbitrary: r d' rule: push.induct)
  case (1 d)
  then show ?case by auto
next
  case (2 d b bs)
  obtain q d1 where p: "push_byte d b = (q, d1)" by force
  have ok1: "channel_ok (cd_channel d1)" using push_byte_ok(1) [OF p "2.prems"(2)] .
  show ?case
  proof (cases q)
    case (Inl e)
    with push_byte_ok(3) [OF p "2.prems"(2)] p ok1 "2.prems" show ?thesis by auto
  next
    case (Inr xy)
    obtain x y where xy: "xy = (x, y)" by force
    have evs: "list_all event_ok (opt_list x @ opt_list y)"
      using push_byte_ok(2) [OF p "2.prems"(2)] Inr xy by simp
    from p Inr xy "2.IH" [OF p [symmetric] Inr xy [symmetric]] ok1 "2.prems"(1) evs show ?thesis
      by (auto split: prod.splits sum.splits)
  qed
qed

section \<open>Decoding what was encoded\<close>

lemma push_byte_selected:
  assumes "ch < CHANNEL_COUNT" and "cd_escaped d"
  shows "push_byte d (CHANNEL_BASE + ch) =
    (Inr (Some (Selected ch), None), \<lparr>cd_escaped = False, cd_channel = Some ch\<rparr>)"
proof -
  have "uint ch < 14" using assms(1) by (simp add: word_less_def)
  moreover have "uint (CHANNEL_BASE + ch) = 208 + uint ch"
    using \<open>uint ch < 14\<close> by (simp add: uint_word_ariths)
  ultimately have "CHANNEL_BASE \<le> CHANNEL_BASE + ch" "CHANNEL_BASE + ch \<le> 0xdd"
    "CHANNEL_BASE + ch \<noteq> ESCAPE" "CHANNEL_BASE + ch \<noteq> ESCAPED_ESCAPE"
    by (auto simp: word_le_def word_uint_eq_iff simp del: add_eq_0_iff)
  then show ?thesis using assms(2)
    by (cases d) (simp add: push_byte_def Let_def)
qed

lemma push_escape:
  assumes "\<not> cd_escaped d" and "cd_channel d = Some ch"
  shows "push d (escape payload) = (Inr (map (Data ch) payload), d)"
proof -
  have d: "d = \<lparr>cd_escaped = False, cd_channel = Some ch\<rparr>"
    using assms by (cases d) simp
  show ?thesis
    unfolding d by (induction payload) (simp_all add: push_byte_def)
qed

lemma push_encode_channel_gen:
  assumes "ch < CHANNEL_COUNT" and "\<not> cd_escaped d"
  shows "push d (append_escaped [ESCAPE, CHANNEL_BASE + ch] payload) =
    (Inr (Selected ch # map (Data ch) payload), \<lparr>cd_escaped = False, cd_channel = Some ch\<rparr>)"
proof -
  let ?d = "\<lparr>cd_escaped = False, cd_channel = Some ch\<rparr>"
  have "push_byte d ESCAPE = (Inr (None, None), d\<lparr>cd_escaped := True\<rparr>)"
    using assms(2) by (simp add: push_byte_def)
  moreover have "push_byte (d\<lparr>cd_escaped := True\<rparr>) (CHANNEL_BASE + ch) = (Inr (Some (Selected ch), None), ?d)"
    using assms(1) by (simp add: push_byte_selected)
  moreover have "push ?d (escape payload) = (Inr (map (Data ch) payload), ?d)"
    by (rule push_escape) simp_all
  ultimately show ?thesis by (simp add: append_escaped_eq)
qed

text \<open>
  C7. Framing round trip: whatever a decoder has selected before, as long as it is not in the
  middle of an escape, it decodes the frame that \<open>encode_channel\<close> writes for a valid channel
  to the channel selection followed by exactly the payload bytes, in order, on that channel,
  and is ready for the next frame.
\<close>

theorem push_encode_channel:
  assumes "encode_channel ch payload = Inr wire" and "\<not> cd_escaped d"
  shows "push d wire =
    (Inr (Selected ch # map (Data ch) payload), \<lparr>cd_escaped = False, cd_channel = Some ch\<rparr>)"
  using assms by (auto simp: encode_channel_def push_encode_channel_gen split: if_splits)

theorem push_encode_channel_witness:
  "push decoder_default [0xdf, 0xd1, 0xdf, 0xde, 7] =
    (Inr [Selected 1, Data 1 0xdf, Data 1 7], \<lparr>cd_escaped = False, cd_channel = Some 1\<rparr>)"
proof -
  have "encode_channel 1 [0xdf, 7] = Inr [0xdf, 0xd1, 0xdf, 0xde, 7]"
    by (simp add: encode_channel_def)
  from push_encode_channel [OF this, of decoder_default] show ?thesis
    by (simp add: decoder_default_def)
qed

text \<open>
  Fragmentation does not matter: feeding a stream to the decoder in any sequence of
  fragments gives the events (or the error) and the final state of feeding it in one call.
\<close>

theorem push_fragmented: "feed_chunks push d fragments = push d (concat fragments)"
  by (rule chan.feed_chunks_concat)

text \<open>
  Every event of every stream names one of the fourteen channels \<open>0..=13\<close>, and so does the
  selected channel of the decoder afterwards, whatever bytes the peer sends; the only error
  is \<open>InvalidData\<close>.
\<close>

theorem push_events_in_range:
  "case push decoder_default stream of (r, d') \<Rightarrow>
     channel_ok (cd_channel d') \<and>
     (case r of Inl e \<Rightarrow> e = InvalidData | Inr evs \<Rightarrow> list_all event_ok evs)"
proof (cases "push decoder_default stream")
  case (Pair r d')
  moreover have "channel_ok (cd_channel decoder_default)" by (simp add: decoder_default_def)
  ultimately show ?thesis using push_ok [OF Pair] by simp
qed

end
