(* ===== verification/Meter.thy ===== *)
theory Meter
  imports Channel Complex_Main
begin

text \<open>
  Meters: the \<open>Meter\<close> families and their wire table (\<open>Meter::wire\<close>, \<open>Meter::from_wire\<close>), the
  client's \<open>encode_meter\<close> (\<open>src/console.rs\<close>), the server's \<open>decode_meter_entries\<close>
  (\<open>src/native.rs\<close>), the sample decoder of a meter datagram and the typed frame decoder of
  \<open>src/meters.rs\<close>.
\<close>

section \<open>Meter families\<close>

datatype Meter =
    Channel byte | Aux byte | Bus byte | Main byte | Matrix byte | Dca byte | Fx byte
  | Source byte | Output byte | Monitor | Rta
  | Channel2 byte | Aux2 byte | Bus2 byte | Main2 byte | Matrix2 byte

fun wire :: "Meter \<Rightarrow> byte \<times> byte \<times> byte" where
  "wire (Channel n) = (0xa0, n, 40)"
| "wire (Aux n) = (0xa1, n, 8)"
| "wire (Bus n) = (0xa2, n, 16)"
| "wire (Main n) = (0xa3, n, 4)"
| "wire (Matrix n) = (0xa4, n, 8)"
| "wire (Dca n) = (0xa5, n, 16)"
| "wire (Fx n) = (0xa6, n, 16)"
| "wire (Source n) = (0xa7, n, 16)"
| "wire (Output n) = (0xa8, n, 11)"
| "wire Monitor = (0xa9, 0, 0)"
| "wire Rta = (0xaa, 0, 0)"
| "wire (Channel2 n) = (0xab, n, 40)"
| "wire (Aux2 n) = (0xac, n, 8)"
| "wire (Bus2 n) = (0xad, n, 16)"
| "wire (Main2 n) = (0xae, n, 4)"
| "wire (Matrix2 n) = (0xaf, n, 8)"

definition from_wire :: "byte \<Rightarrow> byte \<Rightarrow> Meter option" where
  "from_wire opcode index =
     (if opcode = 0xa0 then Some (Channel index)
      else if opcode = 0xa1 then Some (Aux index)
      else if opcode = 0xa2 then Some (Bus index)
      else if opcode = 0xa3 then Some (Main index)
      else if opcode = 0xa4 then Some (Matrix index)
      else if opcode = 0xa5 then Some (Dca index)
      else if opcode = 0xa6 then Some (Fx index)
      else if opcode = 0xa7 then Some (Source index)
      else if opcode = 0xa8 then Some (Output index)
      else if opcode = 0xa9 \<and> index = 0 then Some Monitor
      else if opcode = 0xaa \<and> index = 0 then Some Rta
      else if opcode = 0xab then Some (Channel2 index)
      else if opcode = 0xac then Some (Aux2 index)
      else if opcode = 0xad then Some (Bus2 index)
      else if opcode = 0xae then Some (Main2 index)
      else if opcode = 0xaf then Some (Matrix2 index)
      else None)"

section \<open>Subscription entries\<close>

definition encode_meter :: "byte list \<Rightarrow> Meter \<Rightarrow> byte list result" where
  "encode_meter buf meter =
     (case wire meter of (opcode, n, mx) \<Rightarrow>
        if mx = 0 then Inr (buf @ [opcode])
        else if n \<ge> 1 \<and> n \<le> mx then Inr (append_escaped (buf @ [opcode]) [n - 1])
        else Inl InvalidInput)"

fun encode_meters :: "byte list \<Rightarrow> Meter list \<Rightarrow> byte list result" where
  "encode_meters buf [] = Inr buf"
| "encode_meters buf (meter # meters) =
     and_then (encode_meter buf meter) (\<lambda>buf. encode_meters buf meters)"

definition entry_step ::
  "Meter list \<times> byte option \<Rightarrow> byte \<Rightarrow> (Meter list \<times> byte option) result" where
  "entry_step st b =
     (case st of (meters, family) \<Rightarrow>
        if 0xa0 \<le> b \<and> b \<le> 0xaf then
          (case from_wire b 0 of
             Some m \<Rightarrow> if snd (snd (wire m)) = 0 then Inr (meters @ [m], Some b)
                       else Inr (meters, Some b)
           | None \<Rightarrow> Inr (meters, Some b))
        else if b \<le> 0x7f then
          and_then (ok_or family InvalidData) (\<lambda>fam.
          and_then (ok_or (from_wire fam (b + 1)) InvalidData) (\<lambda>m.
          Inr (meters @ [m], family)))
        else Inl InvalidData)"

fun decode_entries_loop ::
  "Meter list \<times> byte option \<Rightarrow> byte list \<Rightarrow> nat \<Rightarrow> Meter list result" where
  "decode_entries_loop st [] limit = Inr (fst st)"
| "decode_entries_loop st (b # raw) limit =
     and_then (entry_step st b) (\<lambda>st.
       if length (fst st) > limit then Inl InvalidData else decode_entries_loop st raw limit)"

definition decode_meter_entries :: "byte list \<Rightarrow> nat \<Rightarrow> Meter list result" where
  "decode_meter_entries raw limit = decode_entries_loop ([], None) raw limit"

section \<open>Frames\<close>

fun meter_samples :: "byte list \<Rightarrow> i16 list" where
  "meter_samples (a # b # rest) = be_u16 a b # meter_samples rest"
| "meter_samples _ = []"

definition level_db :: "i16 \<Rightarrow> real" where
  "level_db raw = real_of_int (sint raw) / 256"

definition fx_band_gr_db :: "i16 \<Rightarrow> real" where
  "fx_band_gr_db raw = real_of_int (sint raw) * 6 / 2048"

record ChannelMeter =
  cm_input_l :: i16
  cm_input_r :: i16
  cm_output_l :: i16
  cm_output_r :: i16
  cm_gate_key :: i16
  cm_gate_gain :: i16
  cm_dyn_key :: i16
  cm_dyn_gain :: i16

record DcaMeter =
  dm_pre_fader_l :: i16
  dm_pre_fader_r :: i16
  dm_post_fader_l :: i16
  dm_post_fader_r :: i16

record FxMeter =
  fx_input_l :: i16
  fx_input_r :: i16
  fx_output_l :: i16
  fx_output_r :: i16
  fx_state :: "i16 list"

record MonitorMeter =
  mm_solo_l :: i16
  mm_solo_r :: i16
  mm_mon1_l :: i16
  mm_mon1_r :: i16
  mm_mon2_l :: i16
  mm_mon2_r :: i16

record ChannelMeterV2 =
  v2_input_l :: i16
  v2_input_r :: i16
  v2_output_l :: i16
  v2_output_r :: i16
  v2_gate_key :: i16
  v2_gate_gain :: i16
  v2_gate_led :: i16
  v2_dyn_key :: i16
  v2_dyn_gain :: i16
  v2_dyn_state :: i16
  v2_automix_gain :: i16

text \<open>
  The \<open>from_slice\<close> constructors index a slice whose length they assert; here the assertion
  failure is \<open>None\<close>.
\<close>

definition channel_from_slice :: "i16 list \<Rightarrow> ChannelMeter option" where
  "channel_from_slice words =
     (if length words \<noteq> 8 then None else Some
      \<lparr>cm_input_l = words ! 0, cm_input_r = words ! 1, cm_output_l = words ! 2,
       cm_output_r = words ! 3, cm_gate_key = words ! 4, cm_gate_gain = words ! 5,
       cm_dyn_key = words ! 6, cm_dyn_gain = words ! 7\<rparr>)"

definition dca_from_slice :: "i16 list \<Rightarrow> DcaMeter option" where
  "dca_from_slice words =
     (if length words \<noteq> 4 then None else Some
      \<lparr>dm_pre_fader_l = words ! 0, dm_pre_fader_r = words ! 1,
       dm_post_fader_l = words ! 2, dm_post_fader_r = words ! 3\<rparr>)"

definition fx_from_slice :: "i16 list \<Rightarrow> FxMeter option" where
  "fx_from_slice words =
     (if length words \<noteq> 10 then None else Some
      \<lparr>fx_input_l = words ! 0, fx_input_r = words ! 1, fx_output_l = words ! 2,
       fx_output_r = words ! 3,
       fx_state = [words ! 4, words ! 5, words ! 6, words ! 7, words ! 8, words ! 9]\<rparr>)"

definition monitor_from_slice :: "i16 list \<Rightarrow> MonitorMeter option" where
  "monitor_from_slice words =
     (if length words \<noteq> 6 then None else Some
      \<lparr>mm_solo_l = words ! 0, mm_solo_r = words ! 1, mm_mon1_l = words ! 2,
       mm_mon1_r = words ! 3, mm_mon2_l = words ! 4, mm_mon2_r = words ! 5\<rparr>)"

definition channel_v2_from_slice :: "i16 list \<Rightarrow> ChannelMeterV2 option" where
  "channel_v2_from_slice words =
     (if length words \<noteq> 11 then None else Some
      \<lparr>v2_input_l = words ! 0, v2_input_r = words ! 1, v2_output_l = words ! 2,
       v2_output_r = words ! 3, v2_gate_key = words ! 4, v2_gate_gain = words ! 5,
       v2_gate_led = words ! 6, v2_dyn_key = words ! 7, v2_dyn_gain = words ! 8,
       v2_dyn_state = words ! 9, v2_automix_gain = words ! 10\<rparr>)"

datatype MeterFrameEntry =
    EChannel ChannelMeter | EAux ChannelMeter | EBus ChannelMeter | EMain ChannelMeter
  | EMatrix ChannelMeter | EDca DcaMeter | EFx FxMeter | ESource "i16 list" | EOutput "i16 list"
  | EMonitor MonitorMeter | ERta "i16 list"
  | EChannel2 ChannelMeterV2 | EAux2 ChannelMeterV2 | EBus2 ChannelMeterV2
  | EMain2 ChannelMeterV2 | EMatrix2 ChannelMeterV2

fun meter_word_count :: "Meter \<Rightarrow> nat" where
  "meter_word_count (Channel _) = 8"
| "meter_word_count (Aux _) = 8"
| "meter_word_count (Bus _) = 8"
| "meter_word_count (Main _) = 8"
| "meter_word_count (Matrix _) = 8"
| "meter_word_count (Dca _) = 4"
| "meter_word_count (Fx _) = 10"
| "meter_word_count (Source _) = 8"
| "meter_word_count (Output _) = 8"
| "meter_word_count Monitor = 6"
| "meter_word_count Rta = 120"
| "meter_word_count (Channel2 _) = 11"
| "meter_word_count (Aux2 _) = 11"
| "meter_word_count (Bus2 _) = 11"
| "meter_word_count (Main2 _) = 11"
| "meter_word_count (Matrix2 _) = 11"

definition array8 :: "i16 list \<Rightarrow> i16 list option" where
  "array8 words = (if length words = 8 then Some words else None)"

text \<open>One arm of the \<open>match\<close> in \<open>decode_frame\<close>; \<open>None\<close> is a panic of the arm.\<close>

fun decode_entry :: "Meter \<Rightarrow> i16 list \<Rightarrow> MeterFrameEntry option" where
  "decode_entry (Channel _) words = map_option EChannel (channel_from_slice words)"
| "decode_entry (Aux _) words = map_option EAux (channel_from_slice words)"
| "decode_entry (Bus _) words = map_option EBus (channel_from_slice words)"
| "decode_entry (Main _) words = map_option EMain (channel_from_slice words)"
| "decode_entry (Matrix _) words = map_option EMatrix (channel_from_slice words)"
| "decode_entry (Dca _) words = map_option EDca (dca_from_slice words)"
| "decode_entry (Fx _) words = map_option EFx (fx_from_slice words)"
| "decode_entry (Source _) words = map_option ESource (array8 words)"
| "decode_entry (Output _) words = map_option EOutput (array8 words)"
| "decode_entry Monitor words = map_option EMonitor (monitor_from_slice words)"
| "decode_entry Rta words = Some (ERta words)"
| "decode_entry (Channel2 _) words = map_option EChannel2 (channel_v2_from_slice words)"
| "decode_entry (Aux2 _) words = map_option EAux2 (channel_v2_from_slice words)"
| "decode_entry (Bus2 _) words = map_option EBus2 (channel_v2_from_slice words)"
| "decode_entry (Main2 _) words = map_option EMain2 (channel_v2_from_slice words)"
| "decode_entry (Matrix2 _) words = map_option EMatrix2 (channel_v2_from_slice words)"

text \<open>
  The loop of \<open>decode_frame\<close> over the request with its running offset. The outer option is
  the panic of the slice expression or of an arm.
\<close>

fun decode_frame_loop ::
  "Meter list \<Rightarrow> i16 list \<Rightarrow> nat \<Rightarrow> MeterFrameEntry list \<Rightarrow> MeterFrameEntry list option" where
  "decode_frame_loop [] raw offset out = Some out"
| "decode_frame_loop (meter # request) raw offset out =
     (let n = meter_word_count meter in
      if offset + n > length raw then None
      else case decode_entry meter (take n (drop offset raw)) of
             None \<Rightarrow> None
           | Some e \<Rightarrow> decode_frame_loop request raw (offset + n) (out @ [e]))"

definition decode_frame :: "Meter list \<Rightarrow> i16 list \<Rightarrow> MeterFrameEntry list result option" where
  "decode_frame request raw =
     (let expected = sum_list (map meter_word_count request) in
      if length raw \<noteq> expected then Some (Inl (MeterFrameLength expected (length raw)))
      else map_option Inr (decode_frame_loop request raw 0 []))"

section \<open>Entries round trip\<close>

definition meter_ok :: "Meter \<Rightarrow> bool" where
  "meter_ok m = (case wire m of (_, n, mx) \<Rightarrow> mx = 0 \<or> 1 \<le> n \<and> n \<le> mx)"

definition entry_bytes :: "Meter \<Rightarrow> byte list" where
  "entry_bytes m = (case wire m of (opcode, n, mx) \<Rightarrow> if mx = 0 then [opcode] else [opcode, n - 1])"

lemma from_wire_wire: "wire m = (opcode, n, mx) \<Longrightarrow> from_wire opcode n = Some m"
  by (cases m) (auto simp: from_wire_def)

lemma wire_opcode_range: "wire m = (opcode, n, mx) \<Longrightarrow> 0xa0 \<le> opcode \<and> opcode \<le> 0xaf"
  by (cases m) auto

lemma wire_max_range: "wire m = (opcode, n, mx) \<Longrightarrow> mx \<le> 40"
  by (cases m) auto

lemma from_wire_index:
  assumes "from_wire opcode index = Some m"
  shows "fst (wire m) = opcode \<and> fst (snd (wire m)) = index"
  using assms by (simp add: from_wire_def split: if_splits) auto

lemma from_wire_zero_indexed:
  "wire m = (opcode, n, mx) \<Longrightarrow> mx \<noteq> 0 \<Longrightarrow> \<exists>m'. from_wire opcode 0 = Some m' \<and> snd (snd (wire m')) \<noteq> 0"
  by (cases m) (auto simp: from_wire_def)

lemma index_byte_small:
  assumes "1 \<le> n" and "n \<le> (mx :: byte)" and "mx \<le> 40"
  shows "n - 1 \<le> 0x7f" and "\<not> (0xa0 \<le> n - 1)" and "n - 1 \<noteq> 0xdf" and "n - 1 + 1 = n"
proof -
  have "unat (n - 1) \<le> 39"
    using assms by (simp add: word_le_nat_alt unat_sub)
  then show "n - 1 \<le> 0x7f" "\<not> (0xa0 \<le> n - 1)" "n - 1 \<noteq> 0xdf"
    by (auto simp: word_le_nat_alt)
qed simp

lemma encode_meter_iff:
  "encode_meter buf m = Inr out \<longleftrightarrow> meter_ok m \<and> out = buf @ entry_bytes m"
proof -
  obtain opcode n mx where w: "wire m = (opcode, n, mx)" by (cases "wire m") auto
  show ?thesis
    using index_byte_small(3) [OF _ _ wire_max_range [OF w]]
    by (auto simp: encode_meter_def meter_ok_def entry_bytes_def w append_escaped_eq)
qed

lemma encode_meters_iff:
  "encode_meters buf ms = Inr out \<longleftrightarrow> list_all meter_ok ms \<and> out = buf @ concat (map entry_bytes ms)"
  by (induction ms arbitrary: buf) (auto simp: and_then_iffs encode_meter_iff)

lemma encode_meters_error: "encode_meters buf ms = Inl e \<Longrightarrow> e = InvalidInput"
  by (induction ms arbitrary: buf)
    (auto simp: and_then_iffs encode_meter_def split: prod.splits if_splits)

lemma decode_entry_bytes:
  assumes "meter_ok m" and "length ms < limit"
  shows "\<exists>fam. decode_entries_loop (ms, fam0) (entry_bytes m @ rest) limit =
    decode_entries_loop (ms @ [m], fam) rest limit"
proof -
  obtain opcode n mx where w: "wire m = (opcode, n, mx)" by (cases "wire m") auto
  note range = wire_opcode_range [OF w]
  show ?thesis
  proof (cases "mx = 0")
    case True
    then have "n = 0" using w by (cases m) auto
    with from_wire_wire [OF w] have "from_wire opcode 0 = Some m" by simp
    with True assms range w show ?thesis by (auto simp: entry_bytes_def entry_step_def)
  next
    case False
    with assms(1) w have "1 \<le> n" "n \<le> mx" by (simp_all add: meter_ok_def)
    note small = index_byte_small [OF this wire_max_range [OF w]]
    from from_wire_zero_indexed [OF w False] obtain m' where
      "from_wire opcode 0 = Some m'" "snd (snd (wire m')) \<noteq> 0" by blast
    with False assms range w small from_wire_wire [OF w] show ?thesis
      by (auto simp: entry_bytes_def entry_step_def)
  qed
qed

lemma decode_entries_bytes:
  assumes "list_all meter_ok ms" and "length acc + length ms \<le> limit"
  shows "decode_entries_loop (acc, fam) (concat (map entry_bytes ms)) limit = Inr (acc @ ms)"
  using assms
proof (induction ms arbitrary: acc fam)
  case Nil
  then show ?case by simp
next
  case (Cons m ms)
  then have "meter_ok m" "length acc < limit" by simp_all
  from decode_entry_bytes [OF this] obtain fam' where
    "decode_entries_loop (acc, fam) (entry_bytes m @ concat (map entry_bytes ms)) limit
      = decode_entries_loop (acc @ [m], fam') (concat (map entry_bytes ms)) limit" by blast
  with Cons show ?case by simp
qed

lemma decode_entries_limit:
  "decode_entries_loop st raw limit = Inr ms \<Longrightarrow> length (fst st) \<le> limit \<Longrightarrow> length ms \<le> limit"
  by (induction st raw limit rule: decode_entries_loop.induct)
    (auto simp: and_then_iffs split: if_splits)

lemma entry_step_error: "entry_step st b = Inl e \<Longrightarrow> e = InvalidData"
  by (auto simp: and_then_iffs entry_step_def split: prod.splits if_splits option.splits)

lemma decode_entries_error: "decode_entries_loop st raw limit = Inl e \<Longrightarrow> e = InvalidData"
  by (induction raw arbitrary: st)
    (auto simp: and_then_iffs simp del: split_paired_Ex dest: entry_step_error split: if_splits)

lemma decode_entries_raise:
  "decode_entries_loop st raw limit = Inr ms \<Longrightarrow> limit \<le> limit' \<Longrightarrow>
     decode_entries_loop st raw limit' = Inr ms"
proof (induction raw arbitrary: st)
  case (Cons b raw)
  then obtain st' where "entry_step st b = Inr st'" "\<not> length (fst st') > limit"
    "decode_entries_loop st' raw limit = Inr ms"
    by (auto simp: and_then_eq_Inr_iff simp del: split_paired_Ex split: if_splits)
  with Cons show ?case by simp
qed simp

section \<open>Splitting frames\<close>

text \<open>The words a decoded entry was read from, and the meter family it is tagged with.\<close>

fun channel_words :: "ChannelMeter \<Rightarrow> i16 list" where
  "channel_words m = [cm_input_l m, cm_input_r m, cm_output_l m, cm_output_r m, cm_gate_key m,
     cm_gate_gain m, cm_dyn_key m, cm_dyn_gain m]"

fun v2_words :: "ChannelMeterV2 \<Rightarrow> i16 list" where
  "v2_words m = [v2_input_l m, v2_input_r m, v2_output_l m, v2_output_r m, v2_gate_key m,
     v2_gate_gain m, v2_gate_led m, v2_dyn_key m, v2_dyn_gain m, v2_dyn_state m, v2_automix_gain m]"

fun entry_words :: "MeterFrameEntry \<Rightarrow> i16 list" where
  "entry_words (EChannel m) = channel_words m"
| "entry_words (EAux m) = channel_words m"
| "entry_words (EBus m) = channel_words m"
| "entry_words (EMain m) = channel_words m"
| "entry_words (EMatrix m) = channel_words m"
| "entry_words (EDca m) = [dm_pre_fader_l m, dm_pre_fader_r m, dm_post_fader_l m, dm_post_fader_r m]"
| "entry_words (EFx m) = [fx_input_l m, fx_input_r m, fx_output_l m, fx_output_r m] @ fx_state m"
| "entry_words (ESource ws) = ws"
| "entry_words (EOutput ws) = ws"
| "entry_words (EMonitor m) = [mm_solo_l m, mm_solo_r m, mm_mon1_l m, mm_mon1_r m, mm_mon2_l m, mm_mon2_r m]"
| "entry_words (ERta ws) = ws"
| "entry_words (EChannel2 m) = v2_words m"
| "entry_words (EAux2 m) = v2_words m"
| "entry_words (EBus2 m) = v2_words m"
| "entry_words (EMain2 m) = v2_words m"
| "entry_words (EMatrix2 m) = v2_words m"

fun entry_opcode :: "MeterFrameEntry \<Rightarrow> byte" where
  "entry_opcode (EChannel _) = 0xa0"
| "entry_opcode (EAux _) = 0xa1"
| "entry_opcode (EBus _) = 0xa2"
| "entry_opcode (EMain _) = 0xa3"
| "entry_opcode (EMatrix _) = 0xa4"
| "entry_opcode (EDca _) = 0xa5"
| "entry_opcode (EFx _) = 0xa6"
| "entry_opcode (ESource _) = 0xa7"
| "entry_opcode (EOutput _) = 0xa8"
| "entry_opcode (EMonitor _) = 0xa9"
| "entry_opcode (ERta _) = 0xaa"
| "entry_opcode (EChannel2 _) = 0xab"
| "entry_opcode (EAux2 _) = 0xac"
| "entry_opcode (EBus2 _) = 0xad"
| "entry_opcode (EMain2 _) = 0xae"
| "entry_opcode (EMatrix2 _) = 0xaf"

lemma list_by_nth:
  "length xs = 4 \<Longrightarrow> [xs ! 0, xs ! 1, xs ! 2, xs ! 3] = xs"
  "length xs = 6 \<Longrightarrow> [xs ! 0, xs ! 1, xs ! 2, xs ! 3, xs ! 4, xs ! 5] = xs"
  "length xs = 8 \<Longrightarrow> [xs ! 0, xs ! 1, xs ! 2, xs ! 3, xs ! 4, xs ! 5, xs ! 6, xs ! 7] = xs"
  "length xs = 10 \<Longrightarrow>
     [xs ! 0, xs ! 1, xs ! 2, xs ! 3, xs ! 4, xs ! 5, xs ! 6, xs ! 7, xs ! 8, xs ! 9] = xs"
  "length xs = 11 \<Longrightarrow>
     [xs ! 0, xs ! 1, xs ! 2, xs ! 3, xs ! 4, xs ! 5, xs ! 6, xs ! 7, xs ! 8, xs ! 9, xs ! 10] = xs"
  by (auto simp: numeral_eq_Suc length_Suc_conv)

lemmas from_slice_defs =
  channel_from_slice_def dca_from_slice_def fx_from_slice_def monitor_from_slice_def
  channel_v2_from_slice_def array8_def

lemma decode_entry_words:
  assumes "length ws = meter_word_count m"
  shows "\<exists>e. decode_entry m ws = Some e \<and> entry_words e = ws \<and> entry_opcode e = fst (wire m)"
  using assms list_by_nth [of ws] by (cases m) (simp_all add: from_slice_defs)

lemma decode_frame_loop_words:
  assumes "offset + sum_list (map meter_word_count request) = length raw"
  shows "\<exists>es. decode_frame_loop request raw offset out = Some (out @ es) \<and>
    concat (map entry_words es) = drop offset raw \<and>
    map entry_opcode es = map (fst \<circ> wire) request"
  using assms
proof (induction request arbitrary: offset out)
  case Nil
  then show ?case by simp
next
  case (Cons m request)
  let ?n = "meter_word_count m"
  have "length (take ?n (drop offset raw)) = ?n" using Cons.prems by simp
  then obtain e where e: "decode_entry m (take ?n (drop offset raw)) = Some e"
    "entry_words e = take ?n (drop offset raw)" "entry_opcode e = fst (wire m)"
    using decode_entry_words by blast
  from Cons.IH [of "offset + ?n" "out @ [e]"] Cons.prems obtain es where
    es: "decode_frame_loop request raw (offset + ?n) (out @ [e]) = Some (out @ e # es)"
    "concat (map entry_words es) = drop (offset + ?n) raw"
    "map entry_opcode es = map (fst \<circ> wire) request" by auto
  have "take ?n (drop offset raw) @ drop (offset + ?n) raw = drop offset raw"
    by (metis add.commute append_take_drop_id drop_drop)
  with e es Cons.prems show ?case by (intro exI [of _ "e # es"]) (simp add: Let_def)
qed

lemma meter_samples_be: "meter_samples (concat (map u16_be ws)) = ws"
  by (induction ws) (simp_all add: u16_be_def)

lemma length_meter_samples: "length (meter_samples bytes) = length bytes div 2"
  by (induction bytes rule: meter_samples.induct) auto

section \<open>Properties\<close>

text \<open>
  Subscription entries round trip: if the client encodes a list of meters at all, then the
  server's decoder, given room for that many entries, reads exactly the same meters back in
  order; and the client refuses exactly the lists that contain a meter whose 1-based index is
  outside its family.
\<close>
theorem meter_entries_roundtrip:
  "(case encode_meters [] ms of
      Inr buf \<Rightarrow> list_all meter_ok ms \<and>
        (\<forall>limit. decode_meter_entries buf limit =
           (if length ms \<le> limit then Inr ms else Inl InvalidData))
    | Inl e \<Rightarrow> e = InvalidInput \<and> \<not> list_all meter_ok ms)"
proof (cases "encode_meters [] ms")
  case (Inl e)
  then have "\<not> list_all meter_ok ms" using encode_meters_iff [of "[]" ms] by auto
  with Inl encode_meters_error [OF Inl] show ?thesis by simp
next
  case (Inr buf)
  then have ok: "list_all meter_ok ms" and buf: "buf = concat (map entry_bytes ms)"
    by (simp_all add: encode_meters_iff)
  have "decode_meter_entries buf limit =
      (if length ms \<le> limit then Inr ms else Inl InvalidData)" for limit
  proof (cases "length ms \<le> limit")
    case True
    with decode_entries_bytes [OF ok, of "[]" limit] show ?thesis
      by (simp add: decode_meter_entries_def buf)
  next
    case False
    show ?thesis
    proof (cases "decode_meter_entries buf limit")
      case (Inl e)
      with False decode_entries_error show ?thesis by (auto simp: decode_meter_entries_def)
    next
      case (Inr ms')
      with decode_entries_limit have "length ms' \<le> limit" by (force simp: decode_meter_entries_def)
      from decode_entries_raise [OF Inr [unfolded decode_meter_entries_def], of "length ms"]
        decode_entries_bytes [OF ok, of "[]" "length ms"] False this
      show ?thesis by (simp add: buf)
    qed
  qed
  with Inr ok show ?thesis by simp
qed

text \<open>
  \<open>decode_frame\<close> never panics and never misaligns: a frame of any other length than the
  request's is the typed length error with both counts; a frame of that length is split into
  one entry per requested meter, in request order and tagged with its family, whose words
  concatenate to the frame.
\<close>
theorem decode_frame_total:
  "\<exists>r. decode_frame request raw = Some r \<and>
     (let expected = sum_list (map meter_word_count request) in
      if length raw \<noteq> expected then r = Inl (MeterFrameLength expected (length raw))
      else \<exists>es. r = Inr es \<and> concat (map entry_words es) = raw \<and>
             map entry_opcode es = map (fst \<circ> wire) request)"
proof (cases "length raw = sum_list (map meter_word_count request)")
  case True
  with decode_frame_loop_words [of 0 request raw "[]"] obtain es where
    "decode_frame_loop request raw 0 [] = Some es" "concat (map entry_words es) = raw"
    "map entry_opcode es = map (fst \<circ> wire) request" by auto
  with True show ?thesis by (auto simp: decode_frame_def Let_def)
next
  case False
  then show ?thesis by (simp add: decode_frame_def Let_def)
qed

end
