(* ===== verification/Rust_Str.thy ===== *)
theory Rust_Str
  imports Wing_Prelude "HOL-Library.Char_ord" "HOL-Library.List_Lexorder"
begin

text \<open>
  Rust strings. A \<open>String\<close>/\<open>&str\<close> is the list of its UTF-8 bytes, each an Isabelle
  \<^typ>\<open>char\<close> (an eight-bit value), so \<open>len()\<close> is \<^const>\<open>length\<close> and a literal is
  written \<open>''abc''\<close>. \<open>String::from_utf8\<close> is the validation of the standard library
  (\<open>utf8_valid\<close>) and \<open>from_utf8_lossy\<close> its replacement of maximal invalid runs by U+FFFD. Every
  separator the source splits on is ASCII, and an ASCII byte never occurs inside a multi-byte
  sequence, so splitting and prefix tests on bytes agree with those on \<open>char\<close>s.
\<close>

section \<open>Bytes and characters\<close>

definition byte_of_char :: "char \<Rightarrow> byte" where
  "byte_of_char c = word_of_nat (of_char c)"

definition char_of_byte :: "byte \<Rightarrow> char" where
  "char_of_byte b = char_of (unat b)"

definition as_bytes :: "string \<Rightarrow> byte list" where
  "as_bytes s = map byte_of_char s"

definition str_of_bytes :: "byte list \<Rightarrow> string" where
  "str_of_bytes bs = map char_of_byte bs"

lemma char_of_byte_of_char [simp]: "char_of_byte (byte_of_char c) = c"
  by (simp add: char_of_byte_def byte_of_char_def unat_of_nat)

lemma byte_of_char_of_byte [simp]: "byte_of_char (char_of_byte b) = b"
  by (simp add: char_of_byte_def byte_of_char_def of_char_of)

lemma str_of_as_bytes [simp]: "str_of_bytes (as_bytes s) = s"
  by (simp add: str_of_bytes_def as_bytes_def comp_def)

lemma as_bytes_str_of [simp]: "as_bytes (str_of_bytes bs) = bs"
  by (simp add: str_of_bytes_def as_bytes_def comp_def)

lemma length_as_bytes [simp]: "length (as_bytes s) = length s"
  by (simp add: as_bytes_def)

lemma length_str_of_bytes [simp]: "length (str_of_bytes bs) = length bs"
  by (simp add: str_of_bytes_def)

lemma as_bytes_append [simp]: "as_bytes (s @ t) = as_bytes s @ as_bytes t"
  by (simp add: as_bytes_def)

lemma as_bytes_Nil [simp]: "as_bytes [] = []" "str_of_bytes [] = []"
  by (simp_all add: as_bytes_def str_of_bytes_def)

lemma as_bytes_Cons [simp]: "as_bytes (c # s) = byte_of_char c # as_bytes s"
  by (simp add: as_bytes_def)

lemma str_of_bytes_Cons [simp]: "str_of_bytes (b # bs) = char_of_byte b # str_of_bytes bs"
  by (simp add: str_of_bytes_def)

lemma as_bytes_eq_iff [simp]: "as_bytes s = as_bytes t \<longleftrightarrow> s = t"
  by (metis str_of_as_bytes)

lemma str_of_bytes_eq_iff [simp]: "str_of_bytes s = str_of_bytes t \<longleftrightarrow> s = t"
  by (metis as_bytes_str_of)

section \<open>UTF-8 validation\<close>

definition utf8_cont :: "byte \<Rightarrow> bool" where
  "utf8_cont b \<longleftrightarrow> 0x80 \<le> b \<and> b \<le> 0xbf"

text \<open>\<open>utf8_char_width\<close> of the standard library: 0 for a byte that starts no sequence.\<close>

definition utf8_width :: "byte \<Rightarrow> nat" where
  "utf8_width b =
     (if b < 0x80 then 1
      else if 0xc2 \<le> b \<and> b \<le> 0xdf then 2
      else if 0xe0 \<le> b \<and> b \<le> 0xef then 3
      else if 0xf0 \<le> b \<and> b \<le> 0xf4 then 4
      else 0)"

definition utf8_second3 :: "byte \<Rightarrow> byte \<Rightarrow> bool" where
  "utf8_second3 a b \<longleftrightarrow>
     (if a = 0xe0 then 0xa0 \<le> b \<and> b \<le> 0xbf
      else if a = 0xed then 0x80 \<le> b \<and> b \<le> 0x9f
      else utf8_cont b)"

definition utf8_second4 :: "byte \<Rightarrow> byte \<Rightarrow> bool" where
  "utf8_second4 a b \<longleftrightarrow>
     (if a = 0xf0 then 0x90 \<le> b \<and> b \<le> 0xbf
      else if a = 0xf4 then 0x80 \<le> b \<and> b \<le> 0x8f
      else utf8_cont b)"

fun utf8_valid :: "byte list \<Rightarrow> bool" where
  "utf8_valid [] = True"
| "utf8_valid (a # r) =
     (if utf8_width a = 1 then utf8_valid r
      else if utf8_width a = 2 then
        (case r of b # r2 \<Rightarrow> utf8_cont b \<and> utf8_valid r2 | _ \<Rightarrow> False)
      else if utf8_width a = 3 then
        (case r of b # c # r3 \<Rightarrow> utf8_second3 a b \<and> utf8_cont c \<and> utf8_valid r3 | _ \<Rightarrow> False)
      else if utf8_width a = 4 then
        (case r of b # c # d # r4 \<Rightarrow>
             utf8_second4 a b \<and> utf8_cont c \<and> utf8_cont d \<and> utf8_valid r4
         | _ \<Rightarrow> False)
      else False)"

definition from_utf8 :: "byte list \<Rightarrow> string option" where
  "from_utf8 bs = (if utf8_valid bs then Some (str_of_bytes bs) else None)"

text \<open>The invariant of every Rust string: its bytes are valid UTF-8.\<close>

definition is_str :: "string \<Rightarrow> bool" where
  "is_str s \<longleftrightarrow> utf8_valid (as_bytes s)"

text \<open>
  \<open>from_utf8_lossy\<close>: an invalid lead byte, together with the continuation bytes that were
  accepted after it, becomes one U+FFFD.
\<close>

abbreviation utf8_replacement :: "byte list" where
  "utf8_replacement \<equiv> [0xef, 0xbf, 0xbd]"

fun utf8_lossy :: "byte list \<Rightarrow> byte list" where
  "utf8_lossy [] = []"
| "utf8_lossy (a # r) =
     (if utf8_width a = 1 then a # utf8_lossy r
      else if utf8_width a = 2 then
        (case r of
           b # r2 \<Rightarrow> if utf8_cont b then a # b # utf8_lossy r2 else utf8_replacement @ utf8_lossy r
         | [] \<Rightarrow> utf8_replacement)
      else if utf8_width a = 3 then
        (case r of
           b # r2 \<Rightarrow>
             if \<not> utf8_second3 a b then utf8_replacement @ utf8_lossy r
             else (case r2 of
                 c # r3 \<Rightarrow> if utf8_cont c then a # b # c # utf8_lossy r3
                           else utf8_replacement @ utf8_lossy r2
               | [] \<Rightarrow> utf8_replacement)
         | [] \<Rightarrow> utf8_replacement)
      else if utf8_width a = 4 then
        (case r of
           b # r2 \<Rightarrow>
             if \<not> utf8_second4 a b then utf8_replacement @ utf8_lossy r
             else (case r2 of
                 c # r3 \<Rightarrow>
                   if \<not> utf8_cont c then utf8_replacement @ utf8_lossy r2
                   else (case r3 of
                       d # r4 \<Rightarrow> if utf8_cont d then a # b # c # d # utf8_lossy r4
                                 else utf8_replacement @ utf8_lossy r3
                     | [] \<Rightarrow> utf8_replacement)
               | [] \<Rightarrow> utf8_replacement)
         | [] \<Rightarrow> utf8_replacement)
      else utf8_replacement @ utf8_lossy r)"

definition from_utf8_lossy :: "byte list \<Rightarrow> string" where
  "from_utf8_lossy bs = str_of_bytes (utf8_lossy bs)"

declare utf8_valid.simps(2) [simp del] utf8_lossy.simps(2) [simp del]

lemma utf8_valid_width:
  "utf8_width a = 0 \<Longrightarrow> \<not> utf8_valid (a # r)"
  "utf8_width a = 1 \<Longrightarrow> utf8_valid (a # r) \<longleftrightarrow> utf8_valid r"
  "utf8_width a = 2 \<Longrightarrow> \<not> utf8_valid [a]"
  "utf8_width a = 2 \<Longrightarrow> utf8_valid (a # b # r) \<longleftrightarrow> utf8_cont b \<and> utf8_valid r"
  "utf8_width a = 3 \<Longrightarrow> \<not> utf8_valid [a]"
  "utf8_width a = 3 \<Longrightarrow> \<not> utf8_valid [a, b]"
  "utf8_width a = 3 \<Longrightarrow>
     utf8_valid (a # b # c # r) \<longleftrightarrow> utf8_second3 a b \<and> utf8_cont c \<and> utf8_valid r"
  "utf8_width a = 4 \<Longrightarrow> \<not> utf8_valid [a]"
  "utf8_width a = 4 \<Longrightarrow> \<not> utf8_valid [a, b]"
  "utf8_width a = 4 \<Longrightarrow> \<not> utf8_valid [a, b, c]"
  "utf8_width a = 4 \<Longrightarrow>
     utf8_valid (a # b # c # d # r) \<longleftrightarrow>
       utf8_second4 a b \<and> utf8_cont c \<and> utf8_cont d \<and> utf8_valid r"
  by (simp_all add: utf8_valid.simps(2))

lemma utf8_width_cases:
  obtains "utf8_width a = 0" | "utf8_width a = 1" | "utf8_width a = 2"
    | "utf8_width a = 3" | "utf8_width a = 4"
proof -
  have "utf8_width a \<in> {0, 1, 2, 3, 4}" by (simp add: utf8_width_def)
  then show thesis using that by auto
qed

lemma utf8_valid_ConsE:
  assumes "utf8_valid (a # r)"
  obtains "utf8_width a = 1" "utf8_valid r"
  | b r2 where "utf8_width a = 2" "r = b # r2" "utf8_cont b" "utf8_valid r2"
  | b c r3 where "utf8_width a = 3" "r = b # c # r3" "utf8_second3 a b" "utf8_cont c" "utf8_valid r3"
  | b c d r4 where "utf8_width a = 4" "r = b # c # d # r4"
      "utf8_second4 a b" "utf8_cont c" "utf8_cont d" "utf8_valid r4"
  using assms by (auto simp: utf8_valid.simps(2) split: if_splits list.splits)

lemma utf8_valid_append: "utf8_valid xs \<Longrightarrow> utf8_valid (xs @ ys) \<longleftrightarrow> utf8_valid ys"
proof (induction xs rule: length_induct)
  case (1 xs)
  show ?case
  proof (cases xs)
    case Nil
    then show ?thesis by simp
  next
    case (Cons a r)
    with "1.prems" have "utf8_valid (a # r)" by simp
    then show ?thesis
      by (cases rule: utf8_valid_ConsE) (use Cons "1.IH" in \<open>simp_all add: utf8_valid_width\<close>)
  qed
qed

lemma utf8_lossy_valid: "utf8_valid bs \<Longrightarrow> utf8_lossy bs = bs"
proof (induction bs rule: length_induct)
  case (1 bs)
  show ?case
  proof (cases bs)
    case Nil
    then show ?thesis by simp
  next
    case (Cons a r)
    with "1.prems" have "utf8_valid (a # r)" by simp
    then show ?thesis
      by (cases rule: utf8_valid_ConsE) (use Cons "1.IH" in \<open>simp_all add: utf8_lossy.simps(2)\<close>)
  qed
qed

lemma utf8_valid_replacement [simp]: "utf8_valid (0xef # 0xbf # 0xbd # bs) \<longleftrightarrow> utf8_valid bs"
  using utf8_valid_width(7) [of "0xef" "0xbf" "0xbd" bs]
  by (simp add: utf8_width_def utf8_second3_def utf8_cont_def)

lemma utf8_valid_replacement_Nil [simp]: "utf8_valid utf8_replacement"
  using utf8_valid_replacement [of "[]"] by simp

lemma utf8_valid_lossy: "utf8_valid (utf8_lossy bs)"
proof (induction bs rule: length_induct)
  case (1 bs)
  then have IH: "\<And>ys. length ys < length bs \<Longrightarrow> utf8_valid (utf8_lossy ys)" by blast
  show ?case
  proof (cases bs)
    case Nil
    then show ?thesis by simp
  next
    case (Cons a r)
    show ?thesis
      by (cases a rule: utf8_width_cases)
        (use IH Cons in \<open>simp_all add: utf8_lossy.simps(2) [of a r] utf8_valid_width split: list.splits\<close>)
  qed
qed

lemma from_utf8_as_bytes [simp]: "is_str s \<Longrightarrow> from_utf8 (as_bytes s) = Some s"
  by (simp add: from_utf8_def is_str_def)

lemma from_utf8_SomeD: "from_utf8 bs = Some s \<Longrightarrow> is_str s \<and> as_bytes s = bs"
  by (auto simp: from_utf8_def is_str_def split: if_splits)

lemma from_utf8_lossy_as_bytes [simp]: "is_str s \<Longrightarrow> from_utf8_lossy (as_bytes s) = s"
  by (simp add: from_utf8_lossy_def is_str_def utf8_lossy_valid)

lemma is_str_from_utf8_lossy: "is_str (from_utf8_lossy bs)"
  by (simp add: from_utf8_lossy_def is_str_def utf8_valid_lossy)

lemma is_str_Nil [simp]: "is_str []"
  by (simp add: is_str_def)

lemma is_str_append: "is_str s \<Longrightarrow> is_str (s @ t) \<longleftrightarrow> is_str t"
  by (simp add: is_str_def utf8_valid_append)

lemma utf8_valid_ascii: "list_all (\<lambda>b. b < 0x80) bs \<Longrightarrow> utf8_valid bs"
  by (induction bs) (auto simp: utf8_width_def utf8_valid.simps)

lemma ascii_is_str: "list_all (\<lambda>b. b < 0x80) (as_bytes s) \<Longrightarrow> is_str s"
  by (simp add: is_str_def utf8_valid_ascii)

lemma from_utf8_lossy_ascii: "list_all (\<lambda>b. b < 0x80) bs \<Longrightarrow> from_utf8_lossy bs = str_of_bytes bs"
  by (simp add: from_utf8_lossy_def utf8_lossy_valid utf8_valid_ascii)

end
