(* ===== verification/NativeValue.thy ===== *)
theory NativeValue
  imports Rust_Str
begin

text \<open>
  Typed Native values and their wire tokens (\<open>NativeValue\<close> and \<open>encode_value\<close> of
  \<open>src/native.rs\<close>), shared by the client's \<open>set_*\<close> messages and the server's responses.
\<close>

datatype NativeValue = Integer i32 | Float f32 | RawFloat f32 | String string

definition encode_value :: "byte list \<Rightarrow> NativeValue \<Rightarrow> byte list result" where
  "encode_value payload value =
     (case value of
        Integer v \<Rightarrow>
          if 0 \<le> sint v \<and> sint v \<le> 0x3f then Inr (payload @ [ucast v])
          else if - 32768 \<le> sint v \<and> sint v \<le> 32767 then
            Inr (payload @ [0xd3] @ u16_be (ucast v))
          else Inr (payload @ [0xd4] @ u32_be v)
      | Float v \<Rightarrow> Inr (payload @ [0xd5] @ u32_be v)
      | RawFloat v \<Rightarrow> Inr (payload @ [0xd6] @ u32_be v)
      | String s \<Rightarrow>
          if s = [] then Inr (payload @ [0xd0])
          else if length s \<le> 64 then Inr (payload @ [0x7f + word_of_nat (length s)] @ as_bytes s)
          else if length s \<le> 256 then
            Inr (payload @ [0xd1, word_of_nat (length s - 1)] @ as_bytes s)
          else Inl InvalidInput)"

section \<open>Token shapes\<close>

text \<open>The token that \<open>encode_value\<close> appends, and when it appends one.\<close>

definition value_token :: "NativeValue \<Rightarrow> byte list" where
  "value_token v = (case encode_value [] v of Inr bs \<Rightarrow> bs | Inl _ \<Rightarrow> [])"

definition encodable :: "NativeValue \<Rightarrow> bool" where
  "encodable v \<longleftrightarrow> (case v of String s \<Rightarrow> length s \<le> 256 | _ \<Rightarrow> True)"

definition value_ok :: "NativeValue \<Rightarrow> bool" where
  "value_ok v \<longleftrightarrow> (case v of String s \<Rightarrow> is_str s \<and> length s \<le> 256 | _ \<Rightarrow> True)"

lemma value_ok_encodable: "value_ok v \<Longrightarrow> encodable v"
  by (cases v) (auto simp: value_ok_def encodable_def)

lemma encode_value_eq:
  "encode_value payload v =
     (if encodable v then Inr (payload @ value_token v) else Inl InvalidInput)"
  by (cases v) (auto simp: encode_value_def encodable_def value_token_def)

lemma ucast_of_int: "LENGTH('b) \<le> LENGTH('a) \<Longrightarrow> (ucast (word_of_int k :: 'a::len word) :: 'b::len word) = word_of_int k"
  by (rule bit_word_eqI) (simp add: bit_simps)

lemma i16_token:
  assumes "- 32768 \<le> sint (v :: i32)" and "sint v \<le> 32767"
  shows "(scast (ucast v :: i16) :: i32) = v"
proof -
  obtain k where k: "v = word_of_int k" "sint v = k" using that [of "sint v"] by simp
  then have "sint (word_of_int k :: i16) = k"
    using assms by (simp add: signed_of_int signed_take_bit_int_eq_self)
  then have "(scast (word_of_int k :: i16) :: i32) = word_of_int k" by (metis of_int_sint)
  then show ?thesis by (simp add: ucast_of_int k(1))
qed

lemma small_int_token:
  assumes "0 \<le> sint (v :: i32)" and "sint v \<le> 0x3f"
  shows "(ucast v :: byte) \<le> 0x3f" and "ucast (ucast v :: byte) = v"
proof -
  obtain k where k: "v = word_of_int k" "sint v = k" using that [of "sint v"] by simp
  have u: "uint (word_of_int k :: byte) = k"
    using assms k by (simp add: unsigned_of_int take_bit_int_eq_self)
  then show "(ucast v :: byte) \<le> 0x3f" using assms k by (simp add: ucast_of_int word_le_def)
  have "(ucast (word_of_int k :: byte) :: i32) = word_of_int k"
    by (metis u of_int_uint)
  then show "ucast (ucast v :: byte) = v" by (simp add: ucast_of_int k(1))
qed

lemma short_string_opcode:
  assumes "0 < n" and "n \<le> 64"
  shows "unat (0x7f + word_of_nat n :: byte) = 127 + n"
  using assms by (simp add: unat_word_ariths unat_of_nat_u8)

lemma short_string_index:
  assumes "0 < n" and "n \<le> 64"
  shows "unat (0x7f + word_of_nat n - 0x80 :: byte) + 1 = n"
proof -
  have "(0x7f + word_of_nat n - 0x80 :: byte) = word_of_nat (n - 1)" using assms(1) by simp
  moreover have "unat (word_of_nat (n - 1) :: byte) = n - 1"
    by (rule unat_of_nat_u8) (use assms in linarith)
  ultimately show ?thesis using assms(1) by simp
qed

lemma value_token_eq:
  "value_token (Integer v) =
     (if 0 \<le> sint v \<and> sint v \<le> 0x3f then [ucast v]
      else if - 32768 \<le> sint v \<and> sint v \<le> 32767 then 0xd3 # u16_be (ucast v)
      else 0xd4 # u32_be v)"
  "value_token (Float v) = 0xd5 # u32_be v"
  "value_token (RawFloat v) = 0xd6 # u32_be v"
  "value_token (String s) =
     (if s = [] then [0xd0]
      else if length s \<le> 64 then (0x7f + word_of_nat (length s)) # as_bytes s
      else if length s \<le> 256 then [0xd1, word_of_nat (length s - 1)] @ as_bytes s
      else [])"
  by (simp_all add: value_token_def encode_value_def)

lemma value_token_length: "value_ok v \<Longrightarrow> 0 < length (value_token v) \<and> length (value_token v) \<le> 258"
  by (cases v) (auto simp: value_token_eq value_ok_def)

lemma short_opcode_range:
  assumes "0 < n" and "n \<le> 64"
  shows "\<not> (0x7f + word_of_nat n :: byte) \<le> 0x7f" "(0x7f + word_of_nat n :: byte) \<le> 0xbf"
    "\<not> (0x7f + word_of_nat n :: byte) \<le> 0x3f" "(0x7f + word_of_nat n :: byte) \<noteq> 0xd7"
    "unat (0x7f + word_of_nat n - 0x7f :: byte) = n"
  using short_string_opcode [OF assms] assms
  by (auto simp: word_le_nat_alt unat_of_nat_u8 add_diff_cancel_left' dest!: arg_cong [where f = unat])

lemma long_string_len:
  assumes "64 < length s" and "length s \<le> 256"
  shows "unat (word_of_nat (length s - 1) :: byte) = length s - 1"
    and "unat (word_of_nat (length s) - 1 :: byte) = length s - 1"
proof -
  show 1: "unat (word_of_nat (length s - 1) :: byte) = length s - 1"
    by (rule unat_of_nat_u8) (use assms in linarith)
  have "(word_of_nat (length s - 1) :: byte) = word_of_nat (length s) - 1" using assms by simp
  with 1 show "unat (word_of_nat (length s) - 1 :: byte) = length s - 1" by metis
qed

lemma small_int_opcode:
  assumes "0 \<le> sint (v :: i32)" and "sint v \<le> 0x3f"
  shows "(ucast v :: byte) \<le> 0x7f" and "(ucast v :: byte) \<noteq> 0xd7"
  using order_trans [OF small_int_token(1) [OF assms], of "0x7f"] by auto

end
