(* ===== verification/Request.thy ===== *)
theory Request
  imports Channel Meter NativeValue
begin

text \<open>
  The server side of the Native protocol (\<open>src/native.rs\<close>): \<open>NativeRequestDecoder\<close>, the
  incremental, bounded decoder of client requests. Every method that takes \<open>&mut self\<close>
  returns its result together with the decoder it leaves behind, on the error paths too.
\<close>

section \<open>Data\<close>

record NativeLimits =
  max_buffered_bytes :: nat
  max_string_bytes :: nat
  max_path_elements :: nat
  max_path_bytes :: nat
  max_definition_bytes :: nat
  max_batch_requests :: nat
  max_meter_entries :: nat

definition default_limits :: NativeLimits where
  "default_limits = \<lparr>max_buffered_bytes = 64 * 1024, max_string_bytes = 256,
     max_path_elements = 256, max_path_bytes = 4096, max_definition_bytes = 1024 * 1024,
     max_batch_requests = 4096, max_meter_entries = 512\<rparr>"

datatype PathElement = Name string | Index u32

datatype NativeRequest =
    KeepAlive byte
  | Get i32
  | Definition i32
  | Set i32 NativeValue
  | Toggle i32
  | Step i32 byte
  | BulkData "PathElement list"
  | BulkDefinition "PathElement list"
  | MeterPort u16
  | MeterSubscribe u16 u32 "Meter list"
  | MeterRenew u32
  | Unknown byte byte

record NativeRequestDecoder =
  rq_channels :: ChannelDecoder
  rq_limits :: NativeLimits
  rq_audio :: "byte list"
  rq_meter :: "byte list"
  rq_selected_id :: "i32 option"
  rq_path :: "PathElement list"
  rq_path_bytes :: nat
  rq_meter_port :: "u16 option"

definition new_decoder :: "NativeLimits \<Rightarrow> NativeRequestDecoder" where
  "new_decoder limits = \<lparr>rq_channels = decoder_default, rq_limits = limits, rq_audio = [],
     rq_meter = [], rq_selected_id = None, rq_path = [], rq_path_bytes = 0,
     rq_meter_port = None\<rparr>"

definition default_decoder :: NativeRequestDecoder where
  "default_decoder = new_decoder default_limits"

definition reset_decoder :: "NativeRequestDecoder \<Rightarrow> NativeRequestDecoder" where
  "reset_decoder d = new_decoder (rq_limits d)"

definition finish_decoder :: "NativeRequestDecoder \<Rightarrow> unit result" where
  "finish_decoder d =
     and_then (finish (rq_channels d)) (\<lambda>_.
       if rq_audio d = [] \<and> rq_meter d = [] then Inr () else Inl InvalidData)"

text \<open>\<open>v.get(a..b)\<close> and \<open>v.drain(..n)\<close>.\<close>

definition get_range :: "'a list \<Rightarrow> nat \<Rightarrow> nat \<Rightarrow> 'a list option" where
  "get_range xs a b = (if b \<le> length xs then Some (take (b - a) (drop a xs)) else None)"

definition get_at :: "'a list \<Rightarrow> nat \<Rightarrow> 'a option" where
  "get_at xs i = (if i < length xs then Some (xs ! i) else None)"

definition drain_audio :: "nat \<Rightarrow> NativeRequestDecoder \<Rightarrow> NativeRequestDecoder" where
  "drain_audio n d = d\<lparr>rq_audio := drop n (rq_audio d)\<rparr>"

definition drain_meter :: "nat \<Rightarrow> NativeRequestDecoder \<Rightarrow> NativeRequestDecoder" where
  "drain_meter n d = d\<lparr>rq_meter := drop n (rq_meter d)\<rparr>"

section \<open>Audio engine tokens\<close>

definition check_buffer_limit :: "NativeRequestDecoder \<Rightarrow> unit result" where
  "check_buffer_limit d =
     (if saturating_add (length (rq_audio d)) (length (rq_meter d)) > max_buffered_bytes (rq_limits d)
      then Inl InvalidData else Inr ())"

definition check_path_room :: "NativeRequestDecoder \<Rightarrow> nat \<Rightarrow> unit result" where
  "check_path_room d name_bytes =
     (let within_elements = length (rq_path d) < max_path_elements (rq_limits d);
          within_bytes = (case checked_add (rq_path_bytes d) name_bytes of
                            None \<Rightarrow> False
                          | Some bytes \<Rightarrow> bytes \<le> max_path_bytes (rq_limits d))
      in if within_elements \<and> within_bytes then Inr () else Inl InvalidData)"

definition push_path_index ::
  "NativeRequestDecoder \<Rightarrow> u32 \<Rightarrow> unit result \<times> NativeRequestDecoder" where
  "push_path_index d index =
     (case check_path_room d 0 of
        Inl e \<Rightarrow> (Inl e, d)
      | Inr _ \<Rightarrow> (Inr (), d\<lparr>rq_path := rq_path d @ [Index index]\<rparr>))"

definition set_value ::
  "NativeRequestDecoder \<Rightarrow> nat \<Rightarrow> NativeValue \<Rightarrow> NativeRequest result \<times> NativeRequestDecoder" where
  "set_value d used value =
     (case rq_selected_id d of
        None \<Rightarrow> (Inl InvalidData, d)
      | Some i \<Rightarrow> (Inr (Set i value), drain_audio used d))"

definition parse_string_token ::
  "NativeRequestDecoder \<Rightarrow> nat \<Rightarrow> nat \<Rightarrow> NativeRequest result \<times> NativeRequestDecoder" where
  "parse_string_token d len header =
     (if len > max_string_bytes (rq_limits d) then (Inl InvalidData, d)
      else case from_utf8 (take len (drop header (rq_audio d))) of
             None \<Rightarrow> (Inl InvalidData, d)
           | Some value \<Rightarrow> set_value d (header + len) (String value))"

text \<open>
  One pass through the body of \<open>parse_audio\<close>: \<open>Again\<close> where the body ends in
  \<open>return self.parse_audio()\<close>, \<open>Done\<close> where it returns or fails.
\<close>

datatype outcome = Again | Done "NativeRequest option result"

definition done_req ::
  "NativeRequest result \<times> NativeRequestDecoder \<Rightarrow> outcome \<times> NativeRequestDecoder" where
  "done_req rd = (case rd of
      (Inl e, d) \<Rightarrow> (Done (Inl e), d)
    | (Inr r, d) \<Rightarrow> (Done (Inr (Some r)), d))"

definition again_after ::
  "nat \<Rightarrow> unit result \<times> NativeRequestDecoder \<Rightarrow> outcome \<times> NativeRequestDecoder" where
  "again_after n rd = (case rd of
      (Inl e, d) \<Rightarrow> (Done (Inl e), d)
    | (Inr _, d) \<Rightarrow> (Again, drain_audio n d))"

definition parse_name ::
  "NativeRequestDecoder \<Rightarrow> nat \<Rightarrow> unit result \<times> NativeRequestDecoder" where
  "parse_name d len =
     (case check_path_room d len of
        Inl e \<Rightarrow> (Inl e, d)
      | Inr _ \<Rightarrow>
          (case from_utf8 (take len (drop 1 (rq_audio d))) of
             None \<Rightarrow> (Inl InvalidData, d)
           | Some value \<Rightarrow>
               (Inr (), d\<lparr>rq_path_bytes := rq_path_bytes d + len,
                          rq_path := rq_path d @ [Name value]\<rparr>)))"

definition pop_path :: "NativeRequestDecoder \<Rightarrow> NativeRequestDecoder" where
  "pop_path d =
     (if rq_path d = [] then d
      else case last (rq_path d) of
             Name name \<Rightarrow> d\<lparr>rq_path := butlast (rq_path d),
                             rq_path_bytes := rq_path_bytes d - length name\<rparr>
           | Index _ \<Rightarrow> d\<lparr>rq_path := butlast (rq_path d)\<rparr>)"

definition audio_step :: "NativeRequestDecoder \<Rightarrow> outcome \<times> NativeRequestDecoder" where
  "audio_step d =
    (let audio = rq_audio d in
     if audio = [] then (Done (Inr None), d)
     else let opcode = audio ! 0 in
     if opcode = 0xd7 then
       (case get_range audio 1 5 of
          None \<Rightarrow> (Done (Inr None), d)
        | Some bytes \<Rightarrow>
            (Again, drain_audio 5 (d\<lparr>rq_selected_id := Some (u32_from_be bytes)\<rparr>)))
     else if opcode \<le> 0x3f then done_req (set_value d 1 (Integer (ucast opcode)))
     else if opcode \<le> 0x7f then again_after 1 (push_path_index d (ucast (opcode - 0x3f)))
     else if opcode \<le> 0xbf then
       (let len = unat (opcode - 0x7f) in
        if length audio < len + 1 then (Done (Inr None), d)
        else done_req (parse_string_token d len 1))
     else if opcode \<le> 0xcf then
       (let len = unat (opcode - 0xbf) in
        if length audio < len + 1 then (Done (Inr None), d)
        else again_after (len + 1) (parse_name d len))
     else if opcode = 0xd0 then done_req (set_value d 1 (String []))
     else if opcode = 0xd1 then
       (case get_at audio 1 of
          None \<Rightarrow> (Done (Inr None), d)
        | Some encoded_len \<Rightarrow>
            (let len = unat encoded_len + 1 in
             if length audio < len + 2 then (Done (Inr None), d)
             else done_req (parse_string_token d len 2)))
     else if opcode = 0xd2 then
       (case get_range audio 1 3 of
          None \<Rightarrow> (Done (Inr None), d)
        | Some bytes \<Rightarrow> again_after 3 (push_path_index d (ucast (u16_from_be bytes) + 1)))
     else if opcode = 0xd3 then
       (case get_range audio 1 3 of
          None \<Rightarrow> (Done (Inr None), d)
        | Some bytes \<Rightarrow> done_req (set_value d 3 (Integer (scast (u16_from_be bytes)))))
     else if opcode = 0xd4 then
       (case get_range audio 1 5 of
          None \<Rightarrow> (Done (Inr None), d)
        | Some bytes \<Rightarrow> done_req (set_value d 5 (Integer (u32_from_be bytes))))
     else if opcode = 0xd5 \<or> opcode = 0xd6 then
       (case get_range audio 1 5 of
          None \<Rightarrow> (Done (Inr None), d)
        | Some bytes \<Rightarrow>
            (let value = u32_from_be bytes in
             done_req (set_value d 5 (if opcode = 0xd5 then Float value else RawFloat value))))
     else if opcode = 0xd8 then
       (case rq_selected_id d of
          None \<Rightarrow> (Done (Inl InvalidData), d)
        | Some i \<Rightarrow> (Done (Inr (Some (Toggle i))), drain_audio 1 d))
     else if opcode = 0xd9 then
       (case get_at audio 1 of
          None \<Rightarrow> (Done (Inr None), d)
        | Some amount \<Rightarrow>
            (case rq_selected_id d of
               None \<Rightarrow> (Done (Inl InvalidData), d)
             | Some i \<Rightarrow> (Done (Inr (Some (Step i amount))), drain_audio 2 d)))
     else if opcode = 0xda then
       (Again, drain_audio 1 (d\<lparr>rq_selected_id := None, rq_path := [], rq_path_bytes := 0\<rparr>))
     else if opcode = 0xdb then
       (Again, drain_audio 1 (pop_path (d\<lparr>rq_selected_id := None\<rparr>)))
     else if opcode = 0xdc \<or> opcode = 0xdd then
       (let d' = drain_audio 1 d in
        case rq_selected_id d of
          Some i \<Rightarrow> (Done (Inr (Some (if opcode = 0xdc then Get i else Definition i))), d')
        | None \<Rightarrow> (Done (Inr (Some (if opcode = 0xdc then BulkData (rq_path d)
                                     else BulkDefinition (rq_path d)))), d'))
     else (Done (Inr (Some (Unknown 1 opcode))), drain_audio 1 d))"

lemma rq_audio_drain [simp]: "rq_audio (drain_audio n d) = drop n (rq_audio d)"
  by (simp add: drain_audio_def)

lemma rq_audio_pop_path [simp]: "rq_audio (pop_path d) = rq_audio d"
  by (auto simp: pop_path_def split: PathElement.splits)

lemma push_path_index_audio: "push_path_index d k = (r, d') \<Longrightarrow> rq_audio d' = rq_audio d"
  by (auto simp: push_path_index_def split: sum.splits)

lemma parse_name_audio: "parse_name d k = (r, d') \<Longrightarrow> rq_audio d' = rq_audio d"
  by (auto simp: parse_name_def split: sum.splits option.splits)

lemma again_after_shrinks:
  assumes "again_after n rd = (Again, d')"
  shows "\<exists>d. rd = (Inr (), d) \<and> d' = drain_audio n d"
  using assms by (auto simp: again_after_def split: prod.splits sum.splits)

lemma done_req_not_again: "done_req rd \<noteq> (Again, d')"
  by (auto simp: done_req_def split: prod.splits sum.splits)

lemma audio_step_again_shrinks:
  assumes "audio_step d = (Again, d')"
  shows "length (rq_audio d') < length (rq_audio d)"
  using assms
  by (auto simp: audio_step_def Let_def done_req_not_again get_range_def length_greater_0_conv
      dest!: again_after_shrinks push_path_index_audio parse_name_audio
      split: if_splits option.splits simp flip: length_greater_0_conv)

function parse_audio :: "NativeRequestDecoder \<Rightarrow> NativeRequest option result \<times> NativeRequestDecoder"
where
  "parse_audio d =
     (case audio_step d of
        (Again, d') \<Rightarrow> parse_audio d'
      | (Done r, d') \<Rightarrow> (r, d'))"
  by pat_completeness auto

termination parse_audio
  by (relation "measure (\<lambda>d. length (rq_audio d))") (auto dest: audio_step_again_shrinks [OF sym])

declare parse_audio.simps [simp del]

section \<open>Meter commands\<close>

definition parse_meter ::
  "NativeRequestDecoder \<Rightarrow> NativeRequest option result \<times> NativeRequestDecoder" where
  "parse_meter d =
    (let meter = rq_meter d in
     if meter = [] then (Inr None, d)
     else let opcode = meter ! 0 in
     if opcode = 0xd3 then
       (case get_range meter 1 3 of
          None \<Rightarrow> (Inr None, d)
        | Some bytes \<Rightarrow>
            (let port = u16_from_be bytes in
             (Inr (Some (MeterPort port)), drain_meter 3 (d\<lparr>rq_meter_port := Some port\<rparr>))))
     else if opcode = 0xd4 then
       (case get_range meter 1 5 of
          None \<Rightarrow> (Inr None, d)
        | Some bytes \<Rightarrow>
            (let report_id = u32_from_be bytes in
             case get_at meter 5 of
               None \<Rightarrow> (Inr None, d)
             | Some nxt \<Rightarrow>
                 if nxt \<noteq> 0xdc then (Inr (Some (MeterRenew report_id)), drain_meter 5 d)
                 else let e = length meter - 1 in
                 if e < 6 \<or> meter ! e \<noteq> 0xde then (Inr None, d)
                 else case decode_meter_entries (take (e - 6) (drop 6 meter))
                        (max_meter_entries (rq_limits d)) of
                   Inl err \<Rightarrow> (Inl err, d)
                 | Inr meters \<Rightarrow>
                     (case rq_meter_port d of
                        None \<Rightarrow> (Inl InvalidData, d)
                      | Some port \<Rightarrow>
                          (Inr (Some (MeterSubscribe port report_id meters)), drain_meter (e + 1) d))))
     else (Inr (Some (Unknown 3 opcode)), drain_meter 1 d))"

definition flush_meter_renewal ::
  "NativeRequestDecoder \<Rightarrow> NativeRequest list result \<times> NativeRequestDecoder" where
  "flush_meter_renewal d =
     (let meter = rq_meter d in
      if meter = [] then (Inr [], d)
      else if length meter = 5 \<and> meter ! 0 = 0xd4 then
        (Inr [MeterRenew (u32_from_be (take 4 (drop 1 meter)))], d\<lparr>rq_meter := []\<rparr>)
      else (Inl InvalidData, d))"

definition flush_decoder ::
  "NativeRequestDecoder \<Rightarrow> NativeRequest list result \<times> NativeRequestDecoder" where
  "flush_decoder d = flush_meter_renewal d"

section \<open>The event loop\<close>

lemma set_value_shrinks:
  assumes "set_value d n v = (Inr r, d')" and "0 < n" and "rq_audio d \<noteq> []"
  shows "length (rq_audio d') < length (rq_audio d)"
  using assms by (auto simp: set_value_def split: option.splits)

lemma parse_string_token_shrinks:
  assumes "parse_string_token d len h = (Inr r, d')" and "0 < h" and "rq_audio d \<noteq> []"
  shows "length (rq_audio d') < length (rq_audio d)"
  using assms by (auto simp: parse_string_token_def dest: set_value_shrinks
      split: if_splits option.splits)

lemma done_req_eq:
  "done_req rd = (Done r, d') \<longleftrightarrow>
     (\<exists>e. rd = (Inl e, d') \<and> r = Inl e) \<or> (\<exists>x. rd = (Inr x, d') \<and> r = Inr (Some x))"
  by (auto simp: done_req_def split: prod.splits sum.splits)

lemma again_after_done:
  "again_after n rd = (Done r, d') \<longleftrightarrow> (\<exists>e. rd = (Inl e, d') \<and> r = Inl e)"
  by (auto simp: again_after_def split: prod.splits sum.splits)

lemmas outcome_eqs = done_req_eq again_after_done

lemma audio_step_some_shrinks:
  assumes "audio_step d = (Done (Inr (Some r)), d')"
  shows "length (rq_audio d') < length (rq_audio d)"
  using assms
  by (auto simp: audio_step_def Let_def outcome_eqs
      dest: set_value_shrinks parse_string_token_shrinks
      split: if_splits option.splits)

lemma parse_audio_some_shrinks:
  "parse_audio d = (Inr (Some r), d') \<Longrightarrow> length (rq_audio d') < length (rq_audio d)"
proof (induction d rule: parse_audio.induct)
  case (1 d)
  show ?case
  proof (cases "audio_step d")
    case (Pair oc d1)
    show ?thesis
    proof (cases oc)
      case Again
      with Pair 1 have "length (rq_audio d') < length (rq_audio d1)"
        by (simp add: parse_audio.simps [of d])
      with audio_step_again_shrinks [of d d1] Pair Again show ?thesis by simp
    next
      case (Done x)
      with Pair 1(2) show ?thesis
        by (auto simp: parse_audio.simps [of d] dest: audio_step_some_shrinks)
    qed
  qed
qed

lemma parse_meter_some_shrinks:
  "parse_meter d = (Inr (Some r), d') \<Longrightarrow> length (rq_meter d') < length (rq_meter d)"
  by (auto simp: parse_meter_def Let_def drain_meter_def get_range_def
      split: if_splits option.splits sum.splits)

text \<open>The two \<open>while let Some(request) = self.parse_*()?\<close> loops.\<close>

function drain_audio_requests ::
  "NativeRequestDecoder \<Rightarrow> NativeRequest list \<Rightarrow> NativeRequest list result \<times> NativeRequestDecoder"
where
  "drain_audio_requests d requests =
     (case parse_audio d of
        (Inl e, d') \<Rightarrow> (Inl e, d')
      | (Inr None, d') \<Rightarrow> (Inr requests, d')
      | (Inr (Some r), d') \<Rightarrow> drain_audio_requests d' (requests @ [r]))"
  by pat_completeness auto

termination drain_audio_requests
  by (relation "measure (\<lambda>(d, _). length (rq_audio d))") (auto dest: parse_audio_some_shrinks [OF sym])

declare drain_audio_requests.simps [simp del]

function drain_meter_requests ::
  "NativeRequestDecoder \<Rightarrow> NativeRequest list \<Rightarrow> NativeRequest list result \<times> NativeRequestDecoder"
where
  "drain_meter_requests d requests =
     (case parse_meter d of
        (Inl e, d') \<Rightarrow> (Inl e, d')
      | (Inr None, d') \<Rightarrow> (Inr requests, d')
      | (Inr (Some r), d') \<Rightarrow> drain_meter_requests d' (requests @ [r]))"
  by pat_completeness auto

termination drain_meter_requests
  by (relation "measure (\<lambda>(d, _). length (rq_meter d))") (auto dest: parse_meter_some_shrinks [OF sym])

declare drain_meter_requests.simps [simp del]

definition handle_event ::
  "NativeRequestDecoder \<Rightarrow> NativeRequest list \<Rightarrow> ChannelEvent
     \<Rightarrow> NativeRequest list result \<times> NativeRequestDecoder" where
  "handle_event d requests event =
     (case event of
        Selected channel \<Rightarrow>
          (case flush_meter_renewal d of
             (Inl e, d') \<Rightarrow> (Inl e, d')
           | (Inr rs, d') \<Rightarrow> (Inr (requests @ rs @ [KeepAlive channel]), d'))
      | Data channel b \<Rightarrow>
          if channel = 1 then
            (let d = d\<lparr>rq_audio := rq_audio d @ [b]\<rparr> in
             case check_buffer_limit d of
               Inl e \<Rightarrow> (Inl e, d)
             | Inr _ \<Rightarrow> drain_audio_requests d requests)
          else if channel = 3 then
            (let d = d\<lparr>rq_meter := rq_meter d @ [b]\<rparr> in
             case check_buffer_limit d of
               Inl e \<Rightarrow> (Inl e, d)
             | Inr _ \<Rightarrow> drain_meter_requests d requests)
          else (Inr (requests @ [Unknown channel b]), d))"

fun run_events ::
  "NativeRequestDecoder \<Rightarrow> NativeRequest list \<Rightarrow> ChannelEvent list
     \<Rightarrow> NativeRequest list result \<times> NativeRequestDecoder" where
  "run_events d requests [] = (Inr requests, d)"
| "run_events d requests (event # events) =
     (case handle_event d requests event of
        (Inl e, d') \<Rightarrow> (Inl e, d')
      | (Inr requests', d') \<Rightarrow>
          if length requests' > max_batch_requests (rq_limits d') then (Inl InvalidData, d')
          else run_events d' requests' events)"

definition push_events ::
  "NativeRequestDecoder \<Rightarrow> byte list \<Rightarrow> NativeRequest list result \<times> NativeRequestDecoder" where
  "push_events d input =
     (case push (rq_channels d) input of
        (Inl e, c) \<Rightarrow> (Inl e, d\<lparr>rq_channels := c\<rparr>)
      | (Inr events, c) \<Rightarrow> run_events (d\<lparr>rq_channels := c\<rparr>) [] events)"

definition push_requests ::
  "NativeRequestDecoder \<Rightarrow> byte list \<Rightarrow> NativeRequest list result \<times> NativeRequestDecoder" where
  "push_requests d input =
     (case push_events d input of
        (Inl e, d') \<Rightarrow> (Inl e, reset_decoder d')
      | (Inr rs, d') \<Rightarrow> (Inr rs, d'))"

section \<open>Invariant\<close>

fun element_bytes :: "PathElement \<Rightarrow> nat" where
  "element_bytes (Name s) = length s"
| "element_bytes (Index _) = 0"

fun element_ok :: "PathElement \<Rightarrow> bool" where
  "element_ok (Name s) = is_str s"
| "element_ok (Index _) = True"

definition path_within :: "NativeLimits \<Rightarrow> PathElement list \<Rightarrow> bool" where
  "path_within l p \<longleftrightarrow> length p \<le> max_path_elements l \<and>
     sum_list (map element_bytes p) \<le> max_path_bytes l \<and> list_all element_ok p"

definition path_ok :: "NativeRequestDecoder \<Rightarrow> bool" where
  "path_ok d \<longleftrightarrow> path_within (rq_limits d) (rq_path d) \<and>
     rq_path_bytes d = sum_list (map element_bytes (rq_path d))"

text \<open>An audio token whose last byte has not arrived.\<close>

definition token_incomplete :: "byte list \<Rightarrow> bool" where
  "token_incomplete audio \<longleftrightarrow>
     audio = [] \<or>
     (let opcode = audio ! 0 in
      if opcode = 0xd7 then length audio < 5
      else if opcode \<le> 0x7f then False
      else if opcode \<le> 0xbf then length audio < unat (opcode - 0x7f) + 1
      else if opcode \<le> 0xcf then length audio < unat (opcode - 0xbf) + 1
      else if opcode = 0xd1 then length audio < 2 \<or> length audio < unat (audio ! 1) + 3
      else if opcode = 0xd2 \<or> opcode = 0xd3 then length audio < 3
      else if opcode = 0xd4 \<or> opcode = 0xd5 \<or> opcode = 0xd6 then length audio < 5
      else if opcode = 0xd9 then length audio < 2
      else False)"

fun request_ok :: "NativeLimits \<Rightarrow> NativeRequest \<Rightarrow> bool" where
  "request_ok l (KeepAlive c) = (c < 14)"
| "request_ok l (Set _ (String s)) = (is_str s \<and> length s \<le> max_string_bytes l)"
| "request_ok l (BulkData p) = path_within l p"
| "request_ok l (BulkDefinition p) = path_within l p"
| "request_ok l (MeterSubscribe _ _ ms) = (length ms \<le> max_meter_entries l)"
| "request_ok l _ = True"

definition decoder_ok :: "NativeRequestDecoder \<Rightarrow> bool" where
  "decoder_ok d \<longleftrightarrow> channel_ok (cd_channel (rq_channels d)) \<and> path_ok d \<and>
     length (rq_audio d) + length (rq_meter d) \<le> max_buffered_bytes (rq_limits d) \<and>
     token_incomplete (rq_audio d)"

text \<open>What one parsing step may do to the decoder.\<close>

definition advances :: "NativeRequestDecoder \<Rightarrow> NativeRequestDecoder \<Rightarrow> bool" where
  "advances d d' \<longleftrightarrow> rq_limits d' = rq_limits d \<and> rq_channels d' = rq_channels d \<and>
     length (rq_audio d') \<le> length (rq_audio d) \<and> length (rq_meter d') \<le> length (rq_meter d) \<and>
     (path_ok d \<longrightarrow> path_ok d')"

lemma advances_refl [simp]: "advances d d"
  by (simp add: advances_def)

lemma advances_trans: "advances d1 d2 \<Longrightarrow> advances d2 d3 \<Longrightarrow> advances d1 d3"
  by (auto simp: advances_def)

lemma advances_drain [simp]: "advances d (drain_audio n d)" "advances d (drain_meter n d)"
  by (auto simp: advances_def drain_audio_def drain_meter_def path_ok_def)

lemma path_within_Nil [simp]: "path_within l []"
  by (simp add: path_within_def)

lemma path_within_butlast: "path_within l p \<Longrightarrow> path_within l (butlast p)"
  by (cases p rule: rev_cases) (auto simp: path_within_def)

lemma pop_path_advances: "advances d (pop_path d)"
proof (cases "rq_path d" rule: rev_cases)
  case (snoc p x)
  then show ?thesis using path_within_butlast [of "rq_limits d" "rq_path d"]
    by (cases x) (auto simp: advances_def pop_path_def path_ok_def)
qed (simp add: pop_path_def)

lemma check_path_room_ok:
  assumes "check_path_room d n = Inr u"
  shows "length (rq_path d) < max_path_elements (rq_limits d)"
    and "rq_path_bytes d + n \<le> max_path_bytes (rq_limits d)"
  using assms by (auto simp: check_path_room_def Let_def checked_add_def split: if_splits option.splits)

lemma check_path_room_error: "check_path_room d n = Inl e \<Longrightarrow> e = InvalidData"
  by (auto simp: check_path_room_def Let_def split: if_splits)

lemma push_path_index_advances:
  "push_path_index d k = (r, d') \<Longrightarrow> advances d d' \<and> (\<forall>e. r = Inl e \<longrightarrow> e = InvalidData)"
  by (cases "check_path_room d 0")
    (auto simp: push_path_index_def advances_def path_ok_def path_within_def
      dest: check_path_room_ok check_path_room_ok [OF sym] check_path_room_error)

lemma from_utf8_some: "from_utf8 bs = Some s \<Longrightarrow> is_str s \<and> length s = length bs"
  by (auto simp: from_utf8_def is_str_def split: if_splits)

lemma parse_name_advances:
  assumes "parse_name d k = (r, d')" and "k < length (rq_audio d)"
  shows "advances d d' \<and> (\<forall>e. r = Inl e \<longrightarrow> e = InvalidData)"
proof (cases "check_path_room d k")
  case (Inl e)
  with assms show ?thesis by (auto simp: parse_name_def dest: check_path_room_error)
next
  case (Inr u)
  note room = check_path_room_ok [OF Inr]
  show ?thesis
    using assms Inr room
    by (auto simp: parse_name_def advances_def path_ok_def path_within_def
        dest: from_utf8_some split: option.splits)
qed

lemma set_value_advances:
  "set_value d n v = (r, d') \<Longrightarrow>
     advances d d' \<and> (\<forall>e. r = Inl e \<longrightarrow> e = InvalidData) \<and> (\<forall>q. r = Inr q \<longrightarrow> (\<exists>i. q = Set i v))"
  by (auto simp: set_value_def split: option.splits)

lemma parse_string_token_advances:
  assumes "parse_string_token d len h = (r, d')"
  shows "advances d d' \<and> (\<forall>e. r = Inl e \<longrightarrow> e = InvalidData) \<and>
    (\<forall>q. r = Inr q \<longrightarrow> request_ok (rq_limits d) q)"
  using assms
  by (auto simp: parse_string_token_def dest!: set_value_advances from_utf8_some
      split: if_splits option.splits)

lemma again_after_advances:
  assumes "again_after n rd = (oc, d')"
    and "\<And>r d1. rd = (r, d1) \<Longrightarrow> advances d d1 \<and> (\<forall>e. r = Inl e \<longrightarrow> e = InvalidData)"
  shows "advances d d' \<and> (\<forall>e. oc = Done (Inl e) \<longrightarrow> e = InvalidData) \<and>
    (\<forall>q. oc \<noteq> Done (Inr q))"
  using assms advances_trans [OF _ advances_drain(1)]
  by (auto simp: again_after_def split: prod.splits sum.splits)

lemma done_req_advances:
  assumes "done_req rd = (oc, d')"
    and "\<And>r d1. rd = (r, d1) \<Longrightarrow> advances d d1 \<and> (\<forall>e. r = Inl e \<longrightarrow> e = InvalidData) \<and>
      (\<forall>q. r = Inr q \<longrightarrow> request_ok l q)"
  shows "advances d d' \<and> (\<forall>e. oc = Done (Inl e) \<longrightarrow> e = InvalidData) \<and>
    (\<forall>q. oc = Done (Inr q) \<longrightarrow> (\<exists>r. q = Some r \<and> request_ok l r))"
  using assms by (auto simp: done_req_def split: prod.splits sum.splits)

text \<open>What a pass of \<open>parse_audio\<close> guarantees of its outcome.\<close>

definition good_step :: "NativeRequestDecoder \<Rightarrow> outcome \<Rightarrow> NativeRequestDecoder \<Rightarrow> bool" where
  "good_step d oc d' \<longleftrightarrow> advances d d' \<and> (\<forall>e. oc = Done (Inl e) \<longrightarrow> e = InvalidData) \<and>
    (\<forall>q. oc = Done (Inr (Some q)) \<longrightarrow> path_ok d \<longrightarrow> request_ok (rq_limits d) q)"

lemma good_step_string: "done_req (parse_string_token d len h) = (oc, d') \<Longrightarrow> good_step d oc d'"
  using done_req_advances [of "parse_string_token d len h" oc d' d "rq_limits d"]
    parse_string_token_advances [of d len h]
  by (auto simp: good_step_def)

lemma good_step_value:
  assumes "done_req (set_value d n v) = (oc, d')" and "\<And>s. v = String s \<Longrightarrow> s = []"
  shows "good_step d oc d'"
proof -
  have "request_ok (rq_limits d) (Set i v)" for i using assms(2) by (cases v) auto
  with assms(1) show ?thesis
    by (auto simp: done_req_def set_value_def good_step_def split: option.splits)
qed

lemma good_step_index: "again_after n (push_path_index d k) = (oc, d') \<Longrightarrow> good_step d oc d'"
  using again_after_advances [of n "push_path_index d k" oc d' d] push_path_index_advances
  by (auto simp: good_step_def)

lemma good_step_name:
  "again_after n (parse_name d k) = (oc, d') \<Longrightarrow> k < length (rq_audio d) \<Longrightarrow> good_step d oc d'"
  using again_after_advances [of n "parse_name d k" oc d' d] parse_name_advances
  by (auto simp: good_step_def)

lemma good_step_wait [simp]: "good_step d (Done (Inr None)) d" "good_step d (Done (Inl InvalidData)) d"
  by (simp_all add: good_step_def)

lemma good_step_again [simp]:
  "good_step d Again (drain_audio n (d\<lparr>rq_selected_id := x\<rparr>))"
  "good_step d Again (drain_audio n (pop_path (d\<lparr>rq_selected_id := x\<rparr>)))"
  "good_step d Again (drain_audio n (d\<lparr>rq_selected_id := x, rq_path := [], rq_path_bytes := 0\<rparr>))"
  using pop_path_advances [of "d\<lparr>rq_selected_id := x\<rparr>"]
  by (auto simp: good_step_def advances_def drain_audio_def path_ok_def)

lemma good_step_emit:
  "(path_ok d \<Longrightarrow> request_ok (rq_limits d) q) \<Longrightarrow> good_step d (Done (Inr (Some q))) (drain_audio n d)"
  by (auto simp: good_step_def)

lemma audio_step_good: "audio_step d = (oc, d') \<Longrightarrow> good_step d oc d'"
  unfolding audio_step_def Let_def
  by (auto simp: path_ok_def intro!: good_step_emit
      dest: good_step_string good_step_value good_step_index good_step_name
      split: if_splits option.splits)

lemma parse_audio_good:
  "parse_audio d = (r, d') \<Longrightarrow> good_step d (Done r) d'"
proof (induction d rule: parse_audio.induct)
  case (1 d)
  obtain oc d1 where s: "audio_step d = (oc, d1)" by (cases "audio_step d")
  note g = audio_step_good [OF s]
  show ?case
  proof (cases oc)
    case Again
    with s 1 have "good_step d1 (Done r) d'" by (simp add: parse_audio.simps [of d])
    with g show ?thesis by (auto simp: good_step_def advances_def)
  next
    case (Done x)
    with s g 1(2) show ?thesis by (simp add: parse_audio.simps [of d])
  qed
qed

lemma audio_step_wait:
  "audio_step d = (Done (Inr None), d') \<Longrightarrow> d' = d \<and> token_incomplete (rq_audio d)"
  unfolding audio_step_def Let_def
  by (auto simp: token_incomplete_def Let_def outcome_eqs get_range_def get_at_def split: if_splits option.splits)

lemma parse_audio_wait:
  "parse_audio d = (Inr None, d') \<Longrightarrow> token_incomplete (rq_audio d')"
proof (induction d rule: parse_audio.induct)
  case (1 d)
  obtain oc d1 where s: "audio_step d = (oc, d1)" by (cases "audio_step d")
  with 1 audio_step_wait [of d d1] show ?case
    by (cases oc) (auto simp: parse_audio.simps [of d])
qed

lemma token_incomplete_bound: "token_incomplete audio \<Longrightarrow> length audio \<le> 257"
  using unat_u8_le [of "audio ! 0 - 0x7f"] unat_u8_le [of "audio ! 0 - 0xbf"] unat_u8_le [of "audio ! 1"]
  by (auto simp: token_incomplete_def Let_def simp del: unat_u8_le unat_u8_less split: if_splits)


lemma parse_meter_good:
  assumes "parse_meter d = (r, d')"
  shows "advances d d' \<and> rq_audio d' = rq_audio d \<and> (\<forall>e. r = Inl e \<longrightarrow> e = InvalidData) \<and>
    (\<forall>q. r = Inr (Some q) \<longrightarrow> request_ok (rq_limits d) q)"
proof -
  have "advances d (drain_meter n (d\<lparr>rq_meter_port := x\<rparr>))" for n x
    by (auto simp: advances_def drain_meter_def path_ok_def)
  moreover have "rq_audio (drain_meter n d) = rq_audio d" for n d by (simp add: drain_meter_def)
  moreover have "decode_meter_entries raw limit = Inl e \<Longrightarrow> e = InvalidData" for raw limit e
    by (simp add: decode_meter_entries_def decode_entries_error)
  moreover have "decode_meter_entries raw limit = Inr ms \<Longrightarrow> length ms \<le> limit" for raw limit ms
    using decode_entries_limit [of "([], None)" raw limit ms] by (simp add: decode_meter_entries_def)
  ultimately show ?thesis
    using assms unfolding parse_meter_def Let_def
    by (auto split: if_splits option.splits sum.splits)
qed

lemma drain_audio_requests_good:
  assumes "drain_audio_requests d requests = (r, d')" and "path_ok d"
    and "list_all (request_ok (rq_limits d)) requests"
  shows "advances d d' \<and> (\<forall>e. r = Inl e \<longrightarrow> e = InvalidData) \<and>
    (\<forall>rs. r = Inr rs \<longrightarrow> list_all (request_ok (rq_limits d)) rs \<and> token_incomplete (rq_audio d'))"
  using assms
proof (induction d requests rule: drain_audio_requests.induct)
  case (1 d requests)
  obtain p d1 where p: "parse_audio d = (p, d1)" by (cases "parse_audio d")
  note g = parse_audio_good [OF p]
  show ?case
  proof (cases p rule: result_option_cases)
    case err
    with 1(2) p g show ?thesis by (auto simp: drain_audio_requests.simps [of d] good_step_def)
  next
    case wait
    with 1(2,4) p g parse_audio_wait [of d d1] show ?thesis
      by (auto simp: drain_audio_requests.simps [of d] good_step_def)
  next
    case (req q)
    have "drain_audio_requests d1 (requests @ [q]) = (r, d')"
      using 1(2) p req by (simp add: drain_audio_requests.simps [of d])
    moreover have "path_ok d1" "rq_limits d1 = rq_limits d" "request_ok (rq_limits d) q"
      using g req 1(3) by (auto simp: good_step_def advances_def)
    ultimately show ?thesis
      using 1(1) [OF p [symmetric] req refl] 1(4) g by (auto simp: good_step_def intro: advances_trans)
  qed
qed

lemma drain_meter_requests_good:
  assumes "drain_meter_requests d requests = (r, d')"
    and "list_all (request_ok (rq_limits d)) requests"
  shows "advances d d' \<and> rq_audio d' = rq_audio d \<and> (\<forall>e. r = Inl e \<longrightarrow> e = InvalidData) \<and>
    (\<forall>rs. r = Inr rs \<longrightarrow> list_all (request_ok (rq_limits d)) rs)"
  using assms
proof (induction d requests rule: drain_meter_requests.induct)
  case (1 d requests)
  obtain p d1 where p: "parse_meter d = (p, d1)" by (cases "parse_meter d")
  note g = parse_meter_good [OF p]
  show ?case
  proof (cases p rule: result_option_cases)
    case err
    with 1(2) p g show ?thesis by (auto simp: drain_meter_requests.simps [of d])
  next
    case wait
    with 1(2,3) p g show ?thesis by (auto simp: drain_meter_requests.simps [of d])
  next
    case (req q)
    have "drain_meter_requests d1 (requests @ [q]) = (r, d')"
      using 1(2) p req by (simp add: drain_meter_requests.simps [of d])
    moreover have "rq_limits d1 = rq_limits d" using g by (simp add: advances_def)
    ultimately show ?thesis
      using 1(1) [OF p [symmetric] req refl] 1(3) g req by (auto intro: advances_trans)
  qed
qed

definition limits_ok :: "NativeLimits \<Rightarrow> bool" where
  "limits_ok l \<longleftrightarrow> max_buffered_bytes l < usize_max"

lemma check_buffer_limit_ok:
  assumes "check_buffer_limit d = Inr u" and "limits_ok (rq_limits d)"
  shows "length (rq_audio d) + length (rq_meter d) \<le> max_buffered_bytes (rq_limits d)"
  using assms by (auto simp: check_buffer_limit_def limits_ok_def saturating_add_def split: if_splits)

lemma check_buffer_limit_error: "check_buffer_limit d = Inl e \<Longrightarrow> e = InvalidData"
  by (simp add: check_buffer_limit_def split: if_splits)

definition good_run ::
  "NativeRequestDecoder \<Rightarrow> NativeRequest list result \<Rightarrow> NativeRequestDecoder \<Rightarrow> bool" where
  "good_run d r d' \<longleftrightarrow> rq_limits d' = rq_limits d \<and> rq_channels d' = rq_channels d \<and>
     (\<forall>e. r = Inl e \<longrightarrow> e = InvalidData) \<and>
     (\<forall>rs. r = Inr rs \<longrightarrow> decoder_ok d' \<and> list_all (request_ok (rq_limits d)) rs)"

lemma handle_audio_good:
  assumes ok: "decoder_ok d" "limits_ok (rq_limits d)" "list_all (request_ok (rq_limits d)) requests"
    and h: "handle_event d requests (Data 1 b) = (r, d')"
  shows "good_run d r d'"
proof -
  let ?d = "d\<lparr>rq_audio := rq_audio d @ [b]\<rparr>"
  show ?thesis
  proof (cases "check_buffer_limit ?d")
    case (Inl e)
    with h check_buffer_limit_error [OF Inl] show ?thesis
      by (auto simp: handle_event_def good_run_def Let_def)
  next
    case (Inr u)
    from check_buffer_limit_ok [OF Inr] ok have b: "length (rq_audio ?d) + length (rq_meter ?d)
      \<le> max_buffered_bytes (rq_limits d)" by simp
    have "drain_audio_requests ?d requests = (r, d')" using h Inr by (simp add: handle_event_def Let_def)
    moreover have "path_ok ?d" using ok by (simp add: decoder_ok_def path_ok_def)
    ultimately have "advances ?d d' \<and> (\<forall>e. r = Inl e \<longrightarrow> e = InvalidData) \<and>
      (\<forall>rs. r = Inr rs \<longrightarrow> list_all (request_ok (rq_limits d)) rs \<and> token_incomplete (rq_audio d'))"
      using drain_audio_requests_good [of ?d requests r d'] ok by simp
    with b ok \<open>path_ok ?d\<close> show ?thesis by (auto simp: good_run_def advances_def decoder_ok_def)
  qed
qed

lemma handle_meter_good:
  assumes ok: "decoder_ok d" "limits_ok (rq_limits d)" "list_all (request_ok (rq_limits d)) requests"
    and h: "handle_event d requests (Data 3 b) = (r, d')"
  shows "good_run d r d'"
proof -
  let ?d = "d\<lparr>rq_meter := rq_meter d @ [b]\<rparr>"
  show ?thesis
  proof (cases "check_buffer_limit ?d")
    case (Inl e)
    with h check_buffer_limit_error [OF Inl] show ?thesis
      by (auto simp: handle_event_def good_run_def Let_def)
  next
    case (Inr u)
    from check_buffer_limit_ok [OF Inr] ok have b: "length (rq_audio ?d) + length (rq_meter ?d)
      \<le> max_buffered_bytes (rq_limits d)" by simp
    have "drain_meter_requests ?d requests = (r, d')" using h Inr by (simp add: handle_event_def Let_def)
    moreover have "path_ok ?d" using ok by (simp add: decoder_ok_def path_ok_def)
    ultimately show ?thesis
      using drain_meter_requests_good [of ?d requests r d'] ok b
      by (auto simp: good_run_def advances_def decoder_ok_def)
  qed
qed

lemma handle_event_good:
  assumes ok: "decoder_ok d" "limits_ok (rq_limits d)" "list_all (request_ok (rq_limits d)) requests"
    and ev: "event_ok ev" and h: "handle_event d requests ev = (r, d')"
  shows "good_run d r d'"
proof (cases ev)
  case (Selected c)
  with ok ev h show ?thesis
    by (auto simp: handle_event_def flush_meter_renewal_def Let_def good_run_def decoder_ok_def
        path_ok_def split: if_splits)
next
  case (Data c b)
  with ok h handle_audio_good [of d requests b r d'] handle_meter_good [of d requests b r d']
  show ?thesis by (cases "c = 1 \<or> c = 3") (auto simp: handle_event_def good_run_def)
qed

lemma run_events_good:
  assumes "decoder_ok d" "limits_ok (rq_limits d)" "list_all (request_ok (rq_limits d)) requests"
    and "list_all event_ok evs" and "run_events d requests evs = (r, d')"
    and "length requests \<le> max_batch_requests (rq_limits d)"
  shows "good_run d r d' \<and> (\<forall>rs. r = Inr rs \<longrightarrow> length rs \<le> max_batch_requests (rq_limits d))"
  using assms
proof (induction evs arbitrary: d requests)
  case Nil
  then show ?case by (auto simp: good_run_def)
next
  case (Cons ev evs)
  obtain r1 d1 where h: "handle_event d requests ev = (r1, d1)" by (cases "handle_event d requests ev")
  have g: "good_run d r1 d1" by (rule handle_event_good [OF _ _ _ _ h]) (use Cons.prems in simp_all)
  show ?case
  proof (cases r1)
    case (Inl e)
    with h g Cons.prems show ?thesis by (auto simp: good_run_def)
  next
    case (Inr rs)
    with g have d1: "decoder_ok d1" "rq_limits d1 = rq_limits d" "rq_channels d1 = rq_channels d"
      "list_all (request_ok (rq_limits d)) rs" by (auto simp: good_run_def)
    show ?thesis
    proof (cases "length rs > max_batch_requests (rq_limits d)")
      case True
      with h Inr d1 Cons.prems show ?thesis by (auto simp: good_run_def)
    next
      case False
      then have "run_events d1 rs evs = (r, d')" using h Inr d1 Cons.prems by simp
      from Cons.IH [OF _ _ _ _ this] d1 Cons.prems False show ?thesis by (auto simp: good_run_def)
    qed
  qed
qed

lemma new_decoder_ok: "decoder_ok (new_decoder l)"
  by (simp add: decoder_ok_def new_decoder_def path_ok_def decoder_default_def token_incomplete_def)

section \<open>Fragmentation\<close>

text \<open>Parsing never looks at the framing state, so it commutes with replacing it.\<close>

definition with_channels :: "ChannelDecoder \<Rightarrow> NativeRequestDecoder \<Rightarrow> NativeRequestDecoder" where
  "with_channels c d = d\<lparr>rq_channels := c\<rparr>"

lemma with_channels_fields [simp]:
  "rq_channels (with_channels c d) = c" "rq_limits (with_channels c d) = rq_limits d"
  "rq_audio (with_channels c d) = rq_audio d" "rq_meter (with_channels c d) = rq_meter d"
  "rq_selected_id (with_channels c d) = rq_selected_id d" "rq_path (with_channels c d) = rq_path d"
  "rq_path_bytes (with_channels c d) = rq_path_bytes d"
  "rq_meter_port (with_channels c d) = rq_meter_port d"
  by (simp_all add: with_channels_def)

lemma with_channels_updates [simp]:
  "(with_channels c d)\<lparr>rq_audio := a\<rparr> = with_channels c (d\<lparr>rq_audio := a\<rparr>)"
  "(with_channels c d)\<lparr>rq_meter := a\<rparr> = with_channels c (d\<lparr>rq_meter := a\<rparr>)"
  "(with_channels c d)\<lparr>rq_selected_id := i\<rparr> = with_channels c (d\<lparr>rq_selected_id := i\<rparr>)"
  "(with_channels c d)\<lparr>rq_path := p\<rparr> = with_channels c (d\<lparr>rq_path := p\<rparr>)"
  "(with_channels c d)\<lparr>rq_path_bytes := n\<rparr> = with_channels c (d\<lparr>rq_path_bytes := n\<rparr>)"
  "(with_channels c d)\<lparr>rq_meter_port := q\<rparr> = with_channels c (d\<lparr>rq_meter_port := q\<rparr>)"
  by (simp_all add: with_channels_def)

lemma drain_with_channels [simp]:
  "drain_audio n (with_channels c d) = with_channels c (drain_audio n d)"
  "drain_meter n (with_channels c d) = with_channels c (drain_meter n d)"
  "pop_path (with_channels c d) = with_channels c (pop_path d)"
  by (auto simp: drain_audio_def drain_meter_def pop_path_def split: PathElement.splits)

lemma checks_with_channels [simp]:
  "check_path_room (with_channels c d) n = check_path_room d n"
  "check_buffer_limit (with_channels c d) = check_buffer_limit d"
  by (auto simp: check_path_room_def check_buffer_limit_def split: option.splits)

lemma set_value_with_channels [simp]:
  "set_value (with_channels c d) n v = map_prod id (with_channels c) (set_value d n v)"
  by (simp add: set_value_def split: option.splits)

lemma tokens_with_channels [simp]:
  "parse_string_token (with_channels c d) n h = map_prod id (with_channels c) (parse_string_token d n h)"
  "push_path_index (with_channels c d) k = map_prod id (with_channels c) (push_path_index d k)"
  "parse_name (with_channels c d) n = map_prod id (with_channels c) (parse_name d n)"
  by (simp_all add: parse_string_token_def push_path_index_def parse_name_def
      split: option.splits sum.splits)

lemma outcome_with_channels [simp]:
  "done_req (map_prod id (with_channels c) rd) = map_prod id (with_channels c) (done_req rd)"
  "again_after n (map_prod id (with_channels c) rd1) = map_prod id (with_channels c) (again_after n rd1)"
  by (auto simp: done_req_def again_after_def split: prod.splits sum.splits)

lemma audio_step_with_channels:
  "audio_step (with_channels c d) = map_prod id (with_channels c) (audio_step d)"
  by (simp add: audio_step_def Let_def split: option.split)

lemma parse_audio_with_channels:
  "parse_audio (with_channels c d) = map_prod id (with_channels c) (parse_audio d)"
proof (induction d rule: parse_audio.induct)
  case (1 d)
  obtain oc d1 where s: "audio_step d = (oc, d1)" by (cases "audio_step d")
  with 1 show ?case
    by (cases oc) (simp_all add: parse_audio.simps [of d] parse_audio.simps [of "with_channels c d"]
        audio_step_with_channels)
qed

lemma parse_meter_with_channels:
  "parse_meter (with_channels c d) = map_prod id (with_channels c) (parse_meter d)"
  by (simp add: parse_meter_def Let_def split: option.split sum.split)

lemma drain_audio_with_channels:
  "drain_audio_requests (with_channels c d) rs = map_prod id (with_channels c) (drain_audio_requests d rs)"
proof (induction d rs rule: drain_audio_requests.induct)
  case (1 d rs)
  obtain p d1 where p: "parse_audio d = (p, d1)" by (cases "parse_audio d")
  with 1 show ?case
    by (cases p rule: result_option_cases)
      (simp_all add: drain_audio_requests.simps [of d] drain_audio_requests.simps [of "with_channels c d"]
        parse_audio_with_channels)
qed

lemma drain_meter_with_channels:
  "drain_meter_requests (with_channels c d) rs = map_prod id (with_channels c) (drain_meter_requests d rs)"
proof (induction d rs rule: drain_meter_requests.induct)
  case (1 d rs)
  obtain p d1 where p: "parse_meter d = (p, d1)" by (cases "parse_meter d")
  with 1 show ?case
    by (cases p rule: result_option_cases)
      (simp_all add: drain_meter_requests.simps [of d] drain_meter_requests.simps [of "with_channels c d"]
        parse_meter_with_channels)
qed

lemma handle_event_with_channels:
  "handle_event (with_channels c d) rs ev = map_prod id (with_channels c) (handle_event d rs ev)"
  by (auto simp: handle_event_def Let_def flush_meter_renewal_def drain_audio_with_channels
      drain_meter_with_channels split: ChannelEvent.splits sum.splits)

lemma run_events_with_channels:
  "run_events (with_channels c d) rs evs = map_prod id (with_channels c) (run_events d rs evs)"
  by (induction evs arbitrary: d rs)
    (auto simp: handle_event_with_channels split: prod.splits sum.splits)

text \<open>What was already collected is only ever appended to.\<close>

lemma drain_audio_prefix:
  "drain_audio_requests d (pre @ rs) = (case drain_audio_requests d rs of
     (Inl e, d') \<Rightarrow> (Inl e, d') | (Inr rs', d') \<Rightarrow> (Inr (pre @ rs'), d'))"
proof (induction d rs rule: drain_audio_requests.induct)
  case (1 d rs)
  obtain p d1 where p: "parse_audio d = (p, d1)" by (cases "parse_audio d")
  with 1 show ?case
    by (cases p rule: result_option_cases)
      (simp_all add: drain_audio_requests.simps [of d])
qed

lemma drain_meter_prefix:
  "drain_meter_requests d (pre @ rs) = (case drain_meter_requests d rs of
     (Inl e, d') \<Rightarrow> (Inl e, d') | (Inr rs', d') \<Rightarrow> (Inr (pre @ rs'), d'))"
proof (induction d rs rule: drain_meter_requests.induct)
  case (1 d rs)
  obtain p d1 where p: "parse_meter d = (p, d1)" by (cases "parse_meter d")
  with 1 show ?case
    by (cases p rule: result_option_cases)
      (simp_all add: drain_meter_requests.simps [of d])
qed

lemma handle_event_prefix:
  "handle_event d (pre @ rs) ev = (case handle_event d rs ev of
     (Inl e, d') \<Rightarrow> (Inl e, d') | (Inr rs', d') \<Rightarrow> (Inr (pre @ rs'), d'))"
  by (auto simp: handle_event_def Let_def drain_audio_prefix drain_meter_prefix
      split: ChannelEvent.splits sum.splits prod.splits)

lemma run_events_prefix:
  assumes "run_events d (pre @ rs) evs = (Inr out, d')"
  shows "\<exists>out'. out = pre @ out' \<and> run_events d rs evs = (Inr out', d')"
  using assms
  by (induction evs arbitrary: d rs) (auto simp: handle_event_prefix split: prod.splits sum.splits if_splits)

lemma run_events_append:
  "run_events d rs (xs @ ys) = (case run_events d rs xs of
     (Inl e, d') \<Rightarrow> (Inl e, d') | (Inr rs', d') \<Rightarrow> run_events d' rs' ys)"
  by (induction xs arbitrary: d rs) (auto split: prod.splits sum.splits)

lemma push_events_append:
  assumes "push_events d (xs @ ys) = (Inr out, d')"
  shows "\<exists>o1 d1 o2. push_events d xs = (Inr o1, d1) \<and> push_events d1 ys = (Inr o2, d') \<and>
    out = o1 @ o2"
proof -
  from assms obtain e1 c1 e2 c2 where 1: "push (rq_channels d) xs = (Inr e1, c1)"
    and 2: "push c1 ys = (Inr e2, c2)"
    and run: "run_events (with_channels c2 d) [] (e1 @ e2) = (Inr out, d')"
    by (auto simp: push_events_def push_append with_channels_def split: prod.splits sum.splits)
  from run obtain o1 d1 where r1: "run_events d [] e1 = (Inr o1, d1)"
    and r2: "run_events (with_channels c2 d1) o1 e2 = (Inr out, d')"
    unfolding run_events_append run_events_with_channels [of c2 d]
    by (cases "run_events d [] e1") (auto split: sum.splits)
  from run_events_prefix [of "with_channels c2 d1" o1 "[]"] r2 obtain o2 where
    o2: "out = o1 @ o2" "run_events (with_channels c2 d1) [] e2 = (Inr o2, d')" by (simp, blast)
  have "push_events d xs = (Inr o1, with_channels c1 d1)"
    using 1 r1 run_events_with_channels [of c1 d] by (simp add: push_events_def with_channels_def)
  moreover have "push_events (with_channels c1 d1) ys = (Inr o2, d')"
    using 2 o2(2) by (simp add: push_events_def) (simp add: with_channels_def)
  ultimately show ?thesis using o2(1) by blast
qed

lemma push_requests_append:
  assumes "push_requests d (xs @ ys) = (Inr out, d')"
  shows "\<exists>o1 d1 o2. push_requests d xs = (Inr o1, d1) \<and> push_requests d1 ys = (Inr o2, d') \<and>
    out = o1 @ o2"
proof -
  have "push_events d (xs @ ys) = (Inr out, d')"
    using assms by (auto simp: push_requests_def split: prod.splits sum.splits)
  from push_events_append [OF this] show ?thesis by (auto simp: push_requests_def)
qed

lemma push_requests_concat:
  "push_requests d (concat fragments) = (Inr out, d') \<Longrightarrow>
     feed_chunks push_requests d fragments = (Inr out, d')"
proof (induction fragments arbitrary: d out)
  case Nil
  then show ?case by (simp add: push_requests_def push_events_def)
next
  case (Cons f fs)
  then obtain o1 d1 o2 where "push_requests d f = (Inr o1, d1)"
    "push_requests d1 (concat fs) = (Inr o2, d')" "out = o1 @ o2"
    using push_requests_append [of d f "concat fs" out d'] by auto
  with Cons.IH [of d1 o2] show ?case by simp
qed

section \<open>Properties\<close>

definition sample_limits :: NativeLimits where
  "sample_limits = \<lparr>max_buffered_bytes = 64, max_string_bytes = 16, max_path_elements = 4,
     max_path_bytes = 32, max_definition_bytes = 64, max_batch_requests = 8, max_meter_entries = 4\<rparr>"

definition sample_decoder :: NativeRequestDecoder where
  "sample_decoder = new_decoder sample_limits"

lemma sample_decoder_ok: "decoder_ok sample_decoder" "limits_ok (rq_limits sample_decoder)"
  unfolding sample_decoder_def
  by (rule new_decoder_ok)
    (simp add: limits_ok_def new_decoder_def sample_limits_def usize_max_def)

text \<open>
  C9. Whatever bytes a peer sends, the decoder stays inside its limits: its buffers, its
  navigation path and the running count of path bytes respect \<open>NativeLimits\<close>, at most one
  incomplete audio token (never more than 257 bytes) is held back, every request handed to the
  server is within the limits and a batch has at most \<open>max_batch_requests\<close> of them. The only
  error is \<open>InvalidData\<close>, and it leaves a freshly reset decoder.
\<close>
theorem push_requests_bounded:
  assumes "decoder_ok d" and "limits_ok (rq_limits d)" and "push_requests d input = (r, d')"
  shows "decoder_ok d' \<and> rq_limits d' = rq_limits d \<and> length (rq_audio d') \<le> 257 \<and>
    (case r of
       Inl e \<Rightarrow> e = InvalidData \<and> d' = new_decoder (rq_limits d)
     | Inr rs \<Rightarrow> length rs \<le> max_batch_requests (rq_limits d) \<and>
         list_all (request_ok (rq_limits d)) rs)"
proof -
  obtain q c where p: "push (rq_channels d) input = (q, c)" by (cases "push (rq_channels d) input")
  have ch: "channel_ok (cd_channel c)"
    and q: "case q of Inl e \<Rightarrow> e = InvalidData | Inr evs \<Rightarrow> list_all event_ok evs"
    using push_ok [OF p] assms(1) by (auto simp: decoder_ok_def)
  have "r = Inl InvalidData \<and> d' = new_decoder (rq_limits d) \<or>
    (\<exists>rs. r = Inr rs \<and> decoder_ok d' \<and> rq_limits d' = rq_limits d \<and>
       length rs \<le> max_batch_requests (rq_limits d) \<and> list_all (request_ok (rq_limits d)) rs)"
  proof (cases q)
    case (Inl e)
    with q p assms(3) show ?thesis
      by (auto simp: push_requests_def push_events_def reset_decoder_def)
  next
    case (Inr evs)
    let ?d = "with_channels c d"
    obtain r1 d1 where run: "run_events ?d [] evs = (r1, d1)" by (cases "run_events ?d [] evs")
    have ok: "decoder_ok ?d" using assms(1) ch by (simp add: decoder_ok_def path_ok_def)
    have "good_run ?d r1 d1 \<and> (\<forall>rs. r1 = Inr rs \<longrightarrow> length rs \<le> max_batch_requests (rq_limits ?d))"
      by (rule run_events_good [OF ok _ _ _ run]) (use assms(2) q Inr in simp_all)
    then show ?thesis
      using assms(3) p Inr run
      by (cases r1) (auto simp: push_requests_def push_events_def reset_decoder_def good_run_def
          with_channels_def [symmetric])
  qed
  then show ?thesis
    using new_decoder_ok [of "rq_limits d"]
    by (auto simp: decoder_ok_def new_decoder_def dest: token_incomplete_bound)
qed

theorem push_requests_bounded_witness:
  "(case push_requests sample_decoder [0xdf, 0xd1, 0xc1, 0x63, 0x68, 0xdc, 0xd1] of
      (r, d') \<Rightarrow> decoder_ok d' \<and> length (rq_audio d') \<le> 257 \<and>
        r = Inr [KeepAlive 1, BulkData [Name ''ch'']])"
proof -
  obtain r d' where p: "push_requests sample_decoder [0xdf, 0xd1, 0xc1, 0x63, 0x68, 0xdc, 0xd1] = (r, d')"
    by (cases "push_requests sample_decoder [0xdf, 0xd1, 0xc1, 0x63, 0x68, 0xdc, 0xd1]")
  moreover have "fst (push_requests sample_decoder [0xdf, 0xd1, 0xc1, 0x63, 0x68, 0xdc, 0xd1])
      = Inr [KeepAlive 1, BulkData [Name ''ch'']]"
    by code_simp
  ultimately show ?thesis using push_requests_bounded [OF sample_decoder_ok p] by simp
qed

text \<open>
  Fragmentation is harmless: if a stream decodes in one call, then cutting it into any
  fragments decodes it to the same requests in the same order and the same final state. (The
  batch ceiling is per call, so a stream that exceeds it in one call may still pass in several.)
\<close>
theorem push_requests_fragmented:
  assumes "push_requests d (concat fragments) = (Inr requests, d')"
  shows "feed_chunks push_requests d fragments = (Inr requests, d')"
  using assms by (rule push_requests_concat)

theorem push_requests_fragmented_witness:
  "fst (feed_chunks push_requests sample_decoder
     [[0xdf], [0xd1, 0xd7, 0, 0], [0, 5, 0xdf], [0xde], [], [0xdc]]) =
   Inr [KeepAlive 1, Unknown 1 0xdf, Get 5]"
proof -
  let ?s = "[0xdf, 0xd1, 0xd7, 0, 0, 0, 5, 0xdf, 0xde, 0xdc] :: byte list"
  have "fst (push_requests sample_decoder ?s) = Inr [KeepAlive 1, Unknown 1 0xdf, Get 5]"
    by code_simp
  then obtain d' where "push_requests sample_decoder ?s = (Inr [KeepAlive 1, Unknown 1 0xdf, Get 5], d')"
    by (cases "push_requests sample_decoder ?s") auto
  with push_requests_fragmented [of sample_decoder
      "[[0xdf], [0xd1, 0xd7, 0, 0], [0, 5, 0xdf], [0xde], [], [0xdc]]"]
  show ?thesis by simp
qed

end
