(* ===== verification/NodeDef.thy ===== *)
theory NodeDef
  imports Rust_Str
begin

text \<open>
  Node definitions (\<open>src/node.rs\<close>): the \<open>WingNodeDef\<close> record, its wire serialization
  \<open>to_wire_bytes\<close> and the bounds-checked parser \<open>from_bytes_inner\<close>, with the cursor readers
  \<open>take\<close>, \<open>read_u8\<close>, \<open>read_u16\<close>, \<open>read_i32\<close>, \<open>read_f32\<close> and \<open>read_string\<close>.
\<close>

section \<open>Data\<close>

datatype NodeType =
    NodeT | LinearFloat | LogarithmicFloat | FaderLevel | IntegerT | StringEnumT | FloatEnumT
  | StringT | UnknownT byte

datatype NodeUnit =
    UnitNone | Db | Percent | Milliseconds | Hertz | Meters | Seconds | Octaves | UnknownU byte

record StringEnumItem =
  se_item :: string
  se_long_item :: string

record FloatEnumItem =
  fe_item :: f32
  fe_long_item :: string

record WingNodeDef =
  nd_id :: i32
  nd_parent_id :: i32
  nd_index :: u16
  nd_name :: string
  nd_long_name :: string
  nd_node_type :: NodeType
  nd_unit :: NodeUnit
  nd_read_only :: bool
  nd_min_float :: "f32 option"
  nd_max_float :: "f32 option"
  nd_steps :: "i32 option"
  nd_min_int :: "i32 option"
  nd_max_int :: "i32 option"
  nd_max_string_len :: "u16 option"
  nd_string_enum :: "StringEnumItem list option"
  nd_float_enum :: "FloatEnumItem list option"
  nd_raw :: "byte list"

section \<open>Serialization\<close>

definition push_short_string :: "byte list \<Rightarrow> string \<Rightarrow> byte list result" where
  "push_short_string raw value =
     (if length value > 255 then Inl InvalidInput
      else Inr (raw @ [word_of_nat (length value)] @ as_bytes value))"

fun node_type_nibble :: "NodeType \<Rightarrow> byte" where
  "node_type_nibble NodeT = 0"
| "node_type_nibble LinearFloat = 1"
| "node_type_nibble LogarithmicFloat = 2"
| "node_type_nibble FaderLevel = 3"
| "node_type_nibble IntegerT = 4"
| "node_type_nibble StringEnumT = 5"
| "node_type_nibble FloatEnumT = 6"
| "node_type_nibble StringT = 7"
| "node_type_nibble (UnknownT value) = and value 0x0f"

fun node_unit_nibble :: "NodeUnit \<Rightarrow> byte" where
  "node_unit_nibble UnitNone = 0"
| "node_unit_nibble Db = 1"
| "node_unit_nibble Percent = 2"
| "node_unit_nibble Milliseconds = 3"
| "node_unit_nibble Hertz = 4"
| "node_unit_nibble Meters = 5"
| "node_unit_nibble Seconds = 6"
| "node_unit_nibble Octaves = 7"
| "node_unit_nibble (UnknownU value) = and value 0x0f"

definition wire_flags :: "WingNodeDef \<Rightarrow> u16" where
  "wire_flags d =
     (let flags = or (push_bit 4 (ucast (node_type_nibble (nd_node_type d))))
                     (ucast (node_unit_nibble (nd_unit d)))
      in if nd_read_only d then or flags (push_bit 9 1) else flags)"

fun push_string_items :: "byte list \<Rightarrow> StringEnumItem list \<Rightarrow> byte list result" where
  "push_string_items raw [] = Inr raw"
| "push_string_items raw (item # items) =
     and_then (push_short_string raw (se_item item)) (\<lambda>raw.
     and_then (push_short_string raw (se_long_item item)) (\<lambda>raw.
     push_string_items raw items))"

fun push_float_items :: "byte list \<Rightarrow> FloatEnumItem list \<Rightarrow> byte list result" where
  "push_float_items raw [] = Inr raw"
| "push_float_items raw (item # items) =
     and_then (push_short_string (raw @ u32_be (fe_item item)) (fe_long_item item)) (\<lambda>raw.
     push_float_items raw items)"

definition count_u16 :: "nat \<Rightarrow> u16 result" where
  "count_u16 n = (if n < 65536 then Inr (word_of_nat n) else Inl InvalidInput)"

definition push_type_payload :: "byte list \<Rightarrow> WingNodeDef \<Rightarrow> byte list result" where
  "push_type_payload raw d =
     (case nd_node_type d of
        NodeT \<Rightarrow> Inr raw
      | UnknownT _ \<Rightarrow> Inr raw
      | StringT \<Rightarrow>
          and_then (ok_or (nd_max_string_len d) InvalidInput) (\<lambda>n. Inr (raw @ u16_be n))
      | LinearFloat \<Rightarrow>
          and_then (ok_or (nd_min_float d) InvalidInput) (\<lambda>lo.
          and_then (ok_or (nd_max_float d) InvalidInput) (\<lambda>hi.
          and_then (ok_or (nd_steps d) InvalidInput) (\<lambda>st.
          Inr (raw @ u32_be lo @ u32_be hi @ u32_be st))))
      | LogarithmicFloat \<Rightarrow>
          and_then (ok_or (nd_min_float d) InvalidInput) (\<lambda>lo.
          and_then (ok_or (nd_max_float d) InvalidInput) (\<lambda>hi.
          and_then (ok_or (nd_steps d) InvalidInput) (\<lambda>st.
          Inr (raw @ u32_be lo @ u32_be hi @ u32_be st))))
      | FaderLevel \<Rightarrow>
          (case (nd_min_float d, nd_max_float d, nd_steps d) of
             (Some lo, Some hi, Some st) \<Rightarrow> Inr (raw @ u32_be lo @ u32_be hi @ u32_be st)
           | (None, None, None) \<Rightarrow> Inr raw
           | _ \<Rightarrow> Inl InvalidInput)
      | IntegerT \<Rightarrow>
          and_then (ok_or (nd_min_int d) InvalidInput) (\<lambda>lo.
          and_then (ok_or (nd_max_int d) InvalidInput) (\<lambda>hi.
          Inr (raw @ u32_be lo @ u32_be hi)))
      | StringEnumT \<Rightarrow>
          and_then (ok_or (nd_string_enum d) InvalidInput) (\<lambda>items.
          and_then (count_u16 (length items)) (\<lambda>count.
          push_string_items (raw @ u16_be count) items))
      | FloatEnumT \<Rightarrow>
          and_then (ok_or (nd_float_enum d) InvalidInput) (\<lambda>items.
          and_then (count_u16 (length items)) (\<lambda>count.
          push_float_items (raw @ u16_be count) items)))"

definition to_wire_bytes :: "WingNodeDef \<Rightarrow> byte list result" where
  "to_wire_bytes d =
     (let raw = u32_be (nd_parent_id d) @ u32_be (nd_id d) @ u16_be (nd_index d) in
      and_then (push_short_string raw (nd_name d)) (\<lambda>raw.
      and_then (push_short_string raw (nd_long_name d)) (\<lambda>raw.
      push_type_payload (raw @ u16_be (wire_flags d)) d)))"

section \<open>Parsing\<close>

definition take_bytes :: "byte list \<Rightarrow> nat \<Rightarrow> nat \<Rightarrow> (byte list \<times> nat) result" where
  "take_bytes raw i len =
     (if length raw - i < len then Inl InvalidData
      else Inr (take len (drop i raw), i + len))"

definition read_u8 :: "(error, byte) reader" where
  "read_u8 raw i = and_then (take_bytes raw i 1) (\<lambda>(bytes, i). Inr (bytes ! 0, i))"

definition read_u16 :: "(error, u16) reader" where
  "read_u16 raw i = and_then (take_bytes raw i 2) (\<lambda>(bytes, i). Inr (u16_from_be bytes, i))"

definition read_i32 :: "(error, i32) reader" where
  "read_i32 raw i = and_then (take_bytes raw i 4) (\<lambda>(bytes, i). Inr (u32_from_be bytes, i))"

definition read_f32 :: "(error, f32) reader" where
  "read_f32 raw i = and_then (take_bytes raw i 4) (\<lambda>(bytes, i). Inr (u32_from_be bytes, i))"

definition read_string :: "nat \<Rightarrow> (error, string) reader" where
  "read_string len raw i =
     and_then (take_bytes raw i len) (\<lambda>(bytes, i).
     and_then (ok_or (from_utf8 bytes) InvalidData) (\<lambda>s. Inr (s, i)))"

text \<open>The length byte followed by the string, as every string field of a definition is read.\<close>

definition read_short_string :: "(error, string) reader" where
  "read_short_string raw i =
     and_then (read_u8 raw i) (\<lambda>(len, i). read_string (unat len) raw i)"

definition read_string_item :: "(error, StringEnumItem) reader" where
  "read_string_item raw i =
     and_then (read_short_string raw i) (\<lambda>(item, i).
     and_then (read_short_string raw i) (\<lambda>(long_item, i).
     Inr (\<lparr>se_item = item, se_long_item = long_item\<rparr>, i)))"

definition read_float_item :: "(error, FloatEnumItem) reader" where
  "read_float_item raw i =
     and_then (read_f32 raw i) (\<lambda>(item, i).
     and_then (read_short_string raw i) (\<lambda>(long_item, i).
     Inr (\<lparr>fe_item = item, fe_long_item = long_item\<rparr>, i)))"

definition node_type_of_nibble :: "byte \<Rightarrow> NodeType" where
  "node_type_of_nibble n =
     (if n = 0 then NodeT else if n = 1 then LinearFloat else if n = 2 then LogarithmicFloat
      else if n = 3 then FaderLevel else if n = 4 then IntegerT else if n = 5 then StringEnumT
      else if n = 6 then FloatEnumT else if n = 7 then StringT else UnknownT n)"

definition node_unit_of_nibble :: "byte \<Rightarrow> NodeUnit" where
  "node_unit_of_nibble n =
     (if n = 0 then UnitNone else if n = 1 then Db else if n = 2 then Percent
      else if n = 3 then Milliseconds else if n = 4 then Hertz else if n = 5 then Meters
      else if n = 6 then Seconds else if n = 7 then Octaves else UnknownU n)"

definition read_float_range ::
  "WingNodeDef \<Rightarrow> (error, WingNodeDef) reader" where
  "read_float_range d raw i =
     and_then (read_f32 raw i) (\<lambda>(lo, i).
     and_then (read_f32 raw i) (\<lambda>(hi, i).
     and_then (read_i32 raw i) (\<lambda>(st, i).
     Inr (d\<lparr>nd_min_float := Some lo, nd_max_float := Some hi, nd_steps := Some st\<rparr>, i))))"

definition read_type_payload :: "WingNodeDef \<Rightarrow> (error, WingNodeDef) reader" where
  "read_type_payload d raw i =
     (case nd_node_type d of
        NodeT \<Rightarrow> Inr (d, i)
      | UnknownT _ \<Rightarrow> Inr (d, i)
      | StringT \<Rightarrow>
          and_then (read_u16 raw i) (\<lambda>(n, i). Inr (d\<lparr>nd_max_string_len := Some n\<rparr>, i))
      | LinearFloat \<Rightarrow> read_float_range d raw i
      | LogarithmicFloat \<Rightarrow> read_float_range d raw i
      | FaderLevel \<Rightarrow>
          if length raw - i \<ge> 12 then read_float_range d raw i else Inr (d, i)
      | IntegerT \<Rightarrow>
          and_then (read_i32 raw i) (\<lambda>(lo, i).
          and_then (read_i32 raw i) (\<lambda>(hi, i).
          Inr (d\<lparr>nd_min_int := Some lo, nd_max_int := Some hi\<rparr>, i)))
      | StringEnumT \<Rightarrow>
          and_then (read_u16 raw i) (\<lambda>(num, i).
          and_then (read_items read_string_item (unat num) raw i) (\<lambda>(items, i).
          Inr (d\<lparr>nd_string_enum := Some items\<rparr>, i)))
      | FloatEnumT \<Rightarrow>
          and_then (read_u16 raw i) (\<lambda>(num, i).
          and_then (read_items read_float_item (unat num) raw i) (\<lambda>(items, i).
          Inr (d\<lparr>nd_float_enum := Some items\<rparr>, i))))"

definition read_header :: "(error, WingNodeDef) reader" where
  "read_header raw i =
     and_then (read_i32 raw i) (\<lambda>(parent_id, i).
     and_then (read_i32 raw i) (\<lambda>(id, i).
     and_then (read_u16 raw i) (\<lambda>(index, i).
     and_then (read_short_string raw i) (\<lambda>(name, i).
     and_then (read_short_string raw i) (\<lambda>(long_name, i).
     and_then (read_u16 raw i) (\<lambda>(flags, i).
     Inr (\<lparr>nd_id = id, nd_parent_id = parent_id, nd_index = index, nd_name = name,
           nd_long_name = long_name,
           nd_node_type = node_type_of_nibble (ucast (and (drop_bit 4 flags) 0x0f)),
           nd_unit = node_unit_of_nibble (ucast (and flags 0x0f)),
           nd_read_only = (and (drop_bit 9 flags) 1 \<noteq> 0),
           nd_min_float = None, nd_max_float = None, nd_steps = None, nd_min_int = None,
           nd_max_int = None, nd_max_string_len = None, nd_string_enum = None,
           nd_float_enum = None, nd_raw = []\<rparr>, i)))))))"

definition from_bytes_inner :: "byte list \<Rightarrow> bool \<Rightarrow> WingNodeDef result" where
  "from_bytes_inner raw keep_raw =
     and_then (read_header raw 0) (\<lambda>(d, i).
     and_then (read_type_payload d raw i) (\<lambda>(d, i).
     Inr (d\<lparr>nd_raw := if keep_raw then raw else []\<rparr>)))"

definition from_bytes :: "byte list \<Rightarrow> WingNodeDef result" where
  "from_bytes raw = from_bytes_inner raw True"

definition from_bytes_without_raw :: "byte list \<Rightarrow> WingNodeDef result" where
  "from_bytes_without_raw raw = from_bytes_inner raw False"

section \<open>Readers against their encoders\<close>

definition short_string_bytes :: "string \<Rightarrow> byte list" where
  "short_string_bytes s = word_of_nat (length s) # as_bytes s"

definition short_ok :: "string \<Rightarrow> bool" where
  "short_ok s \<longleftrightarrow> is_str s \<and> length s \<le> 255"

lemma take_bytes_at:
  "take_bytes (pre @ bs @ post) (length pre) (length bs) = Inr (bs, length pre + length bs)"
  by (simp add: take_bytes_def)

lemma take_bytes_at':
  "length bs = n \<Longrightarrow> take_bytes (pre @ bs @ post) (length pre) n = Inr (bs, length pre + n)"
  by (metis take_bytes_at)

lemma read_u8_at: "read_u8 (pre @ [b] @ post) (length pre) = Inr (b, length pre + 1)"
  using take_bytes_at [of pre "[b]" post] by (simp add: read_u8_def)

interpretation u8: cursor_codec "\<lambda>_. True" "\<lambda>b. [b]" read_u8
  by unfold_locales (use read_u8_at in simp)

interpretation u16: cursor_codec "\<lambda>_. True" u16_be read_u16
  by unfold_locales (simp add: read_u16_def take_bytes_at')

interpretation i32: cursor_codec "\<lambda>_. True" u32_be read_i32
  by unfold_locales (simp add: read_i32_def take_bytes_at')

interpretation f32: cursor_codec "\<lambda>_. True" u32_be read_f32
  by unfold_locales (simp add: read_f32_def take_bytes_at')

lemma read_short_string_at:
  assumes "short_ok s"
  shows "read_short_string (pre @ short_string_bytes s @ post) (length pre)
    = Inr (s, length pre + length (short_string_bytes s))"
proof -
  let ?n = "word_of_nat (length s) :: byte"
  have n: "unat ?n = length s" using assms by (simp add: short_ok_def unat_of_nat_u8)
  have 1: "read_u8 (pre @ short_string_bytes s @ post) (length pre) = Inr (?n, length pre + 1)"
    using read_u8_at [of pre ?n "as_bytes s @ post"] by (simp add: short_string_bytes_def)
  have "take_bytes ((pre @ [?n]) @ as_bytes s @ post) (length (pre @ [?n])) (length s)
      = Inr (as_bytes s, length (pre @ [?n]) + length s)"
    by (rule take_bytes_at') simp
  with 1 n assms show ?thesis
    by (simp add: read_short_string_def read_string_def short_string_bytes_def short_ok_def)
qed

interpretation short: cursor_codec short_ok short_string_bytes read_short_string
  by unfold_locales (rule read_short_string_at)

definition string_item_bytes :: "StringEnumItem \<Rightarrow> byte list" where
  "string_item_bytes it = short_string_bytes (se_item it) @ short_string_bytes (se_long_item it)"

definition float_item_bytes :: "FloatEnumItem \<Rightarrow> byte list" where
  "float_item_bytes it = u32_be (fe_item it) @ short_string_bytes (fe_long_item it)"

definition string_item_ok :: "StringEnumItem \<Rightarrow> bool" where
  "string_item_ok it \<longleftrightarrow> short_ok (se_item it) \<and> short_ok (se_long_item it)"

definition float_item_ok :: "FloatEnumItem \<Rightarrow> bool" where
  "float_item_ok it \<longleftrightarrow> short_ok (fe_long_item it)"

interpretation string_item: cursor_codec string_item_ok string_item_bytes read_string_item
proof unfold_locales
  fix x pre post assume "string_item_ok x"
  then have a: "short_ok (se_item x)" and b: "short_ok (se_long_item x)"
    by (simp_all add: string_item_ok_def)
  let ?a = "short_string_bytes (se_item x)" and ?b = "short_string_bytes (se_long_item x)"
  have "read_short_string (pre @ ?a @ ?b @ post) (length pre) = Inr (se_item x, length pre + length ?a)"
    using short.rd_enc [OF a, of pre "?b @ post"] by simp
  moreover have "read_short_string ((pre @ ?a) @ ?b @ post) (length (pre @ ?a))
      = Inr (se_long_item x, length (pre @ ?a) + length ?b)"
    by (rule short.rd_enc [OF b])
  ultimately show "read_string_item (pre @ string_item_bytes x @ post) (length pre)
      = Inr (x, length pre + length (string_item_bytes x))"
    by (simp add: read_string_item_def string_item_bytes_def)
qed

interpretation float_item: cursor_codec float_item_ok float_item_bytes read_float_item
proof unfold_locales
  fix x pre post assume "float_item_ok x"
  then have b: "short_ok (fe_long_item x)" by (simp add: float_item_ok_def)
  let ?a = "u32_be (fe_item x)" and ?b = "short_string_bytes (fe_long_item x)"
  have "read_f32 (pre @ ?a @ ?b @ post) (length pre) = Inr (fe_item x, length pre + 4)"
    using f32.rd_enc [where x = "fe_item x" and pre = pre and post = "?b @ post"] by simp
  moreover have "read_short_string ((pre @ ?a) @ ?b @ post) (length (pre @ ?a))
      = Inr (fe_long_item x, length (pre @ ?a) + length ?b)"
    by (rule short.rd_enc [OF b])
  ultimately show "read_float_item (pre @ float_item_bytes x @ post) (length pre)
      = Inr (x, length pre + length (float_item_bytes x))"
    by (simp add: read_float_item_def float_item_bytes_def)
qed

section \<open>Well-formed definitions\<close>

definition blank :: "WingNodeDef \<Rightarrow> WingNodeDef" where
  "blank d = d\<lparr>nd_min_float := None, nd_max_float := None, nd_steps := None, nd_min_int := None,
     nd_max_int := None, nd_max_string_len := None, nd_string_enum := None, nd_float_enum := None\<rparr>"

definition with_range :: "WingNodeDef \<Rightarrow> WingNodeDef" where
  "with_range d = (blank d)\<lparr>nd_min_float := nd_min_float d, nd_max_float := nd_max_float d,
     nd_steps := nd_steps d\<rparr>"

definition range_some :: "WingNodeDef \<Rightarrow> bool" where
  "range_some d \<longleftrightarrow> nd_min_float d \<noteq> None \<and> nd_max_float d \<noteq> None \<and> nd_steps d \<noteq> None"

text \<open>
  The type-specific metadata a definition of each type carries: exactly the fields of its type
  (a fader's range is optional as a whole), enum lists short enough for their count and
  strings short enough for their length byte.
\<close>

definition fields_ok :: "WingNodeDef \<Rightarrow> bool" where
  "fields_ok d \<longleftrightarrow>
     (case nd_node_type d of
        NodeT \<Rightarrow> d = blank d
      | UnknownT n \<Rightarrow> 8 \<le> n \<and> n \<le> 15 \<and> d = blank d
      | StringT \<Rightarrow> nd_max_string_len d \<noteq> None \<and>
          d = (blank d)\<lparr>nd_max_string_len := nd_max_string_len d\<rparr>
      | LinearFloat \<Rightarrow> range_some d \<and> d = with_range d
      | LogarithmicFloat \<Rightarrow> range_some d \<and> d = with_range d
      | FaderLevel \<Rightarrow> d = blank d \<or> range_some d \<and> d = with_range d
      | IntegerT \<Rightarrow> nd_min_int d \<noteq> None \<and> nd_max_int d \<noteq> None \<and>
          d = (blank d)\<lparr>nd_min_int := nd_min_int d, nd_max_int := nd_max_int d\<rparr>
      | StringEnumT \<Rightarrow>
          (case nd_string_enum d of None \<Rightarrow> False
           | Some items \<Rightarrow> length items < 65536 \<and> list_all string_item_ok items) \<and>
          d = (blank d)\<lparr>nd_string_enum := nd_string_enum d\<rparr>
      | FloatEnumT \<Rightarrow>
          (case nd_float_enum d of None \<Rightarrow> False
           | Some items \<Rightarrow> length items < 65536 \<and> list_all float_item_ok items) \<and>
          d = (blank d)\<lparr>nd_float_enum := nd_float_enum d\<rparr>)"

definition unit_ok :: "NodeUnit \<Rightarrow> bool" where
  "unit_ok u \<longleftrightarrow> (case u of UnknownU n \<Rightarrow> 8 \<le> n \<and> n \<le> 15 | _ \<Rightarrow> True)"

definition def_ok :: "WingNodeDef \<Rightarrow> bool" where
  "def_ok d \<longleftrightarrow> short_ok (nd_name d) \<and> short_ok (nd_long_name d) \<and> unit_ok (nd_unit d) \<and> fields_ok d"

section \<open>The bytes of a definition\<close>

definition header_bytes :: "WingNodeDef \<Rightarrow> byte list" where
  "header_bytes d = u32_be (nd_parent_id d) @ u32_be (nd_id d) @ u16_be (nd_index d) @
     short_string_bytes (nd_name d) @ short_string_bytes (nd_long_name d) @ u16_be (wire_flags d)"

definition range_bytes :: "WingNodeDef \<Rightarrow> byte list" where
  "range_bytes d = u32_be (the (nd_min_float d)) @ u32_be (the (nd_max_float d)) @ u32_be (the (nd_steps d))"

definition payload_bytes :: "WingNodeDef \<Rightarrow> byte list" where
  "payload_bytes d =
     (case nd_node_type d of
        NodeT \<Rightarrow> []
      | UnknownT _ \<Rightarrow> []
      | StringT \<Rightarrow> u16_be (the (nd_max_string_len d))
      | LinearFloat \<Rightarrow> range_bytes d
      | LogarithmicFloat \<Rightarrow> range_bytes d
      | FaderLevel \<Rightarrow> if range_some d then range_bytes d else []
      | IntegerT \<Rightarrow> u32_be (the (nd_min_int d)) @ u32_be (the (nd_max_int d))
      | StringEnumT \<Rightarrow> (let items = the (nd_string_enum d) in
          u16_be (word_of_nat (length items)) @ concat (map string_item_bytes items))
      | FloatEnumT \<Rightarrow> (let items = the (nd_float_enum d) in
          u16_be (word_of_nat (length items)) @ concat (map float_item_bytes items)))"

lemma push_short_string_ok:
  "length s \<le> 255 \<Longrightarrow> push_short_string raw s = Inr (raw @ short_string_bytes s)"
  by (simp add: push_short_string_def short_string_bytes_def)

lemma push_string_items_ok:
  "list_all string_item_ok items \<Longrightarrow>
     push_string_items raw items = Inr (raw @ concat (map string_item_bytes items))"
  by (induction items arbitrary: raw)
    (simp_all add: string_item_ok_def short_ok_def push_short_string_ok string_item_bytes_def)

lemma push_float_items_ok:
  "list_all float_item_ok items \<Longrightarrow>
     push_float_items raw items = Inr (raw @ concat (map float_item_bytes items))"
  by (induction items arbitrary: raw)
    (simp_all add: float_item_ok_def short_ok_def push_short_string_ok float_item_bytes_def)

lemma eq_blank_iff:
  "d = blank d \<longleftrightarrow> nd_min_float d = None \<and> nd_max_float d = None \<and> nd_steps d = None \<and>
     nd_min_int d = None \<and> nd_max_int d = None \<and> nd_max_string_len d = None \<and>
     nd_string_enum d = None \<and> nd_float_enum d = None"
  by (cases d) (simp add: blank_def)

lemma push_type_payload_ok:
  assumes "fields_ok d"
  shows "push_type_payload raw d = Inr (raw @ payload_bytes d)"
proof (cases "nd_node_type d")
  case FaderLevel
  with assms have "d = blank d \<or> range_some d" by (auto simp: fields_ok_def)
  with FaderLevel show ?thesis
    by (auto simp: push_type_payload_def payload_bytes_def range_some_def range_bytes_def eq_blank_iff)
qed (use assms in \<open>auto simp: push_type_payload_def payload_bytes_def fields_ok_def range_some_def
      range_bytes_def count_u16_def push_string_items_ok push_float_items_ok Let_def
      split: option.splits\<close>)

lemma to_wire_bytes_ok:
  assumes "def_ok d"
  shows "to_wire_bytes d = Inr (header_bytes d @ payload_bytes d)"
  using assms
  by (simp add: to_wire_bytes_def def_ok_def short_ok_def push_short_string_ok header_bytes_def
      push_type_payload_ok)

section \<open>Flags\<close>

lemma and_15_eq: "and x 15 = take_bit 4 (x :: 'a::len word)"
proof -
  have "mask 4 = (15 :: 'a word)" by (simp add: mask_eq_exp_minus_1)
  then show ?thesis by (metis take_bit_eq_mask)
qed

lemma nibble_le_15:
  assumes "n \<le> (15 :: byte)"
  shows "take_bit 4 n = n"
proof -
  have "unat n \<le> 15" using assms by (simp add: word_le_nat_alt)
  then have "unat (take_bit 4 n) = unat n"
    by (simp add: unsigned_take_bit_eq take_bit_nat_eq_self_iff)
  then show ?thesis by (simp add: word_unat_eq_iff)
qed

lemma nibble_bound: "and n 15 \<le> (15 :: byte)"
  by (rule word_and_le1)

lemma type_nibble_le: "node_type_nibble t \<le> 15"
  by (cases t) (simp_all add: nibble_bound)

lemma unit_nibble_le: "node_unit_nibble u \<le> 15"
  by (cases u) (simp_all add: nibble_bound)

lemma bit_nibble: "take_bit 4 n = n \<Longrightarrow> bit (n :: byte) k \<Longrightarrow> k < 4"
  by (metis bit_take_bit_iff)

lemma bit_512 [simp]: "bit (512 :: u16) n \<longleftrightarrow> n = 9"
proof -
  have "bit (2 ^ 9 :: u16) n \<longleftrightarrow> n = 9" by (auto simp only: bit_exp_iff possible_bit_word) simp_all
  then show ?thesis by simp
qed

lemma bit_512_int [simp]: "bit (512 :: int) n \<longleftrightarrow> n = 9" "bit (512 :: nat) n \<longleftrightarrow> n = 9"
proof -
  have "bit (2 ^ 9 :: int) n \<longleftrightarrow> n = 9" "bit (2 ^ 9 :: nat) n \<longleftrightarrow> n = 9"
    by (auto simp only: bit_exp_iff possible_bit_int possible_bit_nat)
  then show "bit (512 :: int) n \<longleftrightarrow> n = 9" "bit (512 :: nat) n \<longleftrightarrow> n = 9" by simp_all
qed

lemma flags_type_nibble:
  fixes a b :: byte
  assumes "take_bit 4 a = a" and "take_bit 4 b = b"
  shows "ucast (and (drop_bit 4 (or (or (push_bit 4 (ucast a)) (ucast b)) (if ro then push_bit 9 1 else 0) :: u16)) 15) = a"
  using bit_nibble [OF assms(1)] bit_nibble [OF assms(2)]
  by (intro bit_word_eqI) (auto simp: and_15_eq bit_simps)

lemma flags_unit_nibble:
  fixes a b :: byte
  assumes "take_bit 4 b = b"
  shows "ucast (and (or (or (push_bit 4 (ucast a)) (ucast b)) (if ro then push_bit 9 1 else 0) :: u16) 15) = b"
  using bit_nibble [OF assms]
  by (intro bit_word_eqI) (auto simp: and_15_eq bit_simps)

lemma flags_read_only:
  fixes a b :: byte
  assumes "take_bit 4 a = a"
  shows "and (drop_bit 9 (or (or (push_bit 4 (ucast a)) (ucast b)) (if ro then push_bit 9 1 else 0) :: u16)) 1 \<noteq> 0 \<longleftrightarrow> ro"
proof -
  have a: "\<not> bit a 5" using bit_nibble [OF assms, of 5] by auto
  have b: "\<not> bit b 9" using bit_imp_le_length [of b 9] by auto
  have "and (x :: u16) 1 \<noteq> 0 \<longleftrightarrow> bit x 0" for x
    by (simp add: and_one_eq odd_iff_mod_2_eq_one bit_0 flip: mod_2_eq_odd)
  then show ?thesis using a b by (simp add: bit_simps)
qed

lemma wire_flags_alt:
  "wire_flags d = or (or (push_bit 4 (ucast (node_type_nibble (nd_node_type d))))
     (ucast (node_unit_nibble (nd_unit d)))) (if nd_read_only d then push_bit 9 1 else 0)"
  by (simp add: wire_flags_def Let_def)

lemma unknown_nibble:
  assumes "8 \<le> n" and "n \<le> (15 :: byte)"
  shows "and n 15 = n" and "n \<noteq> 0" "n \<noteq> 1" "n \<noteq> 2" "n \<noteq> 3" "n \<noteq> 4" "n \<noteq> 5" "n \<noteq> 6" "n \<noteq> 7"
  using assms nibble_le_15 [of n] by (auto simp: and_15_eq)

lemma node_type_of_nibble_nibble:
  "fields_ok d \<Longrightarrow> node_type_of_nibble (node_type_nibble (nd_node_type d)) = nd_node_type d"
  by (cases "nd_node_type d") (auto simp: node_type_of_nibble_def fields_ok_def unknown_nibble)

lemma node_unit_of_nibble_nibble:
  "unit_ok u \<Longrightarrow> node_unit_of_nibble (node_unit_nibble u) = u"
  by (cases u) (auto simp: node_unit_of_nibble_def unit_ok_def unknown_nibble)

section \<open>Parsing what was serialized\<close>

lemma read_header_at:
  assumes "def_ok d"
  shows "read_header (header_bytes d @ post) 0 =
    Inr ((blank d)\<lparr>nd_raw := []\<rparr>, length (header_bytes d))"
proof -
  let ?raw = "header_bytes d @ post"
  let ?n = "short_string_bytes (nd_name d)" and ?l = "short_string_bytes (nd_long_name d)"
  from assms have n: "short_ok (nd_name d)" and l: "short_ok (nd_long_name d)"
    and u: "unit_ok (nd_unit d)" and f: "fields_ok d"
    by (simp_all add: def_ok_def)
  have 1: "read_i32 ?raw 0 = Inr (nd_parent_id d, 4)"
    using i32.rd_prefix [of "nd_parent_id d" 0 ?raw] by (simp add: header_bytes_def)
  have 2: "read_i32 ?raw 4 = Inr (nd_id d, 8)"
    using i32.rd_prefix [of "nd_id d" 4 ?raw] by (simp add: header_bytes_def)
  have 3: "read_u16 ?raw 8 = Inr (nd_index d, 10)"
    using u16.rd_prefix [of "nd_index d" 8 ?raw] by (simp add: header_bytes_def)
  have 4: "read_short_string ?raw 10 = Inr (nd_name d, 10 + length ?n)"
    using short.rd_prefix [OF n, of 10 ?raw] by (simp add: header_bytes_def)
  have 5: "read_short_string ?raw (10 + length ?n) = Inr (nd_long_name d, 10 + length ?n + length ?l)"
    using short.rd_prefix [OF l, of "10 + length ?n" ?raw] by (simp add: header_bytes_def)
  have 6: "read_u16 ?raw (10 + length ?n + length ?l)
      = Inr (wire_flags d, 12 + length ?n + length ?l)"
    using u16.rd_prefix [of "wire_flags d" "10 + length ?n + length ?l" ?raw] by (simp add: header_bytes_def)
  have ty: "node_type_of_nibble (ucast (and (drop_bit 4 (wire_flags d)) 15)) = nd_node_type d"
    using flags_type_nibble nibble_le_15 [OF type_nibble_le] nibble_le_15 [OF unit_nibble_le]
      node_type_of_nibble_nibble [OF f]
    unfolding wire_flags_alt by metis
  have un: "node_unit_of_nibble (ucast (and (wire_flags d) 15)) = nd_unit d"
    using flags_unit_nibble nibble_le_15 [OF unit_nibble_le] node_unit_of_nibble_nibble [OF u]
    unfolding wire_flags_alt by metis
  have ro: "and (drop_bit 9 (wire_flags d)) 1 \<noteq> 0 \<longleftrightarrow> nd_read_only d"
    using flags_read_only [OF nibble_le_15 [OF type_nibble_le]] unfolding wire_flags_alt by blast
  have len: "length (header_bytes d) = 12 + length ?n + length ?l"
    by (simp add: header_bytes_def)
  show ?thesis
    unfolding read_header_def len
    by (simp add: 1 2 3 4 5 6 ty un ro blank_def)
qed

lemma read_float_range_at:
  "read_float_range d (pre @ u32_be lo @ u32_be hi @ u32_be st @ post) (length pre) =
     Inr (d\<lparr>nd_min_float := Some lo, nd_max_float := Some hi, nd_steps := Some st\<rparr>, length pre + 12)"
proof -
  let ?raw = "pre @ u32_be lo @ u32_be hi @ u32_be st @ post"
  have "read_f32 ?raw (length pre) = Inr (lo, length pre + 4)"
    using f32.rd_prefix [of lo "length pre" ?raw] by simp
  moreover have "read_f32 ?raw (length pre + 4) = Inr (hi, length pre + 8)"
    using f32.rd_prefix [of hi "length pre + 4" ?raw] by simp
  moreover have "read_i32 ?raw (length pre + 8) = Inr (st, length pre + 12)"
    using i32.rd_prefix [of st "length pre + 8" ?raw] by simp
  ultimately show ?thesis by (simp add: read_float_range_def)
qed

lemma nd_node_type_blank [simp]: "nd_node_type (blank d) = nd_node_type d"
  by (simp add: blank_def)

lemma range_payload_at:
  assumes "range_some d" and "d = with_range d"
  shows "read_float_range ((blank d)\<lparr>nd_raw := []\<rparr>) (pre @ range_bytes d) (length pre) =
    Inr (d\<lparr>nd_raw := []\<rparr>, length pre + length (range_bytes d))"
proof -
  from assms(1) obtain lo hi st where v: "nd_min_float d = Some lo" "nd_max_float d = Some hi"
    "nd_steps d = Some st" by (auto simp: range_some_def)
  have "read_float_range ((blank d)\<lparr>nd_raw := []\<rparr>) (pre @ range_bytes d) (length pre) =
      Inr ((with_range d)\<lparr>nd_raw := []\<rparr>, length pre + 12)"
    using read_float_range_at [of "(blank d)\<lparr>nd_raw := []\<rparr>" pre lo hi st "[]"] v
    by (simp add: range_bytes_def with_range_def)
  with assms(2) show ?thesis by (simp add: range_bytes_def)
qed

lemma string_enum_payload_at:
  assumes "nd_string_enum d = Some items" "length items < 65536" "list_all string_item_ok items"
    and "nd_node_type d = StringEnumT" and "d = (blank d)\<lparr>nd_string_enum := nd_string_enum d\<rparr>"
  shows "read_type_payload ((blank d)\<lparr>nd_raw := []\<rparr>) (pre @ payload_bytes d) (length pre) =
    Inr (d\<lparr>nd_raw := []\<rparr>, length pre + length (payload_bytes d))"
proof -
  let ?c = "word_of_nat (length items) :: u16"
  let ?bs = "concat (map string_item_bytes items)"
  have p: "payload_bytes d = u16_be ?c @ ?bs"
    using assms by (simp add: payload_bytes_def Let_def)
  have c: "unat ?c = length items" using assms(2) by (rule unat_of_nat_u16)
  have "read_u16 (pre @ u16_be ?c @ ?bs) (length pre) = Inr (?c, length pre + 2)"
    using u16.rd_prefix [of ?c "length pre" "pre @ u16_be ?c @ ?bs"] by simp
  moreover have "read_items read_string_item (length items) (pre @ u16_be ?c @ ?bs) (length pre + 2)
      = Inr (items, length pre + 2 + length ?bs)"
    using string_item.read_items_enc [OF assms(3), of "pre @ u16_be ?c" "[]"] by simp
  moreover have "(blank d)\<lparr>nd_raw := [], nd_string_enum := Some items\<rparr> = d\<lparr>nd_raw := []\<rparr>"
    using assms(1,5) by (cases d) (simp add: blank_def)
  ultimately show ?thesis using assms(4) c
    by (simp add: read_type_payload_def p)
qed

lemma float_enum_payload_at:
  assumes "nd_float_enum d = Some items" "length items < 65536" "list_all float_item_ok items"
    and "nd_node_type d = FloatEnumT" and "d = (blank d)\<lparr>nd_float_enum := nd_float_enum d\<rparr>"
  shows "read_type_payload ((blank d)\<lparr>nd_raw := []\<rparr>) (pre @ payload_bytes d) (length pre) =
    Inr (d\<lparr>nd_raw := []\<rparr>, length pre + length (payload_bytes d))"
proof -
  let ?c = "word_of_nat (length items) :: u16"
  let ?bs = "concat (map float_item_bytes items)"
  have p: "payload_bytes d = u16_be ?c @ ?bs"
    using assms by (simp add: payload_bytes_def Let_def)
  have c: "unat ?c = length items" using assms(2) by (rule unat_of_nat_u16)
  have "read_u16 (pre @ u16_be ?c @ ?bs) (length pre) = Inr (?c, length pre + 2)"
    using u16.rd_prefix [of ?c "length pre" "pre @ u16_be ?c @ ?bs"] by simp
  moreover have "read_items read_float_item (length items) (pre @ u16_be ?c @ ?bs) (length pre + 2)
      = Inr (items, length pre + 2 + length ?bs)"
    using float_item.read_items_enc [OF assms(3), of "pre @ u16_be ?c" "[]"] by simp
  moreover have "(blank d)\<lparr>nd_raw := [], nd_float_enum := Some items\<rparr> = d\<lparr>nd_raw := []\<rparr>"
    using assms(1,5) by (cases d) (simp add: blank_def)
  ultimately show ?thesis using assms(4) c
    by (simp add: read_type_payload_def p)
qed

lemma string_payload_at:
  assumes "nd_node_type d = StringT" "nd_max_string_len d = Some n"
    and "d = (blank d)\<lparr>nd_max_string_len := nd_max_string_len d\<rparr>"
  shows "read_type_payload ((blank d)\<lparr>nd_raw := []\<rparr>) (pre @ payload_bytes d) (length pre) =
    Inr (d\<lparr>nd_raw := []\<rparr>, length pre + length (payload_bytes d))"
proof -
  have "read_u16 (pre @ u16_be n) (length pre) = Inr (n, length pre + 2)"
    using u16.rd_prefix [of n "length pre" "pre @ u16_be n"] by simp
  moreover have "(blank d)\<lparr>nd_raw := [], nd_max_string_len := Some n\<rparr> = d\<lparr>nd_raw := []\<rparr>"
    using assms(2,3) by (cases d) (simp add: blank_def)
  ultimately show ?thesis using assms(1,2) by (simp add: read_type_payload_def payload_bytes_def)
qed

lemma int_payload_at:
  assumes "nd_node_type d = IntegerT" "nd_min_int d = Some lo" "nd_max_int d = Some hi"
    and "d = (blank d)\<lparr>nd_min_int := nd_min_int d, nd_max_int := nd_max_int d\<rparr>"
  shows "read_type_payload ((blank d)\<lparr>nd_raw := []\<rparr>) (pre @ payload_bytes d) (length pre) =
    Inr (d\<lparr>nd_raw := []\<rparr>, length pre + length (payload_bytes d))"
proof -
  let ?raw = "pre @ u32_be lo @ u32_be hi"
  have "read_i32 ?raw (length pre) = Inr (lo, length pre + 4)"
    using i32.rd_prefix [of lo "length pre" ?raw] by simp
  moreover have "read_i32 ?raw (length pre + 4) = Inr (hi, length pre + 8)"
    using i32.rd_prefix [of hi "length pre + 4" ?raw] by simp
  moreover have "(blank d)\<lparr>nd_raw := [], nd_min_int := Some lo, nd_max_int := Some hi\<rparr> = d\<lparr>nd_raw := []\<rparr>"
    using assms(2,3,4) by (cases d) (simp add: blank_def)
  ultimately show ?thesis using assms(1,2,3) by (simp add: read_type_payload_def payload_bytes_def)
qed

lemma read_type_payload_at:
  assumes "fields_ok d"
  shows "read_type_payload ((blank d)\<lparr>nd_raw := []\<rparr>) (pre @ payload_bytes d) (length pre) =
    Inr (d\<lparr>nd_raw := []\<rparr>, length pre + length (payload_bytes d))"
proof (cases "nd_node_type d")
  case FaderLevel
  show ?thesis
  proof (cases "range_some d")
    case True
    with assms FaderLevel have "d = with_range d"
      by (auto simp: fields_ok_def eq_blank_iff range_some_def)
    moreover have "length (range_bytes d) = 12" by (simp add: range_bytes_def)
    ultimately show ?thesis
      using range_payload_at [OF True, of pre] FaderLevel True
      by (simp add: read_type_payload_def payload_bytes_def)
  next
    case False
    with assms FaderLevel have "d = blank d" by (auto simp: fields_ok_def)
    with FaderLevel False show ?thesis by (simp add: read_type_payload_def payload_bytes_def)
  qed
next
  case StringT
  with assms string_payload_at [of d] show ?thesis by (auto simp: fields_ok_def)
next
  case IntegerT
  with assms int_payload_at [of d] show ?thesis by (auto simp: fields_ok_def)
next
  case StringEnumT
  with assms string_enum_payload_at [of d] show ?thesis
    by (auto simp: fields_ok_def split: option.splits)
next
  case FloatEnumT
  with assms float_enum_payload_at [of d] show ?thesis
    by (auto simp: fields_ok_def split: option.splits)
qed (use assms in \<open>auto simp: fields_ok_def read_type_payload_def payload_bytes_def range_payload_at\<close>)

lemma from_bytes_inner_wire:
  assumes "def_ok d"
  shows "from_bytes_inner (header_bytes d @ payload_bytes d) keep =
    Inr (d\<lparr>nd_raw := if keep then header_bytes d @ payload_bytes d else []\<rparr>)"
proof -
  have f: "fields_ok d" using assms by (simp add: def_ok_def)
  show ?thesis
    using read_header_at [OF assms, of "payload_bytes d"] read_type_payload_at [OF f, of "header_bytes d"]
    by (simp add: from_bytes_inner_def)
qed

section \<open>What the parser produces is well formed\<close>

lemma read_string_ok: "read_string n raw i = Inr (s, j) \<Longrightarrow> is_str s \<and> length s = n"
  by (auto simp: read_string_def take_bytes_def and_then_iffs from_utf8_def is_str_def split: if_splits)

lemma read_short_string_ok: "read_short_string raw i = Inr (s, j) \<Longrightarrow> short_ok s"
  by (auto simp: read_short_string_def and_then_iffs short_ok_def dest!: read_string_ok)

lemma read_string_item_ok: "read_string_item raw i = Inr (it, j) \<Longrightarrow> string_item_ok it"
  by (auto simp: read_string_item_def and_then_iffs string_item_ok_def dest!: read_short_string_ok)

lemma read_float_item_ok: "read_float_item raw i = Inr (it, j) \<Longrightarrow> float_item_ok it"
  by (auto simp: read_float_item_def and_then_iffs float_item_ok_def dest!: read_short_string_ok)

lemma read_string_items_ok:
  assumes "read_items read_string_item (unat (c :: u16)) raw i = Inr (xs, j)"
  shows "list_all string_item_ok xs \<and> length xs < 65536"
  using read_items_all [where rd = read_string_item and P = string_item_ok, OF read_string_item_ok assms]
  by simp

lemma read_float_items_ok:
  assumes "read_items read_float_item (unat (c :: u16)) raw i = Inr (xs, j)"
  shows "list_all float_item_ok xs \<and> length xs < 65536"
  using read_items_all [where rd = read_float_item and P = float_item_ok, OF read_float_item_ok assms]
  by simp

lemma nibble_unknown_range:
  fixes n :: byte
  assumes "n \<le> 15" "n \<notin> {0, 1, 2, 3, 4, 5, 6, 7}"
  shows "8 \<le> n"
proof -
  have "unat n \<notin> {0, 1, 2, 3, 4, 5, 6, 7}" using assms(2) by (auto simp: word_unat_eq_iff)
  then have "8 \<le> unat n" by auto
  then show ?thesis by (simp add: word_le_nat_alt)
qed

lemma ucast_nibble_le: "ucast (and (x :: u16) 15) \<le> (15 :: byte)"
proof -
  have "unat (and x 15) \<le> 15" using word_and_le1 [of x 15] by (simp add: word_le_nat_alt)
  then have "unat (ucast (and x 15) :: byte) \<le> 15"
    using le_trans [OF take_bit_nat_less_eq_self [of 8 "unat (and x 15)"]]
    by (simp only: unsigned_ucast_eq) simp
  then show ?thesis by (simp add: word_le_nat_alt)
qed

lemma read_header_ok:
  assumes "read_header raw i = Inr (d, j)"
  shows "short_ok (nd_name d)" "short_ok (nd_long_name d)" "unit_ok (nd_unit d)" "d = blank d"
    "nd_raw d = []" "nd_node_type d = UnknownT n \<Longrightarrow> 8 \<le> n \<and> n \<le> 15"
proof -
  show "short_ok (nd_name d)" "short_ok (nd_long_name d)" "d = blank d" "nd_raw d = []"
    using assms by (auto simp: read_header_def and_then_iffs blank_def dest: read_short_string_ok)
  obtain flags :: u16 where f: "nd_node_type d = node_type_of_nibble (ucast (and (drop_bit 4 flags) 15))"
    "nd_unit d = node_unit_of_nibble (ucast (and flags 15))"
    using assms by (auto simp: read_header_def and_then_iffs)
  show "nd_node_type d = UnknownT n \<Longrightarrow> 8 \<le> n \<and> n \<le> 15"
    using f(1) ucast_nibble_le [of "drop_bit 4 flags"]
    by (auto simp: node_type_of_nibble_def intro: nibble_unknown_range split: if_splits)
  show "unit_ok (nd_unit d)"
    using f(2) ucast_nibble_le [of flags]
    by (auto simp: unit_ok_def node_unit_of_nibble_def intro!: nibble_unknown_range split: if_splits)
qed

lemma read_float_range_ok:
  assumes "read_float_range d raw i = Inr (d', j)" and "d = blank d"
  shows "range_some d' \<and> d' = with_range d' \<and> nd_node_type d' = nd_node_type d"
  using assms(1) assms(2) [unfolded eq_blank_iff]
  by (cases d) (auto simp: read_float_range_def and_then_iffs range_some_def with_range_def blank_def)

lemma read_type_payload_ok:
  assumes "read_type_payload d raw i = Inr (d', j)" and b: "d = blank d"
    and u: "\<And>n. nd_node_type d = UnknownT n \<Longrightarrow> 8 \<le> n \<and> n \<le> 15"
  shows "fields_ok d' \<and> nd_name d' = nd_name d \<and> nd_long_name d' = nd_long_name d \<and>
    nd_unit d' = nd_unit d \<and> nd_raw d' = nd_raw d"
proof -
  have frame: "nd_name d' = nd_name d \<and> nd_long_name d' = nd_long_name d \<and>
    nd_unit d' = nd_unit d \<and> nd_raw d' = nd_raw d"
    using assms(1) by (auto simp: read_type_payload_def read_float_range_def and_then_iffs
        split: NodeType.splits if_splits)
  have "fields_ok d'"
  proof (cases "nd_node_type d")
    case FaderLevel
    with assms(1) b read_float_range_ok [OF _ b, of raw i d' j] show ?thesis
      by (auto simp: read_type_payload_def fields_ok_def split: if_splits)
  next
    case LinearFloat
    with assms(1) read_float_range_ok [OF _ b, of raw i d' j] show ?thesis
      by (auto simp: read_type_payload_def fields_ok_def)
  next
    case LogarithmicFloat
    with assms(1) read_float_range_ok [OF _ b, of raw i d' j] show ?thesis
      by (auto simp: read_type_payload_def fields_ok_def)
  next
    case StringEnumT
    with assms(1) b [unfolded eq_blank_iff] show ?thesis
      by (cases d) (auto simp: read_type_payload_def fields_ok_def and_then_iffs blank_def
          dest: read_string_items_ok)
  next
    case FloatEnumT
    with assms(1) b [unfolded eq_blank_iff] show ?thesis
      by (cases d) (auto simp: read_type_payload_def fields_ok_def and_then_iffs blank_def
          dest: read_float_items_ok)
  qed (use assms(1) u b [unfolded eq_blank_iff] in \<open>cases d,
        auto simp: read_type_payload_def fields_ok_def and_then_iffs blank_def\<close>)
  with frame show ?thesis by simp
qed

lemma from_bytes_inner_ok:
  assumes "from_bytes_inner raw keep = Inr d"
  shows "def_ok d"
proof -
  obtain h i d1 j where h: "read_header raw 0 = Inr (h, i)"
    and p: "read_type_payload h raw i = Inr (d1, j)"
    and d: "d = d1\<lparr>nd_raw := if keep then raw else []\<rparr>"
    using assms by (auto simp: from_bytes_inner_def and_then_iffs)
  note hk = read_header_ok [OF h]
  from read_type_payload_ok [OF p hk(4) hk(6)] hk(1-3) have "def_ok d1" by (simp add: def_ok_def)
  then show ?thesis
    unfolding d by (cases d1) (simp add: def_ok_def fields_ok_def blank_def with_range_def
        range_some_def split: NodeType.splits)
qed

section \<open>Truncated definitions\<close>

lemma take_bytes_bounded: "bounded_reader (\<lambda>raw i. take_bytes raw i n)"
  by unfold_locales (auto simp: take_bytes_def split: if_splits)

interpretation u8: bounded_reader read_u8
  unfolding read_u8_def by (intro bounded_readers take_bytes_bounded)

interpretation u16: bounded_reader read_u16
  unfolding read_u16_def by (intro bounded_readers take_bytes_bounded)

interpretation i32: bounded_reader read_i32
  unfolding read_i32_def by (intro bounded_readers take_bytes_bounded)

interpretation f32: bounded_reader read_f32
  unfolding read_f32_def by (intro bounded_readers take_bytes_bounded)

lemma read_string_bounded: "bounded_reader (read_string n)"
  by unfold_locales
    (auto simp: read_string_def take_bytes_def and_then_iffs split: if_splits)

lemmas base_readers_bounded =
  u8.bounded_reader_axioms u16.bounded_reader_axioms i32.bounded_reader_axioms
  f32.bounded_reader_axioms read_string_bounded

interpretation short: bounded_reader read_short_string
  unfolding read_short_string_def by (intro bounded_readers base_readers_bounded)

interpretation string_item: bounded_reader read_string_item
  unfolding read_string_item_def by (intro bounded_readers short.bounded_reader_axioms)

interpretation float_item: bounded_reader read_float_item
  unfolding read_float_item_def
  by (intro bounded_readers short.bounded_reader_axioms base_readers_bounded)

interpretation header: bounded_reader read_header
  unfolding read_header_def
  by (intro bounded_readers short.bounded_reader_axioms base_readers_bounded)

lemma float_range_bounded: "bounded_reader (read_float_range d)"
  unfolding read_float_range_def by (intro bounded_readers base_readers_bounded)

lemma type_payload_bounded:
  assumes "nd_node_type d \<noteq> FaderLevel"
  shows "bounded_reader (read_type_payload d)"
  unfolding read_type_payload_def
  using assms
  by (cases "nd_node_type d")
    (simp_all, (intro bounded_readers base_readers_bounded float_range_bounded
      string_item.bounded_reader_axioms float_item.bounded_reader_axioms)+)

lemma take_bytes_error: "take_bytes raw i n = Inl e \<Longrightarrow> e = InvalidData"
  by (simp add: take_bytes_def split: if_splits)

lemma reader_errors:
  "read_u8 raw i = Inl e \<Longrightarrow> e = InvalidData"
  "read_u16 raw i = Inl e \<Longrightarrow> e = InvalidData"
  "read_i32 raw i = Inl e \<Longrightarrow> e = InvalidData"
  "read_f32 raw i = Inl e \<Longrightarrow> e = InvalidData"
  "read_string n raw i = Inl e \<Longrightarrow> e = InvalidData"
  by (auto simp: read_u8_def read_u16_def read_i32_def read_f32_def read_string_def and_then_iffs
      dest: take_bytes_error)

lemma read_short_string_error: "read_short_string raw i = Inl e \<Longrightarrow> e = InvalidData"
  by (auto simp: read_short_string_def and_then_iffs dest: reader_errors)

lemma item_errors:
  "read_string_item raw i = Inl e \<Longrightarrow> e = InvalidData"
  "read_float_item raw i = Inl e \<Longrightarrow> e = InvalidData"
  by (auto simp: read_string_item_def read_float_item_def and_then_iffs
      dest: reader_errors read_short_string_error)

lemma read_items_error:
  assumes "\<And>i. rd raw i = Inl e \<Longrightarrow> e = InvalidData"
  shows "read_items rd n raw i = Inl e \<Longrightarrow> e = InvalidData"
  by (induction n arbitrary: i) (auto simp: and_then_iffs dest: assms)

lemma read_type_payload_error:
  assumes "read_type_payload d raw i = Inl e"
  shows "e = InvalidData"
  using assms
  by (auto simp: read_type_payload_def read_float_range_def and_then_iffs
      dest: reader_errors read_items_error [rotated, of read_string_item]
        read_items_error [rotated, of read_float_item] item_errors
      split: NodeType.splits if_splits)

lemma read_header_error: "read_header raw i = Inl e \<Longrightarrow> e = InvalidData"
  by (auto simp: read_header_def and_then_iffs dest: reader_errors read_short_string_error)

lemma from_bytes_inner_error: "from_bytes_inner raw keep = Inl e \<Longrightarrow> e = InvalidData"
  by (auto simp: from_bytes_inner_def and_then_iffs
      dest: read_header_error read_type_payload_error)

lemma read_truncated:
  assumes rd: "bounded_reader rd" and whole: "rd raw i = Inr (x, j)" and i: "i \<le> k"
    and k: "k < j" "j \<le> length raw"
  shows "\<exists>e. rd (take k raw) i = Inl e"
proof (cases "rd (take k raw) i")
  case (Inr r)
  obtain y l where r: "rd (take k raw) i = Inr (y, l)" using Inr by (cases r) auto
  have ik: "i \<le> length (take k raw)" using i k by simp
  have "rd (take k raw @ drop k raw) i = Inr (y, l)" by (rule bounded_reader.rd_extend [OF rd r ik])
  with whole have "l = j" by simp
  with bounded_reader.rd_bounds [OF rd r ik] k show ?thesis by simp
qed simp

lemma from_bytes_inner_truncated:
  assumes ok: "def_ok d" and ty: "nd_node_type d \<noteq> FaderLevel"
    and k: "k < length (header_bytes d @ payload_bytes d)"
  shows "\<exists>e. from_bytes_inner (take k (header_bytes d @ payload_bytes d)) keep = Inl e"
proof (cases "k < length (header_bytes d)")
  case True
  from read_truncated [OF header.bounded_reader_axioms
      read_header_at [OF ok, of "payload_bytes d"], of k] True
  obtain e where "read_header (take k (header_bytes d @ payload_bytes d)) 0 = Inl e" by auto
  then show ?thesis by (simp add: from_bytes_inner_def)
next
  case False
  let ?b = "(blank d)\<lparr>nd_raw := []\<rparr>" and ?h = "header_bytes d" and ?p = "payload_bytes d"
  have f: "fields_ok d" using ok by (simp add: def_ok_def)
  have 1: "read_header (take k (?h @ ?p)) 0 = Inr (?b, length ?h)"
    using read_header_at [OF ok, of "take (k - length ?h) ?p"] False by simp
  have "bounded_reader (read_type_payload ?b)"
    using ty by (intro type_payload_bounded) simp
  from read_truncated [OF this read_type_payload_at [OF f, of ?h], of k] False k
  obtain e where "read_type_payload ?b (take k (?h @ ?p)) (length ?h) = Inl e" by auto
  with 1 show ?thesis by (simp add: from_bytes_inner_def)
qed

section \<open>Properties\<close>

definition sample_def :: WingNodeDef where
  "sample_def = \<lparr>nd_id = 0x1234, nd_parent_id = 7, nd_index = 3, nd_name = ''mdl'',
     nd_long_name = ''model'', nd_node_type = StringEnumT, nd_unit = UnknownU 9,
     nd_read_only = True, nd_min_float = None, nd_max_float = None, nd_steps = None,
     nd_min_int = None, nd_max_int = None, nd_max_string_len = None,
     nd_string_enum = Some [\<lparr>se_item = ''STD'', se_long_item = ''Standard''\<rparr>,
                            \<lparr>se_item = ''EQ'', se_long_item = ''''\<rparr>],
     nd_float_enum = None, nd_raw = []\<rparr>"

lemma sample_strings_ok:
  "short_ok ''mdl''" "short_ok ''model''" "short_ok ''STD''" "short_ok ''Standard''"
  "short_ok ''EQ''" "short_ok []"
  by code_simp+

lemma sample_def_ok: "def_ok sample_def"
  by (simp add: def_ok_def sample_def_def fields_ok_def sample_strings_ok unit_ok_def
      string_item_ok_def blank_def)

text \<open>
  C8. Every well-formed node definition serializes, and parsing the bytes gives the definition
  back with the bytes attached as its raw form.
\<close>
theorem from_bytes_to_wire_bytes:
  assumes "def_ok d"
  shows "\<exists>bytes. to_wire_bytes d = Inr bytes \<and> from_bytes bytes = Inr (d\<lparr>nd_raw := bytes\<rparr>)"
  using to_wire_bytes_ok [OF assms] from_bytes_inner_wire [OF assms, of True]
  by (simp add: from_bytes_def)

theorem from_bytes_to_wire_bytes_witness:
  "\<exists>bytes. to_wire_bytes sample_def = Inr bytes \<and>
     from_bytes bytes = Inr (sample_def\<lparr>nd_raw := bytes\<rparr>)"
  by (rule from_bytes_to_wire_bytes [OF sample_def_ok])

definition sample_raw :: "byte list" where
  "sample_raw = [0, 0, 0, 7, 0, 0, 0x12, 0x34, 0, 3, 1, 0x67, 0, 0xff, 0x31,
     0xc2, 0x10, 0, 0, 0x41, 0x20, 0, 0, 0, 0, 1, 0, 0xaa]"

definition sample_parsed :: WingNodeDef where
  "sample_parsed = \<lparr>nd_id = 0x1234, nd_parent_id = 7, nd_index = 3, nd_name = ''g'',
     nd_long_name = [], nd_node_type = FaderLevel, nd_unit = Db,
     nd_read_only = True, nd_min_float = Some 0xc2100000, nd_max_float = Some 0x41200000,
     nd_steps = Some 0x100,
     nd_min_int = None, nd_max_int = None, nd_max_string_len = None,
     nd_string_enum = None, nd_float_enum = None, nd_raw = sample_raw\<rparr>"

lemma sample_raw_parses: "from_bytes sample_raw = Inr sample_parsed"
  by code_simp

text \<open>
  C34. Whatever bytes the parser accepts, trailing garbage and unused flag bits included, the
  definition it returns is well typed (exactly the fields of its node type are set, and each fits its
  field), serializes again and parses back to itself.
\<close>
theorem parsed_def_reserializes:
  assumes "from_bytes raw = Inr d"
  shows "def_ok d \<and> (\<exists>bytes. to_wire_bytes d = Inr bytes \<and>
    from_bytes_without_raw bytes = Inr (d\<lparr>nd_raw := []\<rparr>))"
proof -
  have ok: "def_ok d" using assms from_bytes_inner_ok by (auto simp: from_bytes_def)
  show ?thesis
    using ok to_wire_bytes_ok [OF ok] from_bytes_inner_wire [OF ok, of False]
    by (simp add: from_bytes_without_raw_def)
qed

theorem parsed_def_reserializes_witness:
  "def_ok sample_parsed \<and> (\<exists>bytes. to_wire_bytes sample_parsed = Inr bytes \<and>
    from_bytes_without_raw bytes = Inr (sample_parsed\<lparr>nd_raw := []\<rparr>))"
  by (rule parsed_def_reserializes [OF sample_raw_parses])

text \<open>
  A definition cut short anywhere is rejected as invalid data: no proper prefix of a
  serialized definition parses. (A fader definition is the one kind whose numeric range is
  optional on the wire, so its prefix without the range is a definition too.)
\<close>
theorem truncated_def_rejected:
  assumes "def_ok d" and "nd_node_type d \<noteq> FaderLevel" and "to_wire_bytes d = Inr bytes"
    and "k < length bytes"
  shows "from_bytes (take k bytes) = Inl InvalidData"
proof -
  have b: "bytes = header_bytes d @ payload_bytes d"
    using assms(3) to_wire_bytes_ok [OF assms(1)] by simp
  obtain e where e: "from_bytes (take k bytes) = Inl e"
    using from_bytes_inner_truncated [OF assms(1,2), of k True] assms(4)
    by (auto simp: b from_bytes_def)
  with from_bytes_inner_error show ?thesis by (auto simp: from_bytes_def)
qed

lemma sample_def_wire: "to_wire_bytes sample_def = Inr (header_bytes sample_def @ payload_bytes sample_def)"
  by (rule to_wire_bytes_ok [OF sample_def_ok])

theorem truncated_def_rejected_witness:
  "from_bytes (take 24 (header_bytes sample_def @ payload_bytes sample_def)) = Inl InvalidData"
  by (rule truncated_def_rejected [OF sample_def_ok _ sample_def_wire]) code_simp+

end
