(* ===== verification/BinaryValues.thy ===== *)
theory BinaryValues
  imports NativeValue
begin

text \<open>
  Binary node buffers (\<open>src/console.rs\<close>): \<open>NodeValue\<close>, \<open>parse_binary_values\<close> and
  \<open>encode_binary_values\<close>, the hash-addressed value stream of a scene capture.
\<close>

datatype NodeValue = StringV string | FloatV f32 | IntV i32

definition take_front :: "byte list \<Rightarrow> nat \<Rightarrow> (byte list \<times> byte list) result" where
  "take_front data n = (if n \<le> length data then Inr (take n data, drop n data) else Inl InvalidData)"

definition str_from :: "byte list \<Rightarrow> string" where
  "str_from bytes = from_utf8_lossy bytes"

text \<open>
  One pass through the body of the parsing loop after the command byte was read: the entry it
  emits, the node it selects, the unread rest, and whether it was the end token. The source's
  cursor \<open>i\<close> into \<open>data\<close> is the unread rest here.
\<close>

definition emit :: "i32 option \<Rightarrow> NodeValue \<Rightarrow> byte list \<Rightarrow>
    ((i32 \<times> NodeValue) option \<times> i32 option \<times> byte list \<times> bool) result" where
  "emit cur v rest = and_then (ok_or cur InvalidData) (\<lambda>i. Inr (Some (i, v), cur, rest, False))"

definition skip :: "i32 option \<Rightarrow> byte list \<Rightarrow>
    ((i32 \<times> NodeValue) option \<times> i32 option \<times> byte list \<times> bool) result" where
  "skip cur rest = Inr (None, cur, rest, False)"

definition value_step :: "byte \<Rightarrow> i32 option \<Rightarrow> byte list \<Rightarrow>
    ((i32 \<times> NodeValue) option \<times> i32 option \<times> byte list \<times> bool) result" where
  "value_step cmd cur data =
    (if cmd \<le> 0x3f then emit cur (IntV (ucast cmd)) data
     else if cmd \<le> 0x7f then skip cur data
     else if cmd \<le> 0xbf then
       and_then (take_front data (unat (cmd - 0x80) + 1)) (\<lambda>(b, data). emit cur (StringV (str_from b)) data)
     else if cmd \<le> 0xcf then
       and_then (take_front data (unat (cmd - 0xc0) + 1)) (\<lambda>(b, data). skip cur data)
     else if cmd = 0xd0 then emit cur (StringV []) data
     else if cmd = 0xd1 then
       and_then (take_front data 1) (\<lambda>(l, data).
       and_then (take_front data (unat (l ! 0) + 1)) (\<lambda>(b, data). emit cur (StringV (str_from b)) data))
     else if cmd = 0xd2 then and_then (take_front data 2) (\<lambda>(b, data). skip cur data)
     else if cmd = 0xd3 then
       and_then (take_front data 2) (\<lambda>(b, data). emit cur (IntV (scast (u16_from_be b))) data)
     else if cmd = 0xd4 then
       and_then (take_front data 4) (\<lambda>(b, data). emit cur (IntV (u32_from_be b)) data)
     else if cmd = 0xd5 \<or> cmd = 0xd6 then
       and_then (take_front data 4) (\<lambda>(b, data). emit cur (FloatV (u32_from_be b)) data)
     else if cmd = 0xd7 then
       and_then (take_front data 4) (\<lambda>(b, data). skip (Some (u32_from_be b)) data)
     else if cmd = 0xd8 then skip cur data
     else if cmd = 0xd9 then and_then (take_front data 1) (\<lambda>(b, data). skip cur data)
     else if cmd \<le> 0xdd then skip cur data
     else if cmd = 0xde then Inr (None, cur, data, True)
     else Inl InvalidData)"

lemma take_front_Inr [simp]:
  "take_front data n = Inr (b, rest) \<longleftrightarrow> n \<le> length data \<and> b = take n data \<and> rest = drop n data"
  by (auto simp: take_front_def)

lemma emit_Inr:
  "emit cur v rest = Inr (o', cur', rest', fin) \<longleftrightarrow>
     (\<exists>i. cur = Some i \<and> o' = Some (i, v)) \<and> cur' = cur \<and> rest' = rest \<and> \<not> fin"
  by (auto simp: emit_def and_then_iffs)

lemma skip_Inr:
  "skip cur rest = Inr (o', cur', rest', fin) \<longleftrightarrow> o' = None \<and> cur' = cur \<and> rest' = rest \<and> \<not> fin"
  by (auto simp: skip_def)

lemma value_step_shrinks:
  "value_step cmd cur data = Inr (o', cur', rest, fin) \<Longrightarrow> length rest \<le> length data"
  by (auto simp: value_step_def and_then_iffs emit_Inr skip_Inr split: if_splits)

function parse_values :: "byte list \<Rightarrow> i32 option \<Rightarrow> (i32 \<times> NodeValue) list \<Rightarrow>
    (i32 \<times> NodeValue) list result" where
  "parse_values [] cur out = Inr out"
| "parse_values (cmd # data) cur out =
     (case value_step cmd cur data of
        Inl e \<Rightarrow> Inl e
      | Inr (emitted, cur', rest, fin) \<Rightarrow>
          if fin then Inr out else parse_values rest cur' (out @ opt_list emitted))"
  by pat_completeness auto

termination parse_values
  by (relation "measure (\<lambda>(data, _). length data)")
    (auto dest: value_step_shrinks)

definition parse_binary_values :: "byte list \<Rightarrow> (i32 \<times> NodeValue) list result" where
  "parse_binary_values data = parse_values data None []"

fun native_of :: "NodeValue \<Rightarrow> NativeValue" where
  "native_of (IntV v) = Integer v"
| "native_of (FloatV v) = Float v"
| "native_of (StringV s) = String s"

fun encode_pairs :: "byte list \<Rightarrow> (i32 \<times> NodeValue) list \<Rightarrow> byte list" where
  "encode_pairs out [] = out"
| "encode_pairs out ((i, value) # pairs) =
     (case encode_value [] (native_of value) of
        Inl _ \<Rightarrow> encode_pairs out pairs
      | Inr encoded \<Rightarrow> encode_pairs (out @ [0xd7] @ u32_be i @ encoded) pairs)"

definition encode_binary_values :: "(i32 \<times> NodeValue) list \<Rightarrow> byte list" where
  "encode_binary_values pairs = encode_pairs [] pairs @ [0xde]"

section \<open>Round trip\<close>

definition pair_ok :: "i32 \<times> NodeValue \<Rightarrow> bool" where
  "pair_ok p = (case snd p of StringV s \<Rightarrow> is_str s | _ \<Rightarrow> True)"

definition pair_bytes :: "i32 \<times> NodeValue \<Rightarrow> byte list" where
  "pair_bytes p = 0xd7 # u32_be (fst p) @ value_token (native_of (snd p))"

lemma encode_pairs_eq:
  "encode_pairs out pairs =
     out @ concat (map pair_bytes (filter (\<lambda>p. encodable (native_of (snd p))) pairs))"
  by (induction out pairs rule: encode_pairs.induct)
    (simp_all add: encode_value_eq pair_bytes_def)

lemma parse_select:
  "parse_values (0xd7 # u32_be i @ rest) cur out = parse_values rest (Some i) out"
  by (simp add: value_step_def take_front_def skip_def)

lemma lossy_str: "is_str s \<Longrightarrow> str_from (as_bytes s) = s"
  by (simp add: str_from_def)

lemma parse_string_token_value:
  assumes "is_str s" and "length s \<le> 256"
  shows "parse_values (value_token (String s) @ rest) (Some i) out =
    parse_values rest (Some i) (out @ [(i, StringV s)])"
proof -
  consider (empty) "s = []" | (short) "0 < length s" "length s \<le> 64"
    | (long) "64 < length s" "length s \<le> 256"
    using assms(2) by fastforce
  then show ?thesis
  proof cases
    case empty
    then show ?thesis by (simp add: value_token_eq value_step_def emit_def)
  next
    case short
    let ?op = "0x7f + word_of_nat (length s) :: byte"
    note r = short_opcode_range [OF short]
    have t: "value_token (String s) = ?op # as_bytes s" using short by (auto simp: value_token_eq)
    have "unat (?op - 0x80) + 1 = length s" by (rule short_string_index [OF short])
    then have "value_step ?op (Some i) (as_bytes s @ rest) = Inr (Some (i, StringV s), Some i, rest, False)"
      using r lossy_str [OF assms(1)] unfolding value_step_def
      by (simp add: take_front_def emit_def)
    with t show ?thesis by simp
  next
    case long
    then have t: "value_token (String s) = [0xd1, word_of_nat (length s - 1)] @ as_bytes s"
      by (auto simp: value_token_eq)
    have "value_step 0xd1 (Some i) (word_of_nat (length s - 1) # as_bytes s @ rest) =
        Inr (Some (i, StringV s), Some i, rest, False)"
      using long_string_len [OF long] long lossy_str [OF assms(1)]
      by (simp add: value_step_def take_front_def emit_def)
    with t show ?thesis by simp
  qed
qed

lemma parse_value_token:
  assumes "pair_ok (i, v)" and "encodable (native_of v)"
  shows "parse_values (value_token (native_of v) @ rest) (Some i) out =
    parse_values rest (Some i) (out @ [(i, v)])"
proof (cases v)
  case (StringV s)
  with assms show ?thesis using parse_string_token_value [of s] by (simp add: pair_ok_def encodable_def)
next
  case (FloatV f)
  then show ?thesis by (simp add: value_token_eq value_step_def take_front_def emit_def)
next
  case (IntV n)
  consider (small) "0 \<le> sint n" "sint n \<le> 0x3f"
    | (mid) "\<not> (0 \<le> sint n \<and> sint n \<le> 0x3f)" "- 32768 \<le> sint n" "sint n \<le> 32767"
    | (big) "\<not> (0 \<le> sint n \<and> sint n \<le> 0x3f)" "\<not> (- 32768 \<le> sint n \<and> sint n \<le> 32767)" by blast
  then show ?thesis
  proof cases
    case small
    with small_int_token [OF small] IntV show ?thesis
      by (simp add: value_token_eq value_step_def emit_def)
  next
    case mid
    then have "value_token (Integer n) = 0xd3 # u16_be (ucast n)" by (auto simp: value_token_eq)
    with i16_token [OF mid(2,3)] IntV show ?thesis
      by (simp add: value_step_def take_front_def emit_def)
  next
    case big
    then have "value_token (Integer n) = 0xd4 # u32_be n" by (auto simp: value_token_eq)
    with IntV show ?thesis by (simp add: value_step_def take_front_def emit_def)
  qed
qed

lemma parse_pairs:
  assumes "list_all pair_ok pairs" and "list_all (\<lambda>p. encodable (native_of (snd p))) pairs"
  shows "parse_values (concat (map pair_bytes pairs) @ 0xde # rest) cur out = Inr (out @ pairs)"
  using assms
proof (induction pairs arbitrary: cur out)
  case Nil
  then show ?case by (simp add: value_step_def)
next
  case (Cons p pairs)
  obtain i v where p: "p = (i, v)" by (cases p)
  with Cons show ?case
    by (simp add: pair_bytes_def parse_select parse_value_token del: parse_values.simps)
qed

lemma parse_values_error: "parse_values data cur out = Inl e \<Longrightarrow> e = InvalidData"
proof (induction data cur out rule: parse_values.induct)
  case (2 cmd data cur out)
  have "value_step cmd cur data = Inl e \<Longrightarrow> e = InvalidData"
    by (auto simp: value_step_def and_then_iffs take_front_def emit_def skip_def split: if_splits)
  with 2 show ?case by (auto split: sum.splits if_splits)
qed simp

section \<open>Properties\<close>



end
