(* ===== verification/Rust_Num.thy ===== *)
theory Rust_Num
  imports Rust_Str
begin

text \<open>
  Decimal printing and parsing of the integers the source uses: \<open>to_string\<close> of an integer and
  \<open>str::parse\<close> with its optional sign and its overflow error.
\<close>

definition digit_char :: "nat \<Rightarrow> char" where
  "digit_char n = char_of (48 + n)"

definition is_digit :: "char \<Rightarrow> bool" where
  "is_digit c \<longleftrightarrow> 48 \<le> (of_char c :: nat) \<and> (of_char c :: nat) \<le> 57"

definition digit_val :: "char \<Rightarrow> nat" where
  "digit_val c = of_char c - 48"

fun show_nat :: "nat \<Rightarrow> string" where
  "show_nat n = (if n < 10 then [digit_char n] else show_nat (n div 10) @ [digit_char (n mod 10)])"

declare show_nat.simps [simp del]

definition show_int :: "int \<Rightarrow> string" where
  "show_int k = (if k < 0 then CHR ''-'' # show_nat (nat (- k)) else show_nat (nat k))"

text \<open>The digits of an unsigned number, most significant first; \<open>None\<close> on any other character.\<close>

fun digits_val :: "nat \<Rightarrow> string \<Rightarrow> nat option" where
  "digits_val acc [] = Some acc"
| "digits_val acc (c # cs) = (if is_digit c then digits_val (10 * acc + digit_val c) cs else None)"

definition parse_digits :: "string \<Rightarrow> nat option" where
  "parse_digits s = (if s = [] then None else digits_val 0 s)"

text \<open>\<open>s.parse::<uN>()\<close>: an optional plus sign, at least one digit, no overflow past \<open>mx\<close>.\<close>

definition parse_unsigned :: "nat \<Rightarrow> string \<Rightarrow> nat option" where
  "parse_unsigned mx s =
     (let ds = (case s of c # cs \<Rightarrow> if c = CHR ''+'' then cs else s | [] \<Rightarrow> []) in
      case parse_digits ds of None \<Rightarrow> None | Some n \<Rightarrow> if n \<le> mx then Some n else None)"

text \<open>\<open>s.parse::<i32>()\<close>.\<close>

definition parse_i32 :: "string \<Rightarrow> i32 option" where
  "parse_i32 s =
     (case s of
        c # cs \<Rightarrow>
          if c = CHR ''-'' then
            (case parse_digits cs of
               None \<Rightarrow> None
             | Some n \<Rightarrow> if n \<le> 2147483648 then Some (- word_of_nat n) else None)
          else map_option word_of_nat (parse_unsigned 2147483647 s)
      | [] \<Rightarrow> None)"

section \<open>Round trip\<close>

lemma not_digit [simp]:
  "\<not> is_digit CHR ''+''" "\<not> is_digit CHR ''-''" "\<not> is_digit CHR ''.''" "\<not> is_digit CHR ''/''"
  by (simp_all add: is_digit_def)

lemma digit_char_ok:
  assumes "n < 10"
  shows "is_digit (digit_char n)" and "digit_val (digit_char n) = n"
proof -
  have v: "(of_char (digit_char n) :: nat) = 48 + n" using assms by (simp add: digit_char_def)
  then show "is_digit (digit_char n)" "digit_val (digit_char n) = n"
    using assms by (simp_all add: is_digit_def digit_val_def)
qed

lemma digits_val_append:
  "digits_val acc (s @ t) = (case digits_val acc s of None \<Rightarrow> None | Some n \<Rightarrow> digits_val n t)"
  by (induction acc s rule: digits_val.induct) auto

lemma digits_val_show_nat: "digits_val 0 (show_nat n) = Some n"
proof (induction n rule: show_nat.induct)
  case (1 n)
  show ?case
  proof (cases "n < 10")
    case True
    then show ?thesis by (simp add: show_nat.simps [of n] digit_char_ok)
  next
    case False
    then have "digits_val 0 (show_nat (n div 10)) = Some (n div 10)" using 1 by simp
    then show ?thesis
      using False by (simp add: show_nat.simps [of n] digits_val_append digit_char_ok)
  qed
qed

lemma show_nat_digits: "list_all is_digit (show_nat n)"
  by (induction n rule: show_nat.induct) (simp add: show_nat.simps [of n for n] digit_char_ok)

lemma show_nat_not_Nil [simp]: "show_nat n \<noteq> []"
  by (simp add: show_nat.simps [of n])

lemma parse_digits_show_nat [simp]: "parse_digits (show_nat n) = Some n"
  by (simp add: parse_digits_def digits_val_show_nat)

lemma show_nat_head: "show_nat n = c # cs \<Longrightarrow> is_digit c"
  using show_nat_digits [of n] by simp

lemma parse_unsigned_show_nat: "n \<le> mx \<Longrightarrow> parse_unsigned mx (show_nat n) = Some n"
proof -
  assume n: "n \<le> mx"
  obtain c cs where s: "show_nat n = c # cs" by (cases "show_nat n") auto
  with show_nat_head [OF s] have "c \<noteq> CHR ''+''" by auto
  with s n parse_digits_show_nat [of n] show ?thesis by (simp add: parse_unsigned_def)
qed

lemma parse_i32_show_int: "parse_i32 (show_int (sint v)) = Some v"
proof (cases "sint v < 0")
  case True
  have "- 2147483648 \<le> sint v" using sint_ge [of v] by simp
  moreover have "- word_of_nat (nat (- sint v)) = v"
    using True by simp
  ultimately show ?thesis using True by (simp add: parse_i32_def show_int_def)
next
  case False
  obtain c cs where s: "show_nat (nat (sint v)) = c # cs" by (cases "show_nat (nat (sint v))") auto
  with show_nat_head [OF s] have c: "c \<noteq> CHR ''-''" by auto
  have "sint v < 2147483648" using sint_lt [of v] by simp
  then have "nat (sint v) \<le> 2147483647" using False by simp
  moreover have "word_of_nat (nat (sint v)) = v" using False by simp
  ultimately show ?thesis
    using False s c parse_unsigned_show_nat [of "nat (sint v)" 2147483647]
    by (simp add: parse_i32_def show_int_def)
qed

end
