(* ===== verification/NodeData.thy ===== *)
theory NodeData
  imports NodeDef BinaryValues Rust_Num
begin

text \<open>
  Node values and enum helpers: \<open>WingNodeData\<close> (\<open>src/node.rs\<close>), \<open>encode_enum\<close>, \<open>decode_enum\<close>
  (\<open>src/helpers.rs\<close>), \<open>NodeValue::from_data\<close> and \<open>dump_value\<close> (\<open>src/console.rs\<close>). The decimal
  rendering of a float is the argument \<open>show_f32\<close> of the functions that use it.
\<close>

section \<open>Data\<close>

record WingNodeData =
  wd_string :: "string option"
  wd_float :: "f32 option"
  wd_int :: "i32 option"

definition new_data :: WingNodeData where
  "new_data = \<lparr>wd_string = None, wd_float = None, wd_int = None\<rparr>"

definition with_string :: "string \<Rightarrow> WingNodeData" where
  "with_string s = \<lparr>wd_string = Some s, wd_float = None, wd_int = None\<rparr>"

definition with_float :: "f32 \<Rightarrow> WingNodeData" where
  "with_float f = \<lparr>wd_string = None, wd_float = Some f, wd_int = None\<rparr>"

definition with_i32 :: "i32 \<Rightarrow> WingNodeData" where
  "with_i32 i = \<lparr>wd_string = None, wd_float = None, wd_int = Some i\<rparr>"

definition with_i16 :: "i16 \<Rightarrow> WingNodeData" where
  "with_i16 i = \<lparr>wd_string = None, wd_float = None, wd_int = Some (scast i)\<rparr>"

definition with_i8 :: "byte \<Rightarrow> WingNodeData" where
  "with_i8 i = \<lparr>wd_string = None, wd_float = None, wd_int = Some (scast i)\<rparr>"

definition get_string :: "(f32 \<Rightarrow> string) \<Rightarrow> WingNodeData \<Rightarrow> string" where
  "get_string show_f32 d =
     (case wd_string d of Some s \<Rightarrow> s
      | None \<Rightarrow> (case wd_float d of Some f \<Rightarrow> show_f32 f
          | None \<Rightarrow> (case wd_int d of Some i \<Rightarrow> show_int (sint i) | None \<Rightarrow> [])))"

definition get_float :: "WingNodeData \<Rightarrow> f32" where
  "get_float d = (case wd_float d of Some f \<Rightarrow> f | None \<Rightarrow> 0)"

definition get_int :: "WingNodeData \<Rightarrow> i32" where
  "get_int d = (case wd_int d of Some i \<Rightarrow> i | None \<Rightarrow> 0)"

definition has_string :: "WingNodeData \<Rightarrow> bool" where
  "has_string d \<longleftrightarrow> wd_string d \<noteq> None"

definition has_float :: "WingNodeData \<Rightarrow> bool" where
  "has_float d \<longleftrightarrow> wd_float d \<noteq> None"

definition has_int :: "WingNodeData \<Rightarrow> bool" where
  "has_int d \<longleftrightarrow> wd_int d \<noteq> None"

text \<open>\<open>usize::try_from\<close> of an \<open>i32\<close>, and \<open>items.get(i)\<close>.\<close>

definition usize_of_i32 :: "i32 \<Rightarrow> nat option" where
  "usize_of_i32 i = (if sint i < 0 then None else Some (nat (sint i)))"

definition get_item :: "'a list \<Rightarrow> nat \<Rightarrow> 'a option" where
  "get_item xs i = (if i < length xs then Some (xs ! i) else None)"

definition string_enum_item :: "(f32 \<Rightarrow> string) \<Rightarrow> WingNodeData \<Rightarrow> WingNodeDef \<Rightarrow> string option" where
  "string_enum_item show_f32 d def =
     (case nd_string_enum def of
        None \<Rightarrow> None
      | Some items \<Rightarrow>
          map_option se_item
            (if has_int d then
               (case usize_of_i32 (get_int d) of None \<Rightarrow> None | Some i \<Rightarrow> get_item items i)
             else if has_string d then find (\<lambda>it. se_item it = get_string show_f32 d) items
             else None))"

section \<open>Enum helpers\<close>

datatype EnumKey = Item string | LongItem string | ItemIndex nat

datatype EnumValue = Str string | FloatE f32

datatype RawEnumValue = RawIndex i32 | RawFloatE f32 | Other string

datatype EnumDecode =
    StringEnumD string string nat
  | FloatEnumD f32 string nat
  | UnknownD RawEnumValue

definition encode_enum :: "WingNodeDef \<Rightarrow> EnumKey \<Rightarrow> EnumValue option" where
  "encode_enum def key =
     (case nd_node_type def of
        StringEnumT \<Rightarrow>
          (case nd_string_enum def of
             None \<Rightarrow> None
           | Some items \<Rightarrow>
               map_option (\<lambda>it. Str (se_item it))
                 (case key of
                    Item name \<Rightarrow> find (\<lambda>it. se_item it = name) items
                  | LongItem name \<Rightarrow> find (\<lambda>it. se_long_item it = name) items
                  | ItemIndex i \<Rightarrow> get_item items i))
      | FloatEnumT \<Rightarrow>
          (case nd_float_enum def of
             None \<Rightarrow> None
           | Some items \<Rightarrow>
               map_option (\<lambda>it. FloatE (fe_item it))
                 (case key of
                    Item _ \<Rightarrow> None
                  | LongItem name \<Rightarrow> find (\<lambda>it. fe_long_item it = name) items
                  | ItemIndex i \<Rightarrow> get_item items i))
      | _ \<Rightarrow> None)"

fun find_index :: "('a \<Rightarrow> bool) \<Rightarrow> nat \<Rightarrow> 'a list \<Rightarrow> (nat \<times> 'a) option" where
  "find_index P n [] = None"
| "find_index P n (x # xs) = (if P x then Some (n, x) else find_index P (Suc n) xs)"

definition decode_enum :: "(f32 \<Rightarrow> string) \<Rightarrow> WingNodeDef \<Rightarrow> WingNodeData \<Rightarrow> EnumDecode" where
  "decode_enum show_f32 def d =
     (case nd_node_type def of
        StringEnumT \<Rightarrow>
          (case (nd_string_enum def, has_int d) of
             (Some items, True) \<Rightarrow>
               (case usize_of_i32 (get_int d) of
                  None \<Rightarrow> UnknownD (RawIndex (get_int d))
                | Some i \<Rightarrow>
                    (case get_item items i of
                       None \<Rightarrow> UnknownD (RawIndex (get_int d))
                     | Some it \<Rightarrow> StringEnumD (se_item it) (se_long_item it) i))
           | _ \<Rightarrow> UnknownD (Other (get_string show_f32 d)))
      | FloatEnumT \<Rightarrow>
          (case (nd_float_enum def, has_float d) of
             (Some items, True) \<Rightarrow>
               (case find_index (\<lambda>it. f32_eq (fe_item it) (get_float d)) 0 items of
                  Some (i, it) \<Rightarrow> FloatEnumD (fe_item it) (fe_long_item it) i
                | None \<Rightarrow> UnknownD (RawFloatE (get_float d)))
           | _ \<Rightarrow> UnknownD (Other (get_string show_f32 d)))
      | _ \<Rightarrow> UnknownD (Other (get_string show_f32 d)))"

definition display_string :: "(f32 \<Rightarrow> string) \<Rightarrow> WingNodeData \<Rightarrow> WingNodeDef \<Rightarrow> string" where
  "display_string show_f32 d def =
     (case decode_enum show_f32 def d of
        StringEnumD item _ _ \<Rightarrow> item
      | FloatEnumD _ long_item _ \<Rightarrow> long_item
      | UnknownD _ \<Rightarrow> get_string show_f32 d)"

section \<open>Captured values\<close>

definition from_data :: "(f32 \<Rightarrow> string) \<Rightarrow> WingNodeData \<Rightarrow> NodeValue" where
  "from_data show_f32 d =
     (if has_string d then StringV (get_string show_f32 d)
      else if has_float d then FloatV (get_float d)
      else IntV (get_int d))"

definition dump_value :: "(f32 \<Rightarrow> string) \<Rightarrow> WingNodeData \<Rightarrow> WingNodeDef \<Rightarrow> NodeValue result" where
  "dump_value show_f32 d def =
     (if nd_node_type def \<noteq> StringEnumT then Inr (from_data show_f32 d)
      else if nd_string_enum def = None then Inl InvalidData
      else Inr (case string_enum_item show_f32 d def of
                  Some item \<Rightarrow> StringV item
                | None \<Rightarrow> from_data show_f32 d))"

section \<open>Lemmas\<close>

lemmas data_defs =
  with_string_def with_float_def with_i32_def with_i16_def with_i8_def get_string_def get_float_def
  get_int_def has_string_def has_float_def has_int_def

lemma find_some_prop: "find P xs = Some x \<Longrightarrow> P x \<and> x \<in> set xs"
  by (auto simp: find_Some_iff)

lemma find_exists: "x \<in> set xs \<Longrightarrow> P x \<Longrightarrow> \<exists>y. find P xs = Some y \<and> P y"
  by (metis find_None_iff find_some_prop not_Some_eq)

lemma find_index_some:
  "find_index P n xs = Some (i, x) \<Longrightarrow> n \<le> i \<and> i - n < length xs \<and> xs ! (i - n) = x \<and> P x"
  by (induction P n xs rule: find_index.induct) (auto simp: Suc_le_eq nth_Cons' split: if_splits)

lemma usize_of_i32_some: "usize_of_i32 i = Some n \<Longrightarrow> int n = sint i"
  by (auto simp: usize_of_i32_def split: if_splits)

text \<open>
  An unrecognized enum value is never mislabelled: when decoding finds no entry, the value
  is reported verbatim, the display string is the raw rendering, and a capture keeps the raw
  value rather than a guess.
\<close>
lemma unknown_enum_verbatim:
  assumes "nd_node_type def = StringEnumT" and "nd_string_enum def = Some items"
    and "sint v < 0 \<or> length items \<le> nat (sint v)"
  shows "decode_enum show_f32 def (with_i32 v) = UnknownD (RawIndex v) \<and>
    display_string show_f32 (with_i32 v) def = show_int (sint v) \<and>
    dump_value show_f32 (with_i32 v) def = Inr (IntV v)"
  using assms
  by (auto simp: decode_enum_def display_string_def dump_value_def string_enum_item_def from_data_def
      data_defs usize_of_i32_def get_item_def)

section \<open>Properties\<close>

definition sample_enum :: WingNodeDef where
  "sample_enum = sample_def"

text \<open>
  Enum keys are consistent: whatever entry a raw wire index decodes to, its position and
  its short name encode to one and the same wire value, the short name; so does its long label
  when the labels are distinct. The short name, read back as a string, names that entry again.
\<close>
theorem enum_decode_encode:
  assumes ty: "nd_node_type def = StringEnumT" and items: "nd_string_enum def = Some items"
    and dec: "decode_enum show_f32 def d = StringEnumD item long i"
    and distinct: "distinct (map se_long_item items)"
  shows "encode_enum def (ItemIndex i) = Some (Str item) \<and>
    encode_enum def (Item item) = Some (Str item) \<and>
    encode_enum def (LongItem long) = Some (Str item) \<and>
    string_enum_item show_f32 (with_string item) def = Some item \<and>
    dump_value show_f32 d def = Inr (StringV item)"
proof -
  from dec ty items have hi: "has_int d" and u: "usize_of_i32 (get_int d) = Some i"
    and g: "get_item items i = Some \<lparr>se_item = item, se_long_item = long\<rparr>"
    by (auto simp: decode_enum_def split: bool.splits option.splits)
  let ?it = "\<lparr>se_item = item, se_long_item = long\<rparr>"
  have i: "i < length items" "items ! i = ?it" using g by (auto simp: get_item_def split: if_splits)
  then have mem: "?it \<in> set items" by (metis nth_mem)
  obtain y where y: "find (\<lambda>it. se_item it = item) items = Some y" "se_item y = item"
    using find_exists [OF mem, of "\<lambda>it. se_item it = item"] by auto
  obtain z where z: "find (\<lambda>it. se_long_item it = long) items = Some z" "se_long_item z = long"
    using find_exists [OF mem, of "\<lambda>it. se_long_item it = long"] by auto
  have "z = ?it"
    using z find_some_prop [OF z(1)] mem distinct by (metis StringEnumItem.select_convs(2) distinct_map inj_onD)
  with y z g ty items hi u show ?thesis
    by (simp add: encode_enum_def string_enum_item_def dump_value_def data_defs)
qed

theorem enum_decode_encode_witness:
  "encode_enum sample_enum (LongItem ''Standard'') = Some (Str ''STD'') \<and>
   dump_value (\<lambda>_. []) (with_i32 0) sample_enum = Inr (StringV ''STD'')"
proof -
  have "nd_node_type sample_enum = StringEnumT"
    "nd_string_enum sample_enum = Some [\<lparr>se_item = ''STD'', se_long_item = ''Standard''\<rparr>,
       \<lparr>se_item = ''EQ'', se_long_item = []\<rparr>]"
    "decode_enum (\<lambda>_. []) sample_enum (with_i32 0) = StringEnumD ''STD'' ''Standard'' 0"
    by (simp_all add: sample_enum_def sample_def_def decode_enum_def data_defs usize_of_i32_def
        get_item_def)
  from enum_decode_encode [OF this] show ?thesis by simp
qed

end
