(* ===== verification/TokenReader.thy ===== *)
theory TokenReader
  imports NodeData
begin

text \<open>
  The client's response parser (\<open>read_inner\<close> and its helpers in \<open>src/console.rs\<close>), written
  over an abstract byte source. The source delivers one de-escaped byte, an error, or nothing
  yet (\<open>None\<close>); the console's own source, with its replay queue, its receive buffer and its
  socket, is the subject of \<open>Reader\<close>. The vector \<open>raw\<close> that \<open>decode_next\<close> fills is read back
  only for a node definition, where it holds the bytes that \<open>read_n\<close> returns.
\<close>

section \<open>Responses\<close>

datatype WingResponse = RequestEnd | NodeDefR WingNodeDef | NodeDataR i32 WingNodeData

definition MAX_NODE_DEF_BYTES :: nat where
  "MAX_NODE_DEF_BYTES = 1024 * 1024"

section \<open>Reading from a source\<close>

type_synonym 's source = "'s \<Rightarrow> (byte result \<times> 's) option"

fun read_n :: "'s source \<Rightarrow> nat \<Rightarrow> 's \<Rightarrow> (byte list result \<times> 's) option" where
  "read_n get 0 s = Some (Inr [], s)"
| "read_n get (Suc n) s =
     (case get s of
        None \<Rightarrow> None
      | Some (Inl e, s') \<Rightarrow> Some (Inl e, s')
      | Some (Inr b, s') \<Rightarrow>
          (case read_n get n s' of
             None \<Rightarrow> None
           | Some (Inl e, s'') \<Rightarrow> Some (Inl e, s'')
           | Some (Inr bs, s'') \<Rightarrow> Some (Inr (b # bs), s'')))"

text \<open>Sequencing: the rest of a token is only read once its bytes have arrived.\<close>

definition with_bytes :: "'s source \<Rightarrow> nat \<Rightarrow> i32 \<Rightarrow> 's \<Rightarrow>
    (byte list \<Rightarrow> 's \<Rightarrow> (('r result \<times> i32) \<times> 's) option) \<Rightarrow> (('r result \<times> i32) \<times> 's) option" where
  "with_bytes get n cur s k =
     (case read_n get n s of
        None \<Rightarrow> None
      | Some (Inl e, s') \<Rightarrow> Some ((Inl e, cur), s')
      | Some (Inr bs, s') \<Rightarrow> k bs s')"

definition return_data :: "i32 \<Rightarrow> WingNodeData \<Rightarrow> 's \<Rightarrow> ((WingResponse option result \<times> i32) \<times> 's) option" where
  "return_data cur d s = Some ((Inr (Some (NodeDataR cur d)), cur), s)"

definition return_string :: "i32 \<Rightarrow> byte list \<Rightarrow> 's \<Rightarrow> ((WingResponse option result \<times> i32) \<times> 's) option" where
  "return_string cur bs s =
     (case from_utf8 bs of
        None \<Rightarrow> Some ((Inl InvalidData, cur), s)
      | Some str \<Rightarrow> return_data cur (with_string str) s)"

definition continue :: "i32 \<Rightarrow> 's \<Rightarrow> ((WingResponse option result \<times> i32) \<times> 's) option" where
  "continue cur s = Some ((Inr None, cur), s)"

definition return_def :: "'s source \<Rightarrow> nat \<Rightarrow> i32 \<Rightarrow> 's \<Rightarrow> ((WingResponse option result \<times> i32) \<times> 's) option" where
  "return_def get def_len cur s =
     (if def_len > MAX_NODE_DEF_BYTES then Some ((Inl InvalidData, cur), s)
      else with_bytes get def_len cur s (\<lambda>raw s.
        case from_bytes raw of
          Inl e \<Rightarrow> Some ((Inl e, cur), s)
        | Inr d \<Rightarrow> Some ((Inr (Some (NodeDefR d)), cur), s)))"

lemma return_def_code [code]:
  "return_def get def_len cur s =
     (if int def_len > 1048576 then Some ((Inl InvalidData, cur), s)
      else with_bytes get def_len cur s (\<lambda>raw s.
        case from_bytes raw of
          Inl e \<Rightarrow> Some ((Inl e, cur), s)
        | Inr d \<Rightarrow> Some ((Inr (Some (NodeDefR d)), cur), s)))"
  by (simp add: return_def_def MAX_NODE_DEF_BYTES_def)

text \<open>
  One pass of the loop of \<open>read_inner\<close> after its command byte: a response, an error, or
  \<open>None\<close> where the pass falls through to the next command. The second component is
  \<open>current_node_id\<close> afterwards.
\<close>

definition read_token :: "'s source \<Rightarrow> byte \<Rightarrow> i32 \<Rightarrow> 's \<Rightarrow>
    ((WingResponse option result \<times> i32) \<times> 's) option" where
  "read_token get cmd cur s =
    (if cmd \<le> 0x3f then return_data cur (with_i32 (ucast cmd)) s
     else if cmd \<le> 0x7f then continue cur s
     else if cmd \<le> 0xbf then
       with_bytes get (unat (cmd - 0x80 + 1)) cur s (return_string cur)
     else if cmd \<le> 0xcf then
       with_bytes get (unat (cmd - 0xc0 + 1)) cur s (\<lambda>bs. continue cur)
     else if cmd = 0xd0 then return_data cur (with_string []) s
     else if cmd = 0xd1 then
       with_bytes get 1 cur s (\<lambda>l s. with_bytes get (unat (l ! 0) + 1) cur s (return_string cur))
     else if cmd = 0xd2 then with_bytes get 2 cur s (\<lambda>bs. continue cur)
     else if cmd = 0xd3 then
       with_bytes get 2 cur s (\<lambda>bs. return_data cur (with_i16 (u16_from_be bs)))
     else if cmd = 0xd4 then
       with_bytes get 4 cur s (\<lambda>bs. return_data cur (with_i32 (u32_from_be bs)))
     else if cmd = 0xd5 \<or> cmd = 0xd6 then
       with_bytes get 4 cur s (\<lambda>bs. return_data cur (with_float (u32_from_be bs)))
     else if cmd = 0xd7 then with_bytes get 4 cur s (\<lambda>bs. continue (u32_from_be bs))
     else if cmd = 0xd8 then continue cur s
     else if cmd = 0xd9 then with_bytes get 1 cur s (\<lambda>bs. continue cur)
     else if cmd \<le> 0xdd then continue cur s
     else if cmd = 0xde then Some ((Inr (Some RequestEnd), cur), s)
     else if cmd = 0xdf then
       with_bytes get 2 cur s (\<lambda>bs s.
         let def_len = unat (u16_from_be bs) in
         if def_len = 0 then
           with_bytes get 4 cur s (\<lambda>bs s. return_def get (unat (u32_from_be bs)) cur s)
         else return_def get def_len cur s)
     else Some ((Inl InvalidData, cur), s))"

partial_function (option) read_response ::
  "'s source \<Rightarrow> i32 \<Rightarrow> 's \<Rightarrow> ((WingResponse result \<times> i32) \<times> 's) option" where
  "read_response get cur s =
     Option.bind (get s) (\<lambda>(r, s1).
       case r of
         Inl e \<Rightarrow> Some ((Inl e, cur), s1)
       | Inr cmd \<Rightarrow>
           Option.bind (read_token get cmd cur s1) (\<lambda>((t, cur'), s2).
             case t of
               Inl e \<Rightarrow> Some ((Inl e, cur'), s2)
             | Inr None \<Rightarrow> read_response get cur' s2
             | Inr (Some resp) \<Rightarrow> Some ((Inr resp, cur'), s2)))"

declare read_response.simps [code]

lemma read_response_case:
  "read_response get cur s =
     (case get s of
        None \<Rightarrow> None
      | Some (Inl e, s1) \<Rightarrow> Some ((Inl e, cur), s1)
      | Some (Inr cmd, s1) \<Rightarrow>
          (case read_token get cmd cur s1 of
             None \<Rightarrow> None
           | Some ((Inl e, cur'), s2) \<Rightarrow> Some ((Inl e, cur'), s2)
           | Some ((Inr None, cur'), s2) \<Rightarrow> read_response get cur' s2
           | Some ((Inr (Some resp), cur'), s2) \<Rightarrow> Some ((Inr resp, cur'), s2)))"
  by (subst read_response.simps) (auto split: option.splits sum.splits)

lemma read_response_induct [consumes 1, case_names step]:
  assumes "read_response get cur s = Some y"
    and step: "\<And>f cur s y. (\<And>cur s y. f cur s = Some y \<Longrightarrow> P cur s y) \<Longrightarrow>
      Option.bind (get s) (\<lambda>(r, s1).
       case r of
         Inl e \<Rightarrow> Some ((Inl e, cur), s1)
       | Inr cmd \<Rightarrow>
           Option.bind (read_token get cmd cur s1) (\<lambda>((t, cur'), s2).
             case t of
               Inl e \<Rightarrow> Some ((Inl e, cur'), s2)
             | Inr None \<Rightarrow> f cur' s2
             | Inr (Some resp) \<Rightarrow> Some ((Inr resp, cur'), s2))) = Some y \<Longrightarrow> P cur s y"
  shows "P cur s y"
proof -
  have "g = get \<longrightarrow> P cur s y" if "read_response g cur s = Some y" for g
    using that
  proof (rule read_response.raw_induct [rotated])
    fix f g cur s y
    assume ih: "\<And>g cur s y. f g cur s = Some y \<Longrightarrow> g = get \<longrightarrow> P cur s y"
      and body: "Option.bind (g s) (\<lambda>(r, s1).
       case r of
         Inl e \<Rightarrow> Some ((Inl e, cur), s1)
       | Inr cmd \<Rightarrow>
           Option.bind (read_token g cmd cur s1) (\<lambda>((t, cur'), s2).
             case t of
               Inl e \<Rightarrow> Some ((Inl e, cur'), s2)
             | Inr None \<Rightarrow> f g cur' s2
             | Inr (Some resp) \<Rightarrow> Some ((Inr resp, cur'), s2))) = Some y"
    show "g = get \<longrightarrow> P cur s y" using step [of "f get" s cur y] ih body by blast
  qed
  with assms(1) show ?thesis by blast
qed

text \<open>The plain source: a list of bytes, which never fails and blocks when it is exhausted.\<close>

fun uncons :: "byte list source" where
  "uncons [] = None"
| "uncons (b # bs) = Some (Inr b, bs)"

section \<open>Sources and what is left in them\<close>

text \<open>
  A source with a view: the bytes it has still to deliver. The parser run over any such source
  does what it does on the plain list of those bytes; this is what lets the console's reader
  be understood without its sockets.
\<close>

definition refines :: "('s \<Rightarrow> byte list) \<Rightarrow> ('s \<Rightarrow> bool) \<Rightarrow> (('r result \<times> i32) \<times> 's) option \<Rightarrow>
    (('r result \<times> i32) \<times> byte list) option \<Rightarrow> bool" where
  "refines view good p q \<longleftrightarrow>
     (\<forall>r cur s'. p = Some ((Inr r, cur), s') \<longrightarrow> good s' \<and> q = Some ((Inr r, cur), view s'))"

lemma refines_if:
  "(c \<Longrightarrow> refines view good p q) \<Longrightarrow> (\<not> c \<Longrightarrow> refines view good p' q') \<Longrightarrow>
     refines view good (if c then p else p') (if c then q else q')"
  by simp

lemma refines_returns:
  "good s \<Longrightarrow> refines view good (return_data cur d s) (return_data cur d (view s))"
  "good s \<Longrightarrow> refines view good (return_string cur bs s) (return_string cur bs (view s))"
  "good s \<Longrightarrow> refines view good (continue cur s) (continue cur (view s))"
  "good s \<Longrightarrow> refines view good (Some ((x, cur), s)) (Some ((x, cur), view s))"
  by (auto simp: refines_def return_data_def return_string_def continue_def split: option.splits)

locale byte_source =
  fixes get :: "'s \<Rightarrow> (byte result \<times> 's) option"
    and view :: "'s \<Rightarrow> byte list"
    and good :: "'s \<Rightarrow> bool"
  assumes get_ok: "good s \<Longrightarrow> get s = Some (Inr b, s') \<Longrightarrow> good s' \<and> view s = b # view s'"
begin

lemma read_n_ok:
  "good s \<Longrightarrow> read_n get n s = Some (Inr bs, s') \<Longrightarrow>
     good s' \<and> view s = bs @ view s' \<and> read_n uncons n (view s) = Some (Inr bs, view s')"
proof (induction n arbitrary: s bs)
  case (Suc n)
  then obtain b s1 bs1 where "get s = Some (Inr b, s1)" "read_n get n s1 = Some (Inr bs1, s')" "bs = b # bs1"
    by (auto split: option.splits sum.splits)
  with Suc get_ok [of s b s1] show ?case by fastforce
qed auto

lemma refines_with_bytes:
  assumes "good s" and "\<And>bs s1. good s1 \<Longrightarrow> refines view good (k bs s1) (k' bs (view s1))"
  shows "refines view good (with_bytes get n cur s k) (with_bytes uncons n cur (view s) k')"
  unfolding refines_def
proof (intro allI impI)
  fix r cur' s' assume "with_bytes get n cur s k = Some ((Inr r, cur'), s')"
  then obtain bs s1 where 1: "read_n get n s = Some (Inr bs, s1)"
    and 2: "k bs s1 = Some ((Inr r, cur'), s')"
    by (auto simp: with_bytes_def split: option.splits sum.splits)
  note rd = read_n_ok [OF assms(1) 1]
  from assms(2) [of s1 bs] rd 2 have "good s'" "k' bs (view s1) = Some ((Inr r, cur'), view s')"
    by (simp_all add: refines_def)
  with rd show "good s' \<and> with_bytes uncons n cur (view s) k' = Some ((Inr r, cur'), view s')"
    by (auto simp: with_bytes_def)
qed

lemma refines_def_body:
  "good s \<Longrightarrow> refines view good (return_def get n cur s) (return_def uncons n cur (view s))"
  unfolding return_def_def
  by (intro refines_if refines_returns refines_with_bytes) (auto simp: refines_def split: sum.splits)

lemma refines_token:
  "good s \<Longrightarrow> refines view good (read_token get cmd cur s) (read_token uncons cmd cur (view s))"
  unfolding read_token_def Let_def
  by (intro refines_if refines_returns refines_with_bytes refines_def_body)

lemma refines_response:
  assumes "read_response get cur s = Some res" and "good s" and "res = ((Inr r, cur'), s')"
  shows "good s' \<and> read_response uncons cur (view s) = Some ((Inr r, cur'), view s')"
  using assms
proof (induction arbitrary: r cur' s' rule: read_response_induct)
  case (step f cur s res)
  from step.prems step.hyps obtain cmd s1 t cur1 s2 where g: "get s = Some (Inr cmd, s1)"
    and t: "read_token get cmd cur s1 = Some ((Inr t, cur1), s2)"
    and k: "t = None \<and> f cur1 s2 = Some res \<or> (\<exists>x. t = Some x \<and> res = ((Inr x, cur1), s2))"
    by (auto split: Option.bind_splits prod.splits sum.splits option.splits)
  from get_ok [OF \<open>good s\<close> g] have s1: "good s1" "view s = cmd # view s1" by simp_all
  from refines_token [OF s1(1), of cmd cur] t
  have s2: "good s2" "read_token uncons cmd cur (view s1) = Some ((Inr t, cur1), view s2)"
    by (simp_all add: refines_def)
  show ?case
  proof (cases t)
    case None
    with k step.IH [of cur1 s2 res r cur' s'] s2 step.prems
    have "good s' \<and> read_response uncons cur1 (view s2) = Some ((Inr r, cur'), view s')" by simp
    with None s1 s2 show ?thesis by (subst read_response.simps) simp
  next
    case (Some x)
    with k step.prems s1 s2 show ?thesis by (subst read_response.simps) simp
  qed
qed

end

text \<open>
  A relation between source states that every byte read respects, as does every failed one
  but for excused errors, is respected by whole responses.
\<close>

definition unexcused :: "error set \<Rightarrow> 'a result \<Rightarrow> bool" where
  "unexcused excused x \<longleftrightarrow> (\<forall>e\<in>excused. x \<noteq> Inl e)"

lemma unexcused_simps [simp]:
  "unexcused {} x" "unexcused excused (Inr a)" "unexcused excused (Inl e) \<longleftrightarrow> e \<notin> excused"
  by (auto simp: unexcused_def)

lemma unexcused_one: "unexcused {e} x \<longleftrightarrow> x \<noteq> Inl e"
  by (simp add: unexcused_def)

locale source_trace =
  fixes get :: "'s \<Rightarrow> (byte result \<times> 's) option"
    and rel :: "'s \<Rightarrow> 's \<Rightarrow> bool"
    and excused :: "error set"
  assumes rel_refl: "rel s s"
    and rel_trans: "rel s1 s2 \<Longrightarrow> rel s2 s3 \<Longrightarrow> rel s1 s3"
    and get_rel: "get s = Some (x, s') \<Longrightarrow> unexcused excused x \<Longrightarrow> rel s s'"
begin

lemma read_n_rel: "read_n get n s = Some (x, s') \<Longrightarrow> unexcused excused x \<Longrightarrow> rel s s'"
proof (induction n arbitrary: s x)
  case 0
  then show ?case by (simp add: rel_refl)
next
  case (Suc n)
  obtain y s1 where g: "get s = Some (y, s1)" using Suc.prems(1) by (auto split: option.splits)
  show ?case
  proof (cases y)
    case (Inl e)
    with g Suc.prems get_rel [OF g] show ?thesis by auto
  next
    case (Inr b)
    with g Suc.prems have "\<exists>z. read_n get n s1 = Some (z, s') \<and> unexcused excused z"
      by (auto split: option.splits sum.splits)
    with Suc.IH get_rel [OF g] Inr show ?thesis by (auto intro: rel_trans)
  qed
qed

definition tracks :: "'s \<Rightarrow> (('r result \<times> i32) \<times> 's) option \<Rightarrow> bool" where
  "tracks s p \<longleftrightarrow> (\<forall>x cur s'. p = Some ((x, cur), s') \<longrightarrow> unexcused excused x \<longrightarrow> rel s s')"

lemma tracks_if: "(c \<Longrightarrow> tracks s p) \<Longrightarrow> (\<not> c \<Longrightarrow> tracks s q) \<Longrightarrow> tracks s (if c then p else q)"
  by simp

lemma tracks_returns:
  "tracks s (return_data cur d s)" "tracks s (return_string cur bs s)" "tracks s (continue cur s)"
  "tracks s (Some ((x, cur), s))"
  by (auto simp: tracks_def return_data_def return_string_def continue_def rel_refl split: option.splits)

lemma tracks_with_bytes:
  assumes "\<And>bs s1. tracks s1 (k bs s1)"
  shows "tracks s (with_bytes get n cur s k)"
  unfolding tracks_def
proof (intro allI impI)
  fix x cur' s' assume w: "with_bytes get n cur s k = Some ((x, cur'), s')" and x: "unexcused excused x"
  obtain y s1 where r: "read_n get n s = Some (y, s1)" using w by (auto simp: with_bytes_def split: option.splits)
  show "rel s s'"
  proof (cases y)
    case (Inl e)
    with w x read_n_rel [OF r] r show ?thesis by (auto simp: with_bytes_def)
  next
    case (Inr bs)
    with w r have "k bs s1 = Some ((x, cur'), s')" by (simp add: with_bytes_def)
    with assms [of s1 bs] x have "rel s1 s'" by (simp add: tracks_def)
    with read_n_rel [OF r] Inr show ?thesis by (auto intro: rel_trans)
  qed
qed

lemma tracks_def_body: "tracks s (return_def get n cur s)"
  unfolding return_def_def
  by (intro tracks_if tracks_returns tracks_with_bytes) (auto simp: tracks_def rel_refl split: sum.splits)

lemma tracks_token: "tracks s (read_token get cmd cur s)"
  unfolding read_token_def Let_def
  by (intro tracks_if tracks_returns tracks_with_bytes tracks_def_body)

lemma response_rel:
  assumes "read_response get cur s = Some res" and "unexcused excused (fst (fst res))"
  shows "rel s (snd res)"
  using assms
proof (induction rule: read_response_induct)
  case (step f cur s res)
  from step.hyps obtain x s1 where g: "get s = Some (x, s1)" by (auto split: Option.bind_splits)
  show ?case
  proof (cases x)
    case (Inl e)
    with g step.hyps step.prems get_rel [OF g] show ?thesis by auto
  next
    case (Inr cmd)
    with g step.hyps obtain t cur1 s2 where t: "read_token get cmd cur s1 = Some ((t, cur1), s2)"
      by (auto split: Option.bind_splits)
    from get_rel [OF g] Inr have 1: "rel s s1" by simp
    from tracks_token [of s1 cmd cur] t have 2: "unexcused excused t \<Longrightarrow> rel s1 s2"
      by (auto simp: tracks_def)
    show ?thesis
      using step.hyps step.prems g Inr t 1 2 step.IH [of cur1 s2 res]
      by (cases t rule: result_option_cases) (auto intro: rel_trans)
  qed
qed

end

text \<open>
  The converse: a source that can always deliver the next of the bytes it holds lets the parser
  complete whatever those bytes complete.
\<close>

locale live_source =
  fixes get :: "'s \<Rightarrow> (byte result \<times> 's) option"
    and held :: "'s \<Rightarrow> byte list"
    and good :: "'s \<Rightarrow> bool"
  assumes get_live: "good s \<Longrightarrow> held s = b # bs \<Longrightarrow> \<exists>s'. get s = Some (Inr b, s') \<and> good s' \<and> held s' = bs"
begin

definition completes :: "(('r result \<times> i32) \<times> 's) option \<Rightarrow> (('r result \<times> i32) \<times> byte list) option \<Rightarrow> bool" where
  "completes p q \<longleftrightarrow>
     (\<forall>x cur bs. q = Some ((x, cur), bs) \<longrightarrow> (\<exists>s'. p = Some ((x, cur), s') \<and> good s' \<and> held s' = bs))"

lemma read_n_live:
  "good s \<Longrightarrow> read_n uncons n (held s) = Some (x, bs) \<Longrightarrow>
     \<exists>s'. read_n get n s = Some (x, s') \<and> good s' \<and> held s' = bs"
proof (induction n arbitrary: s x)
  case (Suc n)
  then obtain b rest y where h: "held s = b # rest" and r: "read_n uncons n rest = Some (y, bs)"
    and x: "x = map_sum id ((#) b) y"
    by (cases "held s") (auto split: option.splits sum.splits)
  from get_live [OF Suc.prems(1) h] obtain s1 where "get s = Some (Inr b, s1)" "good s1" "held s1 = rest"
    by blast
  with Suc.IH [of s1 y] r x show ?case by (cases y) auto
qed auto

lemma completes_if:
  "(c \<Longrightarrow> completes p q) \<Longrightarrow> (\<not> c \<Longrightarrow> completes p' q') \<Longrightarrow>
     completes (if c then p else p') (if c then q else q')"
  by simp

lemma completes_returns:
  "good s \<Longrightarrow> completes (return_data cur d s) (return_data cur d (held s))"
  "good s \<Longrightarrow> completes (return_string cur bs s) (return_string cur bs (held s))"
  "good s \<Longrightarrow> completes (continue cur s) (continue cur (held s))"
  "good s \<Longrightarrow> completes (Some ((x, cur), s)) (Some ((x, cur), held s))"
  by (auto simp: completes_def return_data_def return_string_def continue_def split: option.splits)

lemma completes_with_bytes:
  assumes "good s" and "\<And>bs s1. good s1 \<Longrightarrow> completes (k bs s1) (k' bs (held s1))"
  shows "completes (with_bytes get n cur s k) (with_bytes uncons n cur (held s) k')"
  unfolding completes_def
proof (intro allI impI)
  fix x cur' rest assume w: "with_bytes uncons n cur (held s) k' = Some ((x, cur'), rest)"
  then obtain y bs1 where r: "read_n uncons n (held s) = Some (y, bs1)"
    by (auto simp: with_bytes_def split: option.splits)
  from read_n_live [OF assms(1) r] obtain s1 where
    s1: "read_n get n s = Some (y, s1)" "good s1" "held s1 = bs1" by blast
  with w r assms(2) [OF s1(2)] show "\<exists>s'. with_bytes get n cur s k = Some ((x, cur'), s') \<and> good s' \<and> held s' = rest"
    by (cases y) (auto simp: with_bytes_def completes_def)
qed

lemma completes_def_body: "good s \<Longrightarrow> completes (return_def get n cur s) (return_def uncons n cur (held s))"
  unfolding return_def_def
  by (intro completes_if completes_returns completes_with_bytes) (auto simp: completes_def split: sum.splits)

lemma completes_token: "good s \<Longrightarrow> completes (read_token get cmd cur s) (read_token uncons cmd cur (held s))"
  unfolding read_token_def Let_def
  by (intro completes_if completes_returns completes_with_bytes completes_def_body)

lemma completes_response:
  assumes "read_response uncons cur bs = Some res" and "good s" and "held s = bs"
  shows "\<exists>s'. read_response get cur s = Some (fst res, s') \<and> good s' \<and> held s' = snd res"
  using assms
proof (induction arbitrary: s rule: read_response_induct)
  case (step f cur bs res)
  from step.hyps obtain cmd rest where b: "bs = cmd # rest" by (cases bs) auto
  with get_live [of s cmd rest] step.prems obtain s1 where
    g: "get s = Some (Inr cmd, s1)" "good s1" "held s1 = rest" by blast
  from step.hyps b obtain t cur1 bs2 where t: "read_token uncons cmd cur rest = Some ((t, cur1), bs2)"
    by (auto split: Option.bind_splits)
  from completes_token [OF g(2), of cmd cur] g(3) t obtain s2 where
    s2: "read_token get cmd cur s1 = Some ((t, cur1), s2)" "good s2" "held s2 = bs2"
    by (auto simp: completes_def)
  have simp_get: "read_response get cur s = (case t of
       Inl e \<Rightarrow> Some ((Inl e, cur1), s2)
     | Inr None \<Rightarrow> read_response get cur1 s2
     | Inr (Some resp) \<Rightarrow> Some ((Inr resp, cur1), s2))"
    using g(1) s2(1) by (subst read_response.simps) simp
  show ?case
    using step.hyps b t s2 simp_get step.IH [of cur1 bs2 res s2]
    by (cases t rule: result_option_cases) auto
qed

end

interpretation plain: byte_source uncons "\<lambda>bs. bs" "\<lambda>_. True"
proof
  fix s s' :: "byte list" and b assume "uncons s = Some (Inr b, s')"
  then show "True \<and> s = b # s'" by (cases s) auto
qed

end
