(* ===== verification/Response.thy ===== *)
theory Response
  imports Request TokenReader
begin

text \<open>
  The server's responses (\<open>src/native.rs\<close>): \<open>NativeResponse\<close>, the incremental
  \<open>BoundedResponseEncoder\<close> and the two batch encoders, proved against the client's response
  parser of \<open>TokenReader\<close>.
\<close>

section \<open>Encoding\<close>

datatype NativeResponse =
    NRequestEnd
  | NNodeDef WingNodeDef
  | NNodeData i32 NativeValue
  | NAuthoritativeEvent i32 NativeValue

record BoundedResponseEncoder =
  be_payload :: "byte list"
  be_wire_len :: nat
  be_max_wire_bytes :: nat

definition new_encoder :: "nat \<Rightarrow> BoundedResponseEncoder" where
  "new_encoder max_wire_bytes =
     \<lparr>be_payload = [], be_wire_len = 2, be_max_wire_bytes = max_wire_bytes\<rparr>"

definition wire_len :: "BoundedResponseEncoder \<Rightarrow> nat" where
  "wire_len e = be_wire_len e"

text \<open>The bytes one response adds to the payload.\<close>

definition encode_def_body :: "byte list \<Rightarrow> byte list result" where
  "encode_def_body body =
     (if length body > max_definition_bytes default_limits then Inl InvalidInput
      else if length body < 65536
      then Inr ([0xdf] @ u16_be (word_of_nat (length body)) @ body)
      else Inr ([0xdf] @ u16_be 0 @ u32_be (word_of_nat (length body)) @ body))"

definition encode_response :: "NativeResponse \<Rightarrow> byte list result" where
  "encode_response response =
     (case response of
        NRequestEnd \<Rightarrow> Inr [0xde]
      | NNodeData i value \<Rightarrow> encode_value ([0xd7] @ u32_be i) value
      | NAuthoritativeEvent i value \<Rightarrow> encode_value ([0xd7] @ u32_be i) value
      | NNodeDef d \<Rightarrow> and_then (to_wire_bytes d) encode_def_body)"

definition push_response ::
  "BoundedResponseEncoder \<Rightarrow> NativeResponse \<Rightarrow> unit result \<times> BoundedResponseEncoder" where
  "push_response e response =
     (case encode_response response of
        Inl err \<Rightarrow> (Inl err, e)
      | Inr encoded \<Rightarrow>
          (let next_wire_len = saturating_add (be_wire_len e) (escaped_len encoded) in
           if next_wire_len > be_max_wire_bytes e then (Inl InvalidInput, e)
           else (Inr (), e\<lparr>be_payload := be_payload e @ encoded, be_wire_len := next_wire_len\<rparr>)))"

definition finish_encoder :: "BoundedResponseEncoder \<Rightarrow> byte list result" where
  "finish_encoder e =
     (if be_wire_len e > be_max_wire_bytes e then Inl InvalidInput
      else Inr (append_escaped [0xdf, 0xd1] (be_payload e)))"

fun push_all :: "BoundedResponseEncoder \<Rightarrow> NativeResponse list \<Rightarrow> unit result \<times> BoundedResponseEncoder" where
  "push_all e [] = (Inr (), e)"
| "push_all e (r # rs) =
     (case push_response e r of
        (Inl err, e') \<Rightarrow> (Inl err, e')
      | (Inr _, e') \<Rightarrow> push_all e' rs)"

definition encode_responses_bounded :: "NativeResponse list \<Rightarrow> nat \<Rightarrow> byte list result" where
  "encode_responses_bounded responses max_wire_bytes =
     (case push_all (new_encoder max_wire_bytes) responses of
        (Inl err, _) \<Rightarrow> Inl err
      | (Inr _, e) \<Rightarrow> finish_encoder e)"

definition encode_responses :: "NativeResponse list \<Rightarrow> byte list result" where
  "encode_responses responses = encode_responses_bounded responses usize_max"

section \<open>The ceiling\<close>

definition encoded_all :: "NativeResponse list \<Rightarrow> byte list result" where
  "encoded_all rs = foldr (\<lambda>r acc. and_then (encode_response r) (\<lambda>b. and_then acc (\<lambda>bs. Inr (b @ bs)))) rs (Inr [])"

lemma encoded_all_simps [simp]:
  "encoded_all [] = Inr []"
  "encoded_all (r # rs) =
     and_then (encode_response r) (\<lambda>b. and_then (encoded_all rs) (\<lambda>bs. Inr (b @ bs)))"
  by (simp_all add: encoded_all_def)

lemma encode_response_error: "encode_response r = Inl e \<Longrightarrow> e = InvalidInput"
proof -
  have short: "push_short_string raw s = Inl e \<Longrightarrow> e = InvalidInput" for raw s
    by (simp add: push_short_string_def split: if_splits)
  have strs: "push_string_items raw items = Inl e \<Longrightarrow> e = InvalidInput" for raw items
    by (induction items arbitrary: raw) (auto simp: and_then_iffs dest: short)
  have flts: "push_float_items raw items = Inl e \<Longrightarrow> e = InvalidInput" for raw items
    by (induction items arbitrary: raw) (auto simp: and_then_iffs dest: short)
  have payload: "push_type_payload raw d = Inl e \<Longrightarrow> e = InvalidInput" for raw d
    by (auto simp: push_type_payload_def and_then_iffs count_u16_def dest: strs flts
        split: NodeType.splits option.splits if_splits)
  have "to_wire_bytes d = Inl e \<Longrightarrow> e = InvalidInput" for d
    by (auto simp: to_wire_bytes_def Let_def and_then_iffs dest: short payload)
  then show "encode_response r = Inl e \<Longrightarrow> e = InvalidInput"
    by (auto simp: encode_response_def encode_value_eq encode_def_body_def and_then_iffs
        split: NativeResponse.splits if_splits)
qed

lemma escaped_len_append: "escaped_len (xs @ ys) = escaped_len xs + escaped_len ys"
  by (simp flip: length_escape)

lemma encoded_all_error: "encoded_all rs = Inl e \<Longrightarrow> e = InvalidInput"
  by (induction rs) (auto simp: and_then_iffs dest: encode_response_error)

text \<open>The encoder's own account of the frame it would return.\<close>

definition encoder_exact :: "BoundedResponseEncoder \<Rightarrow> bool" where
  "encoder_exact e \<longleftrightarrow> be_wire_len e = 2 + escaped_len (be_payload e) \<and>
     be_wire_len e \<le> be_max_wire_bytes e \<and> be_max_wire_bytes e < usize_max"

lemma push_response_exact:
  assumes "encoder_exact e"
  shows "push_response e r =
    (case encode_response r of
       Inl err \<Rightarrow> (Inl err, e)
     | Inr b \<Rightarrow> if 2 + escaped_len (be_payload e @ b) > be_max_wire_bytes e then (Inl InvalidInput, e)
         else (Inr (), e\<lparr>be_payload := be_payload e @ b, be_wire_len := 2 + escaped_len (be_payload e @ b)\<rparr>))"
  using assms
  by (auto simp: push_response_def encoder_exact_def Let_def escaped_len_append saturating_add_def
      split: sum.splits)

lemma push_all_exact:
  assumes "encoder_exact e"
  shows "case push_all e rs of
      (Inr _, e') \<Rightarrow> encoder_exact e' \<and> be_max_wire_bytes e' = be_max_wire_bytes e \<and>
        (\<exists>bs. encoded_all rs = Inr bs \<and> be_payload e' = be_payload e @ bs)
    | (Inl err, e') \<Rightarrow> err = InvalidInput \<and>
        (\<forall>bs. encoded_all rs = Inr bs \<longrightarrow> be_max_wire_bytes e < 2 + escaped_len (be_payload e @ bs))"
  using assms
proof (induction rs arbitrary: e)
  case Nil
  then show ?case by simp
next
  case (Cons r rs)
  show ?case
  proof (cases "encode_response r")
    case (Inl err)
    with Cons.prems encode_response_error [OF Inl] show ?thesis by (simp add: push_response_exact)
  next
    case (Inr b)
    let ?n = "2 + escaped_len (be_payload e @ b)"
    let ?e = "e\<lparr>be_payload := be_payload e @ b, be_wire_len := ?n\<rparr>"
    show ?thesis
    proof (cases "?n > be_max_wire_bytes e")
      case True
      with Cons.prems Inr show ?thesis
        by (auto simp: push_response_exact and_then_iffs escaped_len_append)
    next
      case False
      with Cons.prems have "encoder_exact ?e" by (simp add: encoder_exact_def)
      from Cons.IH [OF this] False Cons.prems Inr show ?thesis
        by (auto simp: push_response_exact and_then_iffs split: prod.splits sum.splits)
    qed
  qed
qed

lemma push_all_wire_len:
  "push_all e rs = (r, e') \<Longrightarrow> be_wire_len e \<le> usize_max \<Longrightarrow>
     be_wire_len e \<le> be_wire_len e' \<and> be_max_wire_bytes e' = be_max_wire_bytes e"
proof (induction rs arbitrary: e)
  case (Cons q rs)
  obtain x e1 where p: "push_response e q = (x, e1)" by (cases "push_response e q")
  then have "be_wire_len e \<le> be_wire_len e1" "be_wire_len e1 \<le> usize_max"
    "be_max_wire_bytes e1 = be_max_wire_bytes e"
    using Cons.prems(2) by (auto simp: push_response_def saturating_add_def Let_def split: sum.splits if_splits)
  with Cons p show ?case by (fastforce split: sum.splits)
qed simp

lemma encode_bounded_min:
  assumes "encode_responses_bounded rs mx = Inr frame"
  shows "2 \<le> mx"
proof -
  obtain x e where p: "push_all (new_encoder mx) rs = (x, e)" by (cases "push_all (new_encoder mx) rs")
  have "be_wire_len (new_encoder mx) \<le> usize_max" by (simp add: new_encoder_def usize_max_def)
  from push_all_wire_len [OF p this] assms p show ?thesis
    by (auto simp: encode_responses_bounded_def finish_encoder_def new_encoder_def split: sum.splits if_splits)
qed

lemma encode_bounded_cases:
  assumes "mx < usize_max" and "2 \<le> mx"
  shows "case encode_responses_bounded rs mx of
      Inr frame \<Rightarrow> \<exists>bs. encoded_all rs = Inr bs \<and> frame = [0xdf, 0xd1] @ escape bs \<and> length frame \<le> mx
    | Inl e \<Rightarrow> e = InvalidInput \<and> (\<forall>bs. encoded_all rs = Inr bs \<longrightarrow> mx < 2 + length (escape bs))"
proof -
  have new: "encoder_exact (new_encoder mx)"
    using assms by (simp add: encoder_exact_def new_encoder_def)
  show ?thesis
    using push_all_exact [OF new, of rs]
    by (auto simp: encode_responses_bounded_def finish_encoder_def encoder_exact_def new_encoder_def
        append_escaped_eq length_escape split: prod.splits sum.splits)
qed

section \<open>What the client reads\<close>

fun data_of :: "NativeValue \<Rightarrow> WingNodeData" where
  "data_of (Integer v) = with_i32 v"
| "data_of (Float v) = with_float v"
| "data_of (RawFloat v) = with_float v"
| "data_of (String s) = with_string s"

definition def_raw :: "WingNodeDef \<Rightarrow> byte list" where
  "def_raw d = (case to_wire_bytes d of Inr b \<Rightarrow> b | Inl _ \<Rightarrow> [])"

fun client_view :: "NativeResponse \<Rightarrow> WingResponse" where
  "client_view NRequestEnd = RequestEnd"
| "client_view (NNodeDef d) = NodeDefR (d\<lparr>nd_raw := def_raw d\<rparr>)"
| "client_view (NNodeData i v) = NodeDataR i (data_of v)"
| "client_view (NAuthoritativeEvent i v) = NodeDataR i (data_of v)"

fun response_ok :: "NativeResponse \<Rightarrow> bool" where
  "response_ok NRequestEnd = True"
| "response_ok (NNodeDef d) = def_ok d"
| "response_ok (NNodeData i v) = value_ok v"
| "response_ok (NAuthoritativeEvent i v) = value_ok v"

fun id_after :: "i32 \<Rightarrow> NativeResponse \<Rightarrow> i32" where
  "id_after cur (NNodeData i v) = i"
| "id_after cur (NAuthoritativeEvent i v) = i"
| "id_after cur _ = cur"

lemma read_n_plain: "read_n uncons (length bs) (bs @ rest) = Some (Inr bs, rest)"
  by (induction bs) auto

lemma read_n_plain': "length bs = n \<Longrightarrow> read_n uncons n (bs @ rest) = Some (Inr bs, rest)"
  using read_n_plain by blast

lemma with_bytes_plain:
  "length bs = n \<Longrightarrow> with_bytes uncons n cur (bs @ rest) k = k bs rest"
  by (simp add: with_bytes_def read_n_plain')

lemma read_select:
  "read_response uncons cur (0xd7 # u32_be i @ rest) = read_response uncons i rest"
  by (subst read_response.simps) (simp add: read_token_def with_bytes_plain continue_def)

lemma read_string_value:
  assumes "is_str s" and "length s \<le> 256"
  shows "read_response uncons i (value_token (String s) @ rest) =
    Some ((Inr (NodeDataR i (with_string s)), i), rest)"
proof -
  have u: "from_utf8 (as_bytes s) = Some s" using assms(1) by simp
  consider (empty) "s = []" | (short) "0 < length s" "length s \<le> 64"
    | (long) "64 < length s" "length s \<le> 256"
    using assms(2) by fastforce
  then show ?thesis
  proof cases
    case empty
    then show ?thesis
      by (subst read_response.simps) (simp add: value_token_eq read_token_def return_data_def)
  next
    case short
    let ?op = "0x7f + word_of_nat (length s) :: byte"
    have t: "value_token (String s) = ?op # as_bytes s" using short by (auto simp: value_token_eq)
    have "?op - 0x80 + 1 = word_of_nat (length s)" by simp
    then have "unat (?op - 0x80 + 1) = length s" using short by (simp add: unat_of_nat_u8)
    then have "read_token uncons ?op i (as_bytes s @ rest) =
        Some ((Inr (Some (NodeDataR i (with_string s))), i), rest)"
      using short_opcode_range [OF short] u unfolding read_token_def
      by (simp add: with_bytes_plain return_string_def return_data_def)
    with t show ?thesis by (subst read_response.simps) simp
  next
    case long
    then have t: "value_token (String s) = 0xd1 # [word_of_nat (length s - 1)] @ as_bytes s"
      by (auto simp: value_token_eq)
    have "Suc (unat (word_of_nat (length s - 1) :: byte)) = length s"
      "Suc (unat (word_of_nat (length s) - 1 :: byte)) = length s"
      using long_string_len [OF long] long by (metis Suc_pred' gr_zeroI not_less0 One_nat_def)+
    then have "read_token uncons 0xd1 i ([word_of_nat (length s - 1)] @ as_bytes s @ rest) =
        Some ((Inr (Some (NodeDataR i (with_string s))), i), rest)"
      using u unfolding read_token_def
      by (simp only: with_bytes_plain length_Cons list.size) (simp add: with_bytes_plain return_string_def return_data_def)
    with t show ?thesis by (subst read_response.simps) simp
  qed
qed

lemma read_value:
  assumes "value_ok v"
  shows "read_response uncons i (value_token v @ rest) = Some ((Inr (NodeDataR i (data_of v)), i), rest)"
proof (cases v)
  case (Integer n)
  consider (small) "0 \<le> sint n" "sint n \<le> 0x3f"
    | (mid) "\<not> (0 \<le> sint n \<and> sint n \<le> 0x3f)" "- 32768 \<le> sint n" "sint n \<le> 32767"
    | (big) "\<not> (0 \<le> sint n \<and> sint n \<le> 0x3f)" "\<not> (- 32768 \<le> sint n \<and> sint n \<le> 32767)" by blast
  then show ?thesis
  proof cases
    case small
    with small_int_token [OF small] Integer show ?thesis
      by (subst read_response.simps) (simp add: value_token_eq read_token_def return_data_def)
  next
    case mid
    then have "value_token v = 0xd3 # u16_be (ucast n)" by (auto simp: Integer value_token_eq)
    with i16_token [OF mid(2,3)] Integer show ?thesis
      by (subst read_response.simps)
        (simp add: read_token_def with_bytes_plain return_data_def with_i16_def with_i32_def)
  next
    case big
    then have "value_token v = 0xd4 # u32_be n" by (auto simp: Integer value_token_eq)
    with Integer show ?thesis
      by (subst read_response.simps) (simp add: read_token_def with_bytes_plain return_data_def)
  qed
next
  case (String s)
  with assms read_string_value [of s] show ?thesis by (simp add: value_ok_def)
qed (subst read_response.simps; simp add: value_token_eq read_token_def with_bytes_plain return_data_def)+

lemma header_len: "12 \<le> length (header_bytes d)"
  by (simp add: header_bytes_def)

lemma read_def_body:
  assumes parse: "from_bytes body = Inr d'" and "body \<noteq> []" and enc: "encode_def_body body = Inr b"
  shows "read_response uncons cur (b @ rest) = Some ((Inr (NodeDefR d'), cur), rest)"
proof -
  have len: "length body \<le> 1024 * 1024"
    using enc by (simp add: encode_def_body_def default_limits_def split: if_splits)
  have body: "return_def uncons (length body) cur (body @ rest) = Some ((Inr (Some (NodeDefR d')), cur), rest)"
    using len parse by (simp add: return_def_def MAX_NODE_DEF_BYTES_def with_bytes_plain)
  show ?thesis
  proof (cases "length body < 65536")
    case True
    then have b: "b = 0xdf # u16_be (word_of_nat (length body)) @ body"
      using enc len by (simp add: encode_def_body_def default_limits_def)
    have "unat (word_of_nat (length body) :: u16) = length body" using True by (rule unat_of_nat_u16)
    then have "read_token uncons 0xdf cur (u16_be (word_of_nat (length body)) @ body @ rest) =
        Some ((Inr (Some (NodeDefR d')), cur), rest)"
      using assms(2) body unfolding read_token_def by (simp add: with_bytes_plain Let_def)
    with b show ?thesis by (subst read_response.simps) simp
  next
    case False
    then have b: "b = 0xdf # u16_be 0 @ u32_be (word_of_nat (length body)) @ body"
      using enc len by (simp add: encode_def_body_def default_limits_def)
    have "length body < 4294967296" using len by linarith
    then have "unat (word_of_nat (length body) :: u32) = length body" by (rule unat_of_nat_u32)
    then have "read_token uncons 0xdf cur (u16_be 0 @ u32_be (word_of_nat (length body)) @ body @ rest) =
        Some ((Inr (Some (NodeDefR d')), cur), rest)"
      using body unfolding read_token_def by (simp add: with_bytes_plain Let_def)
    with b show ?thesis by (subst read_response.simps) simp
  qed
qed

lemma read_def_frame:
  assumes "def_ok d" and "encode_response (NNodeDef d) = Inr b"
  shows "read_response uncons cur (b @ rest) = Some ((Inr (NodeDefR (d\<lparr>nd_raw := def_raw d\<rparr>)), cur), rest)"
proof -
  let ?body = "header_bytes d @ payload_bytes d"
  note w = to_wire_bytes_ok [OF assms(1)]
  have raw: "def_raw d = ?body" by (simp add: def_raw_def w)
  have "from_bytes ?body = Inr (d\<lparr>nd_raw := ?body\<rparr>)"
    using from_bytes_inner_wire [OF assms(1), of True] by (simp add: from_bytes_def)
  moreover have "?body \<noteq> []" using header_len [of d] by auto
  moreover have "encode_def_body ?body = Inr b" using assms(2) w by (simp add: encode_response_def)
  ultimately show ?thesis unfolding raw by (rule read_def_body)
qed

lemma read_encoded:
  assumes "response_ok r" and "encode_response r = Inr b"
  shows "read_response uncons cur (b @ rest) = Some ((Inr (client_view r), id_after cur r), rest)"
proof (cases r)
  case NRequestEnd
  with assms have b: "b = [0xde]" by (simp add: encode_response_def)
  show ?thesis
    unfolding b by (subst read_response.simps) (simp add: NRequestEnd read_token_def)
next
  case (NNodeDef d)
  with assms read_def_frame show ?thesis by simp
next
  case (NNodeData i v)
  with assms show ?thesis
    by (auto simp: encode_response_def encode_value_eq read_select read_value split: if_splits)
next
  case (NAuthoritativeEvent i v)
  with assms show ?thesis
    by (auto simp: encode_response_def encode_value_eq read_select read_value split: if_splits)
qed

text \<open>Reading as many responses as were sent.\<close>

fun read_many :: "'s source \<Rightarrow> nat \<Rightarrow> i32 \<Rightarrow> 's \<Rightarrow> (WingResponse list result \<times> 's) option" where
  "read_many get 0 cur s = Some (Inr [], s)"
| "read_many get (Suc n) cur s =
     (case read_response get cur s of
        None \<Rightarrow> None
      | Some ((Inl e, _), s') \<Rightarrow> Some (Inl e, s')
      | Some ((Inr r, cur'), s') \<Rightarrow>
          (case read_many get n cur' s' of
             None \<Rightarrow> None
           | Some (Inl e, s'') \<Rightarrow> Some (Inl e, s'')
           | Some (Inr rs, s'') \<Rightarrow> Some (Inr (r # rs), s'')))"

lemma read_many_encoded:
  "list_all response_ok rs \<Longrightarrow> encoded_all rs = Inr bs \<Longrightarrow>
     read_many uncons (length rs) cur (bs @ rest) = Some (Inr (map client_view rs), rest)"
proof (induction rs arbitrary: cur bs)
  case (Cons r rs)
  then obtain b bs' where 1: "encode_response r = Inr b" "encoded_all rs = Inr bs'" "bs = b @ bs'"
    by (auto simp: and_then_iffs)
  with Cons read_encoded [of r b cur "bs' @ rest"] show ?case by simp
qed simp

section \<open>Properties\<close>

text \<open>
  C2. Server and client agree on responses: a batch that the server encodes, whatever
  ceiling it was given, de-frames to one selection of the audio engine channel and a byte
  stream from which the client's parser reads exactly those responses, in order, and nothing
  else: values with their sign, bits and bytes, definitions of any size up to the limit.
\<close>
theorem responses_roundtrip:
  assumes "encode_responses_bounded rs mx = Inr frame" and "mx < usize_max"
    and "list_all response_ok rs" and "\<not> cd_escaped c"
  shows "\<exists>bytes. push c frame =
      (Inr (Selected 1 # map (Data 1) bytes), \<lparr>cd_escaped = False, cd_channel = Some 1\<rparr>) \<and>
    read_many uncons (length rs) cur bytes = Some (Inr (map client_view rs), [])"
proof -
  have "2 \<le> mx" by (rule encode_bounded_min [OF assms(1)])
  from encode_bounded_cases [OF assms(2) this, of rs] assms(1) obtain bs where
    bs: "encoded_all rs = Inr bs" "frame = [0xdf, 0xd1] @ escape bs" by auto
  have "push c frame = (Inr (Selected 1 # map (Data 1) bs), \<lparr>cd_escaped = False, cd_channel = Some 1\<rparr>)"
    using push_encode_channel_gen [of 1 c bs] assms(4) bs(2) by (simp add: append_escaped_eq)
  with read_many_encoded [OF assms(3) bs(1), of cur "[]"] show ?thesis by auto
qed

definition sample_batch :: "NativeResponse list" where
  "sample_batch = [NNodeData 0xdf (String ''ok''), NAuthoritativeEvent 7 (Integer (- 300)), NRequestEnd]"

definition sample_frame :: "byte list" where
  "sample_frame = [0xdf, 0xd1, 0xd7, 0, 0, 0, 0xdf, 0xde, 0x81, 0x6f, 0x6b,
     0xd7, 0, 0, 0, 7, 0xd3, 0xfe, 0xd4, 0xde]"

lemma sample_batch_encodes: "encode_responses_bounded sample_batch 20 = Inr sample_frame"
  by code_simp

lemma sample_batch_ok: "list_all response_ok sample_batch"
  by code_simp

theorem responses_roundtrip_witness:
  "\<exists>bytes. push decoder_default sample_frame =
      (Inr (Selected 1 # map (Data 1) bytes), \<lparr>cd_escaped = False, cd_channel = Some 1\<rparr>) \<and>
    read_many uncons 3 0 bytes =
      Some (Inr [NodeDataR 0xdf (with_string ''ok''), NodeDataR 7 (with_i32 (- 300)), RequestEnd], [])"
proof -
  have lim: "(20 :: nat) < usize_max" "\<not> cd_escaped decoder_default"
    by (simp_all add: usize_max_def decoder_default_def)
  have "length sample_batch = 3" "map client_view sample_batch =
      [NodeDataR 0xdf (with_string ''ok''), NodeDataR 7 (with_i32 (- 300)), RequestEnd]"
    by (simp_all add: sample_batch_def)
  from responses_roundtrip [OF sample_batch_encodes lim(1) sample_batch_ok lim(2), of 0, unfolded this]
  show ?thesis .
qed



end
