(* ===== verification/ClientMessages.thy ===== *)
theory ClientMessages
  imports Request
begin

text \<open>
  What the client writes (\<open>src/console.rs\<close>): the byte strings of \<open>request_node_definition\<close>,
  \<open>request_node_data\<close>, \<open>set_string\<close>/\<open>set_float\<close>/\<open>set_int\<close>, \<open>toggle\<close>, \<open>request_meter\<close> and the two
  keep-alives, proved against the server's \<open>NativeRequestDecoder\<close>.
\<close>

section \<open>Messages\<close>

definition push_escaped :: "byte list \<Rightarrow> byte \<Rightarrow> byte list" where
  "push_escaped buf b = append_escaped buf [b]"

definition extend_escaped :: "byte list \<Rightarrow> byte list \<Rightarrow> byte list" where
  "extend_escaped buf bytes = append_escaped buf bytes"

definition format_id :: "i32 \<Rightarrow> byte list \<Rightarrow> byte \<Rightarrow> byte option \<Rightarrow> byte list" where
  "format_id i buf pre sfx = extend_escaped (buf @ [pre]) (u32_be i) @ opt_list sfx"

definition node_definition_message :: "i32 \<Rightarrow> byte list" where
  "node_definition_message i = (if i = 0 then [0xda, 0xdd] else format_id i [] 0xd7 (Some 0xdd))"

definition node_data_message :: "i32 \<Rightarrow> byte list" where
  "node_data_message i = (if i = 0 then [0xda, 0xdc] else format_id i [] 0xd7 (Some 0xdc))"

definition toggle_message :: "i32 \<Rightarrow> byte list" where
  "toggle_message i = format_id i [] 0xd7 (Some 0xd8)"

definition append_value_message :: "byte list \<Rightarrow> i32 \<Rightarrow> NativeValue \<Rightarrow> unit result \<times> byte list" where
  "append_value_message buf i value =
     (case encode_value [] value of
        Inl e \<Rightarrow> (Inl e, buf)
      | Inr token \<Rightarrow> (Inr (), extend_escaped (format_id i buf 0xd7 None) token))"

definition set_value_message :: "i32 \<Rightarrow> NativeValue \<Rightarrow> byte list result" where
  "set_value_message i value =
     (case append_value_message [] i value of
        (Inl e, _) \<Rightarrow> Inl e
      | (Inr _, buf) \<Rightarrow> Inr buf)"

definition set_string_message :: "i32 \<Rightarrow> string \<Rightarrow> byte list result" where
  "set_string_message i value = set_value_message i (String value)"

definition set_float_message :: "i32 \<Rightarrow> f32 \<Rightarrow> byte list result" where
  "set_float_message i value = set_value_message i (Float value)"

definition set_int_message :: "i32 \<Rightarrow> i32 \<Rightarrow> byte list result" where
  "set_int_message i value = set_value_message i (Integer value)"

definition meter_request_message :: "u16 \<Rightarrow> u16 \<Rightarrow> Meter list \<Rightarrow> byte list result" where
  "meter_request_message i port meters =
     and_then (encode_meters [] meters) (\<lambda>encoded.
       (let buf = [0xdf, 0xd3, 0xd3];
            buf = extend_escaped buf (u16_be port);
            buf = buf @ [0xd4];
            buf = extend_escaped buf (u16_be i);
            buf = extend_escaped buf (u16_be port);
            buf = buf @ [0xdc]
        in Inr (buf @ encoded @ [0xde, 0xdf, 0xd1])))"

definition meter_keepalive_message :: "u16 \<Rightarrow> u16 \<Rightarrow> byte list" where
  "meter_keepalive_message i port =
     extend_escaped (extend_escaped [0xdf, 0xd3, 0xd4] (u16_be i)) (u16_be port) @ [0xdf, 0xd1]"

definition keepalive_message :: "byte list" where
  "keepalive_message = [0xdf, 0xd1]"

section \<open>Feeding tokens byte by byte\<close>

lemma audio_step_incomplete:
  assumes "token_incomplete (rq_audio d)"
  shows "audio_step d = (Done (Inr None), d)"
proof (cases "rq_audio d = []")
  case True
  then show ?thesis by (simp add: audio_step_def)
next
  case False
  have m: "\<not> rq_audio d ! 0 \<le> 0x7f \<Longrightarrow> \<not> rq_audio d ! 0 \<le> 0x3f"
    using order_trans [of "rq_audio d ! 0" "0x3f" "0x7f"] by auto
  show ?thesis
    using assms False m
    unfolding token_incomplete_def audio_step_def Let_def
    by (simp only: if_False simp_thms get_range_def get_at_def split: if_split_asm) auto
qed

lemma parse_audio_incomplete:
  "token_incomplete (rq_audio d) \<Longrightarrow> parse_audio d = (Inr None, d)"
  by (simp add: parse_audio.simps [of d] audio_step_incomplete)

lemma drain_audio_incomplete:
  "token_incomplete (rq_audio d) \<Longrightarrow> drain_audio_requests d rs = (Inr rs, d)"
  by (simp add: drain_audio_requests.simps [of d] parse_audio_incomplete)

text \<open>
  A decoder between two messages of the audio engine channel, with room for the largest
  message a client sends.
\<close>

definition listening :: "NativeRequestDecoder \<Rightarrow> bool" where
  "listening d \<longleftrightarrow> \<not> cd_escaped (rq_channels d) \<and> cd_channel (rq_channels d) = Some 1 \<and>
     rq_audio d = [] \<and> rq_meter d = [] \<and> 258 \<le> max_buffered_bytes (rq_limits d) \<and>
     256 \<le> max_string_bytes (rq_limits d) \<and> 4 \<le> max_batch_requests (rq_limits d)"

lemma check_buffer_limit_room:
  "length (rq_audio d) + length (rq_meter d) \<le> max_buffered_bytes (rq_limits d) \<Longrightarrow>
     check_buffer_limit d = Inr ()"
  by (simp add: check_buffer_limit_def saturating_add_def)

lemma feed_incomplete:
  assumes "\<And>k. k \<le> length xs \<Longrightarrow> token_incomplete (take k xs)" and "rq_audio d = []"
    and "length xs + length (rq_meter d) \<le> max_buffered_bytes (rq_limits d)"
    and "length rs \<le> max_batch_requests (rq_limits d)"
  shows "run_events d rs (map (Data 1) xs) = (Inr rs, d\<lparr>rq_audio := xs\<rparr>)"
  using assms
proof (induction xs rule: rev_induct)
  case Nil
  then show ?case by (cases d) simp
next
  case (snoc b xs)
  have "token_incomplete (take k xs)" if "k \<le> length xs" for k
    using snoc.prems(1) [of k] that by simp
  with snoc have "run_events d rs (map (Data 1) xs) = (Inr rs, d\<lparr>rq_audio := xs\<rparr>)" by simp
  moreover have "token_incomplete (xs @ [b])" using snoc.prems(1) [of "length (xs @ [b])"] by simp
  ultimately show ?case
    using snoc.prems
    by (simp add: run_events_append handle_event_def Let_def check_buffer_limit_room
        drain_audio_incomplete)
qed

lemma feed_token:
  assumes "\<And>k. k < length tok \<Longrightarrow> token_incomplete (take k tok)" and "tok \<noteq> []" and "rq_audio d = []"
    and "length tok + length (rq_meter d) \<le> max_buffered_bytes (rq_limits d)"
    and "length rs \<le> max_batch_requests (rq_limits d)"
    and "drain_audio_requests (d\<lparr>rq_audio := tok\<rparr>) rs = (Inr rs', d')"
    and "rq_limits d' = rq_limits d"
    and "length rs' \<le> max_batch_requests (rq_limits d)"
  shows "run_events d rs (map (Data 1) tok) = (Inr rs', d')"
proof -
  obtain xs b where t: "tok = xs @ [b]" using assms(2) by (cases tok rule: rev_cases) auto
  have "token_incomplete (take k xs)" if "k \<le> length xs" for k
    using assms(1) [of k] that t by simp
  with feed_incomplete [of xs d rs] assms(3-5) t
  have "run_events d rs (map (Data 1) xs) = (Inr rs, d\<lparr>rq_audio := xs\<rparr>)" by simp
  then show ?thesis
    using assms t by (simp add: run_events_append handle_event_def Let_def check_buffer_limit_room)
qed

section \<open>The tokens a client sends\<close>

lemma select_incomplete:
  "k < length (0xd7 # u32_be i) \<Longrightarrow> token_incomplete (take k (0xd7 # u32_be i))"
  by (cases k) (auto simp: token_incomplete_def Let_def)

lemma select_drains:
  assumes "rq_audio d = []"
  shows "drain_audio_requests (d\<lparr>rq_audio := 0xd7 # u32_be i\<rparr>) rs
    = (Inr rs, d\<lparr>rq_selected_id := Some i\<rparr>)"
proof -
  let ?d = "d\<lparr>rq_audio := 0xd7 # u32_be i\<rparr>"
  have "audio_step ?d = (Again, d\<lparr>rq_selected_id := Some i\<rparr>)"
    using assms by (cases d) (simp add: audio_step_def Let_def get_range_def drain_audio_def)
  moreover have "parse_audio (d\<lparr>rq_selected_id := Some i\<rparr>) = (Inr None, d\<lparr>rq_selected_id := Some i\<rparr>)"
    using assms by (simp add: parse_audio_incomplete token_incomplete_def)
  ultimately show ?thesis
    by (simp add: drain_audio_requests.simps [of ?d] parse_audio.simps [of ?d])
qed

lemma request_drains:
  assumes "audio_step d = (Done (Inr (Some q)), d')" and "rq_audio d' = []"
  shows "drain_audio_requests d rs = (Inr (rs @ [q]), d')"
  using assms
  by (simp add: drain_audio_requests.simps [of d] parse_audio.simps [of d] drain_audio_incomplete
      token_incomplete_def)

lemma value_token_incomplete:
  assumes "value_ok v" and "k < length (value_token v)"
  shows "token_incomplete (take k (value_token v))"
proof (cases v)
  case (String s)
  consider (empty) "s = []" | (short) "0 < length s" "length s \<le> 64"
    | (long) "64 < length s" "length s \<le> 256"
    using assms(1) String by (fastforce simp: value_ok_def)
  then show ?thesis
  proof cases
    case empty
    with assms String show ?thesis by (simp add: value_token_eq token_incomplete_def)
  next
    case short
    then have "value_token v = (0x7f + word_of_nat (length s)) # as_bytes s"
      by (auto simp: String value_token_eq)
    with assms(2) short_opcode_range [OF short] show ?thesis
      by (cases k) (simp_all add: token_incomplete_def Let_def)
  next
    case long
    then have t: "value_token v = [0xd1, word_of_nat (length s - 1)] @ as_bytes s"
      by (auto simp: String value_token_eq)
    show ?thesis
    proof (cases "k < 2")
      case True
      then have "k = 0 \<or> k = 1" by auto
      with t show ?thesis by (auto simp: token_incomplete_def)
    next
      case False
      then obtain m where m: "k = Suc (Suc m)" by (metis less_2_cases_iff not0_implies_Suc numeral_2_eq_2)
      have "take k (value_token v) = 0xd1 # word_of_nat (length s - 1) # take m (as_bytes s)"
        by (simp add: t m)
      moreover have "m < length s" using assms(2) t m by simp
      ultimately show ?thesis using long_string_len(1) [OF long] long
        by (simp only: token_incomplete_def Let_def) simp
    qed
  qed
qed (use assms in \<open>cases k; auto simp: token_incomplete_def value_token_eq Let_def split: if_splits\<close>)+

lemma value_token_step:
  assumes "value_ok v" and "256 \<le> max_string_bytes (rq_limits d)" and "rq_selected_id d = Some i"
    and "rq_audio d = []"
  shows "audio_step (d\<lparr>rq_audio := value_token v\<rparr>) = (Done (Inr (Some (Set i v))), d)"
proof -
  have d: "d\<lparr>rq_audio := []\<rparr> = d" using assms(4) by (cases d) simp
  show ?thesis
  proof (cases v)
    case (Integer n)
    consider (small) "0 \<le> sint n" "sint n \<le> 0x3f"
      | (mid) "\<not> (0 \<le> sint n \<and> sint n \<le> 0x3f)" "- 32768 \<le> sint n" "sint n \<le> 32767"
      | (big) "\<not> (0 \<le> sint n \<and> sint n \<le> 0x3f)" "\<not> (- 32768 \<le> sint n \<and> sint n \<le> 32767)" by blast
    then show ?thesis
    proof cases
      case small
      with assms Integer small_int_token [of n] small_int_opcode [of n] d show ?thesis
        by (simp add: audio_step_def Let_def value_token_eq set_value_def done_req_def drain_audio_def)
    next
      case mid
      then have "value_token v = 0xd3 # u16_be (ucast n)" by (auto simp: Integer value_token_eq)
      with assms Integer i16_token [OF mid(2,3)] d show ?thesis
        by (simp add: audio_step_def Let_def set_value_def done_req_def drain_audio_def get_range_def)
    next
      case big
      then have "value_token v = 0xd4 # u32_be n" by (auto simp: Integer value_token_eq)
      with assms Integer d show ?thesis
        by (simp add: audio_step_def Let_def set_value_def done_req_def drain_audio_def get_range_def)
    qed
  next
    case (String s)
    have u: "from_utf8 (as_bytes s) = Some s" using assms(1) String by (simp add: value_ok_def)
    consider (empty) "s = []" | (short) "0 < length s" "length s \<le> 64"
      | (long) "64 < length s" "length s \<le> 256"
      using assms(1) String by (fastforce simp: value_ok_def)
    then show ?thesis
    proof cases
      case empty
      with assms String d show ?thesis
        by (simp add: audio_step_def Let_def value_token_eq set_value_def done_req_def drain_audio_def)
    next
      case short
      then have "s \<noteq> []" by auto
      with short short_opcode_range [OF short] assms String d u show ?thesis
        by (simp add: audio_step_def Let_def value_token_eq parse_string_token_def set_value_def
            done_req_def drain_audio_def)
    next
      case long
      then have "s \<noteq> []" by auto
      with long long_string_len [OF long] assms String d u show ?thesis
        by (simp add: audio_step_def Let_def value_token_eq parse_string_token_def set_value_def
            done_req_def drain_audio_def get_at_def)
    qed
  qed (use assms d in \<open>simp_all add: audio_step_def Let_def value_token_eq set_value_def done_req_def
        drain_audio_def get_range_def\<close>)
qed

section \<open>Whole messages\<close>

definition audio_room :: "NativeRequestDecoder \<Rightarrow> bool" where
  "audio_room d \<longleftrightarrow> rq_audio d = [] \<and> rq_meter d = [] \<and> 258 \<le> max_buffered_bytes (rq_limits d) \<and>
     256 \<le> max_string_bytes (rq_limits d)"

lemma audio_room_select [simp]: "audio_room (d\<lparr>rq_selected_id := i\<rparr>) = audio_room d"
  by (simp add: audio_room_def)

lemma run_select:
  assumes "audio_room d" and "length rs \<le> max_batch_requests (rq_limits d)"
  shows "run_events d rs (map (Data 1) (0xd7 # u32_be i)) = (Inr rs, d\<lparr>rq_selected_id := Some i\<rparr>)"
  by (rule feed_token [OF select_incomplete _ _ _ _ select_drains])
    (use assms in \<open>auto simp: audio_room_def\<close>)

lemma run_value:
  assumes "audio_room d" and "rq_selected_id d = Some i" and "value_ok v"
    and "length rs < max_batch_requests (rq_limits d)"
  shows "run_events d rs (map (Data 1) (value_token v)) = (Inr (rs @ [Set i v]), d)"
proof (rule feed_token)
  show "drain_audio_requests (d\<lparr>rq_audio := value_token v\<rparr>) rs = (Inr (rs @ [Set i v]), d)"
    using assms by (intro request_drains value_token_step) (simp_all add: audio_room_def)
  show "value_token v \<noteq> []" "length (value_token v) + length (rq_meter d) \<le> max_buffered_bytes (rq_limits d)"
    using value_token_length [OF assms(3)] assms(1) by (auto simp: audio_room_def)
qed (use assms value_token_incomplete in \<open>auto simp: audio_room_def\<close>)

definition set_payload :: "i32 \<Rightarrow> NativeValue \<Rightarrow> byte list" where
  "set_payload i v = 0xd7 # u32_be i @ value_token v"

lemma append_value_message_eq:
  "append_value_message buf i v =
     (if encodable v then (Inr (), buf @ escape (set_payload i v)) else (Inl InvalidInput, buf))"
  by (simp add: append_value_message_def encode_value_eq format_id_def extend_escaped_def
      append_escaped_eq set_payload_def)

lemma set_value_message_eq:
  "set_value_message i v = (if encodable v then Inr (escape (set_payload i v)) else Inl InvalidInput)"
  by (simp add: set_value_message_def append_value_message_eq)

lemma run_set:
  assumes "audio_room d" and "value_ok v" and "length rs < max_batch_requests (rq_limits d)"
  shows "run_events d rs (map (Data 1) (set_payload i v)) =
    (Inr (rs @ [Set i v]), d\<lparr>rq_selected_id := Some i\<rparr>)"
proof -
  have "map (Data 1) (set_payload i v) =
      map (Data 1) (0xd7 # u32_be i) @ map (Data 1) (value_token v)"
    by (simp add: set_payload_def)
  then show ?thesis
    using run_select [of d rs i] run_value [of "d\<lparr>rq_selected_id := Some i\<rparr>" i v rs] assms
    by (simp only: run_events_append) simp
qed

fun sets_payload :: "(i32 \<times> NativeValue) list \<Rightarrow> byte list" where
  "sets_payload [] = []"
| "sets_payload ((i, v) # ws) = set_payload i v @ sets_payload ws"

fun last_selected :: "i32 option \<Rightarrow> (i32 \<times> NativeValue) list \<Rightarrow> i32 option" where
  "last_selected sel [] = sel"
| "last_selected sel ((i, v) # ws) = last_selected (Some i) ws"

lemma run_sets:
  assumes "audio_room d" and "list_all (\<lambda>(i, v). value_ok v) ws"
    and "length rs + length ws \<le> max_batch_requests (rq_limits d)"
  shows "run_events d rs (map (Data 1) (sets_payload ws)) =
    (Inr (rs @ map (\<lambda>(i, v). Set i v) ws), d\<lparr>rq_selected_id := last_selected (rq_selected_id d) ws\<rparr>)"
  using assms
proof (induction ws arbitrary: d rs)
  case Nil
  then show ?case by simp
next
  case (Cons w ws)
  obtain i v where w: "w = (i, v)" by (cases w)
  from Cons.prems w have 1: "run_events d rs (map (Data 1) (set_payload i v)) =
      (Inr (rs @ [Set i v]), d\<lparr>rq_selected_id := Some i\<rparr>)"
    by (intro run_set) auto
  from Cons.IH [of "d\<lparr>rq_selected_id := Some i\<rparr>" "rs @ [Set i v]"] Cons.prems w
  show ?case by (simp add: run_events_append 1)
qed

lemma push_requests_payload:
  assumes "\<not> cd_escaped (rq_channels d)" and "cd_channel (rq_channels d) = Some 1"
    and "run_events d [] (map (Data 1) payload) = (Inr rs, d')"
  shows "push_requests d (escape payload) = (Inr rs, d')"
proof -
  have "push (rq_channels d) (escape payload) = (Inr (map (Data 1) payload), rq_channels d)"
    using assms by (intro push_escape) auto
  with assms(3) show ?thesis by (simp add: push_requests_def push_events_def)
qed

lemma escape_nothing: "0xdf \<notin> set bs \<Longrightarrow> escape bs = bs"
  by (induction bs) auto

text \<open>A message that selects a node and ends in a one-byte command.\<close>

lemma run_command:
  assumes "audio_room d" and "0 < max_batch_requests (rq_limits d)"
    and "\<And>d'. rq_selected_id d' = Some i \<Longrightarrow>
      audio_step (d'\<lparr>rq_audio := [c]\<rparr>) = (Done (Inr (Some q)), d'\<lparr>rq_audio := []\<rparr>)"
  shows "run_events d [] (map (Data 1) (0xd7 # u32_be i @ [c])) =
    (Inr [q], d\<lparr>rq_selected_id := Some i\<rparr>)"
proof -
  let ?d = "d\<lparr>rq_selected_id := Some i\<rparr>"
  have d: "?d\<lparr>rq_audio := []\<rparr> = ?d" using assms(1) by (cases d) (simp add: audio_room_def)
  have "drain_audio_requests (?d\<lparr>rq_audio := [c]\<rparr>) [] = (Inr ([] @ [q]), ?d\<lparr>rq_audio := []\<rparr>)"
    by (rule request_drains) (simp_all add: assms(3))
  then have "run_events ?d [] (map (Data 1) [c]) = (Inr [q], ?d)"
    using assms(1,2) d by (intro feed_token) (auto simp: audio_room_def token_incomplete_def)
  with run_select [OF assms(1), of "[]" i] show ?thesis
    using run_events_append [of d "[]" "map (Data 1) (0xd7 # u32_be i)" "[Data 1 c]"] by simp
qed

lemma escape_command: "c \<noteq> 0xdf \<Longrightarrow> format_id i [] 0xd7 (Some c) = escape (0xd7 # u32_be i @ [c])"
  by (simp add: format_id_def extend_escaped_def append_escaped_eq)

section \<open>Meter commands\<close>

lemma feed_meter_waits:
  assumes "\<And>k. 0 < k \<Longrightarrow> k \<le> length xs \<Longrightarrow>
      parse_meter (d\<lparr>rq_meter := take k xs\<rparr>) = (Inr None, d\<lparr>rq_meter := take k xs\<rparr>)"
    and "rq_meter d = []" and "length (rq_audio d) + length xs \<le> max_buffered_bytes (rq_limits d)"
    and "length rs \<le> max_batch_requests (rq_limits d)"
  shows "run_events d rs (map (Data 3) xs) = (Inr rs, d\<lparr>rq_meter := xs\<rparr>)"
  using assms
proof (induction xs rule: rev_induct)
  case Nil
  then show ?case by (cases d) simp
next
  case (snoc b xs)
  have "parse_meter (d\<lparr>rq_meter := take k xs\<rparr>) = (Inr None, d\<lparr>rq_meter := take k xs\<rparr>)"
    if "0 < k" "k \<le> length xs" for k
    using snoc.prems(1) [of k] that by simp
  with snoc have "run_events d rs (map (Data 3) xs) = (Inr rs, d\<lparr>rq_meter := xs\<rparr>)" by simp
  moreover have "parse_meter (d\<lparr>rq_meter := xs @ [b]\<rparr>) = (Inr None, d\<lparr>rq_meter := xs @ [b]\<rparr>)"
    using snoc.prems(1) [of "length (xs @ [b])"] by simp
  ultimately show ?case
    using snoc.prems
    by (simp add: run_events_append handle_event_def Let_def check_buffer_limit_room
        drain_meter_requests.simps [of "d\<lparr>rq_meter := xs @ [b]\<rparr>"])
qed

lemma feed_meter_command:
  assumes "\<And>k. 0 < k \<Longrightarrow> k < length tok \<Longrightarrow>
      parse_meter (d\<lparr>rq_meter := take k tok\<rparr>) = (Inr None, d\<lparr>rq_meter := take k tok\<rparr>)"
    and "tok \<noteq> []" and "rq_meter d = []"
    and "length (rq_audio d) + length tok \<le> max_buffered_bytes (rq_limits d)"
    and "length rs < max_batch_requests (rq_limits d)"
    and "parse_meter (d\<lparr>rq_meter := tok\<rparr>) = (Inr (Some q), d')"
    and "rq_limits d' = rq_limits d" and "rq_meter d' = []"
  shows "run_events d rs (map (Data 3) tok) = (Inr (rs @ [q]), d')"
proof -
  obtain xs b where t: "tok = xs @ [b]" using assms(2) by (cases tok rule: rev_cases) auto
  have "parse_meter (d\<lparr>rq_meter := take k xs\<rparr>) = (Inr None, d\<lparr>rq_meter := take k xs\<rparr>)"
    if "0 < k" "k \<le> length xs" for k
    using assms(1) [of k] that t by simp
  with feed_meter_waits [of xs d rs] assms(3-5) t
  have "run_events d rs (map (Data 3) xs) = (Inr rs, d\<lparr>rq_meter := xs\<rparr>)" by simp
  moreover have "parse_meter d' = (Inr None, d')" using assms(8) by (simp add: parse_meter_def)
  ultimately show ?thesis
    using assms t
    by (simp add: run_events_append handle_event_def Let_def check_buffer_limit_room
        drain_meter_requests.simps [of "d\<lparr>rq_meter := xs @ [b]\<rparr>"] drain_meter_requests.simps [of d'])
qed

lemma run_meter_port:
  assumes "rq_meter d = []" and "length (rq_audio d) + 3 \<le> max_buffered_bytes (rq_limits d)"
    and "length rs < max_batch_requests (rq_limits d)"
  shows "run_events d rs (map (Data 3) (0xd3 # u16_be port)) =
    (Inr (rs @ [MeterPort port]), d\<lparr>rq_meter_port := Some port\<rparr>)"
proof (rule feed_meter_command)
  fix k assume "0 < k" "k < length (0xd3 # u16_be port)"
  then show "parse_meter (d\<lparr>rq_meter := take k (0xd3 # u16_be port)\<rparr>) =
      (Inr None, d\<lparr>rq_meter := take k (0xd3 # u16_be port)\<rparr>)"
    by (cases k) (auto simp: parse_meter_def Let_def get_range_def)
next
  show "parse_meter (d\<lparr>rq_meter := 0xd3 # u16_be port\<rparr>) =
      (Inr (Some (MeterPort port)), d\<lparr>rq_meter_port := Some port\<rparr>)"
    using assms(1) by (cases d) (simp add: parse_meter_def Let_def get_range_def drain_meter_def)
qed (use assms in auto)

definition report_id :: "u16 \<Rightarrow> u16 \<Rightarrow> u32" where
  "report_id i port = u32_from_be (u16_be i @ u16_be port)"

lemma entry_bytes_below: "meter_ok m \<Longrightarrow> b \<in> set (entry_bytes m) \<Longrightarrow> b \<le> 0xaf"
proof -
  assume ok: "meter_ok m" and b: "b \<in> set (entry_bytes m)"
  obtain opcode n mx where w: "wire m = (opcode, n, mx)" by (cases "wire m") auto
  have "n - 1 \<le> 0x7f" if "mx \<noteq> 0"
    using index_byte_small(1) [of n mx] wire_max_range [OF w] ok that w by (auto simp: meter_ok_def)
  then have "n - 1 \<le> 0xaf" if "mx \<noteq> 0" using that order_trans [of "n - 1" "0x7f" "0xaf"] by simp
  with wire_opcode_range [OF w] b w show ?thesis by (auto simp: entry_bytes_def split: if_splits)
qed

lemma entries_below:
  assumes "list_all meter_ok ms" and "b \<in> set (concat (map entry_bytes ms))"
  shows "b \<noteq> 0xde" and "b \<noteq> 0xdf"
proof -
  from assms obtain m where "meter_ok m" "b \<in> set (entry_bytes m)" by (auto simp: list_all_iff)
  from entry_bytes_below [OF this] show "b \<noteq> 0xde" "b \<noteq> 0xdf" by auto
qed

definition subscribe_payload :: "u16 \<Rightarrow> u16 \<Rightarrow> Meter list \<Rightarrow> byte list" where
  "subscribe_payload i port ms =
     0xd4 # u16_be i @ u16_be port @ [0xdc] @ concat (map entry_bytes ms) @ [0xde]"

lemma subscribe_waits:
  assumes ms: "list_all meter_ok ms" and k: "0 < k" "k < length (subscribe_payload i port ms)"
  shows "parse_meter (d\<lparr>rq_meter := take k (subscribe_payload i port ms)\<rparr>) =
      (Inr None, d\<lparr>rq_meter := take k (subscribe_payload i port ms)\<rparr>)"
proof -
  let ?es = "concat (map entry_bytes ms)"
  let ?h = "0xd4 # u16_be i @ u16_be port @ [0xdc]"
  have h: "length ?h = 6" by simp
  show ?thesis
  proof (cases "k \<le> 5")
    case True
    then have "take k (subscribe_payload i port ms) = take k (0xd4 # u16_be i @ u16_be port)"
      by (simp add: subscribe_payload_def take_Cons' )
    moreover have "(take k (0xd4 # u16_be i @ u16_be port) :: byte list) ! 0 = 0xd4" using k by (cases k) auto
    moreover have "length (take k (0xd4 # u16_be i @ u16_be port)) = k" using True by simp
    ultimately show ?thesis using k(1) True
      by (auto simp: parse_meter_def Let_def get_range_def get_at_def)
  next
    case False
    define es where "es = take (k - 6) ?es"
    have t: "take k (subscribe_payload i port ms) = ?h @ es"
      using False k h by (simp add: subscribe_payload_def es_def take_Cons' numeral_eq_Suc)
    have "(?h @ es) ! (length (?h @ es) - 1) \<noteq> 0xde"  if "es \<noteq> []"
    proof -
      have "(?h @ es) ! (length (?h @ es) - 1) = last es"
        using that by (metis append_is_Nil_conv last_append last_conv_nth)
      moreover have "last es \<in> set ?es" using last_in_set [OF that] unfolding es_def by (rule in_set_takeD)
      ultimately show ?thesis using entries_below(1) [OF ms] by metis
    qed
    moreover have "(u16_be i @ u16_be port @ 0xdc # es) ! 4 = 0xdc" by (simp add: u16_be_def)
    ultimately show ?thesis unfolding t
      by (cases "es = []") (auto simp: parse_meter_def Let_def get_range_def get_at_def)
  qed
qed

lemma run_subscribe:
  assumes ms: "list_all meter_ok ms" "length ms \<le> max_meter_entries (rq_limits d)"
    and d: "rq_meter d = []" "rq_meter_port d = Some p"
    and room: "length (rq_audio d) + length (subscribe_payload i port ms) \<le> max_buffered_bytes (rq_limits d)"
      "length rs < max_batch_requests (rq_limits d)"
  shows "run_events d rs (map (Data 3) (subscribe_payload i port ms)) =
    (Inr (rs @ [MeterSubscribe p (report_id i port) ms]), d)"
proof (rule feed_meter_command)
  let ?es = "concat (map entry_bytes ms)" and ?s = "subscribe_payload i port ms"
  have "decode_meter_entries ?es (max_meter_entries (rq_limits d)) = Inr ms"
    using decode_entries_bytes [OF ms(1), of "[]"] ms(2) by (simp add: decode_meter_entries_def)
  moreover have "?s ! (length ?s - 1) = 0xde"
    by (metis append.assoc append_Cons append_is_Nil_conv last_conv_nth last_snoc not_Cons_self2
        subscribe_payload_def)
  moreover have "take (length ?s - 1 - 6) (drop 6 ?s) = ?es" "?s ! 5 = 0xdc" "?s ! 0 = 0xd4"
    "take 4 (drop 1 ?s) = u16_be i @ u16_be port" "length ?s = 7 + length ?es"
    by (simp_all add: subscribe_payload_def nth_append u16_be_def)
  ultimately show "parse_meter (d\<lparr>rq_meter := ?s\<rparr>) =
      (Inr (Some (MeterSubscribe p (report_id i port) ms)), d)"
    using d
    by (cases d) (auto simp: parse_meter_def Let_def get_range_def get_at_def drain_meter_def report_id_def)
qed (use assms subscribe_waits in \<open>auto simp: subscribe_payload_def\<close>)

lemma push_frame:
  assumes "\<not> cd_escaped c" and "ch < CHANNEL_COUNT"
  shows "push c ([ESCAPE, CHANNEL_BASE + ch] @ escape payload) =
    (Inr (Selected ch # map (Data ch) payload), \<lparr>cd_escaped = False, cd_channel = Some ch\<rparr>)"
  using push_encode_channel_gen [OF assms(2,1)] by (simp only: append_escaped_eq)

lemma push_excursion:
  assumes "\<not> cd_escaped c"
  shows "push c ([0xdf, 0xd3] @ escape payload @ [0xdf, 0xd1]) =
    (Inr (Selected 3 # map (Data 3) payload @ [Selected 1]), \<lparr>cd_escaped = False, cd_channel = Some 1\<rparr>)"
proof -
  have "push c ([0xdf, 0xd3] @ escape payload) =
    (Inr (Selected 3 # map (Data 3) payload), \<lparr>cd_escaped = False, cd_channel = Some 3\<rparr>)"
    using push_frame [OF assms, of 3 payload] by simp
  moreover have "push \<lparr>cd_escaped = False, cd_channel = Some 3\<rparr> [0xdf, 0xd1] =
    (Inr [Selected 1], \<lparr>cd_escaped = False, cd_channel = Some 1\<rparr>)"
    using push_frame [of "\<lparr>cd_escaped = False, cd_channel = Some 3\<rparr>" 1 "[]"] by simp
  ultimately show ?thesis
    using push_append [of c "[0xdf, 0xd3] @ escape payload" "[0xdf, 0xd1]"] by simp
qed

lemma meter_request_message_eq:
  "meter_request_message i port ms =
     (if list_all meter_ok ms
      then Inr ([0xdf, 0xd3] @ escape ((0xd3 # u16_be port) @ subscribe_payload i port ms) @ [0xdf, 0xd1])
      else Inl InvalidInput)"
proof (cases "encode_meters [] ms")
  case (Inl e)
  then have "\<not> list_all meter_ok ms" using encode_meters_iff [of "[]" ms] by auto
  with Inl encode_meters_error [OF Inl] show ?thesis by (simp add: meter_request_message_def)
next
  case (Inr out)
  then have ok: "list_all meter_ok ms" and out: "out = concat (map entry_bytes ms)"
    by (simp_all add: encode_meters_iff)
  have "escape out = out" using entries_below(2) [OF ok] by (intro escape_nothing) (auto simp: out)
  with Inr ok show ?thesis
    by (simp add: meter_request_message_def extend_escaped_def append_escaped_eq
        subscribe_payload_def out Let_def)
qed

lemma length_entries: "length (concat (map entry_bytes ms)) \<le> 2 * length ms"
  by (induction ms) (auto simp: entry_bytes_def split: prod.splits)

lemma push_requests_events:
  assumes "push (rq_channels d) bytes = (Inr evs, rq_channels d)"
    and "run_events d [] evs = (Inr rs, d')"
  shows "push_requests d bytes = (Inr rs, d')"
  using assms by (simp add: push_requests_def push_events_def)

lemma listening_channels:
  "listening d \<Longrightarrow> rq_channels d = \<lparr>cd_escaped = False, cd_channel = Some 1\<rparr>"
  by (cases "rq_channels d") (simp add: listening_def)

lemma listening_room: "listening d \<Longrightarrow> audio_room d"
  by (simp add: listening_def audio_room_def)

lemma push_requests_excursion:
  assumes "listening d"
    and "run_events d [] (Selected 3 # map (Data 3) payload @ [Selected 1]) = (Inr rs, d')"
  shows "push_requests d ([0xdf, 0xd3] @ escape payload @ [0xdf, 0xd1]) = (Inr rs, d')"
proof (rule push_requests_events [OF _ assms(2)])
  have "\<not> cd_escaped (rq_channels d)" using assms(1) by (simp add: listening_def)
  from push_excursion [OF this, of payload]
  show "push (rq_channels d) ([0xdf, 0xd3] @ escape payload @ [0xdf, 0xd1]) =
      (Inr (Selected 3 # map (Data 3) payload @ [Selected 1]), rq_channels d)"
    unfolding listening_channels [OF assms(1), symmetric] .
qed

lemma run_events_seq:
  "run_events d rs xs = (Inr rs1, d1) \<Longrightarrow> run_events d1 rs1 ys = r \<Longrightarrow> run_events d rs (xs @ ys) = r"
  by (simp add: run_events_append)

lemma run_selected:
  "rq_meter d = [] \<Longrightarrow> length rs < max_batch_requests (rq_limits d) \<Longrightarrow>
     run_events d rs [Selected c] = (Inr (rs @ [KeepAlive c]), d)"
  by (simp add: handle_event_def flush_meter_renewal_def)

lemma run_root:
  assumes "audio_room d" and "0 < max_batch_requests (rq_limits d)" and "c = 0xdc \<or> c = 0xdd"
  shows "run_events d [] (map (Data 1) [0xda, c]) =
    (Inr [if c = 0xdc then BulkData [] else BulkDefinition []],
     d\<lparr>rq_selected_id := None, rq_path := [], rq_path_bytes := 0\<rparr>)"
proof -
  let ?r = "d\<lparr>rq_selected_id := None, rq_path := [], rq_path_bytes := 0\<rparr>"
  let ?q = "if c = 0xdc then BulkData [] else BulkDefinition []"
  have d: "?r\<lparr>rq_audio := []\<rparr> = ?r" "rq_audio ?r = []"
    using assms(1) by (cases d, simp_all add: audio_room_def)
  have "audio_step (d\<lparr>rq_audio := [0xda]\<rparr>) = (Again, ?r)"
    using assms(1) by (cases d) (simp add: audio_step_def Let_def drain_audio_def audio_room_def)
  then have "drain_audio_requests (d\<lparr>rq_audio := [0xda]\<rparr>) [] = (Inr [], ?r)"
    using d(2) by (simp add: drain_audio_requests.simps [of "d\<lparr>rq_audio := [0xda]\<rparr>"]
        parse_audio.simps [of "d\<lparr>rq_audio := [0xda]\<rparr>"] parse_audio_incomplete token_incomplete_def)
  then have 1: "run_events d [] (map (Data 1) [0xda]) = (Inr [], ?r)"
    using assms(1) by (intro feed_token) (auto simp: audio_room_def token_incomplete_def)
  have "audio_step (?r\<lparr>rq_audio := [c]\<rparr>) = (Done (Inr (Some ?q)), ?r\<lparr>rq_audio := []\<rparr>)"
    using assms(3) by (elim disjE) (simp_all add: audio_step_def Let_def drain_audio_def)
  then have "drain_audio_requests (?r\<lparr>rq_audio := [c]\<rparr>) [] = (Inr ([] @ [?q]), ?r)"
    unfolding d(1) by (rule request_drains) (rule d(2))
  then have 2: "run_events ?r [] (map (Data 1) [c]) = (Inr [?q], ?r)"
    using assms(1,2) d(2) by (intro feed_token) (auto simp: audio_room_def token_incomplete_def)
  show ?thesis
    using run_events_append [of d "[]" "map (Data 1) [0xda]" "map (Data 1) [c]"] 1 2 by simp
qed

section \<open>Properties\<close>

definition open_decoder :: NativeRequestDecoder where
  "open_decoder = (new_decoder default_limits)\<lparr>rq_channels := \<lparr>cd_escaped = False, cd_channel = Some 1\<rparr>\<rparr>"

lemma open_decoder_listening: "listening open_decoder"
  by (simp add: listening_def open_decoder_def new_decoder_def default_limits_def)

text \<open>
  C3. Client and server agree on writes: the messages that \<open>set_string\<close>, \<open>set_float\<close> and
  \<open>set_int\<close> send for any sequence of nodes and values, concatenated on the wire in order, are
  decoded by the server to exactly those assignments in that order, with every value
  unchanged: the sign of an integer, the bits of a float, every byte of a string.
\<close>
theorem set_messages_decoded:
  assumes "listening d" and "list_all (\<lambda>(i, v). value_ok v) ws"
    and "length ws \<le> max_batch_requests (rq_limits d)"
    and "map (\<lambda>(i, v). set_value_message i v) ws = map Inr wires"
  shows "push_requests d (concat wires) =
    (Inr (map (\<lambda>(i, v). Set i v) ws), d\<lparr>rq_selected_id := last_selected (rq_selected_id d) ws\<rparr>)"
proof -
  have "concat wires = escape (sets_payload ws)"
    using assms(4)
  proof (induction ws arbitrary: wires)
    case (Cons w ws)
    obtain i v where "w = (i, v)" by (cases w)
    with Cons show ?case by (cases wires) (auto simp: set_value_message_eq split: if_splits)
  qed simp
  with run_sets [OF listening_room [OF assms(1)] assms(2), of "[]"] assms(1,3) show ?thesis
    by (simp add: push_requests_payload listening_def)
qed

theorem set_messages_decoded_witness:
  "push_requests open_decoder
     (concat [[0xd7, 0, 0, 0, 0xdf, 0xde, 0xd3, 0xff, 0xfe], [0xd7, 0, 0, 0, 2, 0x80, 0x41]]) =
   (Inr [Set 0xdf (Integer (- 2)), Set 2 (String ''A'')], open_decoder\<lparr>rq_selected_id := Some 2\<rparr>)"
proof -
  have "map (\<lambda>(i, v). set_value_message i v) [(0xdf, Integer (- 2)), (2, String ''A'')] =
      map Inr [[0xd7, 0, 0, 0, 0xdf, 0xde, 0xd3, 0xff, 0xfe], [0xd7, 0, 0, 0, 2, 0x80, 0x41]]"
    by code_simp
  moreover have "list_all (\<lambda>(i, v). value_ok v) [(0xdf :: i32, Integer (- 2)), (2, String ''A'')]"
    by code_simp
  moreover have "length [(0xdf :: i32, Integer (- 2)), (2, String ''A'')] \<le>
      max_batch_requests (rq_limits open_decoder)"
    by (simp add: open_decoder_def new_decoder_def default_limits_def)
  ultimately show ?thesis
    using set_messages_decoded [OF open_decoder_listening] by fastforce
qed

text \<open>
  Client and server agree on queries: the bytes of \<open>request_node_data\<close>,
  \<open>request_node_definition\<close> and \<open>toggle\<close> are decoded to the matching request for the same node,
  and the two requests for node 0 to the whole-tree requests with an empty path.
\<close>
theorem query_messages_decoded:
  assumes "listening d"
  shows "fst (push_requests d (node_data_message i)) =
      Inr [if i = 0 then BulkData [] else Get i] \<and>
    fst (push_requests d (node_definition_message i)) =
      Inr [if i = 0 then BulkDefinition [] else Definition i] \<and>
    fst (push_requests d (toggle_message i)) = Inr [Toggle i]"
proof -
  note room = listening_room [OF assms]
  have ch: "\<not> cd_escaped (rq_channels d)" "cd_channel (rq_channels d) = Some 1"
    "0 < max_batch_requests (rq_limits d)"
    using assms by (simp_all add: listening_def)
  have one: "fst (push_requests d (format_id i [] 0xd7 (Some c))) = Inr [q]"
    if c: "c \<noteq> 0xdf" and step: "\<And>d'. rq_selected_id d' = Some i \<Longrightarrow>
      audio_step (d'\<lparr>rq_audio := [c]\<rparr>) = (Done (Inr (Some q)), d'\<lparr>rq_audio := []\<rparr>)" for c q
    using push_requests_payload [OF ch(1,2) run_command [OF room ch(3) step]]
    by (simp only: escape_command [OF c] fst_conv)
  have "fst (push_requests d (format_id i [] 0xd7 (Some 0xdc))) = Inr [Get i]"
    "fst (push_requests d (format_id i [] 0xd7 (Some 0xdd))) = Inr [Definition i]"
    "fst (push_requests d (format_id i [] 0xd7 (Some 0xd8))) = Inr [Toggle i]"
    by (rule one; simp add: audio_step_def Let_def drain_audio_def)+
  moreover have "fst (push_requests d [0xda, 0xdc]) = Inr [BulkData []]"
    using push_requests_payload [OF ch(1,2) run_root [OF room ch(3), of "0xdc"]] by simp
  moreover have "fst (push_requests d [0xda, 0xdd]) = Inr [BulkDefinition []]"
    using push_requests_payload [OF ch(1,2) run_root [OF room ch(3), of "0xdd"]] by simp
  ultimately show ?thesis
    by (simp add: node_data_message_def node_definition_message_def toggle_message_def)
qed

theorem query_messages_decoded_witness:
  "fst (push_requests open_decoder (node_data_message 0x10203)) = Inr [Get 0x10203] \<and>
   fst (push_requests open_decoder (node_definition_message 0)) = Inr [BulkDefinition []]"
  using query_messages_decoded [OF open_decoder_listening, of "0x10203"]
    query_messages_decoded [OF open_decoder_listening, of 0] by simp

text \<open>
  Client and server agree on meter subscriptions: the message \<open>request_meter\<close> writes is
  decoded to the announcement of the client's port and one subscription with exactly the
  requested meters in order, and leaves the stream back on the audio engine channel.
\<close>
theorem meter_request_decoded:
  assumes d: "listening d" and m: "meter_request_message i port ms = Inr msg"
    and room: "length ms \<le> max_meter_entries (rq_limits d)"
      "2 * length ms + 7 \<le> max_buffered_bytes (rq_limits d)"
  shows "push_requests d msg =
    (Inr [KeepAlive 3, MeterPort port, MeterSubscribe port (report_id i port) ms, KeepAlive 1],
     d\<lparr>rq_meter_port := Some port\<rparr>)"
proof -
  let ?payload = "(0xd3 # u16_be port) @ subscribe_payload i port ms"
  let ?d = "d\<lparr>rq_meter_port := Some port\<rparr>"
  have ok: "list_all meter_ok ms" and w: "msg = [0xdf, 0xd3] @ escape ?payload @ [0xdf, 0xd1]"
    using m by (simp_all add: meter_request_message_eq split: if_splits)
  have dd: "rq_audio d = []" "rq_meter d = []" "258 \<le> max_buffered_bytes (rq_limits d)"
    "4 \<le> max_batch_requests (rq_limits d)" using d by (simp_all add: listening_def)
  have len: "length (subscribe_payload i port ms) \<le> 2 * length ms + 7"
    using length_entries [of ms] by (simp add: subscribe_payload_def)
  have p: "run_events d [KeepAlive 3] (map (Data 3) (0xd3 # u16_be port)) =
      (Inr [KeepAlive 3, MeterPort port], ?d)"
    using run_meter_port [of d "[KeepAlive 3]" port] dd by simp
  have s: "run_events ?d [KeepAlive 3, MeterPort port] (map (Data 3) (subscribe_payload i port ms)) =
      (Inr [KeepAlive 3, MeterPort port, MeterSubscribe port (report_id i port) ms], ?d)"
    using run_subscribe [of ms ?d port i port "[KeepAlive 3, MeterPort port]"] ok room dd len by simp
  have "run_events d [] ([Selected 3] @ map (Data 3) (0xd3 # u16_be port) @
      map (Data 3) (subscribe_payload i port ms) @ [Selected 1]) =
    (Inr [KeepAlive 3, MeterPort port, MeterSubscribe port (report_id i port) ms, KeepAlive 1], ?d)"
    by (rule run_events_seq [OF run_selected], simp add: dd, use dd in simp,
        unfold append_Nil, rule run_events_seq [OF p], rule run_events_seq [OF s])
      (use run_selected [of ?d "[KeepAlive 3, MeterPort port, MeterSubscribe port (report_id i port) ms]" 1]
        dd in simp)
  then have "run_events d [] (Selected 3 # map (Data 3) ?payload @ [Selected 1]) =
    (Inr [KeepAlive 3, MeterPort port, MeterSubscribe port (report_id i port) ms, KeepAlive 1], ?d)"
    by (simp only: list.map map_append append_assoc append_Cons append_Nil)
  from push_requests_excursion [OF d this] w show ?thesis by simp
qed

theorem meter_request_decoded_witness:
  "push_requests open_decoder
     [0xdf, 0xd3, 0xd3, 0x38, 0xdf, 0xde, 0xd4, 0, 1, 0x38, 0xdf, 0xde, 0xdc,
      0xa0, 0, 0xaa, 0xa3, 3, 0xde, 0xdf, 0xd1] =
   (Inr [KeepAlive 3, MeterPort 0x38df, MeterSubscribe 0x38df 0x138df [Channel 1, Rta, Main 4],
         KeepAlive 1], open_decoder\<lparr>rq_meter_port := Some 0x38df\<rparr>)"
proof -
  have "meter_request_message 1 0x38df [Channel 1, Rta, Main 4] =
      Inr [0xdf, 0xd3, 0xd3, 0x38, 0xdf, 0xde, 0xd4, 0, 1, 0x38, 0xdf, 0xde, 0xdc,
        0xa0, 0, 0xaa, 0xa3, 3, 0xde, 0xdf, 0xd1]"
    by code_simp
  moreover have "report_id 1 0x38df = 0x138df" by code_simp
  ultimately show ?thesis
    using meter_request_decoded [OF open_decoder_listening, of 1 "0x38df" "[Channel 1, Rta, Main 4]"]
    by (simp add: open_decoder_def new_decoder_def default_limits_def)
qed

end
