(* ===== verification/Reader.thy ===== *)
theory Reader
  imports Response ClientMessages
begin

text \<open>
  The console's byte source and read transaction (\<open>src/console.rs\<close>): \<open>decode_next_inner\<close> with
  its replay queue, event queue, receive buffer, keep-alive and deadline, \<open>decode_next\<close> with the
  capture tee, \<open>read_locked\<close> with its timeout rollback, \<open>attended_read_until\<close> and \<open>requeue\<close>.

  What a reader observes of the outside is a \<open>World\<close>: the successive readings of the clock,
  the successive values of the \<open>reconnecting\<close> flag (any schedule of the other clones), what
  each socket read returns, and which socket writes fail. A reader that needs a socket read
  whose outcome the script does not give is still waiting: the model then returns \<open>None\<close>.
\<close>

section \<open>State\<close>

text \<open>\<open>Received []\<close> is a read of zero bytes: the peer closed the stream.\<close>

datatype sock = Received "byte list" | Failed io_kind

text \<open>Readings of the monotonic clock and durations, in nanoseconds.\<close>

type_synonym instant = int
type_synonym duration = int

definition saturating_duration_since :: "instant \<Rightarrow> instant \<Rightarrow> duration" where
  "saturating_duration_since later earlier = max 0 (later - earlier)"

record World =
  w_clock :: "instant list"
  w_now :: instant
  w_reconnecting :: "bool list"
  w_tainted :: bool
  w_input :: "sock list"
  w_write_errors :: "io_kind option list"
  w_written :: "byte list"

text \<open>\<open>rm_rx_buf\<close> is the unread part of the receive buffer, from \<open>rx_buf_tail\<close> on.\<close>

record Main =
  rm_keep_alive_timer :: instant
  rm_rx_buf :: "byte list"
  rm_rx_channels :: ChannelDecoder
  rm_rx_events :: "ChannelEvent list"
  rm_replay :: "(byte \<times> byte) list"
  rm_pending :: "WingResponse list"
  rm_read_capture :: "(byte \<times> byte) list"
  rm_current_node_id :: i32
  rm_op_deadline :: "instant option"
  rm_capture :: "byte list option"

definition nanos_per_second :: duration where
  "nanos_per_second = 1000000000"

definition one_millisecond :: duration where
  "one_millisecond = 1000000"

definition DATA_KEEP_ALIVE_SECONDS :: int where
  "DATA_KEEP_ALIVE_SECONDS = 7"

definition MAX_NATIVE_RESPONSE_BYTES :: nat where
  "MAX_NATIVE_RESPONSE_BYTES = 16 * 1024 * 1024"

definition AUDIO_ENGINE_CHANNEL :: byte where
  "AUDIO_ENGINE_CHANNEL = 1"

text \<open>The decoder \<open>with_channel(AUDIO_ENGINE_CHANNEL).expect(..)\<close>, and the state of a new session.\<close>

definition audio_engine_decoder :: ChannelDecoder where
  "audio_engine_decoder = \<lparr>cd_escaped = False, cd_channel = Some AUDIO_ENGINE_CHANNEL\<rparr>"

lemma with_audio_engine: "with_channel AUDIO_ENGINE_CHANNEL = Inr audio_engine_decoder"
  by (simp add: with_channel_def audio_engine_decoder_def AUDIO_ENGINE_CHANNEL_def)

definition new_main :: "instant \<Rightarrow> Main" where
  "new_main t = \<lparr>rm_keep_alive_timer = t + DATA_KEEP_ALIVE_SECONDS * nanos_per_second, rm_rx_buf = [],
     rm_rx_channels = audio_engine_decoder, rm_rx_events = [], rm_replay = [], rm_pending = [],
     rm_read_capture = [], rm_current_node_id = 0, rm_op_deadline = None, rm_capture = None\<rparr>"

definition now :: "World \<Rightarrow> instant \<times> World" where
  "now w = (case w_clock w of [] \<Rightarrow> (w_now w, w) | t # ts \<Rightarrow> (t, w\<lparr>w_clock := ts, w_now := t\<rparr>))"

definition load_reconnecting :: "World \<Rightarrow> bool \<times> World" where
  "load_reconnecting w =
     (case w_reconnecting w of [] \<Rightarrow> (False, w) | b # bs \<Rightarrow> (b, w\<lparr>w_reconnecting := bs\<rparr>))"

definition write_all :: "World \<Rightarrow> byte list \<Rightarrow> unit result \<times> World" where
  "write_all w bytes =
     (case w_write_errors w of
        Some k # ks \<Rightarrow> (Inl (Io k), w\<lparr>w_write_errors := ks\<rparr>)
      | None # ks \<Rightarrow> (Inr (), w\<lparr>w_write_errors := ks, w_written := w_written w @ bytes\<rparr>)
      | [] \<Rightarrow> (Inr (), w\<lparr>w_written := w_written w @ bytes\<rparr>))"

section \<open>One byte\<close>

definition ensure_native_response_capacity :: "nat \<Rightarrow> unit result" where
  "ensure_native_response_capacity len =
     (if len \<ge> MAX_NATIVE_RESPONSE_BYTES then Inl InvalidData else Inr ())"

lemma ensure_native_response_capacity_code [code]:
  "ensure_native_response_capacity len = (if int len \<ge> 16777216 then Inl InvalidData else Inr ())"
  by (auto simp: ensure_native_response_capacity_def MAX_NATIVE_RESPONSE_BYTES_def)

definition keep_alive :: "Main \<Rightarrow> World \<Rightarrow> unit result \<times> Main \<times> World" where
  "keep_alive r w =
     (let (t, w) = now w in
      if rm_keep_alive_timer r \<le> t then
        (case write_all w keepalive_message of
           (Inl e, w) \<Rightarrow> (Inl e, r, w)
         | (Inr _, w) \<Rightarrow>
             (let (t, w) = now w in
              (Inr (), r\<lparr>rm_keep_alive_timer := t + DATA_KEEP_ALIVE_SECONDS * nanos_per_second\<rparr>, w)))
      else (Inr (), r, w))"

definition deadline_passed :: "Main \<Rightarrow> World \<Rightarrow> bool \<times> World" where
  "deadline_passed r w =
     (case rm_op_deadline r of
        None \<Rightarrow> (False, w)
      | Some deadline \<Rightarrow> (let (t, w) = now w in (deadline \<le> t, w)))"

definition socket_timeout :: "Main \<Rightarrow> World \<Rightarrow> duration \<times> World" where
  "socket_timeout r w =
     (let (t, w) = now w;
          keep_alive_timeout = saturating_duration_since (rm_keep_alive_timer r) t in
      case rm_op_deadline r of
        Some deadline \<Rightarrow>
          (let (t, w) = now w in 
            (max (min keep_alive_timeout (saturating_duration_since deadline t)) one_millisecond, w))
      | None \<Rightarrow> (keep_alive_timeout, w))"

text \<open>\<open>set_read_timeout(Some(d))\<close> of a socket rejects a zero duration.\<close>

definition set_read_timeout :: "duration \<Rightarrow> unit result" where
  "set_read_timeout d = (if d = 0 then Inl (Io OtherKind) else Inr ())"

text \<open>The refill of an empty receive buffer: what the rest of the loop body does next.\<close>

datatype filled = Ready | Retry | Fails error | Blocked

definition read_socket :: "Main \<Rightarrow> World \<Rightarrow> filled \<times> Main \<times> World" where
  "read_socket r w =
     (case w_input w of
        [] \<Rightarrow> (Blocked, r, w)
      | i # rest \<Rightarrow>
          (let w = w\<lparr>w_input := rest\<rparr> in
           case i of
             Received bs \<Rightarrow>
               if bs \<noteq> [] then (Ready, r\<lparr>rm_rx_buf := bs\<rparr>, w) else (Fails ConnectionError, r, w)
           | Failed k \<Rightarrow>
               if k = WouldBlock \<or> k = TimedOut \<or> k = Interrupted then
                 (let (past, w) = deadline_passed r w in
                  (if past then Fails Timeout else Retry, r, w))
               else (Fails (Io k), r, w)))"

definition fill :: "Main \<Rightarrow> World \<Rightarrow> filled \<times> Main \<times> World" where
  "fill r w =
     (if rm_rx_buf r \<noteq> [] then (Ready, r, w)
      else case keep_alive r w of
        (Inl e, r, w) \<Rightarrow> (Fails e, r, w)
      | (Inr _, r, w) \<Rightarrow>
          (let (past, w) = deadline_passed r w in
           if past then (Fails Timeout, r, w)
           else let (d, w) = socket_timeout r w in
           case set_read_timeout d of
             Inl e \<Rightarrow> (Fails e, r, w)
           | Inr _ \<Rightarrow> read_socket r w))"

text \<open>Hand one byte to the caller, recording it for a rollback.\<close>

definition deliver :: "byte \<Rightarrow> byte \<Rightarrow> Main \<Rightarrow> World \<Rightarrow> (byte result \<times> Main \<times> World)" where
  "deliver channel value r w =
     (case ensure_native_response_capacity (length (rm_read_capture r)) of
        Inl e \<Rightarrow> (Inl e, r, w)
      | Inr _ \<Rightarrow> (Inr value, r\<lparr>rm_read_capture := rm_read_capture r @ [(channel, value)]\<rparr>, w))"

fun pop_audio :: "ChannelEvent list \<Rightarrow> byte option \<times> ChannelEvent list" where
  "pop_audio [] = (None, [])"
| "pop_audio (Data ch v # evs) = (if ch = AUDIO_ENGINE_CHANNEL then (Some v, evs) else pop_audio evs)"
| "pop_audio (Selected _ # evs) = pop_audio evs"

text \<open>De-frame the next byte of a non-empty receive buffer; \<open>None\<close>: no audio byte came of it.\<close>

definition take_byte :: "Main \<Rightarrow> World \<Rightarrow> byte option result \<times> Main \<times> World" where
  "take_byte r w =
     (let b = hd (rm_rx_buf r);
          (e, c) = push_byte (rm_rx_channels r) b;
          r = r\<lparr>rm_rx_buf := tl (rm_rx_buf r), rm_rx_channels := c\<rparr> in
      case e of
        Inl err \<Rightarrow> (Inl err, r, w)
      | Inr (first, second) \<Rightarrow>
          (let r = r\<lparr>rm_rx_events := rm_rx_events r @ opt_list second\<rparr> in
           case first of
             Some (Data ch v) \<Rightarrow>
               if ch = AUDIO_ENGINE_CHANNEL then
                 (case deliver ch v r w of (Inl e, r, w) \<Rightarrow> (Inl e, r, w)
                  | (Inr v, r, w) \<Rightarrow> (Inr (Some v), r, w))
               else (Inr None, r, w)
           | _ \<Rightarrow> (Inr None, r, w)))"

section \<open>What a refill may do\<close>

fun received :: "sock \<Rightarrow> byte list" where
  "received (Received bs) = bs"
| "received (Failed _) = []"

lemma now_input: "now w = (t, w') \<Longrightarrow> w_input w' = w_input w"
  by (auto simp: now_def split: list.splits)

lemma write_all_input: "write_all w bs = (e, w') \<Longrightarrow> w_input w' = w_input w"
  by (auto simp: write_all_def split: list.splits option.splits)

lemma keep_alive_frame:
  "keep_alive r w = (e, r', w') \<Longrightarrow>
     w_input w' = w_input w \<and> (\<exists>t. r' = r\<lparr>rm_keep_alive_timer := t\<rparr>)"
  by (cases r) (auto simp: keep_alive_def dest!: now_input write_all_input
      split: prod.splits sum.splits if_splits)

lemma deadline_passed_input: "deadline_passed r w = (p, w') \<Longrightarrow> w_input w' = w_input w"
  by (auto simp: deadline_passed_def dest: now_input split: option.splits prod.splits)

lemma socket_timeout_input: "socket_timeout r w = (d, w') \<Longrightarrow> w_input w' = w_input w"
  by (auto simp: socket_timeout_def Let_def dest!: now_input split: option.splits prod.splits)

text \<open>The outcome of a refill, with everything it leaves alone.\<close>

definition fill_outcome :: "Main \<Rightarrow> World \<Rightarrow> filled \<Rightarrow> Main \<Rightarrow> World \<Rightarrow> bool" where
  "fill_outcome r w f r' w' \<longleftrightarrow>
     (r' = r \<and> w_input w' = w_input w \<and> (f = Blocked \<or> (\<exists>e. f = Fails e \<and> e \<noteq> InvalidData))) \<or>
     (\<exists>i. w_input w = i # w_input w' \<and>
       (received i \<noteq> [] \<and> f = Ready \<and> r' = r\<lparr>rm_rx_buf := received i\<rparr> \<or>
        received i = [] \<and> r' = r \<and> (f = Retry \<or> (\<exists>e. f = Fails e \<and> e \<noteq> InvalidData))))"

lemma read_socket_outcome:
  assumes "read_socket r w = (f, r', w')"
  shows "fill_outcome r w f r' w'"
proof (cases "w_input w")
  case Nil
  with assms show ?thesis by (auto simp: read_socket_def fill_outcome_def)
next
  case (Cons i rest)
  show ?thesis
  proof (cases i)
    case (Received bs)
    with assms Cons show ?thesis
      by (auto simp: read_socket_def fill_outcome_def Let_def split: if_splits)
  next
    case (Failed k)
    obtain p w1 where d: "deadline_passed r (w\<lparr>w_input := rest\<rparr>) = (p, w1)"
      by (cases "deadline_passed r (w\<lparr>w_input := rest\<rparr>)")
    with deadline_passed_input [OF d] assms Cons Failed show ?thesis
      by (auto simp: read_socket_def fill_outcome_def Let_def split: if_splits)
  qed
qed

lemma write_all_error: "write_all w bs = (Inl e, w') \<Longrightarrow> \<exists>k. e = Io k"
  by (auto simp: write_all_def split: list.splits option.splits)

lemma keep_alive_error: "keep_alive r w = (Inl e, r', w') \<Longrightarrow> \<exists>k. e = Io k"
  by (auto simp: keep_alive_def dest!: write_all_error split: prod.splits sum.splits if_splits)

lemma fill_cases:
  assumes "fill r w = (f, r', w')"
  shows "rm_rx_buf r \<noteq> [] \<and> f = Ready \<and> r' = r \<and> w' = w \<or>
    rm_rx_buf r = [] \<and> (\<exists>t. fill_outcome (r\<lparr>rm_keep_alive_timer := t\<rparr>) w f r' w')"
proof (cases "rm_rx_buf r = []")
  case True
  obtain e r1 w1 where k: "keep_alive r w = (e, r1, w1)" by (cases "keep_alive r w")
  obtain p w2 where d: "deadline_passed r1 w1 = (p, w2)" by (cases "deadline_passed r1 w1")
  obtain st w3 where s: "socket_timeout r1 w2 = (st, w3)" by (cases "socket_timeout r1 w2")
  note frame = keep_alive_frame [OF k] deadline_passed_input [OF d] socket_timeout_input [OF s]
  then obtain t where r1: "r1 = r\<lparr>rm_keep_alive_timer := t\<rparr>" by blast
  have shift: "fill_outcome r1 w3 f r' w' \<Longrightarrow> fill_outcome r1 w f r' w'"
    using frame by (simp add: fill_outcome_def)
  show ?thesis
  proof (cases e)
    case (Inl err)
    with keep_alive_error k have "\<exists>k. err = Io k" by simp
    with Inl assms True k r1 frame show ?thesis
      by (auto simp: fill_def fill_outcome_def)
  next
    case (Inr u)
    show ?thesis
    proof (cases "p \<or> st = 0")
      case p: True
      with Inr assms True k r1 d s frame show ?thesis
        by (auto simp: fill_def fill_outcome_def set_read_timeout_def split: if_splits)
    next
      case False
      with Inr assms True k d s have "read_socket r1 w3 = (f, r', w')"
        by (simp add: fill_def set_read_timeout_def)
      from shift [OF read_socket_outcome [OF this]] r1 True show ?thesis by blast
    qed
  qed
next
  case False
  with assms show ?thesis by (auto simp: fill_def)
qed

lemma fill_retry: "fill r w = (Retry, r', w') \<Longrightarrow> length (w_input w') < length (w_input w)"
  by (drule fill_cases) (auto simp: fill_outcome_def)

lemma fill_ready:
  assumes "fill r w = (Ready, r', w')"
  shows "rm_rx_buf r' \<noteq> [] \<and>
    (rm_rx_buf r \<noteq> [] \<and> r' = r \<and> w' = w \<or> length (w_input w') < length (w_input w))"
  using fill_cases [OF assms] by (auto simp: fill_outcome_def)

lemma load_reconnecting_input: "load_reconnecting w = (b, w') \<Longrightarrow> w_input w' = w_input w"
  by (auto simp: load_reconnecting_def split: list.splits)

lemma deliver_frame:
  "deliver ch v r w = (e, r', w') \<Longrightarrow> w' = w \<and> rm_rx_buf r' = rm_rx_buf r"
  by (auto simp: deliver_def split: sum.splits)

lemma take_byte_frame:
  "take_byte r w = (e, r', w') \<Longrightarrow> w' = w \<and> rm_rx_buf r' = tl (rm_rx_buf r)"
  by (auto simp: take_byte_def Let_def dest!: deliver_frame
      split: prod.splits sum.splits option.splits ChannelEvent.splits if_splits)

lemma length_tl_less: "xs \<noteq> [] \<Longrightarrow> length xs - Suc 0 < length xs"
  by (cases xs) auto

section \<open>The byte source\<close>

function decode_next_inner :: "Main \<Rightarrow> World \<Rightarrow> (byte result \<times> Main \<times> World) option" where
  "decode_next_inner r w =
     (case load_reconnecting w of (stop, w) \<Rightarrow>
      if stop then Some (Inl Reconnecting, r, w)
      else case rm_replay r of
        (channel, value) # rest \<Rightarrow> Some (deliver channel value (r\<lparr>rm_replay := rest\<rparr>) w)
      | [] \<Rightarrow>
          (case pop_audio (rm_rx_events r) of
             (Some value, evs) \<Rightarrow> Some (deliver AUDIO_ENGINE_CHANNEL value (r\<lparr>rm_rx_events := evs\<rparr>) w)
           | (None, evs) \<Rightarrow>
               (case fill (r\<lparr>rm_rx_events := evs\<rparr>) w of
                  (Blocked, r, w) \<Rightarrow> None
                | (Fails e, r, w) \<Rightarrow> Some (Inl e, r, w)
                | (Retry, r, w) \<Rightarrow> decode_next_inner r w
                | (Ready, r, w) \<Rightarrow>
                    (case take_byte r w of
                       (Inl e, r, w) \<Rightarrow> Some (Inl e, r, w)
                     | (Inr (Some value), r, w) \<Rightarrow> Some (Inr value, r, w)
                     | (Inr None, r, w) \<Rightarrow> decode_next_inner r w))))"
  by pat_completeness auto

termination decode_next_inner
  by (relation "inv_image (less_than <*lex*> less_than) (\<lambda>(r, w). (length (w_input w), length (rm_rx_buf r)))")
    (auto dest!: load_reconnecting_input [OF sym] fill_retry [OF sym] fill_ready [OF sym] take_byte_frame [OF sym]
      simp: length_tl_less)

declare decode_next_inner.simps [simp del]

section \<open>The logical stream\<close>

text \<open>
  The audio engine bytes still to be delivered: what waits in the replay queue, in the event
  queue, and in the receive buffer and the socket, de-framed.
\<close>

fun audio_of :: "ChannelEvent list \<Rightarrow> byte list" where
  "audio_of [] = []"
| "audio_of (Data ch v # evs) = (if ch = AUDIO_ENGINE_CHANNEL then v # audio_of evs else audio_of evs)"
| "audio_of (Selected _ # evs) = audio_of evs"

fun stream :: "ChannelDecoder \<Rightarrow> byte list \<Rightarrow> byte list" where
  "stream c [] = []"
| "stream c (b # bs) =
     (case push_byte c b of
        (Inl _, c') \<Rightarrow> stream c' bs
      | (Inr (x, y), c') \<Rightarrow> audio_of (opt_list x @ opt_list y) @ stream c' bs)"

definition logical :: "Main \<Rightarrow> World \<Rightarrow> byte list" where
  "logical r w = map snd (rm_replay r) @ audio_of (rm_rx_events r) @
     stream (rm_rx_channels r) (rm_rx_buf r @ concat (map received (w_input w)))"

definition reader_ok :: "Main \<Rightarrow> bool" where
  "reader_ok r \<longleftrightarrow> cd_channel (rm_rx_channels r) \<noteq> None \<and>
     list_all (\<lambda>(ch, v). ch = AUDIO_ENGINE_CHANNEL) (rm_replay r)"

text \<open>The fields a byte read leaves alone.\<close>

definition same_session :: "Main \<Rightarrow> Main \<Rightarrow> bool" where
  "same_session r r' \<longleftrightarrow> rm_pending r' = rm_pending r \<and> rm_current_node_id r' = rm_current_node_id r \<and>
     rm_op_deadline r' = rm_op_deadline r \<and> rm_capture r' = rm_capture r"

lemma same_session_refl [simp]: "same_session r r"
  by (simp add: same_session_def)

lemma same_session_trans: "same_session r1 r2 \<Longrightarrow> same_session r2 r3 \<Longrightarrow> same_session r1 r3"
  by (simp add: same_session_def)

lemma audio_of_append [simp]: "audio_of (xs @ ys) = audio_of xs @ audio_of ys"
  by (induction xs rule: audio_of.induct) auto

lemma pop_audio_some: "pop_audio evs = (Some v, evs') \<Longrightarrow> audio_of evs = v # audio_of evs'"
  by (induction evs rule: pop_audio.induct) (auto split: if_splits)

lemma pop_audio_none: "pop_audio evs = (None, evs') \<Longrightarrow> audio_of evs = [] \<and> evs' = []"
  by (induction evs rule: pop_audio.induct) (auto split: if_splits)

text \<open>A framing step on a selected channel never fails, and its events are on one channel.\<close>

lemma push_byte_selected_ok:
  assumes "cd_channel c \<noteq> None"
  shows "\<exists>x y c'. push_byte c b = (Inr (x, y), c') \<and> cd_channel c' \<noteq> None \<and>
    (case x of Some (Data ch v) \<Rightarrow> (\<forall>e. y = Some e \<longrightarrow> (\<exists>v'. e = Data ch v')) | _ \<Rightarrow> y = None)"
  using assms by (auto simp: push_byte_def Let_def)

text \<open>What delivering one byte, or failing to, means for the stream.\<close>

definition stream_step :: "Main \<Rightarrow> World \<Rightarrow> byte result \<Rightarrow> Main \<Rightarrow> World \<Rightarrow> bool" where
  "stream_step r w e r' w' \<longleftrightarrow> reader_ok r' \<and> same_session r r' \<and>
     (case e of
        Inr v \<Rightarrow> logical r w = v # logical r' w' \<and>
          rm_read_capture r' = rm_read_capture r @ [(AUDIO_ENGINE_CHANNEL, v)]
      | Inl err \<Rightarrow> err = InvalidData \<or>
          logical r' w' = logical r w \<and> rm_read_capture r' = rm_read_capture r)"

lemma deliver_step:
  assumes "deliver AUDIO_ENGINE_CHANNEL v r1 w = (e, r', w')" and "reader_ok r1" and "same_session r r1"
    and "logical r w = v # logical r1 w" and "rm_read_capture r1 = rm_read_capture r"
  shows "stream_step r w e r' w'"
  using assms
  by (auto simp: deliver_def stream_step_def ensure_native_response_capacity_def reader_ok_def
      same_session_def logical_def split: if_splits)

lemma take_byte_step:
  assumes t: "take_byte r w = (e, r', w')" and ok: "reader_ok r" and buf: "rm_rx_buf r \<noteq> []"
    and q: "rm_replay r = []" "audio_of (rm_rx_events r) = []"
  shows "(\<exists>v. e = Inr (Some v) \<and> stream_step r w (Inr v) r' w') \<or>
    (e = Inr None \<and> reader_ok r' \<and> same_session r r' \<and> logical r' w' = logical r w \<and>
       rm_read_capture r' = rm_read_capture r) \<or>
    (\<exists>err. e = Inl err \<and> stream_step r w (Inl err) r' w')"
proof -
  obtain b bs where b: "rm_rx_buf r = b # bs" using buf by (cases "rm_rx_buf r") auto
  have "cd_channel (rm_rx_channels r) \<noteq> None" using ok by (simp add: reader_ok_def)
  from push_byte_selected_ok [OF this, of b] obtain x y c' where
    p: "push_byte (rm_rx_channels r) b = (Inr (x, y), c')" "cd_channel c' \<noteq> None"
    and xy: "case x of Some (Data ch v) \<Rightarrow> (\<forall>e. y = Some e \<longrightarrow> (\<exists>v'. e = Data ch v')) | _ \<Rightarrow> y = None"
    by blast
  define r1 where "r1 = r\<lparr>rm_rx_buf := bs, rm_rx_channels := c', rm_rx_events := rm_rx_events r @ opt_list y\<rparr>"
  have r1: "reader_ok r1" "same_session r r1" "rm_read_capture r1 = rm_read_capture r"
    using p ok by (simp_all add: r1_def reader_ok_def same_session_def)
  have l: "logical r w = audio_of (opt_list x) @ logical r1 w"
    using b p q by (simp add: logical_def r1_def)
  show ?thesis
  proof (cases "\<exists>v. x = Some (Data AUDIO_ENGINE_CHANNEL v)")
    case True
    then obtain v where x: "x = Some (Data AUDIO_ENGINE_CHANNEL v)" by blast
    obtain e1 r2 w2 where dl: "deliver AUDIO_ENGINE_CHANNEL v r1 w = (e1, r2, w2)"
      by (cases "deliver AUDIO_ENGINE_CHANNEL v r1 w")
    have "stream_step r w e1 r2 w2"
      using deliver_step [OF dl r1(1,2) _ r1(3)] l x by simp
    moreover have "(e, r', w') = (map_sum id Some e1, r2, w2)"
      using t b p x dl by (cases e1) (simp_all add: take_byte_def Let_def r1_def)
    ultimately show ?thesis by (cases e1) auto
  next
    case False
    then have "audio_of (opt_list x) = []" by (cases x; cases "the x") auto
    moreover have "(e, r', w') = (Inr None, r1, w)"
      using t b p False by (auto simp: take_byte_def Let_def r1_def split: option.splits ChannelEvent.splits)
    ultimately show ?thesis using l r1 by auto
  qed
qed

lemma fill_step:
  assumes f: "fill r w = (f, r', w')" and ok: "reader_ok r"
    and q: "rm_replay r = []" "audio_of (rm_rx_events r) = []"
  shows "reader_ok r' \<and> same_session r r' \<and> logical r' w' = logical r w \<and>
    rm_read_capture r' = rm_read_capture r \<and> rm_replay r' = [] \<and> audio_of (rm_rx_events r') = [] \<and>
    f \<noteq> Fails InvalidData"
proof -
  from fill_cases [OF f] show ?thesis
  proof
    assume "rm_rx_buf r \<noteq> [] \<and> f = Ready \<and> r' = r \<and> w' = w"
    with ok q show ?thesis by simp
  next
    assume "rm_rx_buf r = [] \<and> (\<exists>t. fill_outcome (r\<lparr>rm_keep_alive_timer := t\<rparr>) w f r' w')"
    then obtain t where b: "rm_rx_buf r = []"
      and o: "fill_outcome (r\<lparr>rm_keep_alive_timer := t\<rparr>) w f r' w'" by blast
    from o b ok q show ?thesis
      by (auto simp: fill_outcome_def reader_ok_def same_session_def logical_def)
  qed
qed

lemma stream_step_frame:
  assumes "stream_step r1 w1 e r' w'" and "same_session r r1" and "logical r1 w1 = logical r w"
    and "rm_read_capture r1 = rm_read_capture r"
  shows "stream_step r w e r' w'"
  using assms by (auto simp: stream_step_def intro: same_session_trans split: sum.splits)

lemma decode_next_inner_step:
  "decode_next_inner r w = Some (e, r', w') \<Longrightarrow> reader_ok r \<Longrightarrow> stream_step r w e r' w'"
proof (induction r w rule: decode_next_inner.induct)
  case (1 r w)
  obtain stop w1 where l: "load_reconnecting w = (stop, w1)" by (cases "load_reconnecting w")
  have lw: "logical r1 w1 = logical r1 w" for r1
    using load_reconnecting_input [OF l] by (simp add: logical_def)
  consider (stop) "stop" | (replay) ch v rest where "\<not> stop" "rm_replay r = (ch, v) # rest"
    | (event) v evs where "\<not> stop" "rm_replay r = []" "pop_audio (rm_rx_events r) = (Some v, evs)"
    | (socket) evs where "\<not> stop" "rm_replay r = []" "pop_audio (rm_rx_events r) = (None, evs)"
    by (metis list.exhaust option.exhaust surj_pair)
  then show ?case
  proof cases
    case stop
    with 1 l lw show ?thesis by (auto simp: decode_next_inner.simps [of r w] stream_step_def)
  next
    case replay
    let ?r = "r\<lparr>rm_replay := rest\<rparr>"
    have ch: "ch = AUDIO_ENGINE_CHANNEL" using 1 replay by (simp add: reader_ok_def)
    have "stream_step r w1 e r' w'"
    proof (rule deliver_step)
      show "deliver AUDIO_ENGINE_CHANNEL v ?r w1 = (e, r', w')"
        using "1.prems"(1) l replay ch by (simp add: decode_next_inner.simps [of r w])
    qed (use 1 replay in \<open>auto simp: reader_ok_def same_session_def logical_def\<close>)
    with lw show ?thesis by (auto intro: stream_step_frame)
  next
    case event
    let ?r = "r\<lparr>rm_rx_events := evs\<rparr>"
    have "stream_step r w1 e r' w'"
    proof (rule deliver_step)
      show "deliver AUDIO_ENGINE_CHANNEL v ?r w1 = (e, r', w')"
        using "1.prems"(1) l event by (simp add: decode_next_inner.simps [of r w])
    qed (use 1 event pop_audio_some [OF event(3)] in \<open>auto simp: reader_ok_def same_session_def logical_def\<close>)
    with lw show ?thesis by (auto intro: stream_step_frame)
  next
    case socket
    note none = pop_audio_none [OF socket(3)]
    let ?r = "r\<lparr>rm_rx_events := evs\<rparr>"
    have r0: "reader_ok ?r" "same_session r ?r" "logical ?r w1 = logical r w"
      "rm_read_capture ?r = rm_read_capture r"
      using "1.prems"(2) none lw by (auto simp: reader_ok_def same_session_def logical_def)
    obtain f r1 w2 where f: "fill ?r w1 = (f, r1, w2)" by (cases "fill ?r w1")
    have fs: "reader_ok r1" "same_session r r1" "logical r1 w2 = logical r w"
      "rm_read_capture r1 = rm_read_capture r" "rm_replay r1 = []" "audio_of (rm_rx_events r1) = []"
      "f \<noteq> Fails InvalidData"
      using fill_step [OF f r0(1)] socket none r0 by (auto intro: same_session_trans)
    show ?thesis
    proof (cases f)
      case Ready
      have buf: "rm_rx_buf r1 \<noteq> []" using fill_ready f Ready by blast
      obtain x r2 w3 where t: "take_byte r1 w2 = (x, r2, w3)" by (cases "take_byte r1 w2")
      have res: "x = Inr None \<Longrightarrow> decode_next_inner r2 w3 = Some (e, r', w')"
        "x = Inr (Some v) \<Longrightarrow> (e, r', w') = (Inr v, r2, w3)"
        "x = Inl err \<Longrightarrow> (e, r', w') = (Inl err, r2, w3)" for v err
        using "1.prems"(1) l socket f Ready t by (simp_all add: decode_next_inner.simps [of r w])
      from take_byte_step [OF t fs(1) buf fs(5,6)] show ?thesis
      proof (elim disjE exE conjE)
        fix v assume "x = Inr (Some v)" "stream_step r1 w2 (Inr v) r2 w3"
        with res(2) fs show ?thesis by (blast intro: stream_step_frame)
      next
        fix err assume "x = Inl err" "stream_step r1 w2 (Inl err) r2 w3"
        with res(3) fs show ?thesis by (blast intro: stream_step_frame)
      next
        assume x: "x = Inr None" and "reader_ok r2" "same_session r1 r2" "logical r2 w3 = logical r1 w2"
          "rm_read_capture r2 = rm_read_capture r1"
        moreover from this have "stream_step r2 w3 e r' w'"
          using "1.IH"(1) [OF l [symmetric] _ socket(2) socket(3) [symmetric] refl f [symmetric] Ready refl
              t [symmetric] x refl refl] res(1) socket(1) by blast
        ultimately show ?thesis using fs by (metis same_session_trans stream_step_frame)
      qed
    next
      case Retry
      have "decode_next_inner r1 w2 = Some (e, r', w')"
        using "1.prems"(1) l socket f Retry by (simp add: decode_next_inner.simps [of r w])
      then have "stream_step r1 w2 e r' w'"
        using "1.IH"(2) [OF l [symmetric] _ socket(2) socket(3) [symmetric] refl f [symmetric] Retry refl] fs socket(1)
        by blast
      with fs show ?thesis by (blast intro: stream_step_frame)
    next
      case (Fails err)
      with "1.prems"(1) l socket f fs show ?thesis
        by (auto simp: decode_next_inner.simps [of r w] stream_step_def)
    next
      case Blocked
      with "1.prems"(1) l socket f show ?thesis by (simp add: decode_next_inner.simps [of r w])
    qed
  qed
qed

section \<open>The read transaction\<close>

definition decode_next :: "Main \<Rightarrow> World \<Rightarrow> (byte result \<times> Main \<times> World) option" where
  "decode_next r w =
     (case decode_next_inner r w of
        None \<Rightarrow> None
      | Some (Inl e, r, w) \<Rightarrow> Some (Inl e, r, w)
      | Some (Inr b, r, w) \<Rightarrow>
          (case rm_capture r of
             None \<Rightarrow> Some (Inr b, r, w)
           | Some cap \<Rightarrow>
               (case ensure_native_response_capacity (length cap) of
                  Inl e \<Rightarrow> Some (Inl e, r, w)
                | Inr _ \<Rightarrow> Some (Inr b, r\<lparr>rm_capture := Some (cap @ [b])\<rparr>, w))))"

definition console_source :: "(Main \<times> World) source" where
  "console_source s =
     (case decode_next (fst s) (snd s) of None \<Rightarrow> None | Some (e, r, w) \<Rightarrow> Some (e, (r, w)))"

definition read_inner :: "Main \<Rightarrow> World \<Rightarrow> (WingResponse result \<times> Main \<times> World) option" where
  "read_inner r w =
     (case read_response console_source (rm_current_node_id r) (r, w) of
        None \<Rightarrow> None
      | Some ((res, cur), (r, w)) \<Rightarrow> Some (res, r\<lparr>rm_current_node_id := cur\<rparr>, w))"

fun is_link_error :: "'a result \<Rightarrow> bool" where
  "is_link_error (Inl ConnectionError) = True"
| "is_link_error (Inl (Io _)) = True"
| "is_link_error _ = False"

definition settle_read :: "i32 \<Rightarrow> WingResponse result \<Rightarrow> Main \<Rightarrow> Main" where
  "settle_read previous_node_id result r =
     (if result = Inl Timeout
      then r\<lparr>rm_replay := rm_read_capture r @ rm_replay r, rm_read_capture := [],
             rm_current_node_id := previous_node_id\<rparr>
      else r\<lparr>rm_read_capture := []\<rparr>)"

definition read_locked :: "Main \<Rightarrow> World \<Rightarrow> (WingResponse result \<times> Main \<times> World) option" where
  "read_locked r w =
     (if w_tainted w then Some (Inl ConnectionError, r, w)
      else case load_reconnecting w of (stop, w) \<Rightarrow>
      if stop then Some (Inl Reconnecting, r, w)
      else case rm_pending r of
        response # rest \<Rightarrow> Some (Inr response, r\<lparr>rm_pending := rest\<rparr>, w)
      | [] \<Rightarrow>
          (case read_inner (r\<lparr>rm_read_capture := []\<rparr>) w of
             None \<Rightarrow> None
           | Some (result, r', w) \<Rightarrow>
               (let r' = settle_read (rm_current_node_id r) result r' in
                if is_link_error result then
                  (case load_reconnecting w of (stop, w) \<Rightarrow>
                   Some (if stop then Inl Reconnecting else result, r', w))
                else Some (result, r', w))))"

definition read_timeout :: "duration \<Rightarrow> Main \<Rightarrow> World \<Rightarrow> (WingResponse result \<times> Main \<times> World) option" where
  "read_timeout timeout r w =
     (case now w of (t, w) \<Rightarrow>
      case read_locked (r\<lparr>rm_op_deadline := Some (t + timeout)\<rparr>) w of
        None \<Rightarrow> None
      | Some (result, r, w) \<Rightarrow> Some (result, r\<lparr>rm_op_deadline := None\<rparr>, w))"

section \<open>Reads against the logical stream\<close>

text \<open>
  Progress of a read: bytes taken from the stream are exactly those recorded for a rollback.
\<close>

definition progressed :: "Main \<times> World \<Rightarrow> Main \<times> World \<Rightarrow> bool" where
  "progressed s s' \<longleftrightarrow> (reader_ok (fst s) \<longrightarrow>
     reader_ok (fst s') \<and> rm_pending (fst s') = rm_pending (fst s) \<and>
     rm_op_deadline (fst s') = rm_op_deadline (fst s) \<and>
     (\<exists>cs. rm_read_capture (fst s') = rm_read_capture (fst s) @ cs \<and>
        list_all (\<lambda>(ch, v). ch = AUDIO_ENGINE_CHANNEL) cs \<and>
        logical (fst s) (snd s) = map snd cs @ logical (fst s') (snd s')))"

lemma decode_next_step:
  assumes "decode_next r w = Some (e, r', w')" and "reader_ok r"
  shows "reader_ok r' \<and> rm_pending r' = rm_pending r \<and> rm_op_deadline r' = rm_op_deadline r \<and>
    (case e of
       Inr v \<Rightarrow> logical r w = v # logical r' w' \<and>
          rm_read_capture r' = rm_read_capture r @ [(AUDIO_ENGINE_CHANNEL, v)]
     | Inl err \<Rightarrow> err = InvalidData \<or>
         logical r' w' = logical r w \<and> rm_read_capture r' = rm_read_capture r)"
proof -
  from assms(1) obtain x r1 w1 where d: "decode_next_inner r w = Some (x, r1, w1)"
    by (auto simp: decode_next_def split: option.splits)
  note st = decode_next_inner_step [OF d assms(2)]
  show ?thesis
    using assms(1) d st
    by (auto simp: decode_next_def stream_step_def same_session_def reader_ok_def logical_def
        ensure_native_response_capacity_def split: sum.splits option.splits if_splits)
qed

interpretation console: source_trace console_source progressed "{InvalidData}"
proof
  show "progressed s s" for s by (auto simp: progressed_def)
  show "progressed s1 s3" if "progressed s1 s2" "progressed s2 s3" for s1 s2 s3
    using that by (fastforce simp: progressed_def)
  fix s x s' assume g: "console_source s = Some (x, s')" and x: "unexcused {InvalidData} x"
  obtain r w r' w' where s: "s = (r, w)" "s' = (r', w')" by (cases s, cases s')
  then have "decode_next r w = Some (x, r', w')"
    using g by (auto simp: console_source_def split: option.splits)
  from decode_next_step [OF this] x s show "progressed s s'"
    by (auto simp: progressed_def unexcused_one split: sum.splits)
qed

interpretation console: byte_source console_source "\<lambda>s. logical (fst s) (snd s)" "\<lambda>s. reader_ok (fst s)"
proof
  fix s b s' assume ok: "reader_ok (fst s)" and g: "console_source s = Some (Inr b, s')"
  then have "decode_next (fst s) (snd s) = Some (Inr b, fst s', snd s')"
    by (auto simp: console_source_def split: option.splits)
  from decode_next_step [OF this ok]
  show "reader_ok (fst s') \<and> logical (fst s) (snd s) = b # logical (fst s') (snd s')" by simp
qed

lemma logical_cong:
  "rm_replay r' = rm_replay r \<Longrightarrow> rm_rx_events r' = rm_rx_events r \<Longrightarrow>
   rm_rx_channels r' = rm_rx_channels r \<Longrightarrow> rm_rx_buf r' = rm_rx_buf r \<Longrightarrow>
   w_input w' = w_input w \<Longrightarrow> logical r' w' = logical r w"
  by (simp add: logical_def)

lemma read_inner_ok:
  assumes "read_inner r w = Some (Inr resp, r', w')" and "reader_ok r"
  shows "reader_ok r' \<and> rm_pending r' = rm_pending r \<and> rm_op_deadline r' = rm_op_deadline r \<and>
    read_response uncons (rm_current_node_id r) (logical r w) =
      Some ((Inr resp, rm_current_node_id r'), logical r' w')"
proof -
  from assms(1) obtain cur r1 where rr: "read_response console_source (rm_current_node_id r) (r, w) =
      Some ((Inr resp, cur), (r1, w'))" and r': "r' = r1\<lparr>rm_current_node_id := cur\<rparr>"
    by (auto simp: read_inner_def split: option.splits)
  have l: "logical r' w' = logical r1 w'" by (rule logical_cong) (simp_all add: r')
  from console.refines_response [OF rr] assms(2) console.response_rel [OF rr] l r' show ?thesis
    by (auto simp: progressed_def reader_ok_def)
qed

lemma read_inner_progress:
  assumes "read_inner r w = Some (res, r', w')" and "reader_ok r" and "res \<noteq> Inl InvalidData"
    and "rm_read_capture r = []"
  shows "reader_ok r' \<and> rm_pending r' = rm_pending r \<and> rm_op_deadline r' = rm_op_deadline r \<and>
    list_all (\<lambda>(ch, v). ch = AUDIO_ENGINE_CHANNEL) (rm_read_capture r') \<and>
    logical r w = map snd (rm_read_capture r') @ logical r' w'"
proof -
  from assms(1) obtain cur r1 where rr: "read_response console_source (rm_current_node_id r) (r, w) =
      Some ((res, cur), (r1, w'))" and r': "r' = r1\<lparr>rm_current_node_id := cur\<rparr>"
    by (auto simp: read_inner_def split: option.splits)
  have "logical r' w' = logical r1 w'" by (rule logical_cong) (simp_all add: r')
  with console.response_rel [OF rr] assms(2-4) r' show ?thesis
    by (auto simp: progressed_def reader_ok_def unexcused_one)
qed

lemma read_locked_pending:
  "read_locked r w = Some (Inr resp, r', w') \<Longrightarrow> rm_pending r = p # ps \<Longrightarrow>
     resp = p \<and> r' = r\<lparr>rm_pending := ps\<rparr> \<and> w_input w' = w_input w"
  by (auto simp: read_locked_def dest: load_reconnecting_input split: if_splits prod.splits)

lemma read_locked_fresh:
  assumes "read_locked r w = Some (Inr resp, r', w')" and "reader_ok r" and "rm_pending r = []"
  shows "reader_ok r' \<and> rm_pending r' = [] \<and> rm_op_deadline r' = rm_op_deadline r \<and>
    read_response uncons (rm_current_node_id r) (logical r w) =
      Some ((Inr resp, rm_current_node_id r'), logical r' w')"
proof -
  from assms(1,3) obtain w1 r1 where l: "load_reconnecting w = (False, w1)"
    and ri: "read_inner (r\<lparr>rm_read_capture := []\<rparr>) w1 = Some (Inr resp, r1, w')"
    and r': "r' = r1\<lparr>rm_read_capture := []\<rparr>"
    by (auto simp: read_locked_def settle_read_def Let_def
        split: if_splits prod.splits option.splits)
  have "reader_ok (r\<lparr>rm_read_capture := []\<rparr>)" using assms(2) by (simp add: reader_ok_def)
  from read_inner_ok [OF ri this] have ok: "reader_ok r1" "rm_pending r1 = []"
    "rm_op_deadline r1 = rm_op_deadline r"
    "read_response uncons (rm_current_node_id r) (logical (r\<lparr>rm_read_capture := []\<rparr>) w1) =
      Some ((Inr resp, rm_current_node_id r1), logical r1 w')"
    using assms(3) by simp_all
  moreover have "logical (r\<lparr>rm_read_capture := []\<rparr>) w1 = logical r w"
    by (rule logical_cong) (simp_all add: load_reconnecting_input [OF l])
  moreover have "logical r' w' = logical r1 w'" by (rule logical_cong) (simp_all add: r')
  ultimately show ?thesis by (simp add: r' reader_ok_def)
qed

lemma read_locked_timeout:
  assumes "read_locked r w = Some (Inl Timeout, r', w')" and "reader_ok r"
  shows "reader_ok r' \<and> logical r' w' = logical r w \<and> rm_pending r = [] \<and> rm_pending r' = [] \<and>
    rm_current_node_id r' = rm_current_node_id r \<and> rm_op_deadline r' = rm_op_deadline r"
proof -
  from assms(1) obtain w1 r1 where l: "load_reconnecting w = (False, w1)" and p: "rm_pending r = []"
    and ri: "read_inner (r\<lparr>rm_read_capture := []\<rparr>) w1 = Some (Inl Timeout, r1, w')"
    and r': "r' = settle_read (rm_current_node_id r) (Inl Timeout) r1"
    by (auto simp: read_locked_def Let_def split: if_splits prod.splits option.splits list.splits)
  have "reader_ok (r\<lparr>rm_read_capture := []\<rparr>)" using assms(2) by (simp add: reader_ok_def)
  from read_inner_progress [OF ri this] have ok: "reader_ok r1" "rm_pending r1 = []"
    "rm_op_deadline r1 = rm_op_deadline r"
    "list_all (\<lambda>(ch, v). ch = AUDIO_ENGINE_CHANNEL) (rm_read_capture r1)"
    "logical (r\<lparr>rm_read_capture := []\<rparr>) w1 = map snd (rm_read_capture r1) @ logical r1 w'"
    using p by simp_all
  moreover have "logical (r\<lparr>rm_read_capture := []\<rparr>) w1 = logical r w"
    by (rule logical_cong) (simp_all add: load_reconnecting_input [OF l])
  ultimately show ?thesis
    using p by (simp add: r' settle_read_def reader_ok_def logical_def)
qed

end
