(* ===== verification/ReaderView.thy ===== *)
theory ReaderView
  imports Reader
begin

text \<open>
  The reader of \<open>src/console.rs\<close> against an abstract specification: a queue of responses. The
  abstract state is the responses set aside, the selected node id and the bytes still to be
  parsed; reading pops the queue. \<open>read\<close> and \<open>read_timeout\<close> refine it, a timeout leaves it
  alone, and what is already buffered is delivered without a socket.
\<close>

section \<open>The queue of responses\<close>

record response_queue =
  q_ready :: "WingResponse list"
  q_id :: i32
  q_bytes :: "byte list"

definition view :: "Main \<Rightarrow> World \<Rightarrow> response_queue" where
  "view r w = \<lparr>q_ready = rm_pending r, q_id = rm_current_node_id r, q_bytes = logical r w\<rparr>"

definition next_response :: "response_queue \<Rightarrow> (WingResponse \<times> response_queue) option" where
  "next_response q =
     (case q_ready q of
        p # ps \<Rightarrow> Some (p, q\<lparr>q_ready := ps\<rparr>)
      | [] \<Rightarrow>
          (case read_response uncons (q_id q) (q_bytes q) of
             Some ((Inr resp, cur), bs) \<Rightarrow> Some (resp, q\<lparr>q_id := cur, q_bytes := bs\<rparr>)
           | _ \<Rightarrow> None))"

text \<open>Reading a given sequence of responses off the queue, and the longest sequence there is.\<close>

fun delivers :: "response_queue \<Rightarrow> WingResponse list \<Rightarrow> response_queue \<Rightarrow> bool" where
  "delivers q [] q' \<longleftrightarrow> q' = q"
| "delivers q (x # xs) q' \<longleftrightarrow> (case next_response q of Some (y, q1) \<Rightarrow> y = x \<and> delivers q1 xs q' | None \<Rightarrow> False)"

fun upcoming :: "nat \<Rightarrow> response_queue \<Rightarrow> WingResponse list" where
  "upcoming 0 q = []"
| "upcoming (Suc n) q = (case next_response q of Some (y, q1) \<Rightarrow> y # upcoming n q1 | None \<Rightarrow> [])"

lemma next_response_ready [simp]:
  "q_ready q = p # ps \<Longrightarrow> next_response q = Some (p, q\<lparr>q_ready := ps\<rparr>)"
  by (simp add: next_response_def)

lemma delivers_append: "delivers q (xs @ ys) q' \<longleftrightarrow> (\<exists>q1. delivers q xs q1 \<and> delivers q1 ys q')"
  by (induction xs arbitrary: q) (auto split: option.splits)

lemma delivers_snoc:
  "delivers q xs q1 \<Longrightarrow> next_response q1 = Some (y, q2) \<Longrightarrow> delivers q (xs @ [y]) q2"
  by (auto simp: delivers_append)

lemma upcoming_delivered:
  "delivers q xs q' \<Longrightarrow> upcoming n q = take n xs @ upcoming (n - length xs) q'"
proof (induction xs arbitrary: q n)
  case (Cons x xs)
  then show ?case by (cases n) (auto split: option.splits)
qed simp

lemma delivers_ready: "delivers (q\<lparr>q_ready := xs @ q_ready q\<rparr>) xs q"
proof (induction xs)
  case Nil
  then show ?case by (cases q) simp
next
  case (Cons x xs)
  then show ?case by simp
qed

text \<open>Putting delivered responses back in front gives a queue that delivers the same.\<close>

lemma requeue_upcoming:
  assumes "delivers q xs q'"
  shows "upcoming n (q'\<lparr>q_ready := xs @ q_ready q'\<rparr>) = upcoming n q"
  using upcoming_delivered [OF assms] upcoming_delivered [OF delivers_ready] by simp

section \<open>Reads refine the queue\<close>

lemma view_set_pending: "view (r\<lparr>rm_pending := ps\<rparr>) w = view r w\<lparr>q_ready := ps\<rparr>"
  by (simp add: view_def logical_def)

lemma view_deadline [simp]: "view (r\<lparr>rm_op_deadline := d\<rparr>) w = view r w"
  by (simp add: view_def logical_def)

lemma view_capture [simp]: "view (r\<lparr>rm_capture := c\<rparr>) w = view r w"
  by (simp add: view_def logical_def)

lemma reader_ok_update [simp]:
  "reader_ok (r\<lparr>rm_op_deadline := d\<rparr>) = reader_ok r"
  "reader_ok (r\<lparr>rm_pending := ps\<rparr>) = reader_ok r"
  "reader_ok (r\<lparr>rm_capture := c\<rparr>) = reader_ok r"
  by (simp_all add: reader_ok_def)

lemma view_input: "w_input w' = w_input w \<Longrightarrow> view r w' = view r w"
  by (simp add: view_def logical_def)

lemma now_view: "now w = (t, w') \<Longrightarrow> view r w' = view r w"
  by (rule view_input) (rule now_input)

lemma read_locked_next:
  assumes "read_locked r w = Some (Inr resp, r', w')" and "reader_ok r"
  shows "reader_ok r' \<and> next_response (view r w) = Some (resp, view r' w')"
proof (cases "rm_pending r")
  case (Cons p ps)
  from read_locked_pending [OF assms(1) this] have
    "resp = p" "r' = r\<lparr>rm_pending := ps\<rparr>" "w_input w' = w_input w" by simp_all
  then show ?thesis
    using assms(2) Cons view_input [of w' w] by (simp add: view_set_pending) (simp add: view_def)
next
  case Nil
  from read_locked_fresh [OF assms Nil] Nil show ?thesis
    by (simp add: next_response_def view_def)
qed

lemma read_locked_timeout_view:
  assumes "read_locked r w = Some (Inl Timeout, r', w')" and "reader_ok r"
  shows "reader_ok r' \<and> view r' w' = view r w"
  using read_locked_timeout [OF assms] by (simp add: view_def)

lemma read_timeout_next:
  assumes "read_timeout d r w = Some (Inr resp, r', w')" and "reader_ok r"
  shows "reader_ok r' \<and> next_response (view r w) = Some (resp, view r' w')"
proof -
  from assms(1) obtain t w1 r1 where n: "now w = (t, w1)"
    and l: "read_locked (r\<lparr>rm_op_deadline := Some (t + d)\<rparr>) w1 = Some (Inr resp, r1, w')"
    and r': "r' = r1\<lparr>rm_op_deadline := None\<rparr>"
    by (auto simp: read_timeout_def split: prod.splits option.splits)
  from read_locked_next [OF l] assms(2) now_view [OF n] r' show ?thesis by simp
qed

lemma read_timeout_timeout:
  assumes "read_timeout d r w = Some (Inl Timeout, r', w')" and "reader_ok r"
  shows "reader_ok r' \<and> view r' w' = view r w"
proof -
  from assms(1) obtain t w1 r1 where n: "now w = (t, w1)"
    and l: "read_locked (r\<lparr>rm_op_deadline := Some (t + d)\<rparr>) w1 = Some (Inl Timeout, r1, w')"
    and r': "r' = r1\<lparr>rm_op_deadline := None\<rparr>"
    by (auto simp: read_timeout_def split: prod.splits option.splits)
  from read_locked_timeout_view [OF l] assms(2) now_view [OF n] r' show ?thesis by simp
qed

lemma new_main_ok: "reader_ok (new_main t)"
  by (simp add: reader_ok_def new_main_def audio_engine_decoder_def)

section \<open>Polling\<close>

text \<open>
  A caller that polls \<open>read_timeout\<close> with any timeouts, goes on after each \<open>Timeout\<close>, and keeps
  what it gets; \<open>None\<close> when a read fails otherwise or is still waiting.
\<close>

fun poll :: "duration list \<Rightarrow> Main \<Rightarrow> World \<Rightarrow> (WingResponse list \<times> Main \<times> World) option" where
  "poll [] r w = Some ([], r, w)"
| "poll (d # ds) r w =
     (case read_timeout d r w of
        Some (Inr resp, r, w) \<Rightarrow> map_option (\<lambda>(resps, s). (resp # resps, s)) (poll ds r w)
      | Some (Inl Timeout, r, w) \<Rightarrow> poll ds r w
      | _ \<Rightarrow> None)"

lemma poll_delivers:
  "poll ds r w = Some (resps, r', w') \<Longrightarrow> reader_ok r \<Longrightarrow>
     reader_ok r' \<and> delivers (view r w) resps (view r' w')"
proof (induction ds arbitrary: r w resps)
  case (Cons d ds)
  from Cons.prems(1) obtain x r1 w1 where x: "read_timeout d r w = Some (x, r1, w1)"
    by (auto split: option.splits)
  show ?case
  proof (cases x)
    case (Inr resp)
    with Cons.prems(1) x obtain rest where "poll ds r1 w1 = Some (rest, r', w')" "resps = resp # rest"
      by auto
    with Cons.IH [of r1 w1 rest] read_timeout_next [of d r w resp r1 w1] x Inr Cons.prems(2)
    show ?thesis by simp
  next
    case (Inl e)
    with Cons.prems(1) x have "e = Timeout" "poll ds r1 w1 = Some (resps, r', w')"
      by (auto split: error.splits)
    with Cons.IH [of r1 w1 resps] read_timeout_timeout [of d r w r1 w1] x Inl Cons.prems(2)
    show ?thesis by simp
  qed
qed simp

definition split_world :: World where
  "split_world = \<lparr>w_clock = [0, 0, 0, 0, 0, 0, 5], w_now = 0, w_reconnecting = [], w_tainted = False,
     w_input = [Received [0xd7, 0, 0], Received [0, 5, 1]], w_write_errors = [], w_written = []\<rparr>"

text \<open>
  C1. Polling is cancellation-safe: whatever the timeouts, the clock, the fragments and the
  failed attempts, the responses a polling caller collects are exactly those of the stream, in
  order: none is lost, duplicated or torn apart by a timeout in the middle of a response.
\<close>

theorem polling_reads_the_stream:
  assumes "poll ds r w = Some (resps, r', w')" and "reader_ok r"
  shows "delivers (view r w) resps (view r' w')"
  using poll_delivers [OF assms] by blast

lemma poll_split_world:
  "map_option fst (poll [5, 5] (new_main 0) split_world) = Some [NodeDataR 5 (with_i8 1)]"
  by code_simp

theorem polling_reads_the_stream_witness:
  "\<exists>r' w'. poll [5, 5] (new_main 0) split_world = Some ([NodeDataR 5 (with_i8 1)], r', w') \<and>
     delivers (view (new_main 0) split_world) [NodeDataR 5 (with_i8 1)] (view r' w')"
proof -
  from poll_split_world obtain r' w' where
    p: "poll [5, 5] (new_main 0) split_world = Some ([NodeDataR 5 (with_i8 1)], r', w')" by auto
  with polling_reads_the_stream [OF p new_main_ok] show ?thesis by blast
qed

section \<open>What is buffered is delivered\<close>

text \<open>The bytes the reader holds already, short of the socket.\<close>

definition held :: "Main \<Rightarrow> byte list" where
  "held r = map snd (rm_replay r) @ audio_of (rm_rx_events r) @ stream (rm_rx_channels r) (rm_rx_buf r)"

definition local_ok :: "World \<Rightarrow> Main \<times> World \<Rightarrow> bool" where
  "local_ok w0 s \<longleftrightarrow> reader_ok (fst s) \<and> rm_capture (fst s) = None \<and>
     length (rm_read_capture (fst s)) + length (held (fst s)) \<le> MAX_NATIVE_RESPONSE_BYTES \<and>
     list_all Not (w_reconnecting (snd s)) \<and> (\<exists>bs. snd s = w0\<lparr>w_reconnecting := bs\<rparr>)"

lemma load_reconnecting_quiet:
  "list_all Not (w_reconnecting w) \<Longrightarrow>
     \<exists>bs. load_reconnecting w = (False, w\<lparr>w_reconnecting := bs\<rparr>) \<and> list_all Not bs"
  by (cases w; cases "w_reconnecting w") (auto simp: load_reconnecting_def)

lemma pop_audio_held:
  "audio_of evs = v # vs \<Longrightarrow> \<exists>evs'. pop_audio evs = (Some v, evs') \<and> audio_of evs' = vs"
  by (induction evs rule: pop_audio.induct) (auto split: if_splits)

lemma pop_audio_empty: "audio_of evs = [] \<Longrightarrow> pop_audio evs = (None, [])"
  by (induction evs rule: pop_audio.induct) (auto split: if_splits)

lemma deliver_room:
  "length (rm_read_capture r) < MAX_NATIVE_RESPONSE_BYTES \<Longrightarrow>
     deliver ch v r w = (Inr v, r\<lparr>rm_read_capture := rm_read_capture r @ [(ch, v)]\<rparr>, w)"
  by (simp add: deliver_def ensure_native_response_capacity_def)

text \<open>One byte of a non-empty receive buffer: delivered, or absorbed by the framing layer.\<close>

lemma take_byte_live:
  assumes "rm_rx_buf r = x # xs" "reader_ok r" "rm_replay r = []" "audio_of (rm_rx_events r) = []"
    and "length (rm_read_capture r) < MAX_NATIVE_RESPONSE_BYTES"
  shows "(\<exists>r' v. take_byte r w = (Inr (Some v), r', w) \<and> held r = v # held r') \<or>
    (\<exists>r'. take_byte r w = (Inr None, r', w) \<and> held r = held r' \<and> rm_rx_buf r' = xs \<and> reader_ok r' \<and>
       rm_replay r' = [] \<and> audio_of (rm_rx_events r') = [] \<and> rm_read_capture r' = rm_read_capture r)"
proof -
  obtain a b c where p: "push_byte (rm_rx_channels r) x = (Inr (a, b), c)" "cd_channel c \<noteq> None"
    "case a of Some (Data ch v) \<Rightarrow> (\<forall>e. b = Some e \<longrightarrow> (\<exists>v'. e = Data ch v')) | _ \<Rightarrow> b = None"
    using push_byte_selected_ok [of "rm_rx_channels r" x] assms(2) by (auto simp: reader_ok_def)
  define r1 where "r1 = r\<lparr>rm_rx_buf := xs, rm_rx_channels := c, rm_rx_events := rm_rx_events r @ opt_list b\<rparr>"
  have l: "held r = audio_of (opt_list a) @ held r1"
    using assms p by (simp add: held_def r1_def)
  show ?thesis
  proof (cases "\<exists>v. a = Some (Data AUDIO_ENGINE_CHANNEL v)")
    case True
    then obtain v where a: "a = Some (Data AUDIO_ENGINE_CHANNEL v)" by blast
    have "take_byte r w = (Inr (Some v), r1\<lparr>rm_read_capture := rm_read_capture r1 @ [(AUDIO_ENGINE_CHANNEL, v)]\<rparr>, w)"
      using assms p a by (simp add: take_byte_def Let_def r1_def deliver_room)
    with l a show ?thesis by (auto simp: held_def)
  next
    case False
    have "take_byte r w = (Inr None, r1, w)"
      using assms p False by (auto simp: take_byte_def Let_def r1_def split: option.splits ChannelEvent.splits)
    moreover have "audio_of (opt_list a) = [] \<and> audio_of (opt_list b) = []"
      using p(3) False by (cases a; cases b; cases "the a"; cases "the b") auto
    ultimately show ?thesis using l assms p by (auto simp: r1_def reader_ok_def)
  qed
qed

lemma decode_next_inner_live:
  assumes "held r = v # vs" "reader_ok r" "list_all Not (w_reconnecting w)"
    and "length (rm_read_capture r) < MAX_NATIVE_RESPONSE_BYTES"
  shows "\<exists>r' bs. decode_next_inner r w = Some (Inr v, r', w\<lparr>w_reconnecting := bs\<rparr>) \<and>
    list_all Not bs \<and> held r' = vs"
  using assms
proof (induction "length (rm_rx_buf r)" arbitrary: r w rule: less_induct)
  case less
  obtain bs where l: "load_reconnecting w = (False, w\<lparr>w_reconnecting := bs\<rparr>)" "list_all Not bs"
    using load_reconnecting_quiet [OF less.prems(3)] by blast
  note [simp] = l(1) deliver_room [OF less.prems(4)]
  note step = decode_next_inner.simps [of r w]
  show ?case
  proof (cases "rm_replay r")
    case (Cons c rest)
    then obtain ch where c: "c = (ch, v)" using less.prems(1) by (cases c) (auto simp: held_def)
    have "decode_next_inner r w =
      Some (Inr v, r\<lparr>rm_replay := rest, rm_read_capture := rm_read_capture r @ [(ch, v)]\<rparr>,
        w\<lparr>w_reconnecting := bs\<rparr>)"
      using Cons c less.prems(4) by (simp add: step deliver_room)
    with l Cons c less.prems(1) show ?thesis by (auto simp: held_def)
  next
    case Nil
    show ?thesis
    proof (cases "audio_of (rm_rx_events r)")
      case (Cons u us)
      then have u: "u = v" using Nil less.prems(1) by (simp add: held_def)
      from pop_audio_held [OF Cons] obtain evs where
        e: "pop_audio (rm_rx_events r) = (Some u, evs)" "audio_of evs = us" by blast
      have "decode_next_inner r w =
        Some (Inr v, r\<lparr>rm_rx_events := evs, rm_read_capture := rm_read_capture r @ [(AUDIO_ENGINE_CHANNEL, v)]\<rparr>,
          w\<lparr>w_reconnecting := bs\<rparr>)"
        using Nil e u less.prems(4) by (simp add: step deliver_room)
      with l Nil Cons e less.prems(1) show ?thesis by (auto simp: held_def)
    next
      case none: Nil
      let ?r = "r\<lparr>rm_rx_events := []\<rparr>"
      have h: "held ?r = v # vs" "reader_ok ?r" "rm_replay ?r = []" "audio_of (rm_rx_events ?r) = []"
        using less.prems(1,2) Nil none by (simp_all add: held_def reader_ok_def)
      then obtain x xs where b: "rm_rx_buf ?r = x # xs" by (cases "rm_rx_buf r") (auto simp: held_def)
      then have f: "fill ?r w' = (Ready, ?r, w')" for w' by (simp add: fill_def)
      note eq = step [unfolded l(1) prod.case if_False Nil list.case pop_audio_empty [OF none] option.case f filled.case]
      from take_byte_live [OF b h(2,3,4), of "w\<lparr>w_reconnecting := bs\<rparr>"] less.prems(4)
      consider (some) r' u where "take_byte ?r (w\<lparr>w_reconnecting := bs\<rparr>) = (Inr (Some u), r', w\<lparr>w_reconnecting := bs\<rparr>)"
          "held ?r = u # held r'"
        | (absorbed) r' where "take_byte ?r (w\<lparr>w_reconnecting := bs\<rparr>) = (Inr None, r', w\<lparr>w_reconnecting := bs\<rparr>)"
          "held ?r = held r'" "rm_rx_buf r' = xs" "reader_ok r'" "rm_read_capture r' = rm_read_capture r"
        by auto
      then show ?thesis
      proof cases
        case some
        with eq h(1) l(2) show ?thesis by auto
      next
        case absorbed
        with less.hyps [of r' "w\<lparr>w_reconnecting := bs\<rparr>"] h(1) less.prems(4) l(2) b
        have "\<exists>r'' bs'. decode_next_inner r' (w\<lparr>w_reconnecting := bs\<rparr>) =
          Some (Inr v, r'', w\<lparr>w_reconnecting := bs'\<rparr>) \<and> list_all Not bs' \<and> held r'' = vs" by simp
        with eq absorbed(1) show ?thesis by simp
      qed
    qed
  qed
qed

interpretation console_live: live_source console_source "\<lambda>s. held (fst s)" "local_ok w0" for w0
proof
  fix s b bs assume ok: "local_ok w0 s" and h: "held (fst s) = b # bs"
  obtain r w where s: "s = (r, w)" by (cases s)
  from ok h s have o: "reader_ok r" "rm_capture r = None" "list_all Not (w_reconnecting w)"
    "length (rm_read_capture r) + Suc (length bs) \<le> MAX_NATIVE_RESPONSE_BYTES" "\<exists>bs. w = w0\<lparr>w_reconnecting := bs\<rparr>"
    by (auto simp: local_ok_def)
  from decode_next_inner_live [of r b bs w] h s o obtain r' cs where
    d: "decode_next_inner r w = Some (Inr b, r', w\<lparr>w_reconnecting := cs\<rparr>)" "list_all Not cs" "held r' = bs"
    by auto
  from decode_next_inner_step [OF d(1) o(1)] have "reader_ok r'" "rm_capture r' = None"
    "rm_read_capture r' = rm_read_capture r @ [(AUDIO_ENGINE_CHANNEL, b)]"
    using o(2) by (auto simp: stream_step_def same_session_def)
  with d o s show "\<exists>s'. console_source s = Some (Inr b, s') \<and> local_ok w0 s' \<and> held (fst s') = bs"
    by (auto simp: console_source_def decode_next_def local_ok_def)
qed

text \<open>
  C29. A complete response that is already buffered is delivered at once: the read neither waits
  on the socket nor writes to it, and leaves exactly the bytes after the response.
\<close>

theorem buffered_response_delivered:
  assumes "reader_ok r" "rm_pending r = []" "rm_capture r = None"
    and "length (held r) \<le> MAX_NATIVE_RESPONSE_BYTES"
    and "\<not> w_tainted w" "list_all Not (w_reconnecting w)"
    and "read_response uncons (rm_current_node_id r) (held r) = Some ((Inr resp, cur), rest)"
  shows "\<exists>r' flags. read_locked r w = Some (Inr resp, r', w\<lparr>w_reconnecting := flags\<rparr>) \<and>
    held r' = rest \<and> rm_current_node_id r' = cur"
proof -
  obtain bs where l: "load_reconnecting w = (False, w\<lparr>w_reconnecting := bs\<rparr>)" "list_all Not bs"
    using load_reconnecting_quiet [OF assms(6)] by blast
  let ?s = "(r\<lparr>rm_read_capture := []\<rparr>, w\<lparr>w_reconnecting := bs\<rparr>)"
  have "local_ok w ?s" "held (fst ?s) = held r"
    using assms l by (auto simp: local_ok_def held_def reader_ok_def)
  from console_live.completes_response [OF assms(7) this] obtain s' where
    s': "read_response console_source (rm_current_node_id r) ?s = Some ((Inr resp, cur), s')"
    "local_ok w s'" "held (fst s') = rest" by auto
  then show ?thesis
    using assms l by (cases s') (auto simp: read_locked_def read_inner_def settle_read_def Let_def held_def local_ok_def)
qed

definition buffered_main :: Main where
  "buffered_main = (new_main 0)\<lparr>rm_rx_buf := [0xd7, 0, 0, 0, 5, 1, 0xde]\<rparr>"

theorem buffered_response_delivered_witness:
  "\<exists>r' flags. read_locked buffered_main split_world =
       Some (Inr (NodeDataR 5 (with_i8 1)), r', split_world\<lparr>w_reconnecting := flags\<rparr>) \<and>
     held r' = [0xde] \<and> rm_current_node_id r' = 5"
proof (rule buffered_response_delivered)
  show "reader_ok buffered_main" "rm_pending buffered_main = []" "rm_capture buffered_main = None"
    by (simp_all add: buffered_main_def new_main_def reader_ok_def audio_engine_decoder_def)
  have h: "held buffered_main = [0xd7, 0, 0, 0, 5, 1, 0xde]" by code_simp
  then show "length (held buffered_main) \<le> MAX_NATIVE_RESPONSE_BYTES" by (simp add: MAX_NATIVE_RESPONSE_BYTES_def)
  show "\<not> w_tainted split_world" "list_all Not (w_reconnecting split_world)"
    by (simp_all add: split_world_def)
  show "read_response uncons (rm_current_node_id buffered_main) (held buffered_main) =
    Some ((Inr (NodeDataR 5 (with_i8 1)), 5), [0xde])" by code_simp
qed

section \<open>The keep-alive deadline\<close>

text \<open>
  Outside a bounded read the socket timeout is the time left to the next keep-alive, without
  the floor of one millisecond a bounded read has. When the keep-alive falls due between the
  check and the computation of the timeout, the timeout is zero, the socket refuses it, and
  the read fails with an I/O error although the connection is healthy and data is waiting.
\<close>

text \<open>
  C36. A plain read fails with an I/O error, whatever the socket holds for it, when the
  keep-alive falls due between the two clock readings.
\<close>

theorem unbounded_read_fails_at_keep_alive:
  assumes "rm_op_deadline r = None" "rm_pending r = []" "rm_replay r = []" "rm_rx_events r = []" "rm_rx_buf r = []"
    and "\<not> w_tainted w" "w_reconnecting w = []"
    and "w_clock w = t1 # t2 # ts" "t1 < rm_keep_alive_timer r" "rm_keep_alive_timer r \<le> t2"
  shows "\<exists>r' w'. read_locked r w = Some (Inl (Io OtherKind), r', w') \<and> w_input w' = w_input w"
proof -
  let ?w = "w\<lparr>w_clock := ts, w_now := t2\<rparr>" and ?r = "r\<lparr>rm_read_capture := [], rm_rx_events := []\<rparr>"
  have "fill ?r w = (Fails (Io OtherKind), ?r, ?w)"
    using assms by (simp add: fill_def keep_alive_def now_def deadline_passed_def socket_timeout_def
        saturating_duration_since_def set_read_timeout_def)
  then have "decode_next_inner (r\<lparr>rm_read_capture := []\<rparr>) w = Some (Inl (Io OtherKind), ?r, ?w)"
    using assms by (subst decode_next_inner.simps) (simp add: load_reconnecting_def)
  then have "read_inner (r\<lparr>rm_read_capture := []\<rparr>) w =
      Some (Inl (Io OtherKind), ?r\<lparr>rm_current_node_id := rm_current_node_id r\<rparr>, ?w)"
    by (simp add: read_inner_def read_response_case console_source_def decode_next_def)
  with assms show ?thesis
    by (simp add: read_locked_def load_reconnecting_def settle_read_def)
qed

definition due_world :: World where
  "due_world = \<lparr>w_clock = [6999999999, 7000000000], w_now = 0, w_reconnecting = [], w_tainted = False,
     w_input = [Received [0xde]], w_write_errors = [], w_written = []\<rparr>"

theorem unbounded_read_fails_at_keep_alive_witness:
  "\<exists>r' w'. read_locked (new_main 0) due_world = Some (Inl (Io OtherKind), r', w') \<and> w_input w' = [Received [0xde]]"
  using unbounded_read_fails_at_keep_alive [of "new_main 0" due_world 6999999999 7000000000 "[]"]
  by (simp add: new_main_def due_world_def DATA_KEEP_ALIVE_SECONDS_def nanos_per_second_def)

text \<open>A bounded read survives the same clock.\<close>

lemma bounded_read_survives_keep_alive:
  "map_option fst (read_timeout 10000000000 (new_main 0) (due_world\<lparr>w_clock := 0 # w_clock due_world\<rparr>)) =
     Some (Inr RequestEnd)"
  by code_simp

end
