(* ===== verification/Attended.thy ===== *)
theory Attended
  imports ReaderView
begin

text \<open>
  The attended operations of \<open>src/console.rs\<close>: a request followed by reads until the reply to it
  arrives (\<open>get_node_data\<close>, \<open>get_node_definition\<close>, \<open>get_node_definitions\<close>), and the raw capture
  \<open>get_binary_node\<close> with the fence it raises on a timeout. The lemmas are stated against
  the queue of responses of \<open>ReaderView\<close>.
\<close>

section \<open>Requests\<close>

definition MAX_ATTENDED_BUFFERED :: nat where
  "MAX_ATTENDED_BUFFERED = 64 * 1024"

definition ensure_stream_usable :: "World \<Rightarrow> unit result" where
  "ensure_stream_usable w = (if w_tainted w then Inl ConnectionError else Inr ())"

definition send :: "World \<Rightarrow> byte list \<Rightarrow> unit result \<times> World" where
  "send w bytes =
     (case ensure_stream_usable w of Inl e \<Rightarrow> (Inl e, w) | Inr _ \<Rightarrow> write_all w bytes)"

definition request_node_definition :: "i32 \<Rightarrow> World \<Rightarrow> unit result \<times> World" where
  "request_node_definition nid w = send w (node_definition_message nid)"

definition request_node_data :: "i32 \<Rightarrow> World \<Rightarrow> unit result \<times> World" where
  "request_node_data nid w = send w (node_data_message nid)"

lemmas request_defs = request_node_definition_def request_node_data_def

lemma send_input: "send w bs = (e, w') \<Longrightarrow> w_input w' = w_input w \<and> w_tainted w' = w_tainted w"
  by (auto simp: send_def write_all_def split: sum.splits list.splits option.splits)

lemma send_view: "send w bs = (e, w') \<Longrightarrow> view r w' = view r w"
  by (rule view_input) (simp add: send_input)

section \<open>The attended read\<close>

definition requeue :: "WingResponse list \<Rightarrow> Main \<Rightarrow> Main" where
  "requeue responses r = r\<lparr>rm_pending := responses @ rm_pending r\<rparr>"

text \<open>
  The matcher gives back, as \<open>Inl\<close>, a response it does not want. The loop runs at most
  \<open>MAX_ATTENDED_BUFFERED + 1\<close> times, so it is total; \<open>None\<close> is a read still waiting.
\<close>

function attended_loop :: "(WingResponse \<Rightarrow> WingResponse + 'a) \<Rightarrow> instant \<Rightarrow> WingResponse list \<Rightarrow> Main \<Rightarrow> World \<Rightarrow>
    (('a \<times> WingResponse list) result \<times> WingResponse list \<times> Main \<times> World) option" where
  "attended_loop matcher deadline buffered r w =
     (case read_locked r w of
        None \<Rightarrow> None
      | Some (Inl e, r, w) \<Rightarrow> Some (Inl e, buffered, r, w)
      | Some (Inr resp, r, w) \<Rightarrow>
          (case matcher resp of
             Inr matched \<Rightarrow> Some (Inr (matched, buffered), buffered, r, w)
           | Inl unrelated \<Rightarrow>
               if length buffered \<ge> MAX_ATTENDED_BUFFERED then Some (Inl InvalidData, buffered, r, w)
               else (case now w of (t, w) \<Rightarrow>
                 if t \<ge> deadline then Some (Inl Timeout, buffered @ [unrelated], r, w)
                 else attended_loop matcher deadline (buffered @ [unrelated]) r w)))"
  by pat_completeness auto

termination attended_loop
  by (relation "measure (\<lambda>(m, d, buffered, r, w). MAX_ATTENDED_BUFFERED - length buffered)") auto

declare attended_loop.simps [simp del]

definition attended_read_until :: "instant \<Rightarrow> (WingResponse \<Rightarrow> WingResponse + 'a) \<Rightarrow> Main \<Rightarrow> World \<Rightarrow>
    (('a \<times> WingResponse list) result \<times> Main \<times> World) option" where
  "attended_read_until deadline matcher r w =
     (case attended_loop matcher deadline [] r w of
        None \<Rightarrow> None
      | Some (result, buffered, r, w) \<Rightarrow>
          (case result of
             Inl Timeout \<Rightarrow> Some (Inl Timeout, requeue buffered r, w)
           | _ \<Rightarrow> Some (result, r, w)))"

definition match_data :: "i32 \<Rightarrow> WingResponse \<Rightarrow> WingResponse + WingNodeData" where
  "match_data nid resp =
     (case resp of
        NodeDataR rid data \<Rightarrow> if rid = nid then Inr data else Inl resp
      | other \<Rightarrow> Inl other)"

definition match_definition :: "i32 \<Rightarrow> WingResponse \<Rightarrow> WingResponse + WingNodeDef" where
  "match_definition nid resp =
     (case resp of
        NodeDefR def \<Rightarrow> if nd_id def = nid then Inr def else Inl resp
      | other \<Rightarrow> Inl other)"

text \<open>The shared shape of the attended gets: request, deadline, read, clear the deadline.\<close>

definition attended_get :: "(World \<Rightarrow> unit result \<times> World) \<Rightarrow> (WingResponse \<Rightarrow> WingResponse + 'a) \<Rightarrow>
    duration \<Rightarrow> Main \<Rightarrow> World \<Rightarrow> (('a \<times> WingResponse list) result \<times> Main \<times> World) option" where
  "attended_get request matcher timeout r w =
     (case request w of
        (Inl e, w) \<Rightarrow> Some (Inl e, r, w)
      | (Inr _, w) \<Rightarrow>
          (case now w of (t, w) \<Rightarrow>
           case attended_read_until (t + timeout) matcher (r\<lparr>rm_op_deadline := Some (t + timeout)\<rparr>) w of
             None \<Rightarrow> None
           | Some (result, r, w) \<Rightarrow> Some (result, r\<lparr>rm_op_deadline := None\<rparr>, w)))"

definition get_node_data :: "i32 \<Rightarrow> duration \<Rightarrow> Main \<Rightarrow> World \<Rightarrow>
    ((WingNodeData \<times> WingResponse list) result \<times> Main \<times> World) option" where
  "get_node_data nid = attended_get (request_node_data nid) (match_data nid)"

definition get_node_definition :: "i32 \<Rightarrow> duration \<Rightarrow> Main \<Rightarrow> World \<Rightarrow>
    ((WingNodeDef \<times> WingResponse list) result \<times> Main \<times> World) option" where
  "get_node_definition nid = attended_get (request_node_definition nid) (match_definition nid)"

section \<open>Nothing is lost\<close>

text \<open>A matcher that returns the response it was given when it does not match.\<close>

definition returns_unmatched :: "(WingResponse \<Rightarrow> WingResponse + 'a) \<Rightarrow> bool" where
  "returns_unmatched matcher \<longleftrightarrow> (\<forall>resp other. matcher resp = Inl other \<longrightarrow> other = resp)"

definition unmatched :: "(WingResponse \<Rightarrow> WingResponse + 'a) \<Rightarrow> WingResponse \<Rightarrow> bool" where
  "unmatched matcher resp \<longleftrightarrow> (\<exists>other. matcher resp = Inl other)"

lemma match_data_unmatched: "returns_unmatched (match_data nid)"
  by (auto simp: returns_unmatched_def match_data_def split: WingResponse.splits if_splits)

lemma match_definition_unmatched: "returns_unmatched (match_definition nid)"
  by (auto simp: returns_unmatched_def match_definition_def split: WingResponse.splits if_splits)

lemma match_data_iff [simp]: "match_data nid resp = Inr data \<longleftrightarrow> resp = NodeDataR nid data"
  by (auto simp: match_data_def split: WingResponse.splits)

lemma unmatched_data [simp]: "unmatched (match_data nid) resp \<longleftrightarrow> (\<forall>d. resp \<noteq> NodeDataR nid d)"
  by (auto simp: unmatched_def match_data_def split: WingResponse.splits if_splits)

lemma match_definition_iff [simp]: "match_definition nid resp = Inr def \<longleftrightarrow> resp = NodeDefR def \<and> nd_id def = nid"
  by (auto simp: match_definition_def split: WingResponse.splits)

lemma attended_loop_delivers:
  assumes "attended_loop matcher deadline buffered r w = Some (result, buffered', r', w')"
    and "reader_ok r" and "returns_unmatched matcher" and "delivers q buffered (view r w)"
    and "list_all (unmatched matcher) buffered" and "length buffered \<le> MAX_ATTENDED_BUFFERED"
  shows "(case result of
      Inr (matched, ms) \<Rightarrow> ms = buffered' \<and> reader_ok r' \<and> list_all (unmatched matcher) ms \<and>
        length ms \<le> MAX_ATTENDED_BUFFERED \<and>
        (\<exists>resp. matcher resp = Inr matched \<and> delivers q (ms @ [resp]) (view r' w'))
    | Inl e \<Rightarrow> e = Timeout \<longrightarrow> reader_ok r' \<and> delivers q buffered' (view r' w'))"
  using assms
proof (induction matcher deadline buffered r w rule: attended_loop.induct)
  case (1 matcher deadline buffered r w)
  from "1.prems"(1) obtain x r1 w1 where rd: "read_locked r w = Some (x, r1, w1)"
    by (subst (asm) attended_loop.simps) (auto split: option.splits)
  show ?case
  proof (cases x)
    case (Inl e)
    with "1.prems" rd read_locked_timeout_view [of r w r1 w1] show ?thesis
      by (subst (asm) attended_loop.simps) auto
  next
    case (Inr resp)
    with read_locked_next [of r w resp r1 w1] rd "1.prems"(2) have
      ok: "reader_ok r1" and nx: "next_response (view r w) = Some (resp, view r1 w1)" by simp_all
    have dl: "delivers q (buffered @ [resp]) (view r1 w1)"
      by (rule delivers_snoc [OF "1.prems"(4) nx])
    show ?thesis
    proof (cases "matcher resp")
      case m: (Inr matched)
      with "1.prems" rd Inr ok dl show ?thesis by (subst (asm) attended_loop.simps) auto
    next
      case m: (Inl other)
      with "1.prems"(3) have other: "other = resp" by (simp add: returns_unmatched_def)
      obtain t w2 where n: "now w1 = (t, w2)" by (cases "now w1")
      from now_view [OF n] dl have dl2: "delivers q (buffered @ [resp]) (view r1 w2)" by simp
      consider "length buffered \<ge> MAX_ATTENDED_BUFFERED"
        | "length buffered < MAX_ATTENDED_BUFFERED" "t \<ge> deadline"
        | "length buffered < MAX_ATTENDED_BUFFERED" "t < deadline" by linarith
      then show ?thesis
      proof cases
        case 3
        then have "attended_loop matcher deadline (buffered @ [other]) r1 w2 = Some (result, buffered', r', w')"
          using "1.prems"(1) rd Inr m n by (subst (asm) attended_loop.simps) simp
        with "1.IH" [OF rd refl Inr refl m _ n [symmetric]] 3 other dl2 ok "1.prems" m show ?thesis
          by (simp add: unmatched_def)
      qed (use "1.prems" rd Inr m n ok dl2 other in \<open>subst (asm) attended_loop.simps, auto\<close>)+
    qed
  qed
qed

lemma view_requeue: "view (requeue xs r) w = view r w\<lparr>q_ready := xs @ q_ready (view r w)\<rparr>"
  by (simp add: requeue_def view_def logical_def)

lemma reader_ok_requeue [simp]: "reader_ok (requeue xs r) = reader_ok r"
  by (simp add: requeue_def)

text \<open>What an attended get did, seen from the queue before it.\<close>

definition attended_outcome :: "(WingResponse \<Rightarrow> WingResponse + 'a) \<Rightarrow> Main \<Rightarrow> World \<Rightarrow>
    ('a \<times> WingResponse list) result \<Rightarrow> Main \<Rightarrow> World \<Rightarrow> bool" where
  "attended_outcome matcher r w result r' w' \<longleftrightarrow>
    (case result of
        Inr (matched, ms) \<Rightarrow> list_all (unmatched matcher) ms \<and> length ms \<le> MAX_ATTENDED_BUFFERED \<and>
          (\<exists>resp. matcher resp = Inr matched \<and> delivers (view r w) (ms @ [resp]) (view r' w'))
      | Inl e \<Rightarrow> e = Timeout \<longrightarrow> reader_ok r' \<and> (\<forall>n. upcoming n (view r' w') = upcoming n (view r w)))"

lemma attended_get_frame:
  assumes "attended_get request matcher timeout r w = Some (result, r', w')"
    and "\<And>e w1. request w = (e, w1) \<Longrightarrow> w_input w1 = w_input w \<and> e \<noteq> Inl Timeout"
    and "reader_ok r" and "returns_unmatched matcher"
  shows "attended_outcome matcher r w result r' w'"
proof (cases "request w")
  case (Pair e w1)
  note rq = assms(2) [OF Pair]
  show ?thesis
  proof (cases e)
    case (Inl err)
    with assms(1) Pair rq show ?thesis by (auto simp: attended_get_def attended_outcome_def)
  next
    case (Inr u)
    obtain t w2 where n: "now w1 = (t, w2)" by (cases "now w1")
    let ?r = "r\<lparr>rm_op_deadline := Some (t + timeout)\<rparr>"
    from assms(1) Pair Inr n obtain res buffered r2 w3 where
      lp: "attended_loop matcher (t + timeout) [] ?r w2 = Some (res, buffered, r2, w3)"
      and fin: "result = res" "w' = w3"
        "r' = (if res = Inl Timeout then requeue buffered r2 else r2)\<lparr>rm_op_deadline := None\<rparr>"
      by (auto simp: attended_get_def attended_read_until_def split: option.splits sum.splits error.splits)
    have v: "view ?r w2 = view r w"
      using now_view [OF n] rq view_input [of w1 w] by simp
    from attended_loop_delivers [OF lp, of "view r w"] assms(3,4) v fin show ?thesis
      by (auto simp: attended_outcome_def view_requeue requeue_upcoming split: sum.splits)
  qed
qed

lemma request_frame:
  "request_node_data nid w = (e, w1) \<Longrightarrow> w_input w1 = w_input w \<and> e \<noteq> Inl Timeout"
  "request_node_definition nid w = (e, w1) \<Longrightarrow> w_input w1 = w_input w \<and> e \<noteq> Inl Timeout"
  by (auto simp: request_defs send_def ensure_stream_usable_def write_all_def
      split: if_splits list.splits option.splits)

lemma get_node_data_frame:
  "get_node_data nid timeout r w = Some (result, r', w') \<Longrightarrow> reader_ok r \<Longrightarrow>
     attended_outcome (match_data nid) r w result r' w'"
  unfolding get_node_data_def
  by (erule attended_get_frame) (auto dest: request_frame intro: match_data_unmatched)

lemma get_node_definition_frame:
  "get_node_definition nid timeout r w = Some (result, r', w') \<Longrightarrow> reader_ok r \<Longrightarrow>
     attended_outcome (match_definition nid) r w result r' w'"
  unfolding get_node_definition_def
  by (erule attended_get_frame) (auto dest: request_frame intro: match_definition_unmatched)

text \<open>
  C21. An answered \<open>get_node_data\<close> returns the first value of that node in the stream, and with
  it every response that came before, in arrival order; nothing of the stream is skipped.
\<close>

theorem get_node_data_answered:
  assumes "get_node_data nid timeout r w = Some (Inr (data, buffered), r', w')" and "reader_ok r"
  shows "delivers (view r w) (buffered @ [NodeDataR nid data]) (view r' w') \<and>
    (\<forall>d. NodeDataR nid d \<notin> set buffered) \<and> length buffered \<le> MAX_ATTENDED_BUFFERED"
  using get_node_data_frame [OF assms]
  by (auto simp: attended_outcome_def list_all_iff)

definition two_values :: World where
  "two_values = split_world\<lparr>w_clock := [], w_input := [Received [0xd7, 0, 0, 0, 7, 2, 0xd7, 0, 0], Failed WouldBlock, Received [0, 5, 1]]\<rparr>"

lemma get_node_data_run:
  "map_option fst (get_node_data 5 1000 (new_main 0) two_values) =
     Some (Inr (with_i8 1, [NodeDataR 7 (with_i8 2)]))"
  by code_simp

theorem get_node_data_answered_witness:
  "\<exists>r' w'. get_node_data 5 1000 (new_main 0) two_values = Some (Inr (with_i8 1, [NodeDataR 7 (with_i8 2)]), r', w') \<and>
     delivers (view (new_main 0) two_values) [NodeDataR 7 (with_i8 2), NodeDataR 5 (with_i8 1)] (view r' w')"
proof -
  from get_node_data_run obtain r' w' where
    g: "get_node_data 5 1000 (new_main 0) two_values = Some (Inr (with_i8 1, [NodeDataR 7 (with_i8 2)]), r', w')" by auto
  with get_node_data_answered [OF g new_main_ok] show ?thesis by simp
qed

text \<open>
  C4. An attended get that times out, of a value or of a definition, loses nothing: the next
  reads deliver exactly the responses they would have delivered without it.
\<close>

theorem attended_timeout_keeps_queue:
  assumes "get_node_data nid timeout r w = Some (Inl Timeout, r', w') \<or>
    get_node_definition nid timeout r w = Some (Inl Timeout, r', w')" and "reader_ok r"
  shows "upcoming n (view r' w') = upcoming n (view r w)"
  using assms(1)
proof
  assume "get_node_data nid timeout r w = Some (Inl Timeout, r', w')"
  from get_node_data_frame [OF this assms(2)] show ?thesis by (simp add: attended_outcome_def)
next
  assume "get_node_definition nid timeout r w = Some (Inl Timeout, r', w')"
  from get_node_definition_frame [OF this assms(2)] show ?thesis by (simp add: attended_outcome_def)
qed

definition late_value :: World where
  "late_value = two_values\<lparr>w_clock := replicate 8 0 @ [2000], w_now := 0\<rparr>"

lemma get_node_data_late:
  "map_option fst (get_node_data 5 1000 (new_main 0) late_value) = Some (Inl Timeout)"
  by code_simp

theorem attended_timeout_keeps_queue_witness:
  "\<exists>r' w'. get_node_data 5 1000 (new_main 0) late_value = Some (Inl Timeout, r', w') \<and>
     upcoming 2 (view r' w') = [NodeDataR 7 (with_i8 2), NodeDataR 5 (with_i8 1)]"
proof -
  from get_node_data_late obtain r' w' where
    g: "get_node_data 5 1000 (new_main 0) late_value = Some (Inl Timeout, r', w')" by auto
  have "upcoming 2 (view (new_main 0) late_value) = [NodeDataR 7 (with_i8 2), NodeDataR 5 (with_i8 1)]"
    by code_simp
  with attended_timeout_keeps_queue [OF disjI1 [OF g] new_main_ok, of 2] g show ?thesis by simp
qed

section \<open>Subtree definitions\<close>

text \<open>One response of the batch: the loop's result, or its next state.\<close>

definition definitions_step :: "i32 set \<Rightarrow> WingNodeDef list \<Rightarrow> WingResponse list \<Rightarrow> WingResponse \<Rightarrow>
    WingNodeDef list result + (i32 set \<times> WingNodeDef list \<times> WingResponse list)" where
  "definitions_step ids definitions buffered resp =
     (let other = (if length buffered < MAX_ATTENDED_BUFFERED
                   then Inr (ids, definitions, buffered @ [resp]) else Inl (Inl InvalidData)) in
      case resp of
        NodeDefR def \<Rightarrow>
          if nd_id def \<in> ids \<or> nd_parent_id def \<in> ids
          then Inr (insert (nd_id def) ids, definitions @ [def], buffered) else other
      | RequestEnd \<Rightarrow> if definitions \<noteq> [] then Inl (Inr definitions) else other
      | _ \<Rightarrow> other)"

lemma definitions_step_code [code]:
  "definitions_step ids definitions buffered resp =
     (let other = (if int (length buffered) < 65536
                   then Inr (ids, definitions, buffered @ [resp]) else Inl (Inl InvalidData)) in
      case resp of
        NodeDefR def \<Rightarrow>
          if nd_id def \<in> ids \<or> nd_parent_id def \<in> ids
          then Inr (insert (nd_id def) ids, definitions @ [def], buffered) else other
      | RequestEnd \<Rightarrow> if definitions \<noteq> [] then Inl (Inr definitions) else other
      | _ \<Rightarrow> other)"
  by (simp add: definitions_step_def MAX_ATTENDED_BUFFERED_def)

partial_function (option) definitions_loop :: "instant \<Rightarrow> i32 set \<Rightarrow> WingNodeDef list \<Rightarrow> WingResponse list \<Rightarrow>
    Main \<Rightarrow> World \<Rightarrow> (WingNodeDef list result \<times> WingResponse list \<times> Main \<times> World) option" where
  "definitions_loop deadline ids definitions buffered r w =
     Option.bind (read_locked r w) (\<lambda>(x, r, w).
       case x of
         Inl e \<Rightarrow> Some (Inl e, buffered, r, w)
       | Inr resp \<Rightarrow>
           (case definitions_step ids definitions buffered resp of
              Inl result \<Rightarrow> Some (result, buffered, r, w)
            | Inr (ids, definitions, buffered) \<Rightarrow>
                (case now w of (t, w) \<Rightarrow>
                 if t \<ge> deadline then Some (Inl Timeout, buffered, r, w)
                 else definitions_loop deadline ids definitions buffered r w)))"

declare definitions_loop.simps [code]

definition get_node_definitions :: "i32 \<Rightarrow> duration \<Rightarrow> Main \<Rightarrow> World \<Rightarrow>
    (WingNodeDef list result \<times> Main \<times> World) option" where
  "get_node_definitions root_id timeout r w =
     (let earlier = rm_pending r; r = r\<lparr>rm_pending := []\<rparr> in
      case request_node_definition root_id w of
        (Inl e, w) \<Rightarrow> Some (Inl e, requeue earlier r, w)
      | (Inr _, w) \<Rightarrow>
          (case now w of (t, w) \<Rightarrow>
           case definitions_loop (t + timeout) {root_id} [] [] (r\<lparr>rm_op_deadline := Some (t + timeout)\<rparr>) w of
             None \<Rightarrow> None
           | Some (result, buffered, r, w) \<Rightarrow>
               Some (result, requeue (earlier @ buffered) (r\<lparr>rm_op_deadline := None\<rparr>), w)))"

text \<open>A batch that hangs together: each definition, or its parent, was known before.\<close>

fun grows :: "i32 set \<Rightarrow> WingNodeDef list \<Rightarrow> bool" where
  "grows ids [] \<longleftrightarrow> True"
| "grows ids (d # ds) \<longleftrightarrow> (nd_id d \<in> ids \<or> nd_parent_id d \<in> ids) \<and> grows (insert (nd_id d) ids) ds"

text \<open>The responses \<open>rs\<close> split into definitions of the batch and the others, order kept.\<close>

fun sorts :: "i32 set \<Rightarrow> WingResponse list \<Rightarrow> WingNodeDef list \<Rightarrow> WingResponse list \<Rightarrow> bool" where
  "sorts ids [] ds others \<longleftrightarrow> ds = [] \<and> others = []"
| "sorts ids (NodeDefR d # rs) ds others \<longleftrightarrow>
     (if nd_id d \<in> ids \<or> nd_parent_id d \<in> ids
      then \<exists>ds'. ds = d # ds' \<and> sorts (insert (nd_id d) ids) rs ds' others
      else \<exists>others'. others = NodeDefR d # others' \<and> sorts ids rs ds others')"
| "sorts ids (x # rs) ds others \<longleftrightarrow> (\<exists>others'. others = x # others' \<and> sorts ids rs ds others')"

lemma sorts_grows: "sorts ids rs ds others \<Longrightarrow> grows ids ds"
  by (induction ids rs ds others rule: sorts.induct) (auto split: if_splits)

lemma sorts_shuffle: "sorts ids rs ds others \<Longrightarrow> rs \<in> shuffles (map NodeDefR ds) others"
  by (induction ids rs ds others rule: sorts.induct)
    (auto split: if_splits intro!: Cons_in_shuffles_leftI intro: Cons_in_shuffles_rightI)

definition loop_outcome :: "i32 set \<Rightarrow> WingNodeDef list \<Rightarrow> WingResponse list \<Rightarrow> Main \<Rightarrow> World \<Rightarrow>
    WingNodeDef list result \<Rightarrow> WingResponse list \<Rightarrow> Main \<Rightarrow> World \<Rightarrow> bool" where
  "loop_outcome ids definitions buffered r w result buffered' r' w' \<longleftrightarrow> reader_ok r' \<and> rm_pending r' = [] \<and>
     (\<exists>rs new others. sorts ids rs new others \<and> buffered' = buffered @ others \<and>
       (case result of
          Inr ds \<Rightarrow> ds = definitions @ new \<and> ds \<noteq> [] \<and> delivers (view r w) (rs @ [RequestEnd]) (view r' w')
        | Inl _ \<Rightarrow> delivers (view r w) rs (view r' w')))"

lemma loop_outcomeI:
  "reader_ok r' \<Longrightarrow> rm_pending r' = [] \<Longrightarrow> sorts ids rs new others \<Longrightarrow> buffered' = buffered @ others \<Longrightarrow>
   (case result of
      Inr ds \<Rightarrow> ds = definitions @ new \<and> ds \<noteq> [] \<and> delivers (view r w) (rs @ [RequestEnd]) (view r' w')
    | Inl _ \<Rightarrow> delivers (view r w) rs (view r' w')) \<Longrightarrow>
   loop_outcome ids definitions buffered r w result buffered' r' w'"
  unfolding loop_outcome_def by blast

lemma loop_outcomeE:
  assumes "loop_outcome ids definitions buffered r w result buffered' r' w'"
  obtains rs new others where "reader_ok r'" "rm_pending r' = []" "sorts ids rs new others"
    "buffered' = buffered @ others"
    "case result of
      Inr ds \<Rightarrow> ds = definitions @ new \<and> ds \<noteq> [] \<and> delivers (view r w) (rs @ [RequestEnd]) (view r' w')
    | Inl _ \<Rightarrow> delivers (view r w) rs (view r' w')"
  using assms unfolding loop_outcome_def by blast

lemma loop_outcome_step:
  assumes "next_response (view r w) = Some (resp, view r1 w1)" and "view r1 w2 = view r1 w1"
    and "definitions_step ids definitions buffered resp = Inr (ids2, definitions2, buffered2)"
    and "loop_outcome ids2 definitions2 buffered2 r1 w2 result buffered' r' w'"
  shows "loop_outcome ids definitions buffered r w result buffered' r' w'"
  using assms(4)
proof (rule loop_outcomeE)
  fix rs new others
  assume h: "reader_ok r'" "rm_pending r' = []" "sorts ids2 rs new others" "buffered' = buffered2 @ others"
    "case result of
      Inr ds \<Rightarrow> ds = definitions2 @ new \<and> ds \<noteq> [] \<and> delivers (view r1 w2) (rs @ [RequestEnd]) (view r' w')
    | Inl _ \<Rightarrow> delivers (view r1 w2) rs (view r' w')"
  from assms(3) consider
      (def) d where "resp = NodeDefR d" "nd_id d \<in> ids \<or> nd_parent_id d \<in> ids" "ids2 = insert (nd_id d) ids"
        "definitions2 = definitions @ [d]" "buffered2 = buffered"
    | (other) "sorts ids (resp # rs) new (resp # others)"
        "definitions2 = definitions" "buffered2 = buffered @ [resp]"
    using h(3) by (cases resp) (auto simp: definitions_step_def Let_def split: if_splits)
  then show ?thesis
  proof cases
    case def
    with h assms(1,2) show ?thesis
      by (intro loop_outcomeI [of _ _ "resp # rs" "d # new" others]) (auto split: sum.splits)
  next
    case other
    with h assms(1,2) show ?thesis
      by (intro loop_outcomeI [of _ _ "resp # rs" new "resp # others"]) (auto split: sum.splits)
  qed
qed

lemma loop_outcome_now:
  "view r1 w1 = view r w \<Longrightarrow> reader_ok r1 \<Longrightarrow> rm_pending r1 = [] \<Longrightarrow>
     loop_outcome ids definitions buffered r w (Inl e) buffered r1 w1"
  unfolding loop_outcome_def by (intro conjI exI [of _ "[]"]) auto

lemma definitions_loop_outcome:
  assumes "definitions_loop deadline ids definitions buffered r w = Some (result, buffered', r', w')"
    and "reader_ok r" and "rm_pending r = []" and "result = Inl Timeout \<or> is_ok result"
  shows "loop_outcome ids definitions buffered r w result buffered' r' w'"
proof -
  have "\<forall>result buffered' r' w'. y = (result, buffered', r', w') \<longrightarrow> reader_ok r \<longrightarrow> rm_pending r = [] \<longrightarrow>
      result = Inl Timeout \<or> is_ok result \<longrightarrow> loop_outcome ids definitions buffered r w result buffered' r' w'"
    if "definitions_loop deadline ids definitions buffered r w = Some y" for y
    using that
  proof (rule definitions_loop.raw_induct [rotated], intro allI impI)
    fix loop deadline ids definitions buffered r w y result buffered' r' w'
    assume ih: "\<And>deadline ids definitions buffered r w y.
        loop deadline ids definitions buffered r w = Some y \<Longrightarrow>
        \<forall>result buffered' r' w'. y = (result, buffered', r', w') \<longrightarrow> reader_ok r \<longrightarrow> rm_pending r = [] \<longrightarrow>
          result = Inl Timeout \<or> is_ok result \<longrightarrow> loop_outcome ids definitions buffered r w result buffered' r' w'"
      and body: "Option.bind (read_locked r w) (\<lambda>(x, r, w).
       case x of
         Inl e \<Rightarrow> Some (Inl e, buffered, r, w)
       | Inr resp \<Rightarrow>
           (case definitions_step ids definitions buffered resp of
              Inl result \<Rightarrow> Some (result, buffered, r, w)
            | Inr (ids, definitions, buffered) \<Rightarrow>
                (case now w of (t, w) \<Rightarrow>
                 if t \<ge> deadline then Some (Inl Timeout, buffered, r, w)
                 else loop deadline ids definitions buffered r w))) = Some y"
      and y: "y = (result, buffered', r', w')" and ok: "reader_ok r" "rm_pending r = []"
      and res: "result = Inl Timeout \<or> is_ok result"
    from body obtain x r1 w1 where rd: "read_locked r w = Some (x, r1, w1)" by (auto split: Option.bind_splits)
    show "loop_outcome ids definitions buffered r w result buffered' r' w'"
    proof (cases x)
      case (Inl e)
      with body rd y have "result = Inl e" "buffered' = buffered" "r' = r1" "w' = w1" by auto
      with res Inl rd ok read_locked_timeout [of r w r1 w1] read_locked_timeout_view [of r w r1 w1]
      show ?thesis by (auto intro: loop_outcome_now)
    next
      case (Inr resp)
      with read_locked_fresh [of r w resp r1 w1] read_locked_next [of r w resp r1 w1] rd ok have
        r1: "reader_ok r1" "rm_pending r1 = []" and nx: "next_response (view r w) = Some (resp, view r1 w1)"
        by simp_all
      obtain t w2 where n: "now w1 = (t, w2)" by (cases "now w1")
      note v = now_view [OF n, of r1]
      show ?thesis
      proof (cases "definitions_step ids definitions buffered resp")
        case (Inl fin)
        with body rd Inr y have eq: "result = fin" "buffered' = buffered" "r' = r1" "w' = w1" by auto
        with Inl res have "resp = RequestEnd" "result = Inr definitions" "definitions \<noteq> []"
          by (auto simp: definitions_step_def Let_def split: WingResponse.splits if_splits)
        with eq r1 nx show ?thesis
          by (intro loop_outcomeI [of _ _ "[]" "[]" "[]"]) auto
      next
        case st: (Inr s)
        obtain ids2 ds2 buf2 where s: "s = (ids2, ds2, buf2)" by (cases s)
        have "loop_outcome ids2 ds2 buf2 r1 w2 result buffered' r' w'"
        proof (cases "t \<ge> deadline")
          case True
          with body rd Inr y st s n have "result = Inl Timeout" "buffered' = buf2" "r' = r1" "w' = w2" by auto
          with r1 show ?thesis by (auto intro: loop_outcome_now)
        next
          case False
          with body rd Inr y st s n have "loop deadline ids2 ds2 buf2 r1 w2 = Some (result, buffered', r', w')" by auto
          with ih r1 res show ?thesis by blast
        qed
        with loop_outcome_step [OF nx v] st s show ?thesis by blast
      qed
    qed
  qed
  with assms show ?thesis by blast
qed


definition subtree_world :: World where
  "subtree_world = split_world\<lparr>w_clock := [], w_input := [Received ([0xd7, 0, 0, 0, 9, 2, 0xdf, 0xde, 0, 28] @ sample_raw @ [0xde])]\<rparr>"

lemma subtree_run:
  "map_option fst (get_node_definitions 7 1000 (new_main 0) subtree_world) = Some (Inr [sample_parsed])"
  by code_simp


section \<open>The raw capture\<close>

partial_function (option) drain :: "instant \<Rightarrow> Main \<Rightarrow> World \<Rightarrow> (unit result \<times> Main \<times> World) option" where
  "drain deadline r w =
     Option.bind (read_locked r w) (\<lambda>(x, r, w).
       case x of
         Inl e \<Rightarrow> Some (Inl e, r, w)
       | Inr resp \<Rightarrow>
           if resp = RequestEnd then Some (Inr (), r, w)
           else (case now w of (t, w) \<Rightarrow>
             if t \<ge> deadline then Some (Inl Timeout, r, w) else drain deadline r w))"

declare drain.simps [code]

definition get_binary_node :: "i32 \<Rightarrow> duration \<Rightarrow> Main \<Rightarrow> World \<Rightarrow> (byte list result \<times> Main \<times> World) option" where
  "get_binary_node nid timeout r w =
     (case request_node_data nid w of
        (Inl e, w) \<Rightarrow> Some (Inl e, r, w)
      | (Inr _, w) \<Rightarrow>
          (case now w of (t, w) \<Rightarrow>
           let earlier = rm_pending r;
               r = r\<lparr>rm_capture := Some [], rm_op_deadline := Some (t + timeout), rm_pending := []\<rparr> in
           case drain (t + timeout) r w of
             None \<Rightarrow> None
           | Some (result, r, w) \<Rightarrow>
               (let r = (requeue earlier r)\<lparr>rm_op_deadline := None\<rparr>;
                    captured = (case rm_capture r of Some cap \<Rightarrow> cap | None \<Rightarrow> []);
                    r = r\<lparr>rm_capture := None\<rparr>;
                    w = (if result = Inl Timeout then w\<lparr>w_tainted := True\<rparr> else w) in
                Some (map_sum id (\<lambda>_. captured) result, r, w))))"

definition set_binary_node :: "byte list \<Rightarrow> World \<Rightarrow> nat result \<times> World" where
  "set_binary_node data w =
     (case ensure_stream_usable w of
        Inl e \<Rightarrow> (Inl e, w)
      | Inr _ \<Rightarrow>
          (let buf = extend_escaped [] data in
           case write_all w buf of (Inl e, w) \<Rightarrow> (Inl e, w) | (Inr _, w) \<Rightarrow> (Inr (length buf), w)))"

text \<open>Every byte taken from the stream while a capture is active is in the capture.\<close>

definition teed :: "Main \<times> World \<Rightarrow> Main \<times> World \<Rightarrow> bool" where
  "teed s s' \<longleftrightarrow> (reader_ok (fst s) \<longrightarrow> reader_ok (fst s') \<and>
     (\<forall>cap. rm_capture (fst s) = Some cap \<longrightarrow>
        (\<exists>bs. rm_capture (fst s') = Some (cap @ bs) \<and> logical (fst s) (snd s) = bs @ logical (fst s') (snd s'))))"

lemma decode_next_teed:
  assumes "decode_next r w = Some (e, r', w')" and "e \<noteq> Inl InvalidData"
  shows "teed (r, w) (r', w')"
proof -
  from assms(1) obtain x r1 w1 where d: "decode_next_inner r w = Some (x, r1, w1)"
    by (auto simp: decode_next_def split: option.splits)
  show ?thesis
    using assms d decode_next_inner_step [OF d]
    by (auto simp: teed_def decode_next_def stream_step_def same_session_def reader_ok_def logical_def
        ensure_native_response_capacity_def split: sum.splits option.splits if_splits)
qed

interpretation capture: source_trace console_source teed "{InvalidData}"
proof
  show "teed s s" for s by (auto simp: teed_def)
  show "teed s1 s3" if "teed s1 s2" "teed s2 s3" for s1 s2 s3
    using that by (fastforce simp: teed_def)
  fix s x s' assume g: "console_source s = Some (x, s')" and "unexcused {InvalidData} x"
  then show "teed s s'"
    using decode_next_teed [of "fst s" "snd s" x "fst s'" "snd s'"]
    by (auto simp: console_source_def unexcused_one split: option.splits)
qed

lemma read_locked_teed:
  assumes "read_locked r w = Some (Inr resp, r', w')" and "reader_ok r" and "rm_pending r = []"
  shows "teed (r, w) (r', w')"
proof -
  from assms(1,3) obtain w1 cur r1 where l: "load_reconnecting w = (False, w1)"
    and rr: "read_response console_source (rm_current_node_id r) (r\<lparr>rm_read_capture := []\<rparr>, w1) = Some ((Inr resp, cur), (r1, w'))"
    and r': "r' = r1\<lparr>rm_current_node_id := cur, rm_read_capture := []\<rparr>"
    by (auto simp: read_locked_def read_inner_def settle_read_def Let_def
        split: if_splits prod.splits option.splits)
  from capture.response_rel [OF rr] show ?thesis
    using r' load_reconnecting_input [OF l] by (simp add: teed_def reader_ok_def logical_def)
qed

lemma drain_induct [consumes 1, case_names step]:
  assumes "drain deadline r w = Some y"
    and step: "\<And>loop r w y. (\<And>r w y. loop r w = Some y \<Longrightarrow> P r w y) \<Longrightarrow>
      Option.bind (read_locked r w) (\<lambda>(x, r, w).
       case x of
         Inl e \<Rightarrow> Some (Inl e, r, w)
       | Inr resp \<Rightarrow>
           if resp = RequestEnd then Some (Inr (), r, w)
           else (case now w of (t, w) \<Rightarrow>
             if t \<ge> deadline then Some (Inl Timeout, r, w) else loop r w)) = Some y \<Longrightarrow> P r w y"
  shows "P r w y"
proof -
  have "d = deadline \<longrightarrow> P r w y" if "drain d r w = Some y" for d
    using that
  proof (rule drain.raw_induct [rotated])
    fix loop d r w y
    assume ih: "\<And>d r w y. loop d r w = Some y \<Longrightarrow> d = deadline \<longrightarrow> P r w y"
      and body: "Option.bind (read_locked r w) (\<lambda>(x, r, w).
       case x of
         Inl e \<Rightarrow> Some (Inl e, r, w)
       | Inr resp \<Rightarrow>
           if resp = RequestEnd then Some (Inr (), r, w)
           else (case now w of (t, w) \<Rightarrow>
             if t \<ge> d then Some (Inl Timeout, r, w) else loop d r w)) = Some y"
    show "d = deadline \<longrightarrow> P r w y" using step [of "loop deadline" r w y] ih body by blast
  qed
  with assms(1) show ?thesis by blast
qed

definition drained :: "Main \<Rightarrow> World \<Rightarrow> unit result \<Rightarrow> Main \<Rightarrow> World \<Rightarrow> bool" where
  "drained r w result r' w' \<longleftrightarrow> reader_ok r' \<and> rm_pending r' = [] \<and>
     (result = Inr () \<longrightarrow> teed (r, w) (r', w') \<and>
        (\<exists>rs. RequestEnd \<notin> set rs \<and> delivers (view r w) (rs @ [RequestEnd]) (view r' w')))"

lemma drained_step:
  assumes "next_response (view r w) = Some (resp, view r1 w1)" "resp \<noteq> RequestEnd" "view r1 w2 = view r1 w1"
    and "teed (r, w) (r1, w2)" "drained r1 w2 result r' w'"
  shows "drained r w result r' w'"
proof -
  have "delivers (view r w) ((resp # rs) @ [RequestEnd]) (view r' w')"
    if "delivers (view r1 w2) (rs @ [RequestEnd]) (view r' w')" for rs
    using that assms by simp
  moreover have "RequestEnd \<notin> set (resp # rs)" if "RequestEnd \<notin> set rs" for rs using that assms(2) by auto
  ultimately show ?thesis
    using assms(4,5) capture.rel_trans unfolding drained_def by blast
qed

lemma drain_drained:
  assumes "drain deadline r w = Some (result, r', w')" and "reader_ok r" and "rm_pending r = []"
    and "result = Inl Timeout \<or> is_ok result"
  shows "drained r w result r' w'"
proof -
  have "\<forall>result r' w'. y = (result, r', w') \<longrightarrow> reader_ok r \<longrightarrow> rm_pending r = [] \<longrightarrow>
      result = Inl Timeout \<or> is_ok result \<longrightarrow> drained r w result r' w'"
    if "drain deadline r w = Some y" for y
    using that
  proof (induction rule: drain_induct)
    case (step loop r w y)
    show ?case
    proof (intro allI impI)
      fix result r' w'
      assume y: "y = (result, r', w')" and ok: "reader_ok r" "rm_pending r = []"
        and res: "result = Inl Timeout \<or> is_ok result"
      from step.hyps obtain x r1 w1 where rd: "read_locked r w = Some (x, r1, w1)" by (auto split: Option.bind_splits)
      obtain t w2 where n: "now w1 = (t, w2)" by (cases "now w1")
      show "drained r w result r' w'"
      proof (cases x)
        case (Inl e)
        with step.hyps rd y have "result = Inl e" "r' = r1" "w' = w1" by auto
        with res Inl rd ok read_locked_timeout [of r w r1 w1] show ?thesis by (auto simp: drained_def)
      next
        case (Inr resp)
        note rd' = rd [unfolded Inr]
        from read_locked_fresh [OF rd' ok] read_locked_next [OF rd' ok(1)] have
          r1: "reader_ok r1" "rm_pending r1 = []" "next_response (view r w) = Some (resp, view r1 w1)" by simp_all
        note tee = read_locked_teed [OF rd' ok]
        consider "resp = RequestEnd" | "resp \<noteq> RequestEnd" "t \<ge> deadline" | "resp \<noteq> RequestEnd" "t < deadline"
          by linarith
        then show ?thesis
        proof cases
          case 1
          with step.hyps rd' y have "result = Inr ()" "r' = r1" "w' = w1" by auto
          with 1 r1 tee show ?thesis by (auto simp: drained_def intro!: exI [of _ "[]"])
        next
          case 2
          with step.hyps rd' y n have "result = Inl Timeout" "r' = r1" "w' = w2" by auto
          with r1 show ?thesis by (auto simp: drained_def)
        next
          case 3
          with step.hyps rd' y n have "loop r1 w2 = Some (result, r', w')" by auto
          with step.IH r1 res have d: "drained r1 w2 result r' w'" by blast
          have "teed (r1, w1) (r1, w2)" using now_input [OF n] by (simp add: teed_def logical_def)
          with tee capture.rel_trans have "teed (r, w) (r1, w2)" by blast
          with drained_step [OF r1(3) 3(1) now_view [OF n] _ d] show ?thesis by blast
        qed
      qed
    qed
  qed
  with assms show ?thesis by blast
qed

lemma get_binary_node_drained:
  assumes "get_binary_node nid timeout r w = Some (result, r', w')" and "reader_ok r"
    and "result = Inl Timeout \<or> is_ok result"
  shows "\<exists>res r0 w0 r2 w2. drained r0 w0 res r2 w2 \<and> rm_capture r0 = Some [] \<and> reader_ok r0 \<and>
    view r0 w0 = view (r\<lparr>rm_pending := []\<rparr>) w \<and>
    r' = r2\<lparr>rm_pending := rm_pending r, rm_op_deadline := None, rm_capture := None\<rparr> \<and>
    w' = (if res = Inl Timeout then w2\<lparr>w_tainted := True\<rparr> else w2) \<and>
    result = map_sum id (\<lambda>_. case rm_capture r2 of Some cap \<Rightarrow> cap | None \<Rightarrow> []) res"
proof -
  obtain e w1 where rq: "request_node_data nid w = (e, w1)" by (cases "request_node_data nid w")
  note frame = request_frame(1) [OF rq]
  with assms(1,3) rq have e: "e = Inr ()" by (cases e) (auto simp: get_binary_node_def)
  obtain t w2 where n: "now w1 = (t, w2)" by (cases "now w1")
  let ?r = "r\<lparr>rm_capture := Some [], rm_op_deadline := Some (t + timeout), rm_pending := []\<rparr>"
  from assms(1) rq e n obtain res r2 w3 where d: "drain (t + timeout) ?r w2 = Some (res, r2, w3)"
    by (auto simp: get_binary_node_def Let_def split: option.splits)
  from assms(1) rq e n d have
    fin: "r' = (requeue (rm_pending r) r2)\<lparr>rm_op_deadline := None, rm_capture := None\<rparr>"
    "w' = (if res = Inl Timeout then w3\<lparr>w_tainted := True\<rparr> else w3)"
    "result = map_sum id (\<lambda>_. case rm_capture r2 of Some cap \<Rightarrow> cap | None \<Rightarrow> []) res"
    by (auto simp: get_binary_node_def Let_def requeue_def)
  with assms(3) have "res = Inl Timeout \<or> is_ok res" by (cases res) auto
  from drain_drained [OF d _ _ this] assms(2) have dr: "drained ?r w2 res r2 w3" by simp
  moreover have "view ?r w2 = view (r\<lparr>rm_pending := []\<rparr>) w"
    using now_view [OF n, of ?r] frame view_input [of w1 w] by (simp add: view_def logical_def)
  moreover have "r' = r2\<lparr>rm_pending := rm_pending r, rm_op_deadline := None, rm_capture := None\<rparr>"
    using fin(1) dr by (simp add: requeue_def drained_def)
  ultimately show ?thesis
    using fin assms(2) by (intro exI [of _ res] exI [of _ ?r] exI [of _ w2] exI [of _ r2] exI [of _ w3]) simp
qed

text \<open>
  C25. A raw capture is the stream itself: the bytes it returns are exactly those the reader
  took off the audio channel, up to and including the end marker, no more and no less; what
  was queued before the request is not part of it and still waits in front.
\<close>

theorem capture_is_the_stream:
  assumes "get_binary_node nid timeout r w = Some (Inr captured, r', w')" and "reader_ok r"
  shows "logical r w = captured @ logical r' w' \<and> rm_pending r' = rm_pending r \<and>
    (\<exists>rs. RequestEnd \<notin> set rs \<and>
      delivers (view (r\<lparr>rm_pending := []\<rparr>) w) (rs @ [RequestEnd]) (view (r'\<lparr>rm_pending := []\<rparr>) w'))"
proof -
  from get_binary_node_drained [OF assms] obtain res r0 w0 r2 w2 where
    d: "drained r0 w0 res r2 w2" "rm_capture r0 = Some []" "reader_ok r0"
    "view r0 w0 = view (r\<lparr>rm_pending := []\<rparr>) w"
    and f: "r' = r2\<lparr>rm_pending := rm_pending r, rm_op_deadline := None, rm_capture := None\<rparr>"
    "w' = (if res = Inl Timeout then w2\<lparr>w_tainted := True\<rparr> else w2)"
    "Inr captured = map_sum id (\<lambda>_. case rm_capture r2 of Some cap \<Rightarrow> cap | None \<Rightarrow> []) res"
    by auto
  then have res: "res = Inr ()" by (cases res) auto
  with d have t: "rm_capture r2 = Some captured" "logical r0 w0 = captured @ logical r2 w2"
    using f(3) by (auto simp: drained_def teed_def)
  have "view (r'\<lparr>rm_pending := []\<rparr>) w' = view r2 w2"
    using f res d(1) by (simp add: drained_def view_def logical_def)
  moreover have "logical r w = logical r0 w0" "logical r' w' = logical r2 w2"
    using d(4) f res by (simp_all add: view_def logical_def)
  ultimately show ?thesis using d t res f by (auto simp: drained_def)
qed

definition capture_world :: World where
  "capture_world = split_world\<lparr>w_clock := [], w_input := [Received [0xd7, 0, 0, 0, 7, 2, 0xde, 1]]\<rparr>"

lemma capture_run:
  "map_option fst (get_binary_node 7 1000 (new_main 0) capture_world) = Some (Inr [0xd7, 0, 0, 0, 7, 2, 0xde])"
  by code_simp

theorem capture_is_the_stream_witness:
  "\<exists>r' w'. get_binary_node 7 1000 (new_main 0) capture_world = Some (Inr [0xd7, 0, 0, 0, 7, 2, 0xde], r', w') \<and>
     logical (new_main 0) capture_world = [0xd7, 0, 0, 0, 7, 2, 0xde] @ logical r' w'"
proof -
  from capture_run obtain r' w' where
    g: "get_binary_node 7 1000 (new_main 0) capture_world = Some (Inr [0xd7, 0, 0, 0, 7, 2, 0xde], r', w')" by auto
  with capture_is_the_stream [OF g new_main_ok] show ?thesis by blast
qed


lemma capture_late:
  "map_option fst (get_binary_node 7 1000 (new_main 0) (capture_world\<lparr>w_clock := replicate 5 0 @ [2000]\<rparr>)) =
     Some (Inl Timeout)"
  by code_simp


end
