(* ===== verification/Rust_Split.thy ===== *)
theory Rust_Split
  imports Rust_Str
begin

text \<open>
  The \<open>str\<close> methods the source builds its path handling from: \<open>split\<close> and \<open>rsplit\<close> on an ASCII
  character, \<open>strip_prefix\<close>, \<open>strip_suffix\<close>, \<open>starts_with\<close>, \<open>contains\<close>, \<open>matches\<close> and \<open>join\<close>.
\<close>

fun split_on :: "char \<Rightarrow> string \<Rightarrow> string list" where
  "split_on c [] = [[]]"
| "split_on c (x # xs) =
     (if x = c then [] # split_on c xs
      else (case split_on c xs of [] \<Rightarrow> [[x]] | s # ss \<Rightarrow> (x # s) # ss))"

fun join_with :: "char \<Rightarrow> string list \<Rightarrow> string" where
  "join_with c [] = []"
| "join_with c [s] = s"
| "join_with c (s # ss) = s @ c # join_with c ss"

definition starts_with :: "string \<Rightarrow> string \<Rightarrow> bool" where
  "starts_with p s \<longleftrightarrow> take (length p) s = p"

definition strip_prefix :: "string \<Rightarrow> string \<Rightarrow> string option" where
  "strip_prefix p s = (if starts_with p s then Some (drop (length p) s) else None)"

definition strip_suffix :: "string \<Rightarrow> string \<Rightarrow> string option" where
  "strip_suffix p s =
     (if length p \<le> length s \<and> drop (length s - length p) s = p then Some (take (length s - length p) s) else None)"

text \<open>\<open>s.rsplit(c).next()\<close>, and \<open>s.matches(c).count()\<close>.\<close>

definition last_segment :: "char \<Rightarrow> string \<Rightarrow> string" where
  "last_segment c s = last (split_on c s)"

definition count_char :: "char \<Rightarrow> string \<Rightarrow> nat" where
  "count_char c s = length (filter (\<lambda>x. x = c) s)"

text \<open>\<open>s.contains(needle)\<close>.\<close>

fun contains :: "string \<Rightarrow> string \<Rightarrow> bool" where
  "contains needle [] = (needle = [])"
| "contains needle (c # s) = (starts_with needle (c # s) \<or> contains needle s)"

lemma split_on_ne [simp]: "split_on c s \<noteq> []"
  by (induction s) (auto split: list.splits)

lemma length_split_on: "length (split_on c s) = count_char c s + 1"
  by (induction s) (auto simp: count_char_def split: list.splits)

lemma split_on_no_sep: "c \<notin> set s \<Longrightarrow> split_on c s = [s]"
  by (induction s) auto

lemma split_on_sep: "c \<notin> set s \<Longrightarrow> split_on c (s @ c # t) = s # split_on c t"
  by (induction s) auto

lemma split_on_segments: "x \<in> set (split_on c s) \<Longrightarrow> c \<notin> set x"
  by (induction s arbitrary: x) (auto split: list.splits if_splits)

lemma join_split [simp]: "join_with c (split_on c s) = s"
proof (induction s)
  case (Cons x s)
  then show ?case by (cases "split_on c s") (auto, cases "tl (split_on c s)", auto)
qed simp

lemma split_join: "ss \<noteq> [] \<Longrightarrow> \<forall>s\<in>set ss. c \<notin> set s \<Longrightarrow> split_on c (join_with c ss) = ss"
  by (induction c ss rule: join_with.induct) (auto simp: split_on_no_sep split_on_sep)

lemma starts_with_iff: "starts_with p s \<longleftrightarrow> (\<exists>t. s = p @ t)"
  by (auto simp: starts_with_def) (metis append_take_drop_id)

lemma strip_prefix_Some: "strip_prefix p s = Some t \<longleftrightarrow> s = p @ t"
  by (auto simp: strip_prefix_def starts_with_iff)

lemma strip_suffix_Some: "strip_suffix p s = Some t \<longleftrightarrow> s = t @ p"
proof -
  have "s = t @ p" if "drop (length s - length p) s = p" "take (length s - length p) s = t"
    using that by (metis append_take_drop_id)
  then show ?thesis by (auto simp: strip_suffix_def)
qed

end
