(* ===== verification/Writer.thy ===== *)
theory Writer
  imports ClientMessages NodeData Rust_Split "HOL-Library.Product_Lexorder" "HOL-Library.Multiset"
begin

text \<open>
  Bulk writes of \<open>src/console.rs\<close>: \<open>write_node_values\<close> with its batches and the checks made under
  the writer lock, \<open>set_nodes\<close>, and \<open>restore\<close> with its model-first order and its stop at a failed
  model selector.
\<close>

section \<open>The link\<close>

text \<open>
  What the writer observes while other clones run: the successive values of the taint flag, of
  the reconnecting flag and of the session generation at each load (an exhausted list means
  untainted, not reconnecting, and the generation unchanged), and the outcome of each
  \<open>write_all\<close>. \<open>l_written\<close> holds the buffers of the successful writes, in order.
\<close>

record Link =
  l_tainted :: "bool list"
  l_reconnecting :: "bool list"
  l_generations :: "u64 list"
  l_generation :: u64
  l_write_errors :: "io_kind option list"
  l_written :: "byte list list"

definition load_tainted :: "Link \<Rightarrow> bool \<times> Link" where
  "load_tainted l = (case l_tainted l of [] \<Rightarrow> (False, l) | b # bs \<Rightarrow> (b, l\<lparr>l_tainted := bs\<rparr>))"

definition load_reconnecting_flag :: "Link \<Rightarrow> bool \<times> Link" where
  "load_reconnecting_flag l =
     (case l_reconnecting l of [] \<Rightarrow> (False, l) | b # bs \<Rightarrow> (b, l\<lparr>l_reconnecting := bs\<rparr>))"

definition load_generation :: "Link \<Rightarrow> u64 \<times> Link" where
  "load_generation l =
     (case l_generations l of
        [] \<Rightarrow> (l_generation l, l)
      | g # gs \<Rightarrow> (g, l\<lparr>l_generations := gs, l_generation := g\<rparr>))"

definition write_link :: "byte list \<Rightarrow> Link \<Rightarrow> io_kind option \<times> Link" where
  "write_link buf l =
     (case l_write_errors l of
        Some k # ks \<Rightarrow> (Some k, l\<lparr>l_write_errors := ks\<rparr>)
      | None # ks \<Rightarrow> (None, l\<lparr>l_write_errors := ks, l_written := l_written l @ [buf]\<rparr>)
      | [] \<Rightarrow> (None, l\<lparr>l_written := l_written l @ [buf]\<rparr>))"

section \<open>Batches\<close>

definition WRITE_BATCH_BYTES :: nat where
  "WRITE_BATCH_BYTES = 8 * 1024"

text \<open>\<open>results[i] = Err(e)\<close> for every queued index.\<close>

definition fail_queued :: "error \<Rightarrow> nat list \<Rightarrow> unit result list \<Rightarrow> unit result list" where
  "fail_queued e queued results = fold (\<lambda>i results. results[i := Inl e]) queued results"

definition flush_node_writes :: "u64 \<Rightarrow> byte list \<Rightarrow> nat list \<Rightarrow> unit result list \<Rightarrow> Link \<Rightarrow>
    unit result list \<times> Link" where
  "flush_node_writes generation buf queued results l =
     (if buf = [] then (results, l)
      else case load_tainted l of (tainted, l) \<Rightarrow>
           case load_reconnecting_flag l of (reconnecting, l) \<Rightarrow>
           case (if reconnecting then (True, l)
                 else case load_generation l of (g, l) \<Rightarrow> (g \<noteq> generation, l)) of
             (session_changed, l) \<Rightarrow>
           if tainted \<or> session_changed then
             (fail_queued (if tainted then ConnectionError else Reconnecting) queued results, l)
           else case write_link buf l of
             (Some k, l) \<Rightarrow> (fail_queued (Io k) queued results, l)
           | (None, l) \<Rightarrow> (results, l))"

fun write_loop :: "u64 \<Rightarrow> (i32 \<times> NodeValue) list \<Rightarrow> unit result list \<Rightarrow> byte list \<Rightarrow> nat list \<Rightarrow> Link \<Rightarrow>
    unit result list \<times> Link" where
  "write_loop generation [] results buf queued l = flush_node_writes generation buf queued results l"
| "write_loop generation ((nid, v) # items) results buf queued l =
     (case load_tainted l of (tainted, l) \<Rightarrow>
      case (if tainted then (Inl ConnectionError, buf) else append_value_message buf nid (native_of v)) of
        (result, buf) \<Rightarrow>
      let queued = (if is_ok result then queued @ [length results] else queued);
          results = results @ [result] in
      if length buf \<ge> WRITE_BATCH_BYTES then
        (case flush_node_writes generation buf queued results l of
           (results, l) \<Rightarrow> write_loop generation items results [] [] l)
      else write_loop generation items results buf queued l)"

definition write_node_values :: "u64 \<Rightarrow> (i32 \<times> NodeValue) list \<Rightarrow> Link \<Rightarrow> unit result list \<times> Link" where
  "write_node_values generation items l = write_loop generation items [] [] [] l"

definition set_nodes :: "(i32 \<times> NodeValue) list \<Rightarrow> Link \<Rightarrow> (i32 \<times> unit result) list \<times> Link" where
  "set_nodes values l =
     (case load_generation l of (generation, l) \<Rightarrow>
      case write_node_values generation values l of (results, l) \<Rightarrow> (zip (map fst values) results, l))"

section \<open>What reaches the wire\<close>

text \<open>The bytes of one item's message, as the matching \<open>set_*\<close> call sends them.\<close>

definition item_bytes :: "i32 \<times> NodeValue \<Rightarrow> byte list" where
  "item_bytes item = (case set_value_message (fst item) (native_of (snd item)) of Inr bs \<Rightarrow> bs | Inl _ \<Rightarrow> [])"

text \<open>The messages of the items reported as written, in order.\<close>

definition ok_bytes :: "(i32 \<times> NodeValue) list \<Rightarrow> unit result list \<Rightarrow> byte list" where
  "ok_bytes items results = concat (map (\<lambda>(item, res). if is_ok res then item_bytes item else []) (zip items results))"

lemma append_value_message_bytes:
  "append_value_message buf nid v =
     (case set_value_message nid v of Inl e \<Rightarrow> (Inl e, buf) | Inr bs \<Rightarrow> (Inr (), buf @ bs))"
  by (auto simp: set_value_message_def append_value_message_def format_id_def extend_escaped_def
      append_escaped_eq split: sum.splits)

lemma ok_bytes_simps [simp]:
  "ok_bytes [] rs = []"
  "length is = length rs \<Longrightarrow> ok_bytes (is @ js) (rs @ qs) = ok_bytes is rs @ ok_bytes js qs"
  "ok_bytes [item] [res] = (if is_ok res then item_bytes item else [])"
  by (simp_all add: ok_bytes_def)

lemma ok_bytes_none: "list_all (\<lambda>r. \<not> is_ok r) rs \<Longrightarrow> ok_bytes is rs = []"
  by (auto simp: ok_bytes_def list_all_iff dest: set_zip_rightD)

lemma length_fail_queued [simp]: "length (fail_queued e q rs) = length rs"
  by (induction q arbitrary: rs) (simp_all add: fail_queued_def)

lemma nth_fail_queued:
  "\<forall>i\<in>set q. i < length rs \<Longrightarrow> j < length rs \<Longrightarrow> fail_queued e q rs ! j = (if j \<in> set q then Inl e else rs ! j)"
proof (induction q arbitrary: rs)
  case (Cons i q)
  then show ?case by (simp add: fail_queued_def)
qed (simp add: fail_queued_def)

text \<open>The indices queued for a batch: the items after the last flush that were encoded.\<close>

definition pending_indices :: "nat \<Rightarrow> unit result list \<Rightarrow> nat list" where
  "pending_indices k cur = filter (\<lambda>i. is_ok (cur ! (i - k))) [k..<k + length cur]"

lemma pending_indices_snoc:
  "pending_indices k (cur @ [r]) = pending_indices k cur @ (if is_ok r then [k + length cur] else [])"
proof -
  have "filter (\<lambda>i. is_ok ((cur @ [r]) ! (i - k))) [k..<k + length cur] =
      filter (\<lambda>i. is_ok (cur ! (i - k))) [k..<k + length cur]"
    by (rule filter_cong) (auto simp: nth_append)
  then show ?thesis by (simp add: pending_indices_def)
qed

definition all_failed :: "error \<Rightarrow> unit result list \<Rightarrow> unit result list" where
  "all_failed e cur = map (\<lambda>r. if is_ok r then Inl e else r) cur"

lemma all_failed_none: "list_all (\<lambda>r. \<not> is_ok r) (all_failed e cur)" and length_all_failed [simp]: "length (all_failed e cur) = length cur"
  by (auto simp: all_failed_def list_all_iff)

lemma fail_pending:
  "fail_queued e (pending_indices (length fin) cur) (fin @ cur) = fin @ all_failed e cur"
proof (rule nth_equalityI)
  fix j assume "j < length (fail_queued e (pending_indices (length fin) cur) (fin @ cur))"
  then have j: "j < length (fin @ cur)" by simp
  have "\<forall>i\<in>set (pending_indices (length fin) cur). i < length (fin @ cur)" by (auto simp: pending_indices_def)
  from nth_fail_queued [OF this j, of e] j
  show "fail_queued e (pending_indices (length fin) cur) (fin @ cur) ! j = (fin @ all_failed e cur) ! j"
    by (auto simp: nth_append pending_indices_def all_failed_def)
qed simp

text \<open>One flush: the batch is written whole and its results stand, or nothing is and they fail.\<close>

lemma flush_cases:
  assumes "flush_node_writes generation buf (pending_indices (length fin) cur) (fin @ cur) l = (results, l')"
    and "buf = [] \<longrightarrow> list_all (\<lambda>r. \<not> is_ok r) cur"
  shows "\<exists>cur'. results = fin @ cur' \<and> length cur' = length cur \<and>
    (cur' = cur \<and> concat (l_written l') = concat (l_written l) @ buf \<or>
     list_all (\<lambda>r. \<not> is_ok r) cur' \<and> l_written l' = l_written l)"
  using assms
  by (auto simp: flush_node_writes_def load_tainted_def load_reconnecting_flag_def load_generation_def write_link_def
      fail_pending all_failed_none split: if_splits list.splits option.splits prod.splits)

lemma load_tainted_written: "load_tainted l = (b, l') \<Longrightarrow> l_written l' = l_written l"
  by (auto simp: load_tainted_def split: list.splits)

definition batch_inv :: "byte list \<Rightarrow> (i32 \<times> NodeValue) list \<Rightarrow> unit result list \<Rightarrow> byte list \<Rightarrow> nat list \<Rightarrow> Link \<Rightarrow> bool" where
  "batch_inv w0 items results buf queued l \<longleftrightarrow>
     (\<exists>fin cur fitems citems. results = fin @ cur \<and> items = fitems @ citems \<and>
        length fitems = length fin \<and> length citems = length cur \<and> queued = pending_indices (length fin) cur \<and>
        concat (l_written l) = w0 @ ok_bytes fitems fin \<and> buf = ok_bytes citems cur \<and>
        (buf = [] \<longrightarrow> list_all (\<lambda>r. \<not> is_ok r) cur))"

lemma item_bytes_ne: "set_value_message nid (native_of v) = Inr bs \<Longrightarrow> item_bytes (nid, v) = bs \<and> bs \<noteq> []"
  by (auto simp: item_bytes_def set_value_message_def append_value_message_def format_id_def
      extend_escaped_def append_escaped_eq split: sum.splits)

lemma batch_flush:
  assumes "batch_inv w0 items results buf queued l" "flush_node_writes generation buf queued results l = (results', l')"
  shows "length results' = length results \<and> concat (l_written l') = w0 @ ok_bytes items results' \<and>
    batch_inv w0 items results' [] [] l'"
proof -
  from assms(1) obtain fin cur fitems citems where
    h: "results = fin @ cur" "items = fitems @ citems" "length fitems = length fin" "length citems = length cur"
    "queued = pending_indices (length fin) cur" "concat (l_written l) = w0 @ ok_bytes fitems fin"
    "buf = ok_bytes citems cur" "buf = [] \<longrightarrow> list_all (\<lambda>r. \<not> is_ok r) cur"
    unfolding batch_inv_def by blast
  from flush_cases [OF assms(2) [unfolded h(1,5)] h(8)] obtain cur' where
    c: "results' = fin @ cur'" "length cur' = length cur"
    "cur' = cur \<and> concat (l_written l') = concat (l_written l) @ buf \<or>
     list_all (\<lambda>r. \<not> is_ok r) cur' \<and> l_written l' = l_written l" by blast
  have "ok_bytes items results' = ok_bytes fitems fin @ ok_bytes citems cur'" using h(2,3) c(1) by simp
  with c(3) h(6,7) have w: "concat (l_written l') = w0 @ ok_bytes items results'"
    by (elim disjE) (simp_all add: ok_bytes_none)
  then have "batch_inv w0 items results' [] [] l'"
    using h c unfolding batch_inv_def
    by (intro exI [of _ results'] exI [of _ "[]"] exI [of _ items]) (simp add: pending_indices_def)
  with w c h show ?thesis by simp
qed

lemma batch_push:
  assumes "batch_inv w0 items results buf queued l" "length items = length results" "l_written l' = l_written l"
    and "(result, buf') = (if tainted then (Inl ConnectionError, buf) else append_value_message buf nid (native_of v))"
  shows "batch_inv w0 (items @ [(nid, v)]) (results @ [result]) buf'
    (if is_ok result then queued @ [length results] else queued) l'"
proof -
  from assms(1) obtain fin cur fitems citems where
    h: "results = fin @ cur" "items = fitems @ citems" "length fitems = length fin" "length citems = length cur"
    "queued = pending_indices (length fin) cur" "concat (l_written l) = w0 @ ok_bytes fitems fin"
    "buf = ok_bytes citems cur" "buf = [] \<longrightarrow> list_all (\<lambda>r. \<not> is_ok r) cur"
    unfolding batch_inv_def by blast
  have b: "buf' = buf @ (if is_ok result then item_bytes (nid, v) else [])"
    "is_ok result \<Longrightarrow> item_bytes (nid, v) \<noteq> []"
    using assms(4) item_bytes_ne [of nid v]
    by (auto simp: append_value_message_bytes split: if_splits sum.splits)
  show ?thesis
    unfolding batch_inv_def
    using h b assms(3)
    by (intro exI [of _ fin] exI [of _ "cur @ [result]"] exI [of _ fitems] exI [of _ "citems @ [(nid, v)]"])
      (auto simp: pending_indices_snoc)
qed

lemma write_loop_exact:
  assumes "write_loop generation items results buf queued l = (results', l')"
    and "batch_inv w0 sofar results buf queued l" and "length sofar = length results"
  shows "length results' = length results + length items \<and>
    concat (l_written l') = w0 @ ok_bytes (sofar @ items) results'"
  using assms
proof (induction generation items results buf queued l arbitrary: sofar rule: write_loop.induct)
  case (1 generation results buf queued l)
  from batch_flush [OF 1(2), of generation results' l'] 1(1) show ?case by simp
next
  case (2 generation nid v items results buf queued l)
  obtain tainted l1 where t: "load_tainted l = (tainted, l1)" by (cases "load_tainted l")
  obtain result buf1 where r: "(if tainted then (Inl ConnectionError, buf) else append_value_message buf nid (native_of v)) = (result, buf1)"
    by (cases "if tainted then (Inl ConnectionError, buf) else append_value_message buf nid (native_of v)")
  let ?q = "if is_ok result then queued @ [length results] else queued"
  have inv: "batch_inv w0 (sofar @ [(nid, v)]) (results @ [result]) buf1 ?q l1"
    by (rule batch_push [OF "2.prems"(2,3) load_tainted_written [OF t] r [symmetric]])
  show ?case
  proof (cases "length buf1 \<ge> WRITE_BATCH_BYTES")
    case True
    obtain results2 l2 where f: "flush_node_writes generation buf1 ?q (results @ [result]) l1 = (results2, l2)"
      by (cases "flush_node_writes generation buf1 ?q (results @ [result]) l1")
    have "write_loop generation items results2 [] [] l2 = (results', l')"
      using "2.prems"(1) t r True f by (simp add: Let_def)
    with "2.IH"(1) [OF t [symmetric] r [symmetric] refl refl True f [symmetric], of "sofar @ [(nid, v)]"]
      batch_flush [OF inv f] "2.prems"(3) show ?thesis by simp
  next
    case False
    then have "write_loop generation items (results @ [result]) buf1 ?q l1 = (results', l')"
      using "2.prems"(1) t r by (simp add: Let_def)
    with "2.IH"(2) [OF t [symmetric] r [symmetric] refl refl False, of "sofar @ [(nid, v)]"]
      inv "2.prems"(3) show ?thesis by simp
  qed
qed

lemma write_node_values_exact:
  assumes "write_node_values generation items l = (results, l')"
  shows "length results = length items \<and> concat (l_written l') = concat (l_written l) @ ok_bytes items results"
proof -
  have "batch_inv (concat (l_written l)) [] [] [] [] l" by (auto simp: batch_inv_def pending_indices_def)
  from write_loop_exact [OF assms [unfolded write_node_values_def] this] show ?thesis by simp
qed

text \<open>On a link where nothing interferes, every item gets the outcome of its own encoding.\<close>

definition quiet :: "Link \<Rightarrow> bool" where
  "quiet l \<longleftrightarrow> list_all Not (l_tainted l) \<and> list_all Not (l_reconnecting l) \<and> l_generations l = [] \<and>
     list_all (\<lambda>e. e = None) (l_write_errors l)"

definition encoding_result :: "i32 \<times> NodeValue \<Rightarrow> unit result" where
  "encoding_result item = map_sum id (\<lambda>_. ()) (set_value_message (fst item) (native_of (snd item)))"

lemma load_tainted_quiet:
  "quiet l \<Longrightarrow> load_tainted l = (b, l') \<Longrightarrow> \<not> b \<and> quiet l' \<and> l_generation l' = l_generation l"
  by (auto simp: quiet_def load_tainted_def split: list.splits)

lemma flush_quiet:
  "quiet l \<Longrightarrow> l_generation l = generation \<Longrightarrow> flush_node_writes generation buf queued results l = (results', l') \<Longrightarrow>
     results' = results \<and> quiet l' \<and> l_generation l' = generation"
  by (auto simp: quiet_def flush_node_writes_def load_tainted_def load_reconnecting_flag_def load_generation_def
      write_link_def split: list.splits if_splits)

lemma write_loop_quiet:
  "quiet l \<Longrightarrow> l_generation l = generation \<Longrightarrow>
     fst (write_loop generation items results buf queued l) = results @ map encoding_result items"
proof (induction generation items results buf queued l rule: write_loop.induct)
  case (1 generation results buf queued l)
  then show ?case
    by (cases "flush_node_writes generation buf queued results l") (auto dest: flush_quiet)
next
  case (2 generation nid v items results buf queued l)
  obtain b l1 where t: "load_tainted l = (b, l1)" by (cases "load_tainted l")
  with load_tainted_quiet 2 have q: "\<not> b" "quiet l1" "l_generation l1 = generation" by blast+
  obtain result buf1 where r: "append_value_message buf nid (native_of v) = (result, buf1)"
    by (cases "append_value_message buf nid (native_of v)")
  then have e: "result = encoding_result (nid, v)"
    by (auto simp: append_value_message_bytes encoding_result_def split: sum.splits)
  let ?q = "if is_ok result then queued @ [length results] else queued"
  obtain results2 l2 where f: "flush_node_writes generation buf1 ?q (results @ [result]) l1 = (results2, l2)"
    by (cases "flush_node_writes generation buf1 ?q (results @ [result]) l1")
  note fq = flush_quiet [OF q(2,3) f]
  note ih = "2.IH" [OF t [symmetric], of result buf1]
  show ?case
    using ih(1) [OF _ refl refl _ f [symmetric]] ih(2) [OF _ refl refl] t r q fq f e
    by (auto simp: Let_def)
qed


definition calm_link :: Link where
  "calm_link = \<lparr>l_tainted = [], l_reconnecting = [], l_generations = [], l_generation = 3, l_write_errors = [], l_written = []\<rparr>"


section \<open>Restoring a dump\<close>

record DumpEntry =
  de_fullname :: string
  de_id :: i32
  de_value :: NodeValue

definition is_selector :: "string \<Rightarrow> bool" where
  "is_selector fullname \<longleftrightarrow> last_segment CHR ''/'' fullname = ''mdl''"

definition restore_order_key :: "string \<Rightarrow> bool \<times> nat" where
  "restore_order_key fullname =
     (if is_selector fullname then (False, count_char CHR ''/'' fullname) else (True, 0))"

definition entry_item :: "DumpEntry \<Rightarrow> i32 \<times> NodeValue" where
  "entry_item e = (de_id e, de_value e)"

definition set_results :: "(nat \<times> DumpEntry) list \<Rightarrow> unit result list \<Rightarrow> (string \<times> unit result) list \<Rightarrow>
    (string \<times> unit result) list" where
  "set_results batch rs results =
     fold (\<lambda>((slot, _), r) results. results[slot := (fst (results ! slot), r)]) (zip batch rs) results"

definition flush_restore_batch :: "u64 \<Rightarrow> (nat \<times> DumpEntry) list \<Rightarrow> (string \<times> unit result) list \<Rightarrow> Link \<Rightarrow>
    (string \<times> unit result) list \<times> Link" where
  "flush_restore_batch generation batch results l =
     (case write_node_values generation (map (entry_item \<circ> snd) batch) l of
        (rs, l) \<Rightarrow> (set_results batch rs results, l))"

text \<open>\<open>read_only\<close> is the embedded property map's answer for a full name.\<close>

fun restore_loop :: "(string \<Rightarrow> bool) \<Rightarrow> u64 \<Rightarrow> DumpEntry list \<Rightarrow> (string \<times> unit result) list \<Rightarrow>
    (nat \<times> DumpEntry) list \<Rightarrow> bool \<Rightarrow> Link \<Rightarrow> (string \<times> unit result) list \<times> Link" where
  "restore_loop read_only generation [] results batch selector_failed l =
     flush_restore_batch generation batch results l"
| "restore_loop read_only generation (entry # entries) results batch selector_failed l =
     (let slot = length results in
      if selector_failed \<or> read_only (de_fullname entry) then
        restore_loop read_only generation entries (results @ [(de_fullname entry, Inl InvalidInput)]) batch selector_failed l
      else
        let results = results @ [(de_fullname entry, Inr ())]; batch = batch @ [(slot, entry)] in
        if is_selector (de_fullname entry) then
          (case flush_restore_batch generation batch results l of
             (results, l) \<Rightarrow>
               restore_loop read_only generation entries results [] (\<not> is_ok (snd (results ! slot))) l)
        else restore_loop read_only generation entries results batch selector_failed l)"

definition restore :: "(string \<Rightarrow> bool) \<Rightarrow> DumpEntry list \<Rightarrow> Link \<Rightarrow> (string \<times> unit result) list \<times> Link" where
  "restore read_only entries l =
     (case load_generation l of (generation, l) \<Rightarrow>
      restore_loop read_only generation (sort_key (\<lambda>e. restore_order_key (de_fullname e)) entries) [] [] False l)"

text \<open>
  The batch of entries since the last flush: \<open>blocked\<close> says which of them were skipped. \<open>place\<close> are
  the slots of the others, \<open>merge\<close> the results once theirs are known.
\<close>

fun place :: "nat \<Rightarrow> bool list \<Rightarrow> 'e list \<Rightarrow> (nat \<times> 'e) list" where
  "place k (b # bs) (e # es) = (if b then [] else [(k, e)]) @ place (Suc k) bs es"
| "place k _ _ = []"

fun merge :: "bool list \<Rightarrow> unit result list \<Rightarrow> unit result list" where
  "merge (True # bs) rs = Inl InvalidInput # merge bs rs"
| "merge (False # bs) (r # rs) = r # merge bs rs"
| "merge _ _ = []"

lemma set_results_Cons:
  "set_results ((slot, e) # batch) (r # rs) results = set_results batch rs (results[slot := (fst (results ! slot), r)])"
  by (simp add: set_results_def)

lemma set_results_place:
  assumes "length bs = length es" "length rs = length (place (length fin) bs es)" "length names = length bs"
  shows "set_results (place (length fin) bs es) rs
      (fin @ zip names (map (\<lambda>b. if b then Inl InvalidInput else Inr ()) bs)) = fin @ zip names (merge bs rs)"
  using assms
proof (induction bs es arbitrary: fin rs names rule: list_induct2')
  case (4 b bs e es)
  then obtain n names' where n: "names = n # names'" by (cases names) auto
  show ?case
  proof (cases b)
    case True
    with 4 n "4.IH" [of rs "fin @ [(n, Inl InvalidInput)]" names'] show ?thesis by simp
  next
    case False
    with 4 n obtain r rs' where r: "rs = r # rs'" by (cases rs) auto
    with False 4 n "4.IH" [of rs' "fin @ [(n, r)]" names'] show ?thesis
      by (simp add: set_results_Cons)
  qed
qed (auto simp: set_results_def)

lemma length_merge:
  "length bs = length es \<Longrightarrow> length rs = length (place k bs es) \<Longrightarrow> length (merge bs rs) = length bs"
proof (induction bs es arbitrary: k rs rule: list_induct2')
  case (4 b bs e es)
  then show ?case by (cases b; cases rs) auto
qed auto

lemma ok_bytes_Cons [simp]: "ok_bytes (i # is) (r # rs) = (if is_ok r then item_bytes i else []) @ ok_bytes is rs"
  by (simp add: ok_bytes_def)

lemma ok_bytes_merge:
  "length bs = length es \<Longrightarrow> length rs = length (place k bs es) \<Longrightarrow>
     ok_bytes (map entry_item es) (merge bs rs) = ok_bytes (map (entry_item \<circ> snd) (place k bs es)) rs"
proof (induction bs es arbitrary: k rs rule: list_induct2')
  case (4 b bs e es)
  then show ?case by (cases b; cases rs) auto
qed auto

lemma place_snoc:
  "length bs = length es \<Longrightarrow> place k (bs @ [b]) (es @ [e]) = place k bs es @ (if b then [] else [(k + length es, e)])"
  by (induction bs es arbitrary: k rule: list_induct2') auto

text \<open>
  The rule a restore keeps: an entry is refused when it is read-only or comes after a model
  selector that failed.
\<close>

definition selector_fails :: "(string \<Rightarrow> bool) \<Rightarrow> DumpEntry \<Rightarrow> unit result \<Rightarrow> bool" where
  "selector_fails read_only e r \<longleftrightarrow> is_selector (de_fullname e) \<and> \<not> read_only (de_fullname e) \<and> \<not> is_ok r"

fun stops :: "(string \<Rightarrow> bool) \<Rightarrow> bool \<Rightarrow> DumpEntry list \<Rightarrow> unit result list \<Rightarrow> bool" where
  "stops read_only failed (e # es) (r # rs) \<longleftrightarrow>
     (failed \<or> read_only (de_fullname e) \<longrightarrow> r = Inl InvalidInput) \<and>
     stops read_only (failed \<or> selector_fails read_only e r) es rs"
| "stops read_only failed _ _ \<longleftrightarrow> True"

fun failed_after :: "(string \<Rightarrow> bool) \<Rightarrow> bool \<Rightarrow> DumpEntry list \<Rightarrow> unit result list \<Rightarrow> bool" where
  "failed_after read_only failed (e # es) (r # rs) =
     failed_after read_only (failed \<or> selector_fails read_only e r) es rs"
| "failed_after read_only failed _ _ = failed"

lemma stops_append:
  "length es = length rs \<Longrightarrow>
     stops ro f (es @ es') (rs @ rs') \<longleftrightarrow> stops ro f es rs \<and> stops ro (failed_after ro f es rs) es' rs'"
  by (induction es rs arbitrary: f rule: list_induct2) auto

lemma failed_after_append:
  "length es = length rs \<Longrightarrow>
     failed_after ro f (es @ es') (rs @ rs') = failed_after ro (failed_after ro f es rs) es' rs'"
  by (induction es rs arbitrary: f rule: list_induct2) auto

definition blocks :: "(string \<Rightarrow> bool) \<Rightarrow> bool \<Rightarrow> DumpEntry list \<Rightarrow> bool list \<Rightarrow> bool" where
  "blocks ro failed es bs \<longleftrightarrow> list_all2 (\<lambda>e b. b = (failed \<or> ro (de_fullname e)) \<and> (b \<or> \<not> is_selector (de_fullname e))) es bs"

lemma blocks_merge:
  "blocks ro failed es bs \<Longrightarrow> length rs = length (place k bs es) \<Longrightarrow>
     stops ro failed es (merge bs rs) \<and> failed_after ro failed es (merge bs rs) = failed"
  unfolding blocks_def
proof (induction es bs arbitrary: k rs rule: list_all2_induct)
  case (Cons e es b bs)
  then show ?case by (cases b; cases rs) (auto simp: selector_fails_def)
qed simp

text \<open>A flush of such a batch.\<close>

lemma flush_restore:
  assumes "flush_restore_batch generation (place (length fin) bs es)
      (fin @ zip (map de_fullname es) (map (\<lambda>b. if b then Inl InvalidInput else Inr ()) bs)) l = (results, l')"
    and "length bs = length es"
  shows "\<exists>rs. length rs = length (place (length fin) bs es) \<and>
    results = fin @ zip (map de_fullname es) (merge bs rs) \<and>
    concat (l_written l') = concat (l_written l) @ ok_bytes (map entry_item es) (merge bs rs)"
proof -
  let ?items = "map (entry_item \<circ> snd) (place (length fin) bs es)"
  obtain rs l1 where w: "write_node_values generation ?items l = (rs, l1)"
    by (cases "write_node_values generation ?items l")
  note e = write_node_values_exact [OF w]
  then have len: "length rs = length (place (length fin) bs es)" by simp
  from assms w set_results_place [OF assms(2) len, of "map de_fullname es"]
  have "results = fin @ zip (map de_fullname es) (merge bs rs)" "l' = l1"
    by (auto simp: flush_restore_batch_def)
  with e len ok_bytes_merge [OF assms(2) len] show ?thesis by auto
qed

definition skipped :: "bool list \<Rightarrow> unit result list" where
  "skipped bs = map (\<lambda>b. if b then Inl InvalidInput else Inr ()) bs"

definition restore_inv :: "(string \<Rightarrow> bool) \<Rightarrow> byte list \<Rightarrow> DumpEntry list \<Rightarrow> (string \<times> unit result) list \<Rightarrow>
    (nat \<times> DumpEntry) list \<Rightarrow> bool \<Rightarrow> Link \<Rightarrow> bool" where
  "restore_inv ro w0 es results batch failed l \<longleftrightarrow>
     (\<exists>fes frs ces bs. es = fes @ ces \<and> length fes = length frs \<and> blocks ro failed ces bs \<and>
        results = zip (map de_fullname fes) frs @ zip (map de_fullname ces) (skipped bs) \<and>
        batch = place (length frs) bs ces \<and>
        concat (l_written l) = w0 @ ok_bytes (map entry_item fes) frs \<and>
        stops ro False fes frs \<and> failed_after ro False fes frs = failed)"

lemma blocks_length: "blocks ro failed es bs \<Longrightarrow> length bs = length es"
  by (simp add: blocks_def list_all2_lengthD)

lemma blocks_snoc:
  "blocks ro failed es bs \<Longrightarrow> b = (failed \<or> ro (de_fullname e)) \<Longrightarrow> b \<or> \<not> is_selector (de_fullname e) \<Longrightarrow>
     blocks ro failed (es @ [e]) (bs @ [b])"
  by (simp add: blocks_def list_all2_appendI)

lemma restore_push:
  assumes "restore_inv ro w0 es results batch failed l"
    and "b = (failed \<or> ro (de_fullname e))" "b \<or> \<not> is_selector (de_fullname e)"
  shows "restore_inv ro w0 (es @ [e]) (results @ [(de_fullname e, if b then Inl InvalidInput else Inr ())])
    (batch @ (if b then [] else [(length results, e)])) failed l"
proof -
  from assms(1) obtain fes frs ces bs where
    h: "es = fes @ ces" "length fes = length frs" "blocks ro failed ces bs"
    "results = zip (map de_fullname fes) frs @ zip (map de_fullname ces) (skipped bs)"
    "batch = place (length frs) bs ces" "concat (l_written l) = w0 @ ok_bytes (map entry_item fes) frs"
    "stops ro False fes frs" "failed_after ro False fes frs = failed"
    unfolding restore_inv_def by blast
  note bl = blocks_length [OF h(3)]
  show ?thesis
    unfolding restore_inv_def
    using h bl blocks_snoc [OF h(3) assms(2,3)]
    by (intro exI [of _ fes] exI [of _ frs] exI [of _ "ces @ [e]"] exI [of _ "bs @ [b]"])
      (simp add: skipped_def place_snoc)
qed

definition restored :: "(string \<Rightarrow> bool) \<Rightarrow> byte list \<Rightarrow> DumpEntry list \<Rightarrow> (string \<times> unit result) list \<Rightarrow> Link \<Rightarrow> bool" where
  "restored ro w0 es results l \<longleftrightarrow>
     (\<exists>rs. length rs = length es \<and> results = zip (map de_fullname es) rs \<and>
        concat (l_written l) = w0 @ ok_bytes (map entry_item es) rs \<and> stops ro False es rs)"

lemma restore_finish:
  assumes "restore_inv ro w0 es results batch failed l"
    and "flush_restore_batch generation batch results l = (results', l')"
  shows "restored ro w0 es results' l'"
proof -
  from assms(1) obtain fes frs ces bs where
    h: "es = fes @ ces" "length fes = length frs" "blocks ro failed ces bs"
    "results = zip (map de_fullname fes) frs @ zip (map de_fullname ces) (skipped bs)"
    "batch = place (length frs) bs ces" "concat (l_written l) = w0 @ ok_bytes (map entry_item fes) frs"
    "stops ro False fes frs" "failed_after ro False fes frs = failed"
    unfolding restore_inv_def by blast
  note bl = blocks_length [OF h(3)]
  from flush_restore [of generation "zip (map de_fullname fes) frs" bs ces l results' l'] assms(2) h bl obtain rs where
    f: "length rs = length (place (length frs) bs ces)"
    "results' = zip (map de_fullname fes) frs @ zip (map de_fullname ces) (merge bs rs)"
    "concat (l_written l') = concat (l_written l) @ ok_bytes (map entry_item ces) (merge bs rs)"
    by (auto simp: skipped_def)
  note m = length_merge [OF bl f(1)] blocks_merge [OF h(3) f(1)]
  show ?thesis
    unfolding restored_def
    using h f m bl by (intro exI [of _ "frs @ merge bs rs"]) (simp add: stops_append)
qed

lemma merge_snoc:
  "length bs = length es \<Longrightarrow> length rs = length (place k bs es) \<Longrightarrow> merge (bs @ [False]) (rs @ [r]) = merge bs rs @ [r]"
proof (induction bs es arbitrary: k rs rule: list_induct2')
  case (4 b bs e es)
  show ?case
  proof (cases b)
    case True
    with 4 "4.IH" [of rs "Suc k"] show ?thesis by simp
  next
    case False
    with 4 obtain q qs where "rs = q # qs" by (cases rs) auto
    with False 4 "4.IH" [of qs "Suc k"] show ?thesis by simp
  qed
qed auto

lemma restore_selector:
  assumes "restore_inv ro w0 es results batch False l"
    and "\<not> ro (de_fullname e)" "is_selector (de_fullname e)"
    and "flush_restore_batch generation (batch @ [(length results, e)]) (results @ [(de_fullname e, Inr ())]) l = (results', l')"
  shows "restore_inv ro w0 (es @ [e]) results' [] (\<not> is_ok (snd (results' ! length results))) l'"
proof -
  from assms(1) obtain fes frs ces bs where
    h: "es = fes @ ces" "length fes = length frs" "blocks ro False ces bs"
    "results = zip (map de_fullname fes) frs @ zip (map de_fullname ces) (skipped bs)"
    "batch = place (length frs) bs ces" "concat (l_written l) = w0 @ ok_bytes (map entry_item fes) frs"
    "stops ro False fes frs" "\<not> failed_after ro False fes frs"
    unfolding restore_inv_def by auto
  note bl = blocks_length [OF h(3)]
  have len: "length results = length frs + length ces" using h bl by (simp add: skipped_def)
  from flush_restore [of generation "zip (map de_fullname fes) frs" "bs @ [False]" "ces @ [e]" l results' l'] assms(4) h bl len
  obtain rs where
    f: "length rs = length (place (length frs) (bs @ [False]) (ces @ [e]))"
    "results' = zip (map de_fullname fes) frs @ zip (map de_fullname (ces @ [e])) (merge (bs @ [False]) rs)"
    "concat (l_written l') = concat (l_written l) @ ok_bytes (map entry_item (ces @ [e])) (merge (bs @ [False]) rs)"
    by (auto simp: skipped_def place_snoc)
  from f(1) bl obtain rs1 r where r: "rs = rs1 @ [r]" "length rs1 = length (place (length frs) bs ces)"
    by (cases rs rule: rev_cases) (auto simp: place_snoc)
  note m = merge_snoc [OF bl r(2), of r] length_merge [OF bl r(2)] blocks_merge [OF h(3) r(2)]
  let ?rs = "frs @ merge bs rs1 @ [r]"
  have res: "results' = zip (map de_fullname (es @ [e])) ?rs" using f(2) h m bl r(1) by simp
  moreover have "snd (results' ! length results) = r"
    using res len h m bl by (simp add: nth_append)
  moreover have "stops ro False (es @ [e]) ?rs \<and> failed_after ro False (es @ [e]) ?rs = (\<not> is_ok r)"
    using h m bl assms(2,3) by (simp add: stops_append failed_after_append selector_fails_def)
  moreover have "concat (l_written l') = w0 @ ok_bytes (map entry_item (es @ [e])) ?rs"
    using f(3) h m bl r(1) by simp
  ultimately show ?thesis
    unfolding restore_inv_def
    using h m bl
    by (intro exI [of _ "es @ [e]"] exI [of _ ?rs] exI [of _ "[]"]) (auto simp: blocks_def)
qed

lemma restore_loop_restored:
  "restore_loop ro generation entries results batch failed l = (results', l') \<Longrightarrow>
     restore_inv ro w0 es results batch failed l \<Longrightarrow> restored ro w0 (es @ entries) results' l'"
proof (induction ro generation entries results batch failed l arbitrary: es rule: restore_loop.induct)
  case (1 ro generation results batch failed l)
  then show ?case by (auto intro: restore_finish)
next
  case (2 ro generation e entries results batch failed l)
  consider (blocked) "failed \<or> ro (de_fullname e)"
    | (selector) "\<not> failed" "\<not> ro (de_fullname e)" "is_selector (de_fullname e)"
    | (plain) "\<not> failed" "\<not> ro (de_fullname e)" "\<not> is_selector (de_fullname e)" by blast
  then show ?case
  proof cases
    case blocked
    with "2.prems" "2.IH"(1) [OF refl, of "es @ [e]"] restore_push [OF "2.prems"(2), of True e]
    show ?thesis by (simp add: Let_def)
  next
    case selector
    obtain results1 l1 where
      f: "flush_restore_batch generation (batch @ [(length results, e)]) (results @ [(de_fullname e, Inr ())]) l = (results1, l1)"
      by (cases "flush_restore_batch generation (batch @ [(length results, e)]) (results @ [(de_fullname e, Inr ())]) l")
    from restore_selector [of ro w0 es results batch l e generation results1 l1] f selector "2.prems"(2)
    have "restore_inv ro w0 (es @ [e]) results1 [] (\<not> is_ok (snd (results1 ! length results))) l1" by simp
    with "2.IH"(2) [OF refl _ refl refl selector(3) f [symmetric], of "es @ [e]"] "2.prems"(1) selector f
    show ?thesis by (simp add: Let_def)
  next
    case plain
    with "2.prems" "2.IH"(3) [OF refl _ refl refl, of "es @ [e]"] restore_push [OF "2.prems"(2), of False e]
    show ?thesis by (simp add: Let_def)
  qed
qed

lemma stops_refused:
  "stops ro f es rs \<Longrightarrow> length es = length rs \<Longrightarrow> i < length rs \<Longrightarrow> f \<or> ro (de_fullname (es ! i)) \<Longrightarrow>
     rs ! i = Inl InvalidInput"
proof (induction ro f es rs arbitrary: i rule: stops.induct)
  case (1 ro f e es r rs)
  then show ?case by (cases i) auto
qed auto

lemma stops_after_failure:
  "stops ro f es rs \<Longrightarrow> length es = length rs \<Longrightarrow> i < j \<Longrightarrow> j < length rs \<Longrightarrow> selector_fails ro (es ! i) (rs ! i) \<Longrightarrow>
     rs ! j = Inl InvalidInput"
proof (induction ro f es rs arbitrary: i j rule: stops.induct)
  case (1 ro f e es r rs)
  then obtain j' where j: "j = Suc j'" by (cases j) auto
  show ?case
  proof (cases i)
    case 0
    with 1 j show ?thesis by (auto intro: stops_refused)
  next
    case (Suc i')
    with 1 j show ?thesis by auto
  qed
qed auto

definition restore_order :: "DumpEntry list \<Rightarrow> DumpEntry list" where
  "restore_order entries = sort_key (\<lambda>e. restore_order_key (de_fullname e)) entries"

lemma restore_order_model_first:
  assumes "i < j" "j < length entries" "is_selector (de_fullname (restore_order entries ! j))"
  shows "is_selector (de_fullname (restore_order entries ! i)) \<and>
    count_char CHR ''/'' (de_fullname (restore_order entries ! i)) \<le> count_char CHR ''/'' (de_fullname (restore_order entries ! j))"
proof -
  let ?k = "\<lambda>e. restore_order_key (de_fullname e)"
  have "sorted (map ?k (restore_order entries))" by (simp add: restore_order_def)
  then have "map ?k (restore_order entries) ! i \<le> map ?k (restore_order entries) ! j"
    using assms by (intro sorted_nth_mono) (auto simp: restore_order_def)
  then have "?k (restore_order entries ! i) \<le> ?k (restore_order entries ! j)"
    using assms by (simp add: restore_order_def)
  with assms(3) show ?thesis by (auto simp: restore_order_key_def less_eq_prod_def split: if_splits)
qed

lemma load_generation_written: "load_generation l = (g, l') \<Longrightarrow> l_written l' = l_written l"
  by (auto simp: load_generation_def split: list.splits)

lemma restore_restored:
  assumes "restore ro entries l = (results, l')"
  shows "restored ro (concat (l_written l)) (restore_order entries) results l'"
proof -
  obtain g l1 where g: "load_generation l = (g, l1)" by (cases "load_generation l")
  with assms have r: "restore_loop ro g (restore_order entries) [] [] False l1 = (results, l')"
    by (simp add: restore_def restore_order_def)
  have "restore_inv ro (concat (l_written l)) [] [] [] False l1"
    using load_generation_written [OF g] by (simp add: restore_inv_def blocks_def skipped_def)
  from restore_loop_restored [OF r this] show ?thesis by simp
qed


definition small_dump :: "DumpEntry list" where
  "small_dump = [\<lparr>de_fullname = ''/fx/1/g'', de_id = 9, de_value = IntV 3\<rparr>,
     \<lparr>de_fullname = ''/fx/1/mdl'', de_id = 8, de_value = StringV ''EQ''\<rparr>]"

definition broken_link :: Link where
  "broken_link = calm_link\<lparr>l_write_errors := [Some TimedOut]\<rparr>"

lemma small_restore: "restore (\<lambda>_. False) small_dump broken_link =
    ([(''/fx/1/mdl'', Inl (Io TimedOut)), (''/fx/1/g'', Inl InvalidInput)], calm_link)"
  by code_simp


end
