(* ===== verification/Session.thy ===== *)
theory Session
  imports Attended Writer
begin

text \<open>
  The session of \<open>src/console.rs\<close> around the reader and the writer: the single writes, the meter
  subscription with its report ids and keep-alive, the receipt of meter frames, \<open>get_nodes\<close>, and
  \<open>reconnect\<close> with its backoff and the reset of every piece of per-session state.
\<close>

section \<open>Single writes\<close>

definition send_message :: "byte list result \<Rightarrow> World \<Rightarrow> unit result \<times> World" where
  "send_message message w =
     (case ensure_stream_usable w of
        Inl e \<Rightarrow> (Inl e, w)
      | Inr _ \<Rightarrow> (case message of Inl e \<Rightarrow> (Inl e, w) | Inr buf \<Rightarrow> write_all w buf))"

definition set_string :: "i32 \<Rightarrow> string \<Rightarrow> World \<Rightarrow> unit result \<times> World" where
  "set_string nid value = send_message (set_string_message nid value)"

definition set_float :: "i32 \<Rightarrow> f32 \<Rightarrow> World \<Rightarrow> unit result \<times> World" where
  "set_float nid value = send_message (set_float_message nid value)"

definition set_int :: "i32 \<Rightarrow> i32 \<Rightarrow> World \<Rightarrow> unit result \<times> World" where
  "set_int nid value = send_message (set_int_message nid value)"

definition toggle :: "i32 \<Rightarrow> World \<Rightarrow> unit result \<times> World" where
  "toggle nid = send_message (Inr (toggle_message nid))"

section \<open>Many values\<close>

text \<open>The values that arrived early, by id; \<open>entry(..).or_insert(..)\<close> keeps the first.\<close>

fun stash :: "i32 \<Rightarrow> i32 list \<Rightarrow> WingResponse list \<Rightarrow> (i32 \<rightharpoonup> WingNodeData) \<Rightarrow> (i32 \<rightharpoonup> WingNodeData)" where
  "stash nid ids [] pending = pending"
| "stash nid ids (NodeDataR bid d # resps) pending =
     stash nid ids resps
       (if bid \<noteq> nid \<and> bid \<in> set ids \<and> pending bid = None then pending(bid \<mapsto> d) else pending)"
| "stash nid ids (_ # resps) pending = stash nid ids resps pending"

fun get_nodes_loop :: "i32 list \<Rightarrow> i32 list \<Rightarrow> duration \<Rightarrow> (i32 \<rightharpoonup> WingNodeData) \<Rightarrow> Main \<Rightarrow> World \<Rightarrow>
    ((i32 \<times> WingNodeData result) list \<times> Main \<times> World) option" where
  "get_nodes_loop ids [] timeout pending r w = Some ([], r, w)"
| "get_nodes_loop ids (nid # rest) timeout pending r w =
     (case pending nid of
        Some d \<Rightarrow> map_option (\<lambda>(out, s). ((nid, Inr d) # out, s))
          (get_nodes_loop ids rest timeout (pending(nid := None)) r w)
      | None \<Rightarrow>
          (case get_node_data nid timeout r w of
             None \<Rightarrow> None
           | Some (Inr (d, buffered), r, w) \<Rightarrow> map_option (\<lambda>(out, s). ((nid, Inr d) # out, s))
               (get_nodes_loop ids rest timeout (stash nid ids buffered pending) r w)
           | Some (Inl e, r, w) \<Rightarrow> map_option (\<lambda>(out, s). ((nid, Inl e) # out, s))
               (get_nodes_loop ids rest timeout pending r w)))"

definition get_nodes :: "i32 list \<Rightarrow> duration \<Rightarrow> Main \<Rightarrow> World \<Rightarrow>
    ((i32 \<times> WingNodeData result) list \<times> Main \<times> World) option" where
  "get_nodes ids timeout r w = get_nodes_loop ids ids timeout Map.empty r w"

section \<open>Meters\<close>

definition METERS_KEEP_ALIVE_SECONDS :: int where
  "METERS_KEEP_ALIVE_SECONDS = 3"

definition METER_FRAME_BYTES :: nat where
  "METER_FRAME_BYTES = 8192"

text \<open>\<open>mt_port\<close> stands for the bound UDP socket; \<open>mt_bound\<close> is \<open>has_meter_socket\<close>.\<close>

record MeterState =
  mt_port :: "u16 option"
  mt_active_id :: "u16 option"
  mt_next_id :: u16
  mt_timer :: instant
  mt_bound :: bool

definition new_meters :: "instant \<Rightarrow> MeterState" where
  "new_meters t = \<lparr>mt_port = None, mt_active_id = None, mt_next_id = 1,
     mt_timer = t + METERS_KEEP_ALIVE_SECONDS * nanos_per_second, mt_bound = False\<rparr>"

text \<open>\<open>bound\<close> is what binding a socket gives, when one has to be bound: its port or an error.\<close>

definition request_meter :: "Meter list \<Rightarrow> u16 result \<Rightarrow> MeterState \<Rightarrow> World \<Rightarrow> u16 result \<times> MeterState \<times> World" where
  "request_meter meters bound m w =
     (case ensure_stream_usable w of
        Inl e \<Rightarrow> (Inl e, m, w)
      | Inr _ \<Rightarrow>
          (case encode_meters [] meters of
             Inl e \<Rightarrow> (Inl e, m, w)
           | Inr encoded \<Rightarrow>
               (let mid = max (mt_next_id m) 1 in
                case (case mt_port m of Some port \<Rightarrow> Inr (port, m)
                      | None \<Rightarrow> map_sum id (\<lambda>port. (port, m\<lparr>mt_port := Some port, mt_bound := True\<rparr>)) bound) of
                  Inl e \<Rightarrow> (Inl e, m, w)
                | Inr (port, m) \<Rightarrow>
                    (case meter_request_message mid port meters of
                       Inl e \<Rightarrow> (Inl e, m, w)
                     | Inr buf \<Rightarrow>
                         (case write_all w buf of
                            (Inl e, w) \<Rightarrow> (Inl e, m, w)
                          | (Inr _, w) \<Rightarrow>
                              (case now w of (t, w) \<Rightarrow>
                               (Inr mid, m\<lparr>mt_active_id := Some mid, mt_next_id := mid + 1,
                                  mt_timer := t + METERS_KEEP_ALIVE_SECONDS * nanos_per_second\<rparr>, w)))))))"

definition keep_alive_meters :: "MeterState \<Rightarrow> World \<Rightarrow> unit result \<times> MeterState \<times> World" where
  "keep_alive_meters m w =
     (case now w of (t, w) \<Rightarrow>
      if mt_timer m \<le> t then
        (case mt_port m of
           None \<Rightarrow> (Inl MeterNotInitialized, m, w)
         | Some port \<Rightarrow>
             (case (case mt_active_id m of
                      None \<Rightarrow> (Inr (), w)
                    | Some mid \<Rightarrow> write_all w (meter_keepalive_message mid port)) of
                (Inl e, w) \<Rightarrow> (Inl e, m, w)
              | (Inr _, w) \<Rightarrow>
                  (case now w of (t, w) \<Rightarrow>
                   (Inr (), m\<lparr>mt_timer := t + METERS_KEEP_ALIVE_SECONDS * nanos_per_second\<rparr>, w))))
      else (Inr (), m, w))"

text \<open>What the UDP socket gives, receive by receive; an address is its 32-bit (or mapped) number.\<close>

datatype udp = Datagram nat "byte list" | RecvFailed io_kind

definition frame_ok :: "nat \<Rightarrow> nat \<Rightarrow> byte list \<Rightarrow> bool" where
  "frame_ok peer from frame \<longleftrightarrow> from = peer \<and> length frame \<ge> 4 \<and> (length frame - 4) mod 2 = 0"

text \<open>The receive buffer has \<open>METER_FRAME_BYTES\<close> bytes; a longer datagram is cut to it.\<close>

fun recv_meter_frame :: "nat \<Rightarrow> instant \<Rightarrow> MeterState \<Rightarrow> World \<Rightarrow> udp list \<Rightarrow>
    ((u16 \<times> byte list) result \<times> MeterState \<times> World \<times> udp list) option" where
  "recv_meter_frame peer deadline m w udps =
     (case keep_alive_meters m w of
        (Inl e, m, w) \<Rightarrow> Some (Inl e, m, w, udps)
      | (Inr _, m, w) \<Rightarrow>
          (case mt_port m of
             None \<Rightarrow> Some (Inl MeterNotInitialized, m, w, udps)
           | Some _ \<Rightarrow>
               (case now w of (t, w) \<Rightarrow>
                if t \<ge> deadline then Some (Inl Timeout, m, w, udps)
                else case udps of
                  [] \<Rightarrow> None
                | Datagram from bytes # rest \<Rightarrow>
                    (let frame = take METER_FRAME_BYTES bytes in
                     if frame_ok peer from frame
                     then Some (Inr (be_u16 (frame ! 0) (frame ! 1), frame), m, w, rest)
                     else recv_meter_frame peer deadline m w rest)
                | RecvFailed k # rest \<Rightarrow>
                    if k = WouldBlock \<or> k = TimedOut \<or> k = Interrupted
                    then recv_meter_frame peer deadline m w rest
                    else Some (Inl ConnectionError, m, w, rest))))"

declare recv_meter_frame.simps [simp del]

definition read_meters_timeout :: "nat \<Rightarrow> duration \<Rightarrow> MeterState \<Rightarrow> World \<Rightarrow> udp list \<Rightarrow>
    ((u16 \<times> i16 list) result \<times> MeterState \<times> World \<times> udp list) option" where
  "read_meters_timeout peer timeout m w udps =
     (case now w of (t, w) \<Rightarrow>
      map_option (\<lambda>(res, s). (map_sum id (\<lambda>(mid, frame). (mid, meter_samples (drop 4 frame))) res, s))
        (recv_meter_frame peer (t + timeout) m w udps))"

definition read_meters :: "nat \<Rightarrow> MeterState \<Rightarrow> World \<Rightarrow> udp list \<Rightarrow>
    ((u16 \<times> i16 list) result \<times> MeterState \<times> World \<times> udp list) option" where
  "read_meters peer = read_meters_timeout peer (METERS_KEEP_ALIVE_SECONDS * nanos_per_second)"

text \<open>\<open>out\<close> after the call, beside the report id and the sample count.\<close>

definition read_meters_into :: "nat \<Rightarrow> i16 list \<Rightarrow> MeterState \<Rightarrow> World \<Rightarrow> udp list \<Rightarrow>
    ((u16 \<times> nat) result \<times> i16 list \<times> MeterState \<times> World \<times> udp list) option" where
  "read_meters_into peer out m w udps =
     (case now w of (t, w) \<Rightarrow>
      case recv_meter_frame peer (t + METERS_KEEP_ALIVE_SECONDS * nanos_per_second) m w udps of
        None \<Rightarrow> None
      | Some (Inl e, s) \<Rightarrow> Some (Inl e, out, s)
      | Some (Inr (mid, frame), s) \<Rightarrow>
          (let samples = drop 4 frame; len = length samples div 2 in
           Some (Inr (mid, len),
             if len \<le> length out then meter_samples samples @ drop len out else out, s)))"

section \<open>Reconnecting\<close>

text \<open>\<open>max_attempts\<close> is a \<open>u32\<close>; counting up to it never overflows, so a natural number will do.\<close>

record ReconnectPolicy =
  rp_max_attempts :: nat
  rp_initial_backoff :: duration
  rp_max_backoff :: duration

definition default_policy :: ReconnectPolicy where
  "default_policy = \<lparr>rp_max_attempts = 5, rp_initial_backoff = 250000000, rp_max_backoff = 5000000000\<rparr>"

definition DURATION_MAX :: duration where
  "DURATION_MAX = 2 ^ 64 * 1000000000 - 1"

definition saturating_double :: "duration \<Rightarrow> duration" where
  "saturating_double d = min (2 * d) DURATION_MAX"

record SessionGap =
  gap_dropped_events :: bool
  gap_meters_invalidated :: bool
  gap_state_may_have_changed :: bool

record ReconnectOutcome =
  ro_attempts :: nat
  ro_gap :: SessionGap

record Session =
  ss_main :: Main
  ss_world :: World
  ss_meters :: MeterState
  ss_generation :: u64
  ss_firmware :: "string option"
  ss_reconnectable :: bool

definition session_gap :: "Session \<Rightarrow> SessionGap" where
  "session_gap s = \<lparr>gap_dropped_events = True, gap_meters_invalidated = mt_bound (ss_meters s),
     gap_state_may_have_changed = True\<rparr>"

text \<open>
  The attempts: the outcome of each handshake is an error or the socket of the new session.
  The result is the number of the attempt that succeeded and its socket, or the last error,
  with the sleeps taken; \<open>None\<close>: an attempt is still under way.
\<close>

fun attempts :: "nat \<Rightarrow> duration \<Rightarrow> nat \<Rightarrow> duration \<Rightarrow> error \<Rightarrow> 'sock result list \<Rightarrow>
    ((error + nat \<times> 'sock) \<times> duration list) option" where
  "attempts max_attempts max_backoff attempt backoff last_err outcomes =
     (if attempt > max_attempts then Some (Inl last_err, [])
      else case outcomes of
        [] \<Rightarrow> None
      | Inr sock # _ \<Rightarrow> Some (Inr (attempt, sock), [])
      | Inl e # rest \<Rightarrow>
          if attempt < max_attempts then
            map_option (\<lambda>(res, sleeps). (res, backoff # sleeps))
              (attempts max_attempts max_backoff (attempt + 1) (min (saturating_double backoff) max_backoff) e rest)
          else Some (Inl e, []))"

declare attempts.simps [simp del]

text \<open>The in-place reset under the locks, at clock reading \<open>t\<close>, for the new socket's input.\<close>

definition reset_session :: "instant \<Rightarrow> sock list \<Rightarrow> string option \<Rightarrow> Session \<Rightarrow> Session" where
  "reset_session t input firmware s =
     s\<lparr>ss_main := (ss_main s)\<lparr>rm_rx_buf := [], rm_rx_channels := audio_engine_decoder, rm_rx_events := [],
          rm_replay := [], rm_pending := [], rm_read_capture := [], rm_capture := None,
          rm_current_node_id := 0, rm_op_deadline := None,
          rm_keep_alive_timer := t + DATA_KEEP_ALIVE_SECONDS * nanos_per_second\<rparr>,
       ss_world := (ss_world s)\<lparr>w_input := input, w_tainted := False\<rparr>,
       ss_meters := (ss_meters s)\<lparr>mt_active_id := None\<rparr>,
       ss_firmware := (case firmware of Some f \<Rightarrow> Some f | None \<Rightarrow> ss_firmware s),
       ss_generation := ss_generation s + 1\<rparr>"

text \<open>
  \<open>seen\<close> is the generation read before waiting for the reconnect gate; another clone's
  reconnect that finished meanwhile shows as a different generation once the gate is held.
\<close>

definition reconnect :: "ReconnectPolicy \<Rightarrow> u64 \<Rightarrow> sock list result list \<Rightarrow> string option \<Rightarrow> Session \<Rightarrow>
    (ReconnectOutcome result \<times> duration list \<times> Session) option" where
  "reconnect policy seen outcomes firmware s =
     (if \<not> ss_reconnectable s then Some (Inl InvalidInput, [], s)
      else if ss_generation s \<noteq> seen then Some (Inr \<lparr>ro_attempts = 0, ro_gap = session_gap s\<rparr>, [], s)
      else case attempts (rp_max_attempts policy) (rp_max_backoff policy) 1 (rp_initial_backoff policy) ConnectionError outcomes of
        None \<Rightarrow> None
      | Some (Inl e, sleeps) \<Rightarrow> Some (Inl e, sleeps, s)
      | Some (Inr (attempt, input), sleeps) \<Rightarrow>
          (case now (ss_world s) of (t, w) \<Rightarrow>
           let s = reset_session t input firmware (s\<lparr>ss_world := w\<rparr>) in
           Some (Inr \<lparr>ro_attempts = attempt, ro_gap = session_gap s\<rparr>, sleeps, s)))"

section \<open>Backoff\<close>

definition sleep_at :: "duration \<Rightarrow> duration \<Rightarrow> nat \<Rightarrow> duration" where
  "sleep_at initial cap n = (if n = 0 then initial else min (initial * 2 ^ n) cap)"

lemma sleep_at_Suc:
  assumes "0 \<le> initial" "0 \<le> cap" "cap \<le> DURATION_MAX"
  shows "min (saturating_double (sleep_at initial cap n)) cap = sleep_at initial cap (Suc n)"
  using assms by (auto simp: sleep_at_def saturating_double_def min_def algebra_simps)

lemma map_sum_Inr: "map_sum f g x = Inr y \<longleftrightarrow> (\<exists>z. x = Inr z \<and> g z = y)"
  by (cases x) auto

lemma attempts_success:
  "attempts max_attempts cap attempt backoff last_err outcomes = Some (Inr (k, sock), sleeps) \<Longrightarrow> Inr sock \<in> set outcomes"
proof (induction outcomes arbitrary: attempt backoff last_err sleeps)
  case Nil
  then show ?case by (subst (asm) attempts.simps) (simp split: if_splits)
next
  case (Cons x outcomes)
  then show ?case by (subst (asm) (2) attempts.simps) (auto split: sum.splits if_splits)
qed

lemma attempts_backoff:
  assumes "attempts max_attempts cap attempt (sleep_at initial cap n) last_err outcomes = Some (res, sleeps)"
    and "0 \<le> initial" "0 \<le> cap" "cap \<le> DURATION_MAX" and "attempt \<le> max_attempts"
  shows "sleeps = map (sleep_at initial cap) [n..<n + length sleeps] \<and>
    (case res of
       Inr (k, sock) \<Rightarrow> k = attempt + length sleeps \<and> k \<le> max_attempts \<and>
         (\<exists>errs rest. outcomes = map Inl errs @ Inr sock # rest \<and> length errs = length sleeps)
     | Inl e \<Rightarrow> max_attempts = attempt + length sleeps \<and>
         (\<exists>errs rest. outcomes = map Inl (errs @ [e]) @ rest \<and> length errs = length sleeps))"
  using assms
proof (induction outcomes arbitrary: attempt n last_err res sleeps)
  case Nil
  then show ?case by (subst (asm) attempts.simps) simp
next
  case (Cons x outcomes)
  note run = Cons.prems(1) [unfolded attempts.simps [of _ _ _ _ _ "x # outcomes"]]
  show ?case
  proof (cases x)
    case (Inr sock)
    with run Cons.prems(5) show ?thesis by (auto intro!: exI [of _ "[]"])
  next
    case (Inl e)
    show ?thesis
    proof (cases "attempt < max_attempts")
      case False
      with Inl run Cons.prems(5) show ?thesis by (auto intro!: exI [of _ "[]"])
    next
      case True
      with run Inl obtain sl where
        a: "attempts max_attempts cap (attempt + 1) (sleep_at initial cap (Suc n)) e outcomes = Some (res, sl)"
        and sl: "sleeps = sleep_at initial cap n # sl"
        by (auto simp: sleep_at_Suc [OF Cons.prems(2-4)])
      have up: "[n..<n + length sleeps] = n # [Suc n..<Suc n + length sl]"
        using upt_conv_Cons [of n "n + length sleeps"] by (simp add: sl del: upt_Suc)
      have ih: "sl = map (sleep_at initial cap) [Suc n..<Suc n + length sl]"
        "case res of
           Inr (k, sock) \<Rightarrow> k = attempt + 1 + length sl \<and> k \<le> max_attempts \<and>
             (\<exists>errs rest. outcomes = map Inl errs @ Inr sock # rest \<and> length errs = length sl)
         | Inl e \<Rightarrow> max_attempts = attempt + 1 + length sl \<and>
             (\<exists>errs rest. outcomes = map Inl (errs @ [e]) @ rest \<and> length errs = length sl)"
        using Cons.IH [OF a Cons.prems(2-4)] True by simp_all
      have "sleeps = map (sleep_at initial cap) [n..<n + length sleeps]"
        unfolding up using ih(1) sl by simp
      moreover have "\<exists>errs' rest'. x # outcomes = map Inl errs' @ zs @ rest' \<and> length errs' = length sleeps"
        if "outcomes = map Inl errs @ zs @ rest" "length errs = length sl" for errs zs rest
        using that Inl sl by (intro exI [of _ "e # errs"]) auto
      note ext = this
      ultimately show ?thesis
        using ih(2) ext [where zs = "[Inr _]"] ext [where zs = "[Inl _]"] sl
        by (cases res) (auto, (fastforce+)?)
    qed
  qed
qed


definition broken_session :: Session where
  "broken_session = \<lparr>ss_main = (new_main 0)\<lparr>rm_replay := [(1, 0xd7)], rm_pending := [RequestEnd]\<rparr>,
     ss_world = split_world\<lparr>w_tainted := True\<rparr>, ss_meters = (new_meters 0)\<lparr>mt_active_id := Some 4, mt_next_id := 5\<rparr>,
     ss_generation = 2, ss_firmware = None, ss_reconnectable = True\<rparr>"

definition new_socket :: "sock list" where
  "new_socket = [Received [0xd7, 0, 0, 0, 5, 1]]"

lemma reconnect_run:
  "map_option (\<lambda>(res, sleeps, s). (map_sum id ro_attempts res, sleeps, ss_generation s))
     (reconnect default_policy 2 [Inl ConnectionError, Inl Timeout, Inr new_socket] None broken_session) =
   Some (Inr 3, [250000000, 500000000], 3)"
  by code_simp


text \<open>
  C11. A reconnect that replaced the session leaves nothing of the old one behind: no byte,
  event, response, capture, deadline or taint; the meter subscription is no longer renewed;
  and the reader parses the new stream from its first byte.
\<close>

theorem reconnect_fresh_session:
  assumes "reconnect policy seen outcomes firmware s = Some (Inr out, sleeps, s')" and "ro_attempts out \<noteq> 0"
  shows "(\<exists>t. ss_main s' = new_main t) \<and> \<not> w_tainted (ss_world s') \<and> mt_active_id (ss_meters s') = None \<and>
    mt_next_id (ss_meters s') = mt_next_id (ss_meters s) \<and> ss_generation s' = ss_generation s + 1 \<and>
    (firmware = None \<longrightarrow> ss_firmware s' = ss_firmware s) \<and>
    (\<exists>input. Inr input \<in> set outcomes \<and>
      view (ss_main s') (ss_world s') = \<lparr>q_ready = [], q_id = 0, q_bytes = stream audio_engine_decoder (concat (map received input))\<rparr>)"
proof -
  from assms obtain a input t w where
    at: "attempts (rp_max_attempts policy) (rp_max_backoff policy) 1 (rp_initial_backoff policy) ConnectionError outcomes =
      Some (Inr (a, input), sleeps)" and n: "now (ss_world s) = (t, w)"
    and s': "s' = reset_session t input firmware (s\<lparr>ss_world := w\<rparr>)"
    by (auto simp: reconnect_def Let_def split: option.splits sum.splits prod.splits if_splits)
  from attempts_success [OF at] have "Inr input \<in> set outcomes" .
  moreover have "ss_main s' = new_main t"
    by (cases "ss_main s") (simp add: s' reset_session_def new_main_def)
  moreover have "view (ss_main s') (ss_world s') =
      \<lparr>q_ready = [], q_id = 0, q_bytes = stream audio_engine_decoder (concat (map received input))\<rparr>"
    by (simp add: s' reset_session_def view_def logical_def)
  ultimately show ?thesis
    by (auto simp: s' reset_session_def split: option.splits)
qed

theorem reconnect_fresh_session_witness:
  "\<exists>out s' t. reconnect default_policy 2 [Inl ConnectionError, Inl Timeout, Inr new_socket] None broken_session =
       Some (Inr out, [250000000, 500000000], s') \<and> ss_main s' = new_main t \<and> \<not> w_tainted (ss_world s')"
proof -
  from reconnect_run obtain out s' where
    g: "reconnect default_policy 2 [Inl ConnectionError, Inl Timeout, Inr new_socket] None broken_session =
       Some (Inr out, [250000000, 500000000], s')" "ro_attempts out = 3"
    by (auto simp: map_sum_Inr split: prod.splits)
  from reconnect_fresh_session [OF g(1)] g show ?thesis by auto
qed

section \<open>Meter subscriptions\<close>

lemma write_all_written:
  "write_all w bs = (e, w') \<Longrightarrow> w_written w' = w_written w @ (if is_ok e then bs else [])"
  by (auto simp: write_all_def split: list.splits option.splits)

lemma now_written: "now w = (t, w') \<Longrightarrow> w_written w' = w_written w"
  by (auto simp: now_def split: list.splits)

lemma max_one: "max n 1 = (if n = 0 then 1 else n :: u16)"
  using inc_le [of 0 n] by (auto simp: max_def word_gt_0)

text \<open>
  Report ids: a subscription that reached the wire takes the next id, never 0, becomes the
  one the keep-alive renews, and the one after it gets a different id, also across the
  wrap-around of the 16-bit counter. A subscription that failed, for whatever reason, wrote
  nothing, spent no id and left the active one alone.
\<close>

theorem meter_subscription_ids:
  "case request_meter meters bound m w of (res, m', w') \<Rightarrow>
     (case res of
        Inr mid \<Rightarrow> mid \<noteq> 0 \<and> mid = (if mt_next_id m = 0 then 1 else mt_next_id m) \<and>
          mt_active_id m' = Some mid \<and> max (mt_next_id m') 1 \<noteq> mid \<and> max (mt_next_id m') 1 \<noteq> 0 \<and>
          (\<exists>port buf. mt_port m' = Some port \<and> meter_request_message mid port meters = Inr buf \<and>
             w_written w' = w_written w @ buf)
      | Inl e \<Rightarrow> mt_active_id m' = mt_active_id m \<and> mt_next_id m' = mt_next_id m \<and> w_written w' = w_written w)"
proof -
  have wrap: "max (mid + 1) 1 \<noteq> mid" if "mid \<noteq> 0" for mid :: u16
    using that by (auto simp: max_one)
  obtain res m' w' where run: "request_meter meters bound m w = (res, m', w')" by (cases "request_meter meters bound m w")
  define mid where "mid = max (mt_next_id m) 1"
  define sock where "sock = (case mt_port m of Some port \<Rightarrow> Inr (port, m)
    | None \<Rightarrow> map_sum id (\<lambda>port. (port, m\<lparr>mt_port := Some port, mt_bound := True\<rparr>)) bound)"
  have sk: "mt_port m1 = Some port \<and> mt_active_id m1 = mt_active_id m \<and> mt_next_id m1 = mt_next_id m"
    if "sock = Inr (port, m1)" for port m1
    using that by (auto simp: sock_def map_sum_Inr split: option.splits)
  show ?thesis
  proof (cases "\<exists>port m1 buf w1. ensure_stream_usable w = Inr () \<and> sock = Inr (port, m1) \<and>
      meter_request_message mid port meters = Inr buf \<and> write_all w buf = (Inr (), w1) \<and> is_ok (encode_meters [] meters)")
    case True
    then obtain port m1 buf w1 where h: "ensure_stream_usable w = Inr ()" "sock = Inr (port, m1)"
      "meter_request_message mid port meters = Inr buf" "write_all w buf = (Inr (), w1)" "is_ok (encode_meters [] meters)"
      by blast
    obtain t w2 where n: "now w1 = (t, w2)" by (cases "now w1")
    have "res = Inr mid \<and> mt_active_id m' = Some mid \<and> mt_next_id m' = mid + 1 \<and> mt_port m' = Some port \<and> w' = w2"
      using run h n sk [OF h(2)]
      by (auto simp: request_meter_def Let_def mid_def [symmetric] sock_def [symmetric] is_ok_def split: sum.splits)
    with h n write_all_written [OF h(4)] now_written [OF n] wrap [of mid] show ?thesis
      by (auto simp: run mid_def max_one)
  next
    case False
    then have "\<exists>e. res = Inl e \<and> mt_active_id m' = mt_active_id m \<and> mt_next_id m' = mt_next_id m \<and> w_written w' = w_written w"
      using run sk
      by (auto simp: request_meter_def Let_def mid_def [symmetric] sock_def [symmetric] dest: write_all_written split: sum.splits prod.splits)
    then show ?thesis by (auto simp: run)
  qed
qed

definition passed_over :: "nat \<Rightarrow> udp \<Rightarrow> bool" where
  "passed_over peer u = (case u of
     Datagram from bytes \<Rightarrow> \<not> frame_ok peer from (take METER_FRAME_BYTES bytes)
   | RecvFailed k \<Rightarrow> k = WouldBlock \<or> k = TimedOut \<or> k = Interrupted)"

lemma recv_meter_frame_first:
  "recv_meter_frame peer deadline m w udps = Some (Inr (mid, frame), m', w', rest) \<Longrightarrow>
     \<exists>pre bytes. udps = pre @ Datagram peer bytes # rest \<and> list_all (passed_over peer) pre \<and>
       frame = take METER_FRAME_BYTES bytes \<and> frame_ok peer peer frame \<and> mid = be_u16 (frame ! 0) (frame ! 1)"
proof (induction udps arbitrary: m w)
  case Nil
  then show ?case by (subst (asm) recv_meter_frame.simps) (auto split: prod.splits sum.splits option.splits if_splits)
next
  case (Cons u udps)
  consider (hit) bytes where "u = Datagram peer bytes" "frame = take METER_FRAME_BYTES bytes" "frame_ok peer peer frame"
      "mid = be_u16 (frame ! 0) (frame ! 1)" "rest = udps"
    | (pass) m1 w1 where "passed_over peer u" "recv_meter_frame peer deadline m1 w1 udps = Some (Inr (mid, frame), m', w', rest)"
    using Cons.prems
    by (subst (asm) recv_meter_frame.simps)
      (auto simp: passed_over_def frame_ok_def Let_def split: prod.splits sum.splits option.splits if_splits udp.splits)
  then show ?case
  proof cases
    case hit
    then show ?thesis by (intro exI [of _ "[]"] exI [of _ bytes]) simp
  next
    case pass
    from Cons.IH [OF pass(2)] obtain pre bytes where "udps = pre @ Datagram peer bytes # rest" "list_all (passed_over peer) pre"
      "frame = take METER_FRAME_BYTES bytes" "frame_ok peer peer frame" "mid = be_u16 (frame ! 0) (frame ! 1)" by blast
    with pass(1) show ?thesis by (intro exI [of _ "u # pre"] exI [of _ bytes]) simp
  qed
qed

text \<open>
  A meter read returns the first datagram that is a frame of the console, whatever else
  arrives on the socket: frames of other hosts, short or odd datagrams and soft errors are
  passed over; the report id and the samples are those of the frame.
\<close>

theorem meter_read_first_frame:
  assumes "read_meters_timeout peer timeout m w udps = Some (Inr (mid, samples), m', w', rest)"
  shows "\<exists>pre bytes frame. udps = pre @ Datagram peer bytes # rest \<and> list_all (passed_over peer) pre \<and>
    frame = take METER_FRAME_BYTES bytes \<and> take 2 frame = u16_be mid \<and>
    drop 4 frame = concat (map u16_be samples) \<and> 4 \<le> length frame"
proof -
  from assms obtain t w1 frame where
    r: "recv_meter_frame peer (t + timeout) m w1 udps = Some (Inr (mid, frame), m', w', rest)"
    and sm: "samples = meter_samples (drop 4 frame)"
    by (auto simp: read_meters_timeout_def map_sum_Inr split: prod.splits)
  from recv_meter_frame_first [OF r] obtain pre bytes where
    f: "udps = pre @ Datagram peer bytes # rest" "list_all (passed_over peer) pre"
    "frame = take METER_FRAME_BYTES bytes" "frame_ok peer peer frame" "mid = be_u16 (frame ! 0) (frame ! 1)" by blast
  from f(4) have l: "4 \<le> length frame" "even (length (drop 4 frame))"
    by (auto simp: frame_ok_def even_iff_mod_2_eq_zero)
  then obtain a b xs where x: "frame = a # b # xs" by (cases frame; cases "tl frame") auto
  have "concat (map u16_be (meter_samples ys)) = ys" if "even (length ys)" for ys
    using that by (induction ys rule: meter_samples.induct) auto
  with l sm have "drop 4 frame = concat (map u16_be samples)" by simp
  moreover have "take 2 frame = u16_be mid" using f(5) x by simp
  ultimately show ?thesis using f l by blast
qed

definition live_meters :: MeterState where
  "live_meters = (new_meters 0)\<lparr>mt_port := Some 9000, mt_active_id := Some 1, mt_next_id := 2\<rparr>"

definition meter_udps :: "udp list" where
  "meter_udps = [Datagram 3 [0, 9, 0, 0], RecvFailed WouldBlock, Datagram 7 [0, 1, 0, 0, 0xff, 0xfe]]"

lemma meter_read_run:
  "map_option (\<lambda>(res, m, w, rest). (res, rest)) (read_meters_timeout 7 1000 live_meters (split_world\<lparr>w_clock := []\<rparr>) meter_udps) =
     Some (Inr (1, [0xfffe]), [])"
  by code_simp

theorem meter_read_first_frame_witness:
  "\<exists>pre bytes frame. meter_udps = pre @ [Datagram 7 bytes] \<and> list_all (passed_over 7) pre \<and>
    frame = take METER_FRAME_BYTES bytes \<and> drop 4 frame = [0xff, 0xfe]"
proof -
  from meter_read_run obtain m' w' where
    "read_meters_timeout 7 1000 live_meters (split_world\<lparr>w_clock := []\<rparr>) meter_udps = Some (Inr (1, [0xfffe]), m', w', [])" by auto
  from meter_read_first_frame [OF this] show ?thesis by (force simp: u16_be_def)
qed

end
