(* ===== verification/Dump.thy ===== *)
theory Dump
  imports Session
begin

text \<open>
  Snapshots of \<open>src/console.rs\<close>: \<open>dump_subtree\<close> with its model selectors, \<open>dumpable_leaves\<close>,
  \<open>path_matches_active_models\<close>, and \<open>verify_binary_node\<close>, the check after a bulk restore. The embedded
  property map is the list of its \<open>(fullname, definition)\<close> entries, a parameter.
\<close>

type_synonym propmap = "(string \<times> WingNodeDef) list"

section \<open>Leaves and models\<close>

definition under :: "string \<Rightarrow> string \<Rightarrow> bool" where
  "under root_name name \<longleftrightarrow> name = root_name \<or> starts_with (root_name @ ''/'') name"

definition dumpable_leaves :: "propmap \<Rightarrow> string \<Rightarrow> (string \<times> i32) list" where
  "dumpable_leaves entries root_fullname =
     sort_key fst (map (\<lambda>(name, def). (name, nd_id def))
       (filter (\<lambda>(name, def). nd_node_type def \<noteq> NodeT \<and> \<not> nd_read_only def \<and> under root_fullname name) entries))"

record ActiveModel =
  am_parent :: string
  am_definition :: WingNodeDef
  am_selected :: NodeValue

text \<open>\<open>max_by_key\<close> returns the last of several maximal elements.\<close>

fun max_by_key :: "('a \<Rightarrow> nat) \<Rightarrow> 'a list \<Rightarrow> 'a option" where
  "max_by_key key [] = None"
| "max_by_key key (x # xs) =
     (case max_by_key key xs of None \<Rightarrow> Some x | Some y \<Rightarrow> if key x > key y then Some x else Some y)"

definition model_allows :: "string \<Rightarrow> ActiveModel \<Rightarrow> bool" where
  "model_allows path model =
     (case Option.bind (strip_prefix (am_parent model) path) (strip_prefix ''/'') of
        None \<Rightarrow> True
      | Some relative \<Rightarrow>
          (case Option.bind (nd_string_enum (am_definition model))
             (\<lambda>items. max_by_key (length \<circ> se_item)
                (filter (\<lambda>item. relative = se_item item \<or>
                   (case strip_prefix (se_item item) relative of None \<Rightarrow> False | Some rest \<Rightarrow> starts_with ''/'' rest)) items)) of
             None \<Rightarrow> True
           | Some item \<Rightarrow> am_selected model = StringV (se_item item)))"

definition path_matches_active_models :: "string \<Rightarrow> ActiveModel list \<Rightarrow> bool" where
  "path_matches_active_models path models = list_all (model_allows path) models"

definition model_selectors :: "propmap \<Rightarrow> string \<Rightarrow> (string \<times> WingNodeDef) list" where
  "model_selectors entries root_fullname =
     sort_key (\<lambda>(name, def). (count_char CHR ''/'' name, name))
       (filter (\<lambda>(name, def).
          case strip_suffix ''/mdl'' name of
            None \<Rightarrow> False
          | Some parent \<Rightarrow> nd_node_type def = StringEnumT \<and>
              (name = root_fullname \<or> parent = root_fullname \<or>
               starts_with (root_fullname @ ''/'') parent \<or> starts_with (parent @ ''/'') root_fullname)) entries)"

section \<open>The sweep\<close>

text \<open>\<open>PartialEq\<close> of \<open>NodeValue\<close>: floats compare as floats.\<close>

fun node_value_eq :: "NodeValue \<Rightarrow> NodeValue \<Rightarrow> bool" where
  "node_value_eq (FloatV x) (FloatV y) = f32_eq x y"
| "node_value_eq a b = (a = b)"

text \<open>The reader, and the successive vals of the \<open>pending_reconnects\<close> counter.\<close>

type_synonym sweep = "Main \<times> World \<times> nat list"

definition dump_get :: "i32 \<Rightarrow> duration \<Rightarrow> sweep \<Rightarrow> (WingNodeData result \<times> sweep) option" where
  "dump_get nid timeout s =
     (case s of (r, w, waiting) \<Rightarrow>
      let waiting' = tl waiting in
      if waiting \<noteq> [] \<and> hd waiting > 0 then Some (Inl Reconnecting, (r, w, waiting'))
      else case get_node_data nid timeout r w of
        None \<Rightarrow> None
      | Some (result, r, w) \<Rightarrow> Some (map_sum id fst result, (r, w, waiting')))"

text \<open>\<open>self.dump_get(..)?\<close> followed by \<open>dump_value(..)?\<close>.\<close>

definition dump_node :: "(f32 \<Rightarrow> string) \<Rightarrow> WingNodeDef \<Rightarrow> i32 \<Rightarrow> duration \<Rightarrow> sweep \<Rightarrow>
    ((WingNodeData \<times> NodeValue) result \<times> sweep) option" where
  "dump_node show_f32 def nid timeout s =
     (case dump_get nid timeout s of
        None \<Rightarrow> None
      | Some (Inl e, s) \<Rightarrow> Some (Inl e, s)
      | Some (Inr data, s) \<Rightarrow> Some (map_sum id (\<lambda>v. (data, v)) (dump_value show_f32 data def), s))"

record Selectors =
  sl_models :: "ActiveModel list"
  sl_values :: "string \<rightharpoonup> NodeValue"
  sl_unknown :: "string list"

fun read_selectors :: "(f32 \<Rightarrow> string) \<Rightarrow> duration \<Rightarrow> (string \<times> WingNodeDef) list \<Rightarrow> Selectors \<Rightarrow> sweep \<Rightarrow>
    (Selectors result \<times> sweep) option" where
  "read_selectors show_f32 timeout [] sel s = Some (Inr sel, s)"
| "read_selectors show_f32 timeout ((fullname, def) # rest) sel s =
     (if \<not> path_matches_active_models fullname (sl_models sel) then read_selectors show_f32 timeout rest sel s
      else case dump_node show_f32 def (nd_id def) timeout s of
        None \<Rightarrow> None
      | Some (Inl e, s) \<Rightarrow> Some (Inl e, s)
      | Some (Inr (data, value), s) \<Rightarrow>
          read_selectors show_f32 timeout rest
            \<lparr>sl_models = sl_models sel @ [\<lparr>am_parent = the (strip_suffix ''/mdl'' fullname),
               am_definition = def, am_selected = value\<rparr>],
             sl_values = (sl_values sel)(fullname \<mapsto> value),
             sl_unknown = sl_unknown sel @ (if string_enum_item show_f32 data def = None then [fullname] else [])\<rparr> s)"

fun read_leaves :: "(f32 \<Rightarrow> string) \<Rightarrow> propmap \<Rightarrow> duration \<Rightarrow> ActiveModel list \<Rightarrow> (string \<times> i32) list \<Rightarrow>
    (string \<rightharpoonup> NodeValue) \<Rightarrow> DumpEntry list \<Rightarrow> sweep \<Rightarrow> (DumpEntry list result \<times> sweep) option" where
  "read_leaves show_f32 entries timeout models [] vals out s = Some (Inr out, s)"
| "read_leaves show_f32 entries timeout models ((fullname, nid) # rest) vals out s =
     (if \<not> path_matches_active_models fullname models
      then read_leaves show_f32 entries timeout models rest vals out s
      else case vals fullname of
        Some value \<Rightarrow> read_leaves show_f32 entries timeout models rest (vals(fullname := None))
          (out @ [\<lparr>de_fullname = fullname, de_id = nid, de_value = value\<rparr>]) s
      | None \<Rightarrow>
          (case dump_node show_f32 (the (map_of entries fullname)) nid timeout s of
             None \<Rightarrow> None
           | Some (Inl e, s) \<Rightarrow> Some (Inl e, s)
           | Some (Inr (data, value), s) \<Rightarrow> read_leaves show_f32 entries timeout models rest vals
               (out @ [\<lparr>de_fullname = fullname, de_id = nid, de_value = value\<rparr>]) s))"

fun recheck_models :: "(f32 \<Rightarrow> string) \<Rightarrow> duration \<Rightarrow> ActiveModel list \<Rightarrow> sweep \<Rightarrow> (unit result \<times> sweep) option" where
  "recheck_models show_f32 timeout [] s = Some (Inr (), s)"
| "recheck_models show_f32 timeout (model # models) s =
     (case dump_node show_f32 (am_definition model) (nd_id (am_definition model)) timeout s of
        None \<Rightarrow> None
      | Some (Inl e, s) \<Rightarrow> Some (Inl e, s)
      | Some (Inr (data, value), s) \<Rightarrow>
          if \<not> node_value_eq value (am_selected model) then Some (Inl InvalidData, s)
          else recheck_models show_f32 timeout models s)"

record NodeDump =
  du_entries :: "DumpEntry list"
  du_unknown_models :: "string list"

definition dump_subtree :: "(f32 \<Rightarrow> string) \<Rightarrow> propmap \<Rightarrow> string \<Rightarrow> duration \<Rightarrow> sweep \<Rightarrow>
    (NodeDump result \<times> sweep) option" where
  "dump_subtree show_f32 entries root_fullname timeout s =
     (let leaves = dumpable_leaves entries root_fullname;
          selectors = model_selectors entries root_fullname in
      case read_selectors show_f32 timeout selectors \<lparr>sl_models = [], sl_values = Map.empty, sl_unknown = []\<rparr> s of
        None \<Rightarrow> None
      | Some (Inl e, s) \<Rightarrow> Some (Inl e, s)
      | Some (Inr sel, s) \<Rightarrow>
          (case read_leaves show_f32 entries timeout (sl_models sel) leaves (sl_values sel) [] s of
             None \<Rightarrow> None
           | Some (Inl e, s) \<Rightarrow> Some (Inl e, s)
           | Some (Inr out, s) \<Rightarrow>
               (case recheck_models show_f32 timeout (sl_models sel) s of
                  None \<Rightarrow> None
                | Some (Inl e, s) \<Rightarrow> Some (Inl e, s)
                | Some (Inr _, s) \<Rightarrow> Some (Inr \<lparr>du_entries = out, du_unknown_models = sl_unknown sel\<rparr>, s))))"

section \<open>What a dump holds\<close>

definition selectors_ok :: "Selectors \<Rightarrow> string set \<Rightarrow> bool" where
  "selectors_ok sel names \<longleftrightarrow>
     (\<forall>m \<in> set (sl_models sel). am_parent m @ ''/mdl'' \<in> names \<and> sl_values sel (am_parent m @ ''/mdl'') = Some (am_selected m))"

lemma read_selectors_ok:
  "read_selectors show_f32 timeout sels sel s = Some (Inr sel', s') \<Longrightarrow>
   \<forall>(name, def) \<in> set sels. strip_suffix ''/mdl'' name \<noteq> None \<Longrightarrow>
   distinct (map fst sels) \<Longrightarrow> names \<inter> fst ` set sels = {} \<Longrightarrow> selectors_ok sel names \<Longrightarrow>
     selectors_ok sel' (names \<union> fst ` set sels)"
proof (induction show_f32 timeout sels sel s arbitrary: names rule: read_selectors.induct)
  case (1 show_f32 timeout sel s)
  then show ?case by simp
next
  case (2 show_f32 timeout fullname def rest sel s)
  show ?case
  proof (cases "path_matches_active_models fullname (sl_models sel)")
    case False
    with 2 have "selectors_ok sel' (names \<union> fst ` set rest)" by auto
    then show ?thesis by (auto simp: selectors_ok_def)
  next
    case True
    with "2.prems"(1) obtain data v s1 where d: "dump_node show_f32 def (nd_id def) timeout s = Some (Inr (data, v), s1)"
      by (auto split: option.splits sum.splits)
    define sel1 where "sel1 = \<lparr>sl_models = sl_models sel @ [\<lparr>am_parent = the (strip_suffix ''/mdl'' fullname),
               am_definition = def, am_selected = v\<rparr>],
             sl_values = (sl_values sel)(fullname \<mapsto> v),
             sl_unknown = sl_unknown sel @ (if string_enum_item show_f32 data def = None then [fullname] else [])\<rparr>"
    obtain pre where "strip_suffix ''/mdl'' fullname = Some pre" using "2.prems"(2) by auto
    then have n: "the (strip_suffix ''/mdl'' fullname) @ ''/mdl'' = fullname"
      using strip_suffix_Some [of "''/mdl''" fullname pre] by simp
    with "2.prems"(4,5) have "selectors_ok sel1 (insert fullname names)"
      by (auto simp: selectors_ok_def sel1_def)
    moreover have "read_selectors show_f32 timeout rest sel1 s1 = Some (Inr sel', s')"
      using "2.prems"(1) True d by (simp add: sel1_def)
    ultimately have "selectors_ok sel' (insert fullname names \<union> fst ` set rest)"
      using "2.IH"(2) [of "(Inr (data, v), s1)" "Inr (data, v)" s1 "(data, v)" data v "insert fullname names"] True d "2.prems"(2-4)
      by (auto simp: sel1_def)
    then show ?thesis by (simp add: Un_insert_left)
  qed
qed

lemma read_leaves_entries:
  "read_leaves show_f32 entries timeout models leaves vals out s = Some (Inr out', s') \<Longrightarrow>
     distinct (map fst leaves) \<Longrightarrow>
     \<exists>es. out' = out @ es \<and>
       map (\<lambda>e. (de_fullname e, de_id e)) es = filter (\<lambda>(name, nid). path_matches_active_models name models) leaves \<and>
       (\<forall>e \<in> set es. \<forall>v. vals (de_fullname e) = Some v \<longrightarrow> de_value e = v)"
proof (induction show_f32 entries timeout models leaves vals out s rule: read_leaves.induct)
  case (1 show_f32 entries timeout models vals out s)
  then show ?case by simp
next
  case (2 show_f32 entries timeout models fullname nid rest vals out s)
  have fresh: "fullname \<notin> fst ` set rest" using "2.prems"(2) by simp
  have other: "\<forall>e \<in> set es. de_fullname e \<noteq> fullname"
    if "map (\<lambda>e. (de_fullname e, de_id e)) es = filter (\<lambda>(name, nid). path_matches_active_models name models) rest" for es
  proof
    fix e assume "e \<in> set es"
    then have "(de_fullname e, de_id e) \<in> set rest" using arg_cong [OF that, of set] by auto
    with fresh show "de_fullname e \<noteq> fullname" by (force simp: image_iff)
  qed
  have extend: "\<exists>es. out' = out @ es \<and>
       map (\<lambda>e. (de_fullname e, de_id e)) es = filter (\<lambda>(name, nid). path_matches_active_models name models) ((fullname, nid) # rest) \<and>
       (\<forall>e \<in> set es. \<forall>v. vals (de_fullname e) = Some v \<longrightarrow> de_value e = v)"
    if m: "path_matches_active_models fullname models" and es: "out' = (out @ [\<lparr>de_fullname = fullname, de_id = nid, de_value = v\<rparr>]) @ es"
      "map (\<lambda>e. (de_fullname e, de_id e)) es = filter (\<lambda>(name, nid). path_matches_active_models name models) rest"
      "\<forall>e \<in> set es. \<forall>v. vals' (de_fullname e) = Some v \<longrightarrow> de_value e = v"
      and v: "vals fullname = None \<or> vals fullname = Some v" "\<And>n. n \<noteq> fullname \<Longrightarrow> vals' n = vals n" for v es vals'
    using that other [OF es(2)]
    by (intro exI [of _ "\<lparr>de_fullname = fullname, de_id = nid, de_value = v\<rparr> # es"]) auto
  show ?case
  proof (cases "path_matches_active_models fullname models")
    case False
    with 2 show ?thesis by simp
  next
    case m: True
    show ?thesis
    proof (cases "vals fullname")
      case (Some v)
      have run: "read_leaves show_f32 entries timeout models rest (vals(fullname := None))
          (out @ [\<lparr>de_fullname = fullname, de_id = nid, de_value = v\<rparr>]) s = Some (Inr out', s')"
        using "2.prems"(1) m Some by simp
      have "distinct (map fst rest)" using "2.prems"(2) by simp
      with "2.IH"(3) [OF _ Some run] m obtain es where
        "out' = (out @ [\<lparr>de_fullname = fullname, de_id = nid, de_value = v\<rparr>]) @ es"
        "map (\<lambda>e. (de_fullname e, de_id e)) es = filter (\<lambda>(name, nid). path_matches_active_models name models) rest"
        "\<forall>e \<in> set es. \<forall>x. (vals(fullname := None)) (de_fullname e) = Some x \<longrightarrow> de_value e = x" by blast
      from extend [OF m this] Some show ?thesis by simp
    next
      case None
      with "2.prems"(1) m obtain data v s1 where
        d: "dump_node show_f32 (the (map_of entries fullname)) nid timeout s = Some (Inr (data, v), s1)"
        by (auto split: option.splits sum.splits)
      with "2.IH"(2) [OF _ None d refl refl refl] "2.prems" m None obtain es where
        "out' = (out @ [\<lparr>de_fullname = fullname, de_id = nid, de_value = v\<rparr>]) @ es"
        "map (\<lambda>e. (de_fullname e, de_id e)) es = filter (\<lambda>(name, nid). path_matches_active_models name models) rest"
        "\<forall>e \<in> set es. \<forall>x. vals (de_fullname e) = Some x \<longrightarrow> de_value e = x" by auto
      from extend [OF m this] None show ?thesis by simp
    qed
  qed
qed

lemma dumpable_leaf:
  "(name, nid) \<in> set (dumpable_leaves entries root_name) \<Longrightarrow>
     \<exists>def. (name, def) \<in> set entries \<and> nd_id def = nid \<and> \<not> nd_read_only def \<and> nd_node_type def \<noteq> NodeT \<and> under root_name name"
  by (auto simp: dumpable_leaves_def)

lemma distinct_leaves: "distinct (map fst entries) \<Longrightarrow> distinct (map fst (dumpable_leaves entries root_name))"
proof -
  assume d: "distinct (map fst entries)"
  have "mset (map fst (dumpable_leaves entries root_name)) =
      mset (map fst (filter (\<lambda>(name, def). nd_node_type def \<noteq> NodeT \<and> \<not> nd_read_only def \<and> under root_name name) entries))"
    by (simp add: dumpable_leaves_def image_mset.compositionality comp_def case_prod_beta)
  then have "distinct (map fst (dumpable_leaves entries root_name)) =
      distinct (map fst (filter (\<lambda>(name, def). nd_node_type def \<noteq> NodeT \<and> \<not> nd_read_only def \<and> under root_name name) entries))"
    by (rule mset_eq_imp_distinct_iff)
  with d show ?thesis by (simp add: distinct_map_filter)
qed

lemma distinct_selectors: "distinct (map fst entries) \<Longrightarrow> distinct (map fst (model_selectors entries root_name))"
proof -
  assume d: "distinct (map fst entries)"
  have "\<exists>P. mset (model_selectors entries root_name) = mset (filter P entries)"
    by (auto simp: model_selectors_def)
  then obtain P where "mset (map fst (model_selectors entries root_name)) = mset (map fst (filter P entries))"
    by (metis mset_map)
  with d show ?thesis by (metis distinct_map_filter mset_eq_imp_distinct_iff)
qed


definition plain_leaf :: "i32 \<Rightarrow> WingNodeDef" where
  "plain_leaf nid = sample_parsed\<lparr>nd_id := nid, nd_node_type := IntegerT, nd_read_only := False\<rparr>"

definition small_map :: propmap where
  "small_map = [(''/a/mdl'', (plain_leaf 1)\<lparr>nd_node_type := StringEnumT,
        nd_string_enum := Some [\<lparr>se_item = ''EQ'', se_long_item = []\<rparr>, \<lparr>se_item = ''GT'', se_long_item = []\<rparr>]\<rparr>),
     (''/a/GT/g'', plain_leaf 2), (''/a/EQ/g'', plain_leaf 3), (''/b/g'', plain_leaf 4)]"

definition dump_world :: World where
  "dump_world = split_world\<lparr>w_clock := [], w_input :=
     [Received [0xd7, 0, 0, 0, 1, 0x81, 0x45, 0x51], Received [0xd7, 0, 0, 0, 3, 5],
      Received [0xd7, 0, 0, 0, 1, 0x81, 0x45, 0x51]]\<rparr>"

lemma dump_run:
  "map_option (\<lambda>(res, s). map_sum id (\<lambda>d. map de_fullname (du_entries d)) res)
     (dump_subtree (\<lambda>_. []) small_map ''/a'' 1000 (new_main 0, dump_world, [])) = Some (Inr [''/a/EQ/g'', ''/a/mdl''])"
  by code_simp


section \<open>Verifying a restore\<close>

text \<open>
  \<open>float_close\<close> stands for the comparison of two floats up to the console's requantization
  (\<open>(x - y).abs() <= 1e-3.max(..)\<close>), which is floating-point arithmetic.
\<close>

definition values_match :: "(f32 \<Rightarrow> f32 \<Rightarrow> bool) \<Rightarrow> NodeValue \<Rightarrow> NodeValue \<Rightarrow> bool" where
  "values_match float_close a b =
     (case (a, b) of (FloatV x, FloatV y) \<Rightarrow> float_close x y | _ \<Rightarrow> node_value_eq a b)"

definition defs_of :: "propmap \<Rightarrow> i32 \<Rightarrow> WingNodeDef list" where
  "defs_of entries nid = map snd (filter (\<lambda>(name, def). nd_id def = nid) entries)"

definition id_is_read_only :: "propmap \<Rightarrow> i32 \<Rightarrow> bool" where
  "id_is_read_only entries nid = (defs_of entries nid \<noteq> [] \<and> list_all nd_read_only (defs_of entries nid))"

definition index_has_label :: "propmap \<Rightarrow> i32 \<Rightarrow> i32 \<Rightarrow> string \<Rightarrow> bool" where
  "index_has_label entries nid idx label =
     (case usize_of_i32 idx of
        None \<Rightarrow> False
      | Some i \<Rightarrow> list_ex (\<lambda>def. case Option.bind (nd_string_enum def) (\<lambda>items. get_item items i) of
            None \<Rightarrow> False | Some item \<Rightarrow> se_item item = label) (defs_of entries nid))"

definition values_match_at :: "(f32 \<Rightarrow> f32 \<Rightarrow> bool) \<Rightarrow> propmap \<Rightarrow> i32 \<Rightarrow> NodeValue \<Rightarrow> NodeValue \<Rightarrow> bool" where
  "values_match_at float_close entries nid a b =
     (values_match float_close a b \<or>
      (case (a, b) of
         (IntV i, StringV s) \<Rightarrow> index_has_label entries nid i s
       | (StringV s, IntV i) \<Rightarrow> index_has_label entries nid i s
       | _ \<Rightarrow> False))"

record BinaryMismatch =
  bm_id :: i32
  bm_expected :: NodeValue
  bm_actual :: "NodeValue option"

record VerifyReport =
  vr_checked :: nat
  vr_skipped :: nat
  vr_mismatches :: "BinaryMismatch list"

text \<open>Collecting pairs into a map keeps the last value of an id.\<close>

definition capture_value_map :: "duration \<Rightarrow> Main \<Rightarrow> World \<Rightarrow> ((i32 \<rightharpoonup> NodeValue) result \<times> Main \<times> World) option" where
  "capture_value_map timeout r w =
     (case get_binary_node 0 timeout r w of
        None \<Rightarrow> None
      | Some (Inl e, s) \<Rightarrow> Some (Inl e, s)
      | Some (Inr buf, s) \<Rightarrow> Some (map_sum id (\<lambda>pairs. map_of (rev pairs)) (parse_binary_values buf), s))"

definition agrees :: "(f32 \<Rightarrow> f32 \<Rightarrow> bool) \<Rightarrow> propmap \<Rightarrow> (i32 \<rightharpoonup> NodeValue) \<Rightarrow> i32 \<times> NodeValue \<Rightarrow> bool" where
  "agrees float_close entries current pair =
     (case current (fst pair) of None \<Rightarrow> False | Some a \<Rightarrow> values_match_at float_close entries (fst pair) a (snd pair))"

fun first_pass :: "(f32 \<Rightarrow> f32 \<Rightarrow> bool) \<Rightarrow> propmap \<Rightarrow> (i32 \<rightharpoonup> NodeValue) \<Rightarrow> (i32 \<times> NodeValue) list \<Rightarrow>
    nat \<Rightarrow> nat \<Rightarrow> (i32 \<times> NodeValue \<times> NodeValue option) list \<Rightarrow> nat \<times> nat \<times> (i32 \<times> NodeValue \<times> NodeValue option) list" where
  "first_pass float_close entries current [] checked skips suspects = (checked, skips, suspects)"
| "first_pass float_close entries current ((nid, want) # rest) checked skips suspects =
     (if id_is_read_only entries nid then first_pass float_close entries current rest checked (skips + 1) suspects
      else first_pass float_close entries current rest (checked + 1) skips
        (if agrees float_close entries current (nid, want) then suspects else suspects @ [(nid, want, current nid)]))"

fun second_pass :: "(f32 \<Rightarrow> f32 \<Rightarrow> bool) \<Rightarrow> propmap \<Rightarrow> (i32 \<rightharpoonup> NodeValue) \<Rightarrow> (i32 \<times> NodeValue \<times> NodeValue option) list \<Rightarrow>
    BinaryMismatch list \<Rightarrow> BinaryMismatch list" where
  "second_pass float_close entries recheck [] out = out"
| "second_pass float_close entries recheck ((nid, want, first) # rest) out =
     second_pass float_close entries recheck rest
       (if agrees float_close entries recheck (nid, want) then out
        else out @ [\<lparr>bm_id = nid, bm_expected = want, bm_actual = recheck nid\<rparr>])"

definition verify_binary_node :: "(f32 \<Rightarrow> f32 \<Rightarrow> bool) \<Rightarrow> propmap \<Rightarrow> byte list \<Rightarrow> duration \<Rightarrow> duration \<Rightarrow> Main \<Rightarrow> World \<Rightarrow>
    (VerifyReport result \<times> Main \<times> World) option" where
  "verify_binary_node float_close entries data capture_timeout settle r w =
     (case parse_binary_values data of
        Inl e \<Rightarrow> Some (Inl e, r, w)
      | Inr expected \<Rightarrow>
          (case capture_value_map capture_timeout r w of
             None \<Rightarrow> None
           | Some (Inl e, r, w) \<Rightarrow> Some (Inl e, r, w)
           | Some (Inr current, r, w) \<Rightarrow>
               (case first_pass float_close entries current expected 0 0 [] of (checked, skips, suspects) \<Rightarrow>
                let report = \<lparr>vr_checked = checked, vr_skipped = skips, vr_mismatches = []\<rparr> in
                if suspects = [] then Some (Inr report, r, w)
                else if settle = 0 then
                  Some (Inr (report\<lparr>vr_mismatches :=
                    map (\<lambda>(nid, want, actual). \<lparr>bm_id = nid, bm_expected = want, bm_actual = actual\<rparr>) suspects\<rparr>), r, w)
                else (case capture_value_map capture_timeout r w of
                  None \<Rightarrow> None
                | Some (Inl e, r, w) \<Rightarrow> Some (Inl e, r, w)
                | Some (Inr recheck, r, w) \<Rightarrow>
                    Some (Inr (report\<lparr>vr_mismatches := second_pass float_close entries recheck suspects []\<rparr>), r, w)))))"

lemma first_pass_eq:
  "first_pass float_close entries current pairs checked skips suspects =
     (checked + length (filter (\<lambda>p. \<not> id_is_read_only entries (fst p)) pairs),
      skips + length (filter (\<lambda>p. id_is_read_only entries (fst p)) pairs),
      suspects @ map (\<lambda>p. (fst p, snd p, current (fst p)))
        (filter (\<lambda>p. \<not> id_is_read_only entries (fst p) \<and> \<not> agrees float_close entries current p) pairs))"
  by (induction float_close entries current pairs checked skips suspects rule: first_pass.induct) auto

lemma second_pass_eq:
  "second_pass float_close entries recheck suspects out = out @
     map (\<lambda>(nid, want, first). \<lparr>bm_id = nid, bm_expected = want, bm_actual = recheck nid\<rparr>)
       (filter (\<lambda>(nid, want, first). \<not> agrees float_close entries recheck (nid, want)) suspects)"
  by (induction float_close entries recheck suspects out rule: second_pass.induct) auto

text \<open>
  C28. The verification report is exact: every parameter of the buffer is counted as checked or
  as skipped, and the mismatches are, in buffer order, precisely the writable parameters whose
  expected value the captured desk does not show, neither at once nor, when a settle time is
  given, in the second capture. So an empty report on a buffer with writable parameters means
  the desk shows every one of them.
\<close>

theorem verify_report_exact:
  assumes "verify_binary_node float_close entries data capture_timeout settle r w = Some (Inr report, r', w')"
  shows "\<exists>expected current final. parse_binary_values data = Inr expected \<and>
    vr_checked report + vr_skipped report = length expected \<and>
    vr_checked report = length (filter (\<lambda>p. \<not> id_is_read_only entries (fst p)) expected) \<and>
    (\<exists>r1 w1. capture_value_map capture_timeout r w = Some (Inr current, r1, w1) \<and>
       (settle = 0 \<and> final = current \<or> (\<exists>r2 w2. capture_value_map capture_timeout r1 w1 = Some (Inr final, r2, w2)) \<or>
        final = current \<and> vr_mismatches report = [])) \<and>
    vr_mismatches report =
      map (\<lambda>p. \<lparr>bm_id = fst p, bm_expected = snd p, bm_actual = final (fst p)\<rparr>)
        (filter (\<lambda>p. \<not> id_is_read_only entries (fst p) \<and> \<not> agrees float_close entries current p \<and>
           \<not> agrees float_close entries final p) expected)"
proof -
  have len: "length (filter (\<lambda>p. \<not> P p) xs) + length (filter P xs) = length xs" for P and xs :: "(i32 \<times> NodeValue) list"
    using sum_length_filter_compl [of P xs] by simp
  from assms obtain expected current r1 w1 where
    e: "parse_binary_values data = Inr expected" and c: "capture_value_map capture_timeout r w = Some (Inr current, r1, w1)"
    by (auto simp: verify_binary_node_def split: sum.splits option.splits prod.splits)
  define suspects where "suspects = filter (\<lambda>p. \<not> id_is_read_only entries (fst p) \<and> \<not> agrees float_close entries current p) expected"
  note run = assms [unfolded verify_binary_node_def e c, simplified, unfolded first_pass_eq, simplified, folded suspects_def, simplified Let_def]
  consider (clean) "suspects = []" | (now) "suspects \<noteq> []" "settle = 0" | (later) "suspects \<noteq> []" "settle \<noteq> 0" by blast
  then show ?thesis
  proof cases
    case clean
    with run c e have rep: "report = \<lparr>vr_checked = length (filter (\<lambda>p. \<not> id_is_read_only entries (fst p)) expected),
        vr_skipped = length (filter (\<lambda>p. id_is_read_only entries (fst p)) expected), vr_mismatches = []\<rparr>" by auto
    have "filter (\<lambda>p. \<not> id_is_read_only entries (fst p) \<and> \<not> agrees float_close entries current p \<and>
           \<not> agrees float_close entries current p) expected = []" using clean by (simp add: suspects_def)
    then show ?thesis using rep c e len [of "\<lambda>p. id_is_read_only entries (fst p)" expected]
      by (intro exI [of _ expected] exI [of _ current]) simp
  next
    case now
    with run have rep: "report = \<lparr>vr_checked = length (filter (\<lambda>p. \<not> id_is_read_only entries (fst p)) expected),
        vr_skipped = length (filter (\<lambda>p. id_is_read_only entries (fst p)) expected),
        vr_mismatches = map (\<lambda>p. \<lparr>bm_id = fst p, bm_expected = snd p, bm_actual = current (fst p)\<rparr>) suspects\<rparr>"
      by (auto simp: comp_def)
    show ?thesis using rep c e now len [of "\<lambda>p. id_is_read_only entries (fst p)" expected]
      by (intro exI [of _ expected] exI [of _ current]) (simp add: suspects_def)
  next
    case later
    with run obtain final r2 w2 where f: "capture_value_map capture_timeout r1 w1 = Some (Inr final, r2, w2)"
      by (auto split: option.splits sum.splits prod.splits)
    with run later have rep: "report = \<lparr>vr_checked = length (filter (\<lambda>p. \<not> id_is_read_only entries (fst p)) expected),
        vr_skipped = length (filter (\<lambda>p. id_is_read_only entries (fst p)) expected),
        vr_mismatches = map (\<lambda>p. \<lparr>bm_id = fst p, bm_expected = snd p, bm_actual = final (fst p)\<rparr>)
          (filter (\<lambda>p. \<not> agrees float_close entries final p) suspects)\<rparr>"
      by (auto simp: second_pass_eq filter_map comp_def)
    have "filter (\<lambda>p. \<not> agrees float_close entries final p) suspects =
        filter (\<lambda>p. \<not> id_is_read_only entries (fst p) \<and> \<not> agrees float_close entries current p \<and>
           \<not> agrees float_close entries final p) expected"
      by (auto simp: suspects_def intro: filter_cong)
    then show ?thesis using rep c e f len [of "\<lambda>p. id_is_read_only entries (fst p)" expected]
      by (intro exI [of _ expected] exI [of _ current] exI [of _ final]) simp
  qed
qed

definition desk_buffer :: "byte list" where
  "desk_buffer = [0xd7, 0, 0, 0, 5, 1, 0xd7, 0, 0, 0, 6, 2, 0xde]"

definition desk_world :: World where
  "desk_world = split_world\<lparr>w_clock := [], w_input := [Received [0xd7, 0, 0, 0, 5, 1, 0xd7, 0, 0, 0, 6, 3, 0xde]]\<rparr>"

lemma verify_run:
  "map_option fst (verify_binary_node (=) [] desk_buffer 1000 0 (new_main 0) desk_world) =
     Some (Inr \<lparr>vr_checked = 2, vr_skipped = 0,
       vr_mismatches = [\<lparr>bm_id = 6, bm_expected = IntV 2, bm_actual = Some (IntV 3)\<rparr>]\<rparr>)"
  by code_simp

theorem verify_report_exact_witness:
  "\<exists>report expected current final. map_option fst (verify_binary_node (=) [] desk_buffer 1000 0 (new_main 0) desk_world) = Some (Inr report) \<and>
     parse_binary_values desk_buffer = Inr expected \<and> vr_mismatches report =
      map (\<lambda>p. \<lparr>bm_id = fst p, bm_expected = snd p, bm_actual = final (fst p)\<rparr>)
        (filter (\<lambda>p. \<not> id_is_read_only [] (fst p) \<and> \<not> agrees (=) [] current p \<and> \<not> agrees (=) [] final p) expected)"
proof -
  from verify_run obtain report r' w' where
    v: "verify_binary_node (=) [] desk_buffer 1000 0 (new_main 0) desk_world = Some (Inr report, r', w')" by auto
  from verify_report_exact [OF v] v show ?thesis by (simp, blast)
qed

end
