(* ===== verification/Schema.thy ===== *)
theory Schema
  imports Dump Rust_Num
begin

text \<open>
  Risk classes of \<open>src/safety.rs\<close> and the model-aware resolution of \<open>src/schema.rs\<close>: firmware
  versions and staleness, the choice among definitions sharing an id, and the overlay a
  session fills from live definitions. The embedded property map is a parameter.
\<close>

section \<open>Operations and their risk\<close>

datatype RiskClass = ReadOnly | Transient | StateChanging | PersistentStorage | SnapshotRecall | Routing
  | GainPhantom | Gpio | RecorderTransport | DestructiveSchemaCrawl

definition requires_confirmation :: "RiskClass \<Rightarrow> bool" where
  "requires_confirmation c \<longleftrightarrow> \<not> (case c of ReadOnly \<Rightarrow> True | Transient \<Rightarrow> True | _ \<Rightarrow> False)"

fun show_risk :: "RiskClass \<Rightarrow> string" where
  "show_risk ReadOnly = ''read-only''"
| "show_risk Transient = ''transient''"
| "show_risk StateChanging = ''state-changing''"
| "show_risk PersistentStorage = ''persistent-storage''"
| "show_risk SnapshotRecall = ''snapshot-recall''"
| "show_risk Routing = ''routing''"
| "show_risk GainPhantom = ''gain-phantom''"
| "show_risk Gpio = ''gpio''"
| "show_risk RecorderTransport = ''recorder-transport''"
| "show_risk DestructiveSchemaCrawl = ''destructive-schema-crawl''"

datatype Operation = ReadNodeData | ReadNodeDefinition | Discover | Connect | SubscribeMeters | ReadMeters
  | KeepAlive | SetNodeValue | SchemaCrawl

fun risk_class :: "Operation \<Rightarrow> RiskClass" where
  "risk_class ReadNodeData = ReadOnly"
| "risk_class ReadNodeDefinition = ReadOnly"
| "risk_class Discover = ReadOnly"
| "risk_class Connect = Transient"
| "risk_class SubscribeMeters = Transient"
| "risk_class ReadMeters = Transient"
| "risk_class KeepAlive = Transient"
| "risk_class SetNodeValue = StateChanging"
| "risk_class SchemaCrawl = DestructiveSchemaCrawl"

record ConfirmationRequired =
  cr_operation :: Operation
  cr_class :: RiskClass

definition ensure_allowed :: "(Operation \<Rightarrow> bool) \<Rightarrow> Operation \<Rightarrow> ConfirmationRequired + unit" where
  "ensure_allowed confirm op =
     (let class = risk_class op in
      if requires_confirmation class \<and> \<not> confirm op then Inl \<lparr>cr_operation = op, cr_class = class\<rparr> else Inr ())"

datatype TransportAvailability = NativeOnly | OscOnly | BothTransports | NonNetwork

fun transport_availability :: "Operation \<Rightarrow> TransportAvailability" where
  "transport_availability ReadNodeData = BothTransports"
| "transport_availability ReadNodeDefinition = BothTransports"
| "transport_availability Discover = NativeOnly"
| "transport_availability Connect = NativeOnly"
| "transport_availability SubscribeMeters = NativeOnly"
| "transport_availability ReadMeters = NativeOnly"
| "transport_availability KeepAlive = NativeOnly"
| "transport_availability SetNodeValue = BothTransports"
| "transport_availability SchemaCrawl = BothTransports"

section \<open>Firmware versions\<close>

definition FIRMWARE_BASELINE :: string where
  "FIRMWARE_BASELINE = ''3.1''"

text \<open>Segments are \<open>u32\<close>: a longer digit run fails to parse. \<open>split\<close> gives at least one segment.\<close>

definition parse_segment :: "string \<Rightarrow> nat option" where
  "parse_segment segment =
     (let digits = takeWhile is_digit segment in
      if digits = [] then None else parse_unsigned (2 ^ 32 - 1) digits)"

fun parse_segments :: "string list \<Rightarrow> nat list option" where
  "parse_segments [] = Some []"
| "parse_segments (s # ss) =
     Option.bind (parse_segment s) (\<lambda>n. map_option ((#) n) (parse_segments ss))"

definition parse_version :: "string \<Rightarrow> nat list option" where
  "parse_version s =
     Option.bind (parse_segments (split_on CHR ''.'' s)) (\<lambda>parts. if parts = [] then None else Some parts)"

datatype Ordering = Less | Equal | Greater

definition cmp :: "nat \<Rightarrow> nat \<Rightarrow> Ordering" where
  "cmp x y = (if x < y then Less else if x = y then Equal else Greater)"

definition segment_at :: "nat list \<Rightarrow> nat \<Rightarrow> nat" where
  "segment_at xs i = (if i < length xs then xs ! i else 0)"

fun compare_from :: "nat list \<Rightarrow> nat list \<Rightarrow> nat list \<Rightarrow> Ordering" where
  "compare_from a b [] = Equal"
| "compare_from a b (i # js) =
     (let ord = cmp (segment_at a i) (segment_at b i) in if ord \<noteq> Equal then ord else compare_from a b js)"

definition compare_versions :: "nat list \<Rightarrow> nat list \<Rightarrow> Ordering" where
  "compare_versions a b = compare_from a b [0..<max (length a) (length b)]"

datatype Staleness = Current | MapOlder | MapNewer | UnknownStaleness

definition staleness :: "string \<Rightarrow> Staleness" where
  "staleness console_firmware =
     (case (parse_version FIRMWARE_BASELINE, parse_version console_firmware) of
        (Some baseline, Some console) \<Rightarrow>
          (case compare_versions console baseline of Greater \<Rightarrow> MapOlder | Less \<Rightarrow> MapNewer | Equal \<Rightarrow> Current)
      | _ \<Rightarrow> UnknownStaleness)"

section \<open>Resolution\<close>

datatype Provenance = Embedded | Live

datatype Resolution =
    Confirmed string WingNodeDef Provenance
  | Unknown i32 "string option"

definition model_needle :: "string \<Rightarrow> string" where
  "model_needle model = ''/'' @ model @ ''/''"

definition resolve_candidates :: "i32 \<Rightarrow> string option \<Rightarrow> (string \<times> WingNodeDef) list \<Rightarrow> Provenance \<Rightarrow> Resolution" where
  "resolve_candidates nid model candidates provenance =
     (case candidates of
        [] \<Rightarrow> Unknown nid model
      | [(fullname, def)] \<Rightarrow> Confirmed fullname def provenance
      | _ \<Rightarrow>
          (case model of
             None \<Rightarrow> Unknown nid None
           | Some model \<Rightarrow>
               (case filter (\<lambda>(fullname, def). contains (model_needle model) fullname) candidates of
                  [(fullname, def)] \<Rightarrow> Confirmed fullname def provenance
                | _ \<Rightarrow> Unknown nid (Some model))))"

text \<open>
  \<open>id_to_defs_iter\<close> and \<open>name_to_id\<close> on the embedded map; a decimal number is an id of its own, whatever the
  map holds.
\<close>

definition id_to_defs :: "propmap \<Rightarrow> i32 \<Rightarrow> (string \<times> WingNodeDef) list option" where
  "id_to_defs entries nid =
     (let found = filter (\<lambda>(name, def). nd_id def = nid) entries in if found = [] then None else Some found)"

definition embedded_id :: "propmap \<Rightarrow> string \<Rightarrow> i32 option" where
  "embedded_id entries name = map_option nd_id (map_of entries name)"

definition name_to_id :: "propmap \<Rightarrow> string \<Rightarrow> i32 option" where
  "name_to_id entries name = (case parse_i32 name of Some num \<Rightarrow> Some num | None \<Rightarrow> embedded_id entries name)"

definition resolve_id :: "propmap \<Rightarrow> i32 \<Rightarrow> string option \<Rightarrow> Resolution option" where
  "resolve_id entries nid model =
     map_option (\<lambda>candidates. resolve_candidates nid model candidates Embedded) (id_to_defs entries nid)"

definition resolve_path :: "propmap \<Rightarrow> string \<Rightarrow> string option \<Rightarrow> Resolution option" where
  "resolve_path entries fullname model = Option.bind (name_to_id entries fullname) (\<lambda>nid. resolve_id entries nid model)"

record MapMetadata =
  md_firmware_baseline :: string
  md_source :: string
  md_entry_count :: nat

definition metadata :: "propmap \<Rightarrow> MapMetadata" where
  "metadata entries = \<lparr>md_firmware_baseline = FIRMWARE_BASELINE,
     md_source = ''full per-model sweep (propmap.jsonl), embedded at build time'', md_entry_count = length entries\<rparr>"

section \<open>The live overlay\<close>

record LiveSchema =
  ls_by_id :: "i32 \<rightharpoonup> (string \<times> WingNodeDef) list"
  ls_by_path :: "string \<rightharpoonup> i32"

definition new_live :: LiveSchema where
  "new_live = \<lparr>ls_by_id = Map.empty, ls_by_path = Map.empty\<rparr>"

definition single_path :: "(string \<times> WingNodeDef) list \<Rightarrow> string option" where
  "single_path candidates = (case candidates of [(name, _)] \<Rightarrow> Some name | _ \<Rightarrow> None)"

definition placeholder :: "i32 \<Rightarrow> string" where
  "placeholder nid = ''#'' @ show_int (sint nid)"

definition ends_with :: "string \<Rightarrow> string \<Rightarrow> bool" where
  "ends_with p s \<longleftrightarrow> strip_suffix p s \<noteq> None"

definition parent_path :: "propmap \<Rightarrow> LiveSchema \<Rightarrow> i32 \<Rightarrow> string option" where
  "parent_path entries ls parent_id =
     (case Option.bind (ls_by_id ls parent_id) single_path of
        Some p \<Rightarrow> Some p
      | None \<Rightarrow> Option.bind (id_to_defs entries parent_id) single_path)"

definition synthesize_fullname :: "propmap \<Rightarrow> LiveSchema \<Rightarrow> WingNodeDef \<Rightarrow> string option" where
  "synthesize_fullname entries ls def =
     Option.bind (parent_path entries ls (nd_parent_id def)) (\<lambda>parent.
       let fullname = parent @ ''/'' @ nd_name def;
           tail_part = ''/'' @ nd_name def;
           is_unqualified_model_child =
             (case id_to_defs entries (nd_id def) of
                None \<Rightarrow> False
              | Some defs \<Rightarrow> list_ex (\<lambda>(embedded, _). embedded \<noteq> fullname \<and> ends_with tail_part embedded) defs) in
       if is_unqualified_model_child then None else Some fullname)"

text \<open>The first slot of that name is overwritten, or the definition is appended.\<close>

fun upsert :: "string \<Rightarrow> WingNodeDef \<Rightarrow> (string \<times> WingNodeDef) list \<Rightarrow> (string \<times> WingNodeDef) list" where
  "upsert key def [] = [(key, def)]"
| "upsert key def ((name, d) # rest) = (if name = key then (name, def) # rest else (name, d) # upsert key def rest)"

definition apply_node_def :: "propmap \<Rightarrow> WingNodeDef \<Rightarrow> string option \<Rightarrow> LiveSchema \<Rightarrow> LiveSchema" where
  "apply_node_def entries def fullname ls =
     (let resolved = (case fullname of Some s \<Rightarrow> Some s | None \<Rightarrow> synthesize_fullname entries ls def);
          key = (case resolved of Some s \<Rightarrow> s | None \<Rightarrow> placeholder (nd_id def));
          candidates = (case ls_by_id ls (nd_id def) of Some cs \<Rightarrow> cs | None \<Rightarrow> []);
          candidates = (if resolved \<noteq> None then filter (\<lambda>(name, _). name \<noteq> placeholder (nd_id def)) candidates else candidates);
          ls = ls\<lparr>ls_by_id := (ls_by_id ls)(nd_id def \<mapsto> upsert key def candidates)\<rparr> in
      case resolved of
        Some s \<Rightarrow> ls\<lparr>ls_by_path := (ls_by_path ls)(s \<mapsto> nd_id def)\<rparr>
      | None \<Rightarrow> ls)"

definition live_resolve_id :: "propmap \<Rightarrow> LiveSchema \<Rightarrow> i32 \<Rightarrow> string option \<Rightarrow> Resolution option" where
  "live_resolve_id entries ls nid model =
     (case ls_by_id ls nid of
        None \<Rightarrow> resolve_id entries nid model
      | Some candidates \<Rightarrow>
          (let live = resolve_candidates nid model candidates Live in
           case model of
             None \<Rightarrow> Some live
           | Some m \<Rightarrow>
               (let needle = model_needle m;
                    live_has_model = list_ex (\<lambda>(name, _). contains needle name) candidates;
                    unplaced_live = list_ex (\<lambda>(name, _). starts_with ''#'' name) candidates in
                if \<not> live_has_model \<and> \<not> unplaced_live then
                  (case resolve_id entries nid (Some m) of
                     Some (Confirmed fullname def prov) \<Rightarrow>
                       if contains needle fullname then Some (Confirmed fullname def prov) else Some live
                   | _ \<Rightarrow> Some live)
                else Some live)))"

definition live_resolve_path :: "propmap \<Rightarrow> LiveSchema \<Rightarrow> string \<Rightarrow> string option \<Rightarrow> Resolution option" where
  "live_resolve_path entries ls fullname model =
     (case ls_by_path ls fullname of
        Some nid \<Rightarrow> live_resolve_id entries ls nid model
      | None \<Rightarrow> resolve_path entries fullname model)"

definition refresh_subtree :: "propmap \<Rightarrow> i32 \<Rightarrow> duration \<Rightarrow> LiveSchema \<Rightarrow> Main \<Rightarrow> World \<Rightarrow>
    (nat result \<times> LiveSchema \<times> Main \<times> World) option" where
  "refresh_subtree entries root_id timeout ls r w =
     (case get_node_definitions root_id timeout r w of
        None \<Rightarrow> None
      | Some (Inl e, r, w) \<Rightarrow> Some (Inl e, ls, r, w)
      | Some (Inr definitions, r, w) \<Rightarrow>
          Some (Inr (length definitions), fold (\<lambda>def ls. apply_node_def entries def None ls) definitions ls, r, w))"

section \<open>Models as runs of path segments\<close>

lemma split_on_append: "split_on c (a @ c # b) = split_on c a @ split_on c b"
  by (induction a) (auto split: list.splits)

lemma join_append: "xs \<noteq> [] \<Longrightarrow> ys \<noteq> [] \<Longrightarrow> join_with c (xs @ ys) = join_with c xs @ c # join_with c ys"
proof (induction c xs rule: join_with.induct)
  case (2 c s)
  then show ?case by (cases ys) auto
qed auto

lemma contains_iff: "contains needle s \<longleftrightarrow> (\<exists>a b. s = a @ needle @ b)"
proof (induction s)
  case (Cons c s)
  have "(\<exists>a b. c # s = a @ needle @ b) \<longleftrightarrow> (\<exists>b. c # s = needle @ b) \<or> (\<exists>a b. s = a @ needle @ b)"
    by (metis append_Cons append_Nil append_eq_Cons_conv)
  with Cons show ?case by (simp add: starts_with_iff)
qed simp

definition segment_run :: "string \<Rightarrow> string \<Rightarrow> bool" where
  "segment_run model fullname \<longleftrightarrow>
     (\<exists>before after. before \<noteq> [] \<and> after \<noteq> [] \<and>
        split_on CHR ''/'' fullname = before @ split_on CHR ''/'' model @ after)"

lemma contains_model: "contains (model_needle model) fullname \<longleftrightarrow> segment_run model fullname"
proof
  assume "contains (model_needle model) fullname"
  then obtain a b where "fullname = a @ CHR ''/'' # model @ CHR ''/'' # b" by (auto simp: contains_iff model_needle_def)
  then have "split_on CHR ''/'' fullname = split_on CHR ''/'' a @ split_on CHR ''/'' model @ split_on CHR ''/'' b"
    by (simp add: split_on_append)
  then show "segment_run model fullname" unfolding segment_run_def by (metis split_on_ne)
next
  assume "segment_run model fullname"
  then obtain before after where s: "before \<noteq> []" "after \<noteq> []"
    "split_on CHR ''/'' fullname = before @ split_on CHR ''/'' model @ after" unfolding segment_run_def by blast
  have "fullname = join_with CHR ''/'' (before @ split_on CHR ''/'' model @ after)" by (metis join_split s(3))
  also have "\<dots> = join_with CHR ''/'' before @ model_needle model @ join_with CHR ''/'' after"
    using s(1,2) by (simp add: join_append model_needle_def)
  finally show "contains (model_needle model) fullname" by (auto simp: contains_iff)
qed


section \<open>Versions\<close>

definition version_less :: "nat list \<Rightarrow> nat list \<Rightarrow> bool" where
  "version_less a b \<longleftrightarrow> (\<exists>k. (\<forall>j<k. segment_at a j = segment_at b j) \<and> segment_at a k < segment_at b k)"

lemma first_difference_Suc:
  fixes i n :: nat
  assumes "E i" and "\<And>k. L k \<Longrightarrow> \<not> E k"
  shows "(\<exists>k. i \<le> k \<and> k < n \<and> (\<forall>j. i \<le> j \<and> j < k \<longrightarrow> E j) \<and> L k) \<longleftrightarrow>
     (\<exists>k. Suc i \<le> k \<and> k < n \<and> (\<forall>j. Suc i \<le> j \<and> j < k \<longrightarrow> E j) \<and> L k)"
proof -
  have "(i \<le> k \<and> k < n \<and> (\<forall>j. i \<le> j \<and> j < k \<longrightarrow> E j) \<and> L k) \<longleftrightarrow>
      (Suc i \<le> k \<and> k < n \<and> (\<forall>j. Suc i \<le> j \<and> j < k \<longrightarrow> E j) \<and> L k)" for k
  proof (cases "k = i")
    case True
    with assms show ?thesis by auto
  next
    case False
    have "(\<forall>j. i \<le> j \<and> j < k \<longrightarrow> E j) \<longleftrightarrow> (\<forall>j. Suc i \<le> j \<and> j < k \<longrightarrow> E j)"
      using assms(1) by (metis Suc_leD Suc_leI le_neq_implies_less)
    with False show ?thesis by (auto simp: Suc_le_eq)
  qed
  then show ?thesis by simp
qed

lemma compare_from_Less:
  "compare_from a b [i..<n] = Less \<longleftrightarrow>
     (\<exists>k. i \<le> k \<and> k < n \<and> (\<forall>j. i \<le> j \<and> j < k \<longrightarrow> segment_at a j = segment_at b j) \<and> segment_at a k < segment_at b k)"
proof (induction "n - i" arbitrary: i)
  case 0
  then show ?case by auto
next
  case (Suc d)
  then have i: "i < n" by simp
  have IH: "compare_from a b [Suc i..<n] = Less \<longleftrightarrow> (\<exists>k. Suc i \<le> k \<and> k < n \<and>
      (\<forall>j. Suc i \<le> j \<and> j < k \<longrightarrow> segment_at a j = segment_at b j) \<and> segment_at a k < segment_at b k)"
    using Suc by simp
  consider "segment_at a i < segment_at b i" | "segment_at a i = segment_at b i" | "segment_at a i > segment_at b i" by linarith
  then show ?case
  proof cases
    case 2
    then have "compare_from a b [i..<n] = compare_from a b [Suc i..<n]" using i by (simp add: upt_conv_Cons cmp_def)
    moreover note IH
    moreover have "(\<exists>k. i \<le> k \<and> k < n \<and> (\<forall>j. i \<le> j \<and> j < k \<longrightarrow> segment_at a j = segment_at b j) \<and> segment_at a k < segment_at b k) \<longleftrightarrow>
        (\<exists>k. Suc i \<le> k \<and> k < n \<and> (\<forall>j. Suc i \<le> j \<and> j < k \<longrightarrow> segment_at a j = segment_at b j) \<and> segment_at a k < segment_at b k)"
      using 2 by (intro first_difference_Suc) simp_all
    ultimately show ?thesis by (simp only:)
  next
    case 1
    then show ?thesis using i by (auto simp: upt_conv_Cons cmp_def)
  next
    case 3
    have "\<not> (i \<le> k \<and> (\<forall>j. i \<le> j \<and> j < k \<longrightarrow> segment_at a j = segment_at b j) \<and> segment_at a k < segment_at b k)" for k
      using 3 by (cases "k = i") (auto dest: spec [of _ i])
    with 3 i show ?thesis by (simp add: upt_conv_Cons cmp_def)
  qed
qed

lemma compare_from_flip: "compare_from a b js = Greater \<longleftrightarrow> compare_from b a js = Less"
  by (induction js) (auto simp: cmp_def Let_def)

lemma segments_agree_past: "length a \<le> k \<Longrightarrow> length b \<le> k \<Longrightarrow> segment_at a k = segment_at b k"
  by (simp add: segment_at_def)

lemma compare_versions_Less: "compare_versions a b = Less \<longleftrightarrow> version_less a b"
proof -
  have "k < max (length a) (length b)" if "segment_at a k < segment_at b k" for k
    using segments_agree_past [of a k b] that by (metis less_irrefl max_less_iff_conj not_less le_max_iff_disj max.cobounded1 max.cobounded2 order_trans)
  then show ?thesis by (auto simp: compare_versions_def version_less_def compare_from_Less)
qed

lemma compare_versions_Greater: "compare_versions a b = Greater \<longleftrightarrow> version_less b a"
  unfolding compare_versions_Less [symmetric] by (simp add: compare_versions_def compare_from_flip max.commute)

lemma version_less_linear: "\<not> version_less a b \<Longrightarrow> \<not> version_less b a \<Longrightarrow> segment_at a k = segment_at b k"
proof (induction k rule: less_induct)
  case (less k)
  then show ?case unfolding version_less_def by (metis linorder_neqE_nat)
qed

lemma version_less_irrefl: "version_less a b \<Longrightarrow> \<not> (\<forall>k. segment_at a k = segment_at b k)"
  by (metis less_irrefl version_less_def)

lemma version_less_asym: "version_less a b \<Longrightarrow> \<not> version_less b a"
  unfolding version_less_def by (metis less_asym linorder_neqE_nat less_irrefl)

lemma compare_versions_Equal: "compare_versions a b = Equal \<longleftrightarrow> (\<forall>k. segment_at a k = segment_at b k)"
proof (cases "compare_versions a b")
  case Less
  then show ?thesis using compare_versions_Less [of a b] version_less_irrefl [of a b] by auto
next
  case Greater
  then show ?thesis using compare_versions_Greater [of a b] version_less_irrefl [of b a] by (auto, metis)
next
  case Equal
  then have "\<not> version_less a b" "\<not> version_less b a"
    using compare_versions_Less [of a b] compare_versions_Greater [of a b] by auto
  then show ?thesis using Equal version_less_linear by blast
qed

text \<open>
  Staleness is decided by the numeric order of the version segments, missing ones counting as zero: the map
  is older exactly when the console's version is greater than the baseline 3.1, newer when it is less,
  current when every segment agrees, and unknown exactly when the string is not a version.
\<close>

theorem staleness_by_version_order:
  "staleness firmware =
     (case parse_version firmware of
        None \<Rightarrow> UnknownStaleness
      | Some v \<Rightarrow> if version_less [3, 1] v then MapOlder else if version_less v [3, 1] then MapNewer else Current)"
proof -
  have b: "parse_version FIRMWARE_BASELINE = Some [3, 1]"
    by (simp add: parse_version_def FIRMWARE_BASELINE_def parse_segment_def parse_unsigned_def parse_digits_def is_digit_def digit_val_def Let_def)
  show "staleness firmware =
     (case parse_version firmware of
        None \<Rightarrow> UnknownStaleness
      | Some v \<Rightarrow> if version_less [3, 1] v then MapOlder else if version_less v [3, 1] then MapNewer else Current)"
  proof (cases "parse_version firmware")
    case None
    then show ?thesis by (simp add: staleness_def b)
  next
    case (Some v)
    then show ?thesis
      using compare_versions_Less [of v "[3, 1]"] compare_versions_Greater [of v "[3, 1]"] version_less_asym [of v "[3, 1]"]
      by (cases "compare_versions v [3, 1]") (simp_all add: staleness_def b)
  qed
qed

section \<open>The overlay's invariant\<close>

definition overlay_ok :: "LiveSchema \<Rightarrow> bool" where
  "overlay_ok ls \<longleftrightarrow>
     (\<forall>i cs. ls_by_id ls i = Some cs \<longrightarrow> cs \<noteq> [] \<and> distinct (map fst cs) \<and> (\<forall>p\<in>set cs. nd_id (snd p) = i)) \<and>
     (\<forall>p i. ls_by_path ls p = Some i \<longrightarrow>
        (\<exists>cs. ls_by_id ls i = Some cs \<and> (p = placeholder i \<or> p \<in> fst ` set cs)))"

lemma new_live_ok: "overlay_ok new_live"
  by (simp add: overlay_ok_def new_live_def)

lemma upsert_names: "set (map fst (upsert key def cs)) = insert key (set (map fst cs))"
  by (induction key def cs rule: upsert.induct) auto

lemma upsert_ne [simp]: "upsert key def cs \<noteq> []"
  by (induction key def cs rule: upsert.induct) auto

lemma upsert_distinct: "distinct (map fst cs) \<Longrightarrow> distinct (map fst (upsert key def cs))"
proof (induction key def cs rule: upsert.induct)
  case (2 key def name d rest)
  have "fst ` set (upsert key def rest) = insert key (fst ` set rest)" using upsert_names [of key def rest] by simp
  with 2 show ?case by auto
qed simp

lemma upsert_set: "set (upsert key def cs) \<subseteq> insert (key, def) (set cs)"
  by (induction key def cs rule: upsert.induct) auto

lemma upsert_in: "(key, def) \<in> set (upsert key def cs)"
  by (induction key def cs rule: upsert.induct) auto

text \<open>The candidates a definition joins, after the placeholder was dropped.\<close>

definition joined :: "propmap \<Rightarrow> WingNodeDef \<Rightarrow> string option \<Rightarrow> LiveSchema \<Rightarrow> (string \<times> WingNodeDef) list" where
  "joined entries def resolved ls =
     (let cs = (case ls_by_id ls (nd_id def) of Some cs \<Rightarrow> cs | None \<Rightarrow> []) in
      if resolved \<noteq> None then filter (\<lambda>(name, _). name \<noteq> placeholder (nd_id def)) cs else cs)"

definition resolved_name :: "propmap \<Rightarrow> WingNodeDef \<Rightarrow> string option \<Rightarrow> LiveSchema \<Rightarrow> string option" where
  "resolved_name entries def fullname ls =
     (case fullname of Some s \<Rightarrow> Some s | None \<Rightarrow> synthesize_fullname entries ls def)"

lemma apply_node_def_parts:
  fixes fullname entries def ls
  defines "res \<equiv> resolved_name entries def fullname ls"
  defines "key \<equiv> (case res of Some s \<Rightarrow> s | None \<Rightarrow> placeholder (nd_id def))"
  shows "ls_by_id (apply_node_def entries def fullname ls) = (ls_by_id ls)(nd_id def \<mapsto> upsert key def (joined entries def res ls))"
    and "ls_by_path (apply_node_def entries def fullname ls) =
      (case res of Some s \<Rightarrow> (ls_by_path ls)(s \<mapsto> nd_id def) | None \<Rightarrow> ls_by_path ls)"
  unfolding apply_node_def_def key_def res_def joined_def resolved_name_def Let_def
  by (auto split: option.splits)

lemma joined_ok:
  assumes "overlay_ok ls"
  shows "distinct (map fst (joined entries def res ls))" and "\<forall>p\<in>set (joined entries def res ls). nd_id (snd p) = nd_id def"
    and "ls_by_id ls (nd_id def) = Some cs \<Longrightarrow> p \<in> fst ` set cs \<Longrightarrow> p = placeholder (nd_id def) \<or> p \<in> fst ` set (joined entries def res ls)"
proof -
  define cs0 where "cs0 = (case ls_by_id ls (nd_id def) of Some cs \<Rightarrow> cs | None \<Rightarrow> [])"
  have base: "distinct (map fst cs0)" "\<forall>p\<in>set cs0. nd_id (snd p) = nd_id def"
    using assms by (cases "ls_by_id ls (nd_id def)"; auto simp: overlay_ok_def cs0_def)+
  have j: "joined entries def res ls = (if res \<noteq> None then filter (\<lambda>(name, _). name \<noteq> placeholder (nd_id def)) cs0 else cs0)"
    by (simp add: joined_def cs0_def Let_def)
  show "distinct (map fst (joined entries def res ls))" using base(1) by (simp add: j distinct_map_filter)
  show "\<forall>p\<in>set (joined entries def res ls). nd_id (snd p) = nd_id def" using base(2) by (simp add: j)
  show "p = placeholder (nd_id def) \<or> p \<in> fst ` set (joined entries def res ls)"
    if "ls_by_id ls (nd_id def) = Some cs" "p \<in> fst ` set cs"
    using that by (force simp: j cs0_def)
qed

lemma apply_node_def_ok:
  assumes "overlay_ok ls"
  shows "overlay_ok (apply_node_def entries def fullname ls)"
proof -
  define res where "res = resolved_name entries def fullname ls"
  define key where "key = (case res of Some s \<Rightarrow> s | None \<Rightarrow> placeholder (nd_id def))"
  define cs where "cs = upsert key def (joined entries def res ls)"
  let ?ls = "apply_node_def entries def fullname ls"
  note parts = apply_node_def_parts [where entries = entries and def = def and fullname = fullname and ls = ls, folded res_def, folded key_def, folded cs_def]
  note j = joined_ok [OF assms, where entries = entries and def = def and res = res]
  have names: "fst ` set cs = insert key (fst ` set (joined entries def res ls))"
    using upsert_names [of key def "joined entries def res ls"] by (simp add: cs_def)
  have "cs \<noteq> [] \<and> distinct (map fst cs) \<and> (\<forall>p\<in>set cs. nd_id (snd p) = nd_id def)"
    using j(1,2) upsert_distinct upsert_set [of key def "joined entries def res ls"] by (force simp: cs_def)
  moreover have "\<exists>cs. ls_by_id ?ls i = Some cs \<and> (p = placeholder i \<or> p \<in> fst ` set cs)" if "ls_by_path ?ls p = Some i" for p i
  proof (cases "res = Some p \<and> i = nd_id def")
    case True
    then show ?thesis using names by (auto simp: parts(1) key_def)
  next
    case False
    with that have old: "ls_by_path ls p = Some i" by (auto simp: parts(2) split: option.splits if_splits)
    with assms obtain cs0 where cs0: "ls_by_id ls i = Some cs0" "p = placeholder i \<or> p \<in> fst ` set cs0"
      unfolding overlay_ok_def by blast
    then show ?thesis using j(3) [where cs = cs0 and p = p] names by (cases "i = nd_id def") (auto simp: parts(1))
  qed
  ultimately show ?thesis using assms unfolding overlay_ok_def by (auto simp: parts(1))
qed

lemma apply_node_def_latest:
  "\<exists>cs name. ls_by_id (apply_node_def entries def fullname ls) (nd_id def) = Some cs \<and> (name, def) \<in> set cs"
  "i \<noteq> nd_id def \<Longrightarrow> ls_by_id (apply_node_def entries def fullname ls) i = ls_by_id ls i"
  using upsert_in by (auto simp: apply_node_def_parts(1))

definition ingest :: "propmap \<Rightarrow> WingNodeDef list \<Rightarrow> LiveSchema \<Rightarrow> LiveSchema" where
  "ingest entries ds ls = fold (\<lambda>def ls. apply_node_def entries def None ls) ds ls"

lemma ingest_latest:
  assumes "overlay_ok ls"
  shows "overlay_ok (ingest entries ds ls) \<and>
    (\<forall>i. case rev (filter (\<lambda>d. nd_id d = i) ds) of
       [] \<Rightarrow> ls_by_id (ingest entries ds ls) i = ls_by_id ls i
     | d # _ \<Rightarrow> \<exists>cs name. ls_by_id (ingest entries ds ls) i = Some cs \<and> (name, d) \<in> set cs)"
proof (induction ds rule: rev_induct)
  case Nil
  then show ?case using assms by (simp add: ingest_def)
next
  case (snoc d ds)
  have step: "ingest entries (ds @ [d]) ls = apply_node_def entries d None (ingest entries ds ls)" by (simp add: ingest_def)
  have "case rev (filter (\<lambda>x. nd_id x = i) (ds @ [d])) of
       [] \<Rightarrow> ls_by_id (ingest entries (ds @ [d]) ls) i = ls_by_id ls i
     | x # _ \<Rightarrow> \<exists>cs name. ls_by_id (ingest entries (ds @ [d]) ls) i = Some cs \<and> (name, x) \<in> set cs" for i
  proof (cases "nd_id d = i")
    case True
    then show ?thesis using apply_node_def_latest(1) [of entries d None "ingest entries ds ls"] by (simp add: step)
  next
    case False
    then show ?thesis
      using snoc [THEN conjunct2, THEN spec, of i] apply_node_def_latest(2) [of i d entries None "ingest entries ds ls"]
      by (simp add: step split: list.splits)
  qed
  then show ?case using snoc apply_node_def_ok by (auto simp: step)
qed



text \<open>
  C37. An overlay that has seen one model of a slot confirms that model's definition for any other model
  neither map knows, where the embedded map alone answers \<open>Unknown\<close>.
\<close>

theorem partial_overlay_confirms_other_model:
  assumes "ls_by_id ls nid = Some [(fullname, def)]" and "\<not> segment_run model fullname" and "\<not> starts_with ''#'' fullname"
    and "id_to_defs entries nid = Some candidates" and "2 \<le> length candidates" and "\<forall>p\<in>set candidates. \<not> segment_run model (fst p)"
  shows "resolve_id entries nid (Some model) = Some (Unknown nid (Some model)) \<and>
    live_resolve_id entries ls nid (Some model) = Some (Confirmed fullname def Live)"
proof -
  have "filter (\<lambda>(fullname, def). contains (model_needle model) fullname) candidates = []"
    using assms(6) by (auto simp: contains_model filter_empty_conv)
  with assms(4,5) have "resolve_id entries nid (Some model) = Some (Unknown nid (Some model))"
    by (auto simp: resolve_id_def resolve_candidates_def split: list.splits)
  with assms(1-3) show ?thesis
    by (simp add: live_resolve_id_def Let_def contains_model resolve_candidates_def)
qed

definition fx_map :: propmap where
  "fx_map = [(''/fx/1/EXT/egrp'', plain_leaf 9), (''/fx/1/HALL/pdel'', plain_leaf 9)]"

definition fx_overlay :: LiveSchema where
  "fx_overlay = apply_node_def fx_map (plain_leaf 9) (Some ''/fx/1/HALL/pdel'') new_live"

theorem partial_overlay_confirms_other_model_witness:
  "resolve_id fx_map 9 (Some ''NOPE'') = Some (Unknown 9 (Some ''NOPE'')) \<and>
    live_resolve_id fx_map fx_overlay 9 (Some ''NOPE'') = Some (Confirmed ''/fx/1/HALL/pdel'' (plain_leaf 9) Live)"
proof (rule partial_overlay_confirms_other_model)
  show "ls_by_id fx_overlay 9 = Some [(''/fx/1/HALL/pdel'', plain_leaf 9)]"
    by (simp add: fx_overlay_def apply_node_def_def new_live_def plain_leaf_def Let_def)
  show "id_to_defs fx_map 9 = Some fx_map" by (simp add: id_to_defs_def fx_map_def plain_leaf_def)
  have "\<not> contains (model_needle ''NOPE'') ''/fx/1/HALL/pdel''" "\<not> contains (model_needle ''NOPE'') ''/fx/1/EXT/egrp''" by code_simp+
  note others = this [unfolded contains_model]
  show "\<not> segment_run ''NOPE'' ''/fx/1/HALL/pdel''" by (rule others(1))
  show "\<forall>p\<in>set fx_map. \<not> segment_run ''NOPE'' (fst p)" using others by (simp add: fx_map_def)
qed (simp_all add: fx_map_def starts_with_def)

end
