(* ===== verification/PropIndex.thy ===== *)
theory PropIndex
  imports NodeDef "HOL-Library.Multiset" "HOL-Library.Product_Lexorder"
begin

text \<open>
  The embedded property map: the blob \<open>write_propmap_bin\<close> of \<open>tools/wingschema.rs\<close> writes and the view
  \<open>src/propindex.rs\<close> reads it through. \<open>None\<close> is a panic of the source (an index out of range, a
  failed \<open>assert\<close> or \<open>expect\<close>) or a probe that never ends; the properties show that neither happens on
  a written blob.
\<close>

unbundle bit_operations_syntax

section \<open>Records\<close>

definition push_entry :: "byte list \<Rightarrow> byte \<Rightarrow> string \<Rightarrow> byte list \<Rightarrow> byte list" where
  "push_entry raw flag fullname def_bytes =
     raw @ [flag] @ u16_be (word_of_nat (length fullname)) @ as_bytes fullname @
       u16_be (word_of_nat (length def_bytes)) @ def_bytes"

text \<open>\<open>i32::from_be_bytes([def[4], def[5], def[6], def[7]])\<close>.\<close>

definition def_id :: "byte list \<Rightarrow> i32 option" where
  "def_id d = (if length d < 8 then None else Some (u32_from_be (take 4 (drop 4 d))))"

text \<open>The scan of the records; the cursor of the source is the offset and the unread rest.\<close>

function scan_records :: "nat \<Rightarrow> byte list \<Rightarrow> (u32 \<times> byte list \<times> i32) list option" where
  "scan_records offset raw =
     (if raw = [] then Some []
      else if length raw < 3 then None
      else let namelen = unat (u16_from_be (take 2 (drop 1 raw))) in
        if length raw < 3 + namelen + 2 then None
        else let name = take namelen (drop 3 raw);
                 rest = drop (3 + namelen) raw;
                 deflen = unat (u16_from_be (take 2 rest)) in
          if length rest < 2 + deflen then None
          else case def_id (take deflen (drop 2 rest)) of
            None \<Rightarrow> None
          | Some did \<Rightarrow> map_option ((#) (word_of_nat offset, name, did))
              (scan_records (offset + 3 + namelen + 2 + deflen) (drop (2 + deflen) rest)))"
  by pat_completeness auto

termination scan_records
  by (relation "measure (\<lambda>(offset, raw). length raw)") auto

declare scan_records.simps [simp del]

definition count_entries :: "byte list \<Rightarrow> nat option" where
  "count_entries raw = map_option length (scan_records 0 raw)"

section \<open>The hash table\<close>

definition name_hash :: "byte list \<Rightarrow> u64" where
  "name_hash name =
     (let h = fold (\<lambda>b h. (h XOR ucast b) * 0x100000001b3) name 0xcbf29ce484222325 in h XOR drop_bit 32 h)"

text \<open>\<open>next_power_of_two\<close>, by doubling.\<close>

function pow2_from :: "nat \<Rightarrow> nat \<Rightarrow> nat" where
  "pow2_from p n = (if p = 0 \<or> n \<le> p then p else pow2_from (2 * p) n)"
  by pat_completeness auto

termination pow2_from
  by (relation "measure (\<lambda>(p, n). n - p)") auto

declare pow2_from.simps [simp del]

definition hash_slots :: "nat \<Rightarrow> nat" where
  "hash_slots cnt = (if cnt = 0 then 0 else pow2_from 1 (cnt * 2))"

abbreviation EMPTY :: u32 where "EMPTY \<equiv> 0xffffffff"

definition first_slot :: "byte list \<Rightarrow> nat \<Rightarrow> nat" where
  "first_slot name slots = unat (name_hash name AND word_of_nat (slots - 1))"

definition next_slot :: "nat \<Rightarrow> nat \<Rightarrow> nat" where
  "next_slot slot slots = (slot + 1) AND (slots - 1)"

partial_function (option) free_slot :: "u32 list \<Rightarrow> nat \<Rightarrow> nat option" where
  "free_slot hash slot =
     (if slot \<ge> length hash then None
      else if hash ! slot = EMPTY then Some slot
      else free_slot hash (next_slot slot (length hash)))"

fun fill_hash :: "nat \<Rightarrow> byte list list \<Rightarrow> u32 list \<Rightarrow> u32 list option" where
  "fill_hash ordinal [] hash = Some hash"
| "fill_hash ordinal (name # names) hash =
     Option.bind (free_slot hash (first_slot name (length hash)))
       (\<lambda>slot. fill_hash (ordinal + 1) names (hash[slot := word_of_nat ordinal]))"

section \<open>Writing the blob\<close>

fun adjacent_distinct :: "'a list \<Rightarrow> bool" where
  "adjacent_distinct (x # y # zs) = (x \<noteq> y \<and> adjacent_distinct (y # zs))"
| "adjacent_distinct _ = True"

abbreviation MAGIC :: "byte list" where "MAGIC \<equiv> [0x57, 0x50, 0x4d, 0x32]"

definition write_propmap_bin :: "byte list \<Rightarrow> byte list option" where
  "write_propmap_bin raw =
     Option.bind (scan_records 0 raw) (\<lambda>records.
       let records = sort_key (\<lambda>(offset, name, did). name) records in
       if \<not> adjacent_distinct (map (\<lambda>(offset, name, did). name) records) then None
       else
         let cnt = length records;
             by_id = sort_key (\<lambda>ordinal. (sint (snd (snd (records ! ordinal))), ordinal)) [0..<cnt] in
         map_option (\<lambda>hash.
             MAGIC @ u32_be (word_of_nat cnt) @ u32_be (word_of_nat (length raw)) @ raw @
               concat (map (\<lambda>(offset, name, did). u32_be offset) records) @
               concat (map (\<lambda>ordinal. u32_be (word_of_nat ordinal)) by_id) @
               concat (map u32_be hash))
           (fill_hash 0 (map (\<lambda>(offset, name, did). name) records) (replicate (hash_slots cnt) EMPTY)))"

section \<open>Reading it in place\<close>

definition be32 :: "byte list \<Rightarrow> nat \<Rightarrow> nat option" where
  "be32 bytes at = (if at + 4 \<le> length bytes then Some (unat (u32_from_be (take 4 (drop at bytes)))) else None)"

definition be16 :: "byte list \<Rightarrow> nat \<Rightarrow> nat option" where
  "be16 bytes at = (if at + 2 \<le> length bytes then Some (unat (u16_from_be (take 2 (drop at bytes)))) else None)"

definition slice :: "byte list \<Rightarrow> nat \<Rightarrow> nat \<Rightarrow> byte list option" where
  "slice bytes at n = (if at + n \<le> length bytes then Some (take n (drop at bytes)) else None)"

record PropIndex =
  pi_entries :: "byte list"
  pi_offsets :: "byte list"
  pi_by_id :: "byte list"
  pi_hash :: "byte list"
  pi_len :: nat

abbreviation HEADER_LEN :: nat where "HEADER_LEN \<equiv> 12"

definition new_index :: "byte list \<Rightarrow> PropIndex option" where
  "new_index data =
     (if length data < HEADER_LEN \<or> take 4 data \<noteq> MAGIC then None
      else Option.bind (be32 data 4) (\<lambda>cnt.
        Option.bind (be32 data 8) (\<lambda>entries_len.
          if length data \<noteq> HEADER_LEN + entries_len + cnt * 8 + hash_slots cnt * 4 then None
          else let entries = take entries_len (drop HEADER_LEN data);
                   tables = drop entries_len (drop HEADER_LEN data);
                   tables2 = drop (cnt * 4) tables in
            Some \<lparr>pi_entries = entries, pi_offsets = take (cnt * 4) tables,
                  pi_by_id = take (cnt * 4) tables2, pi_hash = drop (cnt * 4) tables2, pi_len = cnt\<rparr>)))"

definition raw_at :: "PropIndex \<Rightarrow> nat \<Rightarrow> (byte list \<times> byte list) option" where
  "raw_at ix ordinal =
     Option.bind (be32 (pi_offsets ix) (ordinal * 4)) (\<lambda>offset.
     let i = offset + 1 in
     Option.bind (be16 (pi_entries ix) i) (\<lambda>name_len.
     let i = i + 2 in
     Option.bind (slice (pi_entries ix) i name_len) (\<lambda>name.
     let i = i + name_len in
     Option.bind (be16 (pi_entries ix) i) (\<lambda>def_len.
     map_option (\<lambda>d. (name, d)) (slice (pi_entries ix) (i + 2) def_len)))))"

definition name_at :: "PropIndex \<Rightarrow> nat \<Rightarrow> string option" where
  "name_at ix ordinal = Option.bind (raw_at ix ordinal) (\<lambda>(name, _). from_utf8 name)"

definition id_at :: "PropIndex \<Rightarrow> nat \<Rightarrow> i32 option" where
  "id_at ix ordinal = Option.bind (raw_at ix ordinal) (\<lambda>(_, d). def_id d)"

definition def_at :: "PropIndex \<Rightarrow> nat \<Rightarrow> WingNodeDef option" where
  "def_at ix ordinal =
     Option.bind (raw_at ix ordinal) (\<lambda>(_, d). case from_bytes_without_raw d of Inr def \<Rightarrow> Some def | Inl _ \<Rightarrow> None)"

partial_function (option) find_from :: "PropIndex \<Rightarrow> byte list \<Rightarrow> nat \<Rightarrow> nat \<Rightarrow> nat option option" where
  "find_from ix name slots slot =
     Option.bind (be32 (pi_hash ix) (slot * 4)) (\<lambda>ordinal.
       if ordinal = unat EMPTY then Some None
       else Option.bind (raw_at ix ordinal) (\<lambda>(n, _).
         if n = name then Some (Some ordinal)
         else find_from ix name slots (next_slot slot slots)))"

declare free_slot.simps [code] find_from.simps [code]

definition find_name :: "PropIndex \<Rightarrow> string \<Rightarrow> nat option option" where
  "find_name ix name =
     (let slots = length (pi_hash ix) div 4 in
      if slots = 0 then Some None
      else find_from ix (as_bytes name) slots (first_slot (as_bytes name) slots))"

definition get_def :: "PropIndex \<Rightarrow> string \<Rightarrow> WingNodeDef option option" where
  "get_def ix name =
     Option.bind (find_name ix name) (\<lambda>found.
       case found of None \<Rightarrow> Some None | Some ordinal \<Rightarrow> map_option Some (def_at ix ordinal))"

definition id_of :: "PropIndex \<Rightarrow> string \<Rightarrow> i32 option option" where
  "id_of ix name =
     Option.bind (find_name ix name) (\<lambda>found.
       case found of None \<Rightarrow> Some None | Some ordinal \<Rightarrow> map_option Some (id_at ix ordinal))"

text \<open>The bisection, on a predicate that may itself panic.\<close>

function partition_point :: "(nat \<Rightarrow> bool option) \<Rightarrow> nat \<Rightarrow> nat \<Rightarrow> nat option" where
  "partition_point pred lo hi =
     (if lo < hi then
        (let mid = lo + (hi - lo) div 2 in
         case pred mid of
           None \<Rightarrow> None
         | Some True \<Rightarrow> partition_point pred (mid + 1) hi
         | Some False \<Rightarrow> partition_point pred lo mid)
      else Some lo)"
  by pat_completeness auto

termination partition_point
  by (relation "measure (\<lambda>(pred, lo, hi). hi - lo)") auto

declare partition_point.simps [simp del]

definition by_id_ordinal :: "PropIndex \<Rightarrow> nat \<Rightarrow> nat option" where
  "by_id_ordinal ix k = be32 (pi_by_id ix) (k * 4)"

fun entries_between :: "PropIndex \<Rightarrow> nat list \<Rightarrow> (string \<times> WingNodeDef) list option" where
  "entries_between ix [] = Some []"
| "entries_between ix (k # ks) =
     Option.bind (by_id_ordinal ix k) (\<lambda>ordinal.
     Option.bind (name_at ix ordinal) (\<lambda>name.
     Option.bind (def_at ix ordinal) (\<lambda>def.
     map_option ((#) (name, def)) (entries_between ix ks))))"

definition by_id :: "PropIndex \<Rightarrow> i32 \<Rightarrow> (string \<times> WingNodeDef) list option option" where
  "by_id ix nid =
     (let at = (\<lambda>k. Option.bind (by_id_ordinal ix k) (id_at ix)) in
      Option.bind (partition_point (\<lambda>k. map_option (\<lambda>i. sint i < sint nid) (at k)) 0 (pi_len ix)) (\<lambda>start.
      Option.bind (partition_point (\<lambda>k. map_option (\<lambda>i. sint i \<le> sint nid) (at k)) 0 (pi_len ix)) (\<lambda>stop.
        if start < stop then map_option Some (entries_between ix [start..<stop]) else Some None)))"

section \<open>Records and their offsets\<close>

type_synonym entry = "byte \<times> string \<times> byte list"

definition entry_bytes :: "entry \<Rightarrow> byte list" where
  "entry_bytes e = push_entry [] (fst e) (fst (snd e)) (snd (snd e))"

definition entry_ok :: "entry \<Rightarrow> bool" where
  "entry_ok e \<longleftrightarrow> length (fst (snd e)) < 65536 \<and> 8 \<le> length (snd (snd e)) \<and> length (snd (snd e)) < 65536"

text \<open>The records a sweep pushes, one after another.\<close>

definition sweep_bytes :: "entry list \<Rightarrow> byte list" where
  "sweep_bytes es = fold (\<lambda>(flag, fullname, d) raw. push_entry raw flag fullname d) es []"

fun records_of :: "nat \<Rightarrow> entry list \<Rightarrow> (u32 \<times> byte list \<times> byte list) list" where
  "records_of offset [] = []"
| "records_of offset (e # es) =
     (word_of_nat offset, as_bytes (fst (snd e)), snd (snd e)) # records_of (offset + length (entry_bytes e)) es"

definition did_of :: "byte list \<Rightarrow> i32" where
  "did_of d = u32_from_be (take 4 (drop 4 d))"

definition scanned :: "u32 \<times> byte list \<times> byte list \<Rightarrow> u32 \<times> byte list \<times> i32" where
  "scanned r = (fst r, fst (snd r), did_of (snd (snd r)))"

lemma fold_push_entry:
  "fold (\<lambda>(flag, fullname, d) raw. push_entry raw flag fullname d) es raw = raw @ concat (map entry_bytes es)"
  by (induction es arbitrary: raw) (auto simp: entry_bytes_def push_entry_def)

lemma sweep_bytes_eq: "sweep_bytes es = concat (map entry_bytes es)"
  by (simp add: sweep_bytes_def fold_push_entry)

lemma entry_bytes_eq:
  "entry_bytes e = fst e # u16_be (word_of_nat (length (fst (snd e)))) @ as_bytes (fst (snd e)) @
     u16_be (word_of_nat (length (snd (snd e)))) @ snd (snd e)"
  by (simp add: entry_bytes_def push_entry_def)

lemma take2_u16_be [simp]: "take 2 (u16_be w @ xs) = u16_be w" "drop 2 (u16_be w @ xs) = xs"
  by (simp_all add: u16_be_def)

lemma scan_sweep:
  "list_all entry_ok es \<Longrightarrow> scan_records offset (concat (map entry_bytes es)) = Some (map scanned (records_of offset es))"
proof (induction es arbitrary: offset)
  case Nil
  then show ?case by (simp add: scan_records.simps)
next
  case (Cons e es)
  obtain flag n d where e: "e = (flag, n, d)" by (cases e) auto
  let ?rest = "concat (map entry_bytes es)"
  let ?raw = "flag # u16_be (word_of_nat (length n)) @ as_bytes n @ u16_be (word_of_nat (length d)) @ d @ ?rest"
  have l: "unat (word_of_nat (length n) :: u16) = length n" "unat (word_of_nat (length d) :: u16) = length d" "8 \<le> length d"
    using Cons.prems e by (auto simp: entry_ok_def unat_of_nat_u16)
  have d3a: "drop 3 ?raw = as_bytes n @ u16_be (word_of_nat (length d)) @ d @ ?rest"
    by (simp add: u16_be_def)
  have "drop (3 + length n) ?raw = drop (length n) (drop 3 ?raw)" by (simp only: drop_drop add.commute)
  then have d3b: "drop (3 + length n) ?raw = u16_be (word_of_nat (length d)) @ d @ ?rest" unfolding d3a by simp
  note d3 = d3a d3b
  have "\<not> length d < 8" using l(3) by simp
  then have "scan_records offset ?raw = map_option ((#) (word_of_nat offset, as_bytes n, did_of d))
      (scan_records (offset + 3 + length n + 2 + length d) ?rest)"
    by (subst scan_records.simps, unfold Let_def, simp only: drop_Suc_Cons list.simps(3) if_False One_nat_def drop0 take2_u16_be u16_from_be_u16_be l d3)
      (simp add: d3 l def_id_def did_of_def)
  moreover have "offset + 3 + length n + 2 + length d = offset + length (entry_bytes e)"
    by (simp add: e entry_bytes_eq)
  moreover have "concat (map entry_bytes (e # es)) = ?raw" by (simp add: e entry_bytes_eq)
  moreover have "records_of offset (e # es) = (word_of_nat offset, as_bytes n, d) # records_of (offset + length (entry_bytes e)) es"
    by (simp add: e)
  moreover have "scan_records (offset + length (entry_bytes e)) ?rest = Some (map scanned (records_of (offset + length (entry_bytes e)) es))"
    using Cons by simp
  ultimately show ?case by (simp only: option.map list.map) (simp add: scanned_def)
qed

text \<open>A record found at its offset.\<close>

definition record_at :: "byte list \<Rightarrow> nat \<Rightarrow> byte list \<Rightarrow> byte list \<Rightarrow> bool" where
  "record_at raw offset name d \<longleftrightarrow>
     (\<exists>pre flag post. raw = pre @ flag # u16_be (word_of_nat (length name)) @ name @ u16_be (word_of_nat (length d)) @ d @ post \<and>
        offset = length pre \<and> length name < 65536 \<and> length d < 65536)"

lemma records_located:
  assumes "list_all entry_ok es" and "(off, name, d) \<in> set (records_of (length pre) es)"
    and "length (pre @ concat (map entry_bytes es)) < 4294967296"
  shows "record_at (pre @ concat (map entry_bytes es)) (unat off) name d"
  using assms
proof (induction es arbitrary: pre)
  case (Cons e es)
  obtain flag n x where e: "e = (flag, n, x)" by (cases e) auto
  show ?case
  proof (cases "(off, name, d) = (word_of_nat (length pre), as_bytes n, x)")
    case True
    then have "unat off = length pre" using Cons.prems(3) by (simp add: unat_of_nat_u32)
    with True Cons.prems(1) e show ?thesis
      unfolding record_at_def
      by (intro exI [of _ pre] exI [of _ flag] exI [of _ "concat (map entry_bytes es)"])
        (simp add: entry_bytes_eq [of "(flag, n, x)"] entry_ok_def)
  next
    case False
    with Cons.prems(2) e have "(off, name, d) \<in> set (records_of (length (pre @ entry_bytes e)) es)" by auto
    with Cons.IH [of "pre @ entry_bytes e"] Cons.prems show ?thesis by simp
  qed
qed simp

lemma records_of_entries: "map (\<lambda>r. (fst (snd r), snd (snd r))) (records_of offset es) = map (\<lambda>(flag, n, d). (as_bytes n, d)) es"
  by (induction es arbitrary: offset) auto

lemma length_records_of [simp]: "length (records_of offset es) = length es"
  by (induction es arbitrary: offset) auto

section \<open>Tables of 32-bit words\<close>

lemma take4_u32_be [simp]: "take 4 (u32_be w @ xs) = u32_be w" "drop 4 (u32_be w @ xs) = xs"
  by (simp_all add: u32_be_def)

lemma be32_0: "be32 (u32_be w @ xs) 0 = Some (unat w)"
  by (simp add: be32_def)

lemma be32_shift: "be32 (u32_be w @ xs) (at + 4) = be32 xs at"
proof -
  have "drop (at + 4) (u32_be w @ xs) = drop at xs" by (simp only: drop_drop [symmetric] take4_u32_be)
  then show ?thesis by (simp add: be32_def)
qed

lemma length_concat_u32 [simp]: "length (concat (map u32_be ws)) = 4 * length ws"
  by (induction ws) auto

lemma be32_table: "i < length ws \<Longrightarrow> be32 (concat (map u32_be ws)) (i * 4) = Some (unat (ws ! i))"
proof (induction ws arbitrary: i)
  case (Cons w ws)
  show ?case
  proof (cases i)
    case 0
    then show ?thesis by (simp add: be32_0)
  next
    case (Suc j)
    with Cons be32_shift [of w "concat (map u32_be ws)" "j * 4"] show ?thesis by (simp add: add.commute)
  qed
qed simp

lemma be16_at: "be16 (pre @ u16_be w @ post) (length pre) = Some (unat w)"
  by (simp add: be16_def)

lemma slice_at: "slice (pre @ xs @ post) (length pre) (length xs) = Some xs"
  by (simp add: slice_def)

lemma raw_at_record:
  assumes "be32 (pi_offsets ix) (ordinal * 4) = Some offset" and "record_at (pi_entries ix) offset name d"
  shows "raw_at ix ordinal = Some (name, d)"
proof -
  from assms(2) obtain pre flag post where
    e: "pi_entries ix = pre @ flag # u16_be (word_of_nat (length name)) @ name @ u16_be (word_of_nat (length d)) @ d @ post"
    and o: "offset = length pre" and l: "length name < 65536" "length d < 65536"
    unfolding record_at_def by blast
  have u: "unat (word_of_nat (length name) :: u16) = length name" "unat (word_of_nat (length d) :: u16) = length d"
    using l by (simp_all add: unat_of_nat_u16)
  let ?a = "pre @ [flag]" and ?n = "u16_be (word_of_nat (length name))" and ?m = "u16_be (word_of_nat (length d))"
  have "be16 (pi_entries ix) (offset + 1) = Some (length name)"
    using be16_at [of ?a "word_of_nat (length name)"] l by (simp add: e o unat_of_nat_u16)
  moreover have "slice (pi_entries ix) (offset + 1 + 2) (length name) = Some name"
    using slice_at [of "?a @ ?n" name] by (simp add: e o numeral_eq_Suc)
  moreover have "be16 (pi_entries ix) (offset + 1 + 2 + length name) = Some (length d)"
    using be16_at [of "?a @ ?n @ name" "word_of_nat (length d)"] by (simp add: e o u numeral_eq_Suc)
  moreover have "slice (pi_entries ix) (offset + 1 + 2 + length name + 2) (length d) = Some d"
    using slice_at [of "?a @ ?n @ name @ ?m" d] by (simp add: e o numeral_eq_Suc)
  ultimately show ?thesis using assms(1) by (simp add: raw_at_def Let_def)
qed

section \<open>Probing\<close>

lemma pow2_from_power: "p = 2 ^ k \<Longrightarrow> \<exists>j. pow2_from p n = 2 ^ j \<and> n \<le> pow2_from p n"
proof (induction p n arbitrary: k rule: pow2_from.induct)
  case (1 p n)
  show ?case
  proof (cases "p = 0 \<or> n \<le> p")
    case True
    with 1 show ?thesis by (subst pow2_from.simps, subst (2) pow2_from.simps) auto
  next
    case False
    with "1.IH" [OF False, of "Suc k"] "1.prems" show ?thesis by (subst pow2_from.simps, subst (2) pow2_from.simps) auto
  qed
qed

lemma hash_slots_power: "0 < n \<Longrightarrow> \<exists>k. hash_slots n = 2 ^ k \<and> 2 * n \<le> hash_slots n"
  using pow2_from_power [of 1 0 "n * 2"] by (auto simp: hash_slots_def mult.commute)

lemma next_slot_mod: "slots = 2 ^ k \<Longrightarrow> next_slot slot slots = (slot + 1) mod slots"
  using take_bit_eq_mask [of k "slot + 1"] take_bit_eq_mod [of k "slot + 1"]
  by (simp only: next_slot_def mask_eq_exp_minus_1)

lemma first_slot_less: "0 < slots \<Longrightarrow> first_slot name slots < slots"
proof -
  assume "0 < slots"
  have "unat (name_hash name AND word_of_nat (slots - 1)) \<le> unat (word_of_nat (slots - 1) :: u64)"
    by (intro word_less_eq_iff_unsigned [THEN iffD1] word_and_le1)
  also have "\<dots> \<le> slots - 1" by (simp add: unat_of_nat mod_less_eq_dividend)
  finally show ?thesis using \<open>0 < slots\<close> by (simp add: first_slot_def)
qed

text \<open>The slot a probe from \<open>s\<close> visits after \<open>j\<close> steps, in a table of \<open>2 ^ k\<close> slots.\<close>

definition probe :: "nat \<Rightarrow> nat \<Rightarrow> nat \<Rightarrow> nat" where
  "probe slots s j = (s + j) mod slots"

lemma probe_0 [simp]: "s < slots \<Longrightarrow> probe slots s 0 = s"
  by (simp add: probe_def)

lemma probe_less [simp]: "0 < slots \<Longrightarrow> probe slots s j < slots"
  by (simp add: probe_def)

lemma probe_Suc: "probe slots s (Suc j) = probe slots ((s + 1) mod slots) j"
  by (simp add: probe_def mod_simps)

lemma probe_reaches: "e < slots \<Longrightarrow> s < slots \<Longrightarrow> \<exists>j. probe slots s j = e"
  by (intro exI [of _ "slots - s + e"]) (simp add: probe_def)

lemma free_slot_probe:
  assumes "length hash = 2 ^ k" and "s < length hash"
    and "\<And>i. i < j \<Longrightarrow> hash ! probe (length hash) s i \<noteq> EMPTY" and "hash ! probe (length hash) s j = EMPTY"
  shows "free_slot hash s = Some (probe (length hash) s j)"
  using assms(2-)
proof (induction j arbitrary: s)
  case 0
  then show ?case by (subst free_slot.simps) simp
next
  case (Suc j)
  let ?s = "(s + 1) mod length hash"
  have "hash ! s \<noteq> EMPTY" using Suc.prems(1) Suc.prems(2) [of 0] by simp
  then have "free_slot hash s = free_slot hash ?s"
    using Suc.prems(1) by (subst free_slot.simps) (simp add: next_slot_mod [OF assms(1)])
  also have "\<dots> = Some (probe (length hash) ?s j)"
  proof (rule Suc.IH)
    show "?s < length hash" using Suc.prems(1) by (intro mod_less_divisor) linarith
    show "hash ! probe (length hash) ?s i \<noteq> EMPTY" if "i < j" for i
      using Suc.prems(2) [of "Suc i"] that by (simp add: probe_Suc)
    show "hash ! probe (length hash) ?s j = EMPTY" using Suc.prems(3) by (simp add: probe_Suc)
  qed
  finally show ?case by (simp add: probe_Suc)
qed

text \<open>
  The table after \<open>m\<close> names: each of them is reached from its home slot without crossing an empty slot,
  and the occupied slots hold ordinals below \<open>m\<close>.
\<close>

definition table_ok :: "byte list list \<Rightarrow> nat \<Rightarrow> u32 list \<Rightarrow> bool" where
  "table_ok names m hash \<longleftrightarrow>
     (\<forall>i<length hash. hash ! i = EMPTY \<or> unat (hash ! i) < m) \<and>
     card {i. i < length hash \<and> hash ! i \<noteq> EMPTY} \<le> m \<and>
     (\<forall>n<m. \<exists>j. hash ! probe (length hash) (first_slot (names ! n) (length hash)) j = word_of_nat n \<and>
        (\<forall>i<j. hash ! probe (length hash) (first_slot (names ! n) (length hash)) i \<noteq> EMPTY))"

lemma table_ok_reach:
  assumes "table_ok names m hash" and "n < m" and "names ! n = b"
  shows "\<exists>j. hash ! probe (length hash) (first_slot b (length hash)) j = word_of_nat n \<and>
     (\<forall>i<j. hash ! probe (length hash) (first_slot b (length hash)) i \<noteq> EMPTY)"
  using assms(1,2) unfolding table_ok_def assms(3) [symmetric] by blast

lemma some_slot_empty:
  assumes "card {i. i < length hash \<and> hash ! i \<noteq> EMPTY} < length hash"
  shows "\<exists>e<length hash. hash ! e = EMPTY"
proof (rule ccontr)
  assume "\<not> ?thesis"
  then have "{i. i < length hash \<and> hash ! i \<noteq> EMPTY} = {..<length hash}" by auto
  with assms show False by simp
qed

lemma first_stop:
  assumes "P (j::nat)"
  obtains i where "i \<le> j" and "P i" and "\<And>l. l < i \<Longrightarrow> \<not> P l"
  using assms by (metis Least_le LeastI not_less_Least)

lemma table_ok_insert:
  assumes "table_ok names m hash" and "length hash = 2 ^ k" and "m < length hash" and "m < 4294967295"
  obtains slot where "free_slot hash (first_slot (names ! m) (length hash)) = Some slot"
    and "table_ok names (Suc m) (hash[slot := word_of_nat m])"
proof -
  let ?N = "length hash" and ?h = "\<lambda>n. first_slot (names ! n) (length hash)"
  have pos: "0 < ?N" using assms(3) by linarith
  have home: "?h n < ?N" for n using pos by (rule first_slot_less)
  have few: "card {i. i < ?N \<and> hash ! i \<noteq> EMPTY} < ?N" using assms(1,3) by (auto simp: table_ok_def)
  from some_slot_empty [OF few] obtain e where "e < ?N" "hash ! e = EMPTY" by blast
  with probe_reaches [OF _ home] obtain j0 where "hash ! probe ?N (?h m) j0 = EMPTY" by metis
  from first_stop [of "\<lambda>j. hash ! probe ?N (?h m) j = EMPTY", OF this] obtain j where
    j: "hash ! probe ?N (?h m) j = EMPTY" "\<And>l. l < j \<Longrightarrow> hash ! probe ?N (?h m) l \<noteq> EMPTY" by metis
  let ?slot = "probe ?N (?h m) j" and ?w = "word_of_nat m :: u32"
  let ?H = "hash[?slot := ?w]"
  have sl: "?slot < ?N" using pos by simp
  have w: "unat ?w = m" "?w \<noteq> EMPTY" using assms(4) by (auto simp: unat_of_nat_u32 word_unat_eq_iff)
  have keep: "?H ! i = hash ! i" if "hash ! i \<noteq> EMPTY" for i using that j(1) by (metis nth_list_update_neq)
  have full: "?H ! i \<noteq> EMPTY" if "hash ! i \<noteq> EMPTY" for i using that keep by simp
  have "{i. i < length ?H \<and> ?H ! i \<noteq> EMPTY} \<subseteq> insert ?slot {i. i < ?N \<and> hash ! i \<noteq> EMPTY}"
    by (auto simp: nth_list_update split: if_splits)
  from card_mono [OF _ this] have "card {i. i < length ?H \<and> ?H ! i \<noteq> EMPTY} \<le> Suc m"
    using assms(1) by (auto simp: table_ok_def card_insert_if split: if_splits)
  moreover have "?H ! i = EMPTY \<or> unat (?H ! i) < Suc m" if "i < length ?H" for i
    using assms(1) that w sl by (auto simp: table_ok_def nth_list_update less_Suc_eq)
  moreover have "\<exists>j. ?H ! probe ?N (?h n) j = word_of_nat n \<and> (\<forall>i<j. ?H ! probe ?N (?h n) i \<noteq> EMPTY)" if "n < Suc m" for n
  proof (cases "n = m")
    case True
    then show ?thesis using j(2) full sl by (intro exI [of _ j]) auto
  next
    case False
    with that have "n < m" by simp
    with assms(1) obtain i where "hash ! probe ?N (?h n) i = word_of_nat n" "\<forall>l<i. hash ! probe ?N (?h n) l \<noteq> EMPTY"
      unfolding table_ok_def by blast
    moreover have "(word_of_nat n :: u32) \<noteq> EMPTY"
      using that assms(4) by (simp add: unat_of_nat_u32 word_unat_eq_iff)
    ultimately show ?thesis using full keep by (intro exI [of _ i]) auto
  qed
  ultimately have "table_ok names (Suc m) ?H" unfolding table_ok_def by simp
  with free_slot_probe [OF assms(2) home j(2,1)] that show ?thesis by blast
qed

lemma fill_hash_ok:
  assumes "table_ok names m hash" and "length hash = 2 ^ k" and "length names < length hash" and "length names < 4294967296"
    and "m \<le> length names"
  shows "\<exists>H. fill_hash m (drop m names) hash = Some H \<and> length H = length hash \<and> table_ok names (length names) H"
  using assms
proof (induction "length names - m" arbitrary: m hash)
  case 0
  then show ?case by simp
next
  case (Suc d)
  then have m: "m < length names" by simp
  have bounds: "m < length hash" "m < 4294967295" using m Suc.prems(3,4) by linarith+
  obtain slot where "free_slot hash (first_slot (names ! m) (length hash)) = Some slot"
    "table_ok names (Suc m) (hash[slot := word_of_nat m])"
    using table_ok_insert [OF Suc.prems(1,2)] bounds by blast
  with Suc.hyps(1) [of "Suc m" "hash[slot := word_of_nat m]"] Suc.prems(2-5) Suc.hyps(2) m show ?case
    by (simp add: Cons_nth_drop_Suc [symmetric])
qed

section \<open>The index of a written blob\<close>

abbreviation entry_name :: "entry \<Rightarrow> byte list" where "entry_name e \<equiv> as_bytes (fst (snd e))"

abbreviation pair_of :: "entry \<Rightarrow> byte list \<times> byte list" where "pair_of e \<equiv> (entry_name e, snd (snd e))"

definition name_order :: "entry list \<Rightarrow> entry list" where
  "name_order es = sort_key entry_name es"

definition id_order :: "(byte list \<times> byte list) list \<Rightarrow> nat list" where
  "id_order tab = sort_key (\<lambda>n. (sint (did_of (snd (tab ! n))), n)) [0..<length tab]"

definition index_ok :: "PropIndex \<Rightarrow> (byte list \<times> byte list) list \<Rightarrow> bool" where
  "index_ok ix tab \<longleftrightarrow>
     pi_len ix = length tab \<and> length tab < 4294967296 \<and> distinct (map fst tab) \<and>
     (\<forall>n<length tab. raw_at ix n = Some (tab ! n) \<and> 8 \<le> length (snd (tab ! n))) \<and>
     pi_by_id ix = concat (map u32_be (map word_of_nat (id_order tab))) \<and>
     (\<exists>H. pi_hash ix = concat (map u32_be H) \<and> length H = hash_slots (length tab) \<and>
        table_ok (map fst tab) (length tab) H)"

definition entries_ok :: "entry list \<Rightarrow> bool" where
  "entries_ok es \<longleftrightarrow>
     list_all entry_ok es \<and> distinct (map (\<lambda>e. fst (snd e)) es) \<and> length (sweep_bytes es) < 4294967296"

definition written_index :: "entry list \<Rightarrow> PropIndex option" where
  "written_index es = Option.bind (write_propmap_bin (sweep_bytes es)) new_index"

lemma insort_key_map: "insort_key g (f x) (map f xs) = map f (insort_key (\<lambda>x. g (f x)) x xs)"
  by (induction xs) auto

lemma sort_key_map: "sort_key g (map f xs) = map f (sort_key (\<lambda>x. g (f x)) xs)"
  by (induction xs) (auto simp: insort_key_map)

lemma insort_key_agree: "(\<And>y. y \<in> insert x (set xs) \<Longrightarrow> f y = g y) \<Longrightarrow> insort_key f x xs = insort_key g x xs"
  by (induction xs) auto

lemma sort_key_agree: "(\<And>x. x \<in> set xs \<Longrightarrow> f x = g x) \<Longrightarrow> sort_key f xs = sort_key g xs"
  by (induction xs) (auto intro!: insort_key_agree)

lemma adjacent_distinct_if_distinct: "distinct xs \<Longrightarrow> adjacent_distinct xs"
  by (induction xs rule: adjacent_distinct.induct) auto

lemma be32_at: "length pre = n \<Longrightarrow> be32 (pre @ u32_be w @ post) n = Some (unat w)"
  by (auto simp: be32_def)

lemma entry_count_le: "list_all entry_ok es \<Longrightarrow> length es \<le> length (concat (map entry_bytes es))"
  by (induction es) (auto simp: entry_bytes_eq)

lemma empty_table_ok: "table_ok names 0 (replicate n EMPTY)"
  by (auto simp: table_ok_def)

lemma filled_table:
  assumes "length names < 4294967296"
  shows "\<exists>H. fill_hash 0 names (replicate (hash_slots (length names)) EMPTY) = Some H \<and>
     length H = hash_slots (length names) \<and> table_ok names (length names) H"
proof (cases "names = []")
  case True
  then show ?thesis by (simp add: empty_table_ok)
next
  case False
  then obtain k where k: "hash_slots (length names) = 2 ^ k" "2 * length names \<le> hash_slots (length names)"
    using hash_slots_power by blast
  from False have "0 < length names" by simp
  with k(2) have "length names < hash_slots (length names)" by linarith
  with fill_hash_ok [OF empty_table_ok [of names "hash_slots (length names)"]] k(1) assms show ?thesis by simp
qed

lemma new_index_blob:
  fixes os bs hs :: "u32 list"
  assumes "length os = n" "length bs = n" "length hs = hash_slots n" "n < 4294967296" "length raw < 4294967296"
  shows "new_index (MAGIC @ u32_be (word_of_nat n) @ u32_be (word_of_nat (length raw)) @ raw @
      concat (map u32_be os) @ concat (map u32_be bs) @ concat (map u32_be hs)) =
    Some \<lparr>pi_entries = raw, pi_offsets = concat (map u32_be os), pi_by_id = concat (map u32_be bs),
      pi_hash = concat (map u32_be hs), pi_len = n\<rparr>" (is "new_index ?data = _")
proof -
  have "be32 ?data 4 = Some n"
    using be32_at [of MAGIC 4 "word_of_nat n"] assms(4) by (simp add: unat_of_nat_u32)
  moreover have "be32 ?data 8 = Some (length raw)"
    using be32_at [of "MAGIC @ u32_be (word_of_nat n)" 8 "word_of_nat (length raw)"] assms(5) by (simp add: unat_of_nat_u32)
  moreover have "drop 12 ?data = raw @ concat (map u32_be os) @ concat (map u32_be bs) @ concat (map u32_be hs)"
    by (simp add: u32_be_def)
  moreover have "take 4 ?data = MAGIC" by simp
  ultimately show ?thesis using assms by (simp add: new_index_def Let_def mult.commute)
qed

lemma records_pairs:
  "map snd (sort_key (\<lambda>r. fst (snd r)) (records_of offset es)) = map pair_of (name_order es)"
proof -
  have "map snd (sort_key (\<lambda>r. fst (snd r)) (records_of offset es)) = sort_key fst (map snd (records_of offset es))"
    by (simp add: sort_key_map)
  also have "map snd (records_of offset es) = map pair_of es"
    by (induction es arbitrary: offset) auto
  finally show ?thesis by (simp add: sort_key_map name_order_def)
qed

lemma scan_sorted:
  "sort_key (\<lambda>(offset, name, did). name) (map scanned recs) = map scanned (sort_key (\<lambda>r. fst (snd r)) recs)"
  by (simp add: sort_key_map scanned_def case_prod_beta)

lemma written_index_ok:
  assumes "entries_ok es"
  shows "\<exists>ix. written_index es = Some ix \<and> index_ok ix (map pair_of (name_order es))"
proof -
  let ?raw = "sweep_bytes es" and ?tab = "map pair_of (name_order es)"
  define R where "R = sort_key (\<lambda>r. fst (snd r)) (records_of 0 es)"
  have ok: "list_all entry_ok es" "distinct (map (\<lambda>e. fst (snd e)) es)" "length ?raw < 4294967296"
    using assms by (auto simp: entries_ok_def)
  have scan: "scan_records 0 ?raw = Some (map scanned (records_of 0 es))"
    using scan_sweep [OF ok(1)] by (simp add: sweep_bytes_eq)
  have pairs: "map snd R = ?tab" unfolding R_def by (rule records_pairs)
  have len: "length R = length ?tab" "length ?tab = length es" using pairs by (auto simp: name_order_def R_def)
  have n: "length ?tab < 4294967296" using entry_count_le [OF ok(1)] ok(3) len by (simp add: sweep_bytes_eq)
  have dist: "distinct (map fst ?tab)"
    using ok(2) by (auto simp: distinct_map name_order_def inj_on_def)
  obtain H where H: "fill_hash 0 (map fst ?tab) (replicate (hash_slots (length ?tab)) EMPTY) = Some H"
      "length H = hash_slots (length ?tab)" "table_ok (map fst ?tab) (length ?tab) H"
    using filled_table [of "map fst ?tab"] n by auto
  have names: "map (\<lambda>(offset, name, did). name) (map scanned R) = map fst ?tab"
    using pairs by (simp add: scanned_def comp_def case_prod_beta flip: pairs)
  have ids: "sort_key (\<lambda>ordinal. (sint (snd (snd (map scanned R ! ordinal))), ordinal)) [0..<length R] = id_order ?tab"
    unfolding id_order_def pairs [symmetric] length_map
    by (rule sort_key_agree) (simp add: scanned_def)
  have offs: "map (\<lambda>(offset, name, did). u32_be offset) (map scanned R) = map u32_be (map fst R)"
    by (simp add: scanned_def comp_def case_prod_beta)
  have blob: "write_propmap_bin ?raw = Some (MAGIC @ u32_be (word_of_nat (length ?tab)) @ u32_be (word_of_nat (length ?raw)) @ ?raw @
      concat (map u32_be (map fst R)) @ concat (map u32_be (map word_of_nat (id_order ?tab))) @ concat (map u32_be H))"
    unfolding write_propmap_bin_def scan bind.simps scan_sorted R_def [symmetric] Let_def names length_map [of scanned] ids offs
    using H(1) adjacent_distinct_if_distinct [OF dist] len by (simp add: comp_def)
  let ?ix = "\<lparr>pi_entries = ?raw, pi_offsets = concat (map u32_be (map fst R)),
     pi_by_id = concat (map u32_be (map word_of_nat (id_order ?tab))), pi_hash = concat (map u32_be H), pi_len = length ?tab\<rparr>"
  have "written_index es = Some ?ix"
    unfolding written_index_def blob bind.simps
    by (rule new_index_blob) (use len n ok(3) H(2) in \<open>simp_all add: id_order_def\<close>)
  moreover have "raw_at ?ix i = Some (?tab ! i)" if "i < length ?tab" for i
  proof -
    have "i < length R" using that len by simp
    obtain off name d where r: "R ! i = (off, name, d)" by (cases "R ! i") auto
    have "(off, name, d) \<in> set (records_of 0 es)" using r \<open>i < length R\<close> nth_mem [of i R] by (simp add: R_def)
    then have "record_at ?raw (unat off) name d"
      using records_located [OF ok(1), of off name d "[]"] ok(3) by (simp add: sweep_bytes_eq)
    moreover have "be32 (concat (map u32_be (map fst R))) (i * 4) = Some (unat off)"
      using be32_table [of i "map fst R"] \<open>i < length R\<close> r by simp
    moreover have "?tab ! i = (name, d)" using r \<open>i < length R\<close> by (simp flip: pairs)
    ultimately show ?thesis using raw_at_record [of ?ix i "unat off" name d] by simp
  qed
  moreover have "8 \<le> length (snd (?tab ! i))" if "i < length ?tab" for i
  proof -
    have "name_order es ! i \<in> set es" using that nth_mem [of i "name_order es"] by (simp add: name_order_def)
    with ok(1) that show ?thesis by (auto simp: list_all_iff entry_ok_def)
  qed
  ultimately show ?thesis using n dist H(2,3) unfolding index_ok_def by (intro exI [of _ ?ix]) auto
qed

section \<open>Lookups by name\<close>

lemma find_from_skips:
  assumes "pi_hash ix = concat (map u32_be H)" and "length H = 2 ^ k" and "s < length H"
    and "\<And>i. i < j \<Longrightarrow> H ! probe (length H) s i \<noteq> EMPTY \<and>
           (\<exists>n d. raw_at ix (unat (H ! probe (length H) s i)) = Some (n, d) \<and> n \<noteq> name)"
  shows "find_from ix name (length H) s = find_from ix name (length H) (probe (length H) s j)"
  using assms(3,4)
proof (induction j arbitrary: s)
  case 0
  then show ?case by simp
next
  case (Suc j)
  let ?s = "(s + 1) mod length H"
  from Suc.prems(2) [of 0] Suc.prems(1) obtain n d where
    "H ! s \<noteq> EMPTY" "raw_at ix (unat (H ! s)) = Some (n, d)" "n \<noteq> name" by auto
  then have "find_from ix name (length H) s = find_from ix name (length H) ?s"
    using be32_table [OF Suc.prems(1)] assms(1)
    by (subst find_from.simps) (simp add: next_slot_mod [OF assms(2)] word_unat_eq_iff)
  also have "\<dots> = find_from ix name (length H) (probe (length H) ?s j)"
  proof (rule Suc.IH)
    show "?s < length H" using Suc.prems(1) by (intro mod_less_divisor) linarith
    show "H ! probe (length H) ?s i \<noteq> EMPTY \<and>
        (\<exists>n d. raw_at ix (unat (H ! probe (length H) ?s i)) = Some (n, d) \<and> n \<noteq> name)" if "i < j" for i
      using Suc.prems(2) [of "Suc i"] that by (simp add: probe_Suc)
  qed
  finally show ?case by (simp add: probe_Suc)
qed

text \<open>Where the probe for a name stops: at an empty slot or at a record of that name.\<close>

lemma find_from_stops:
  assumes "index_ok ix tab" and "pi_hash ix = concat (map u32_be H)" and "length H = 2 ^ k" and "s < length H"
    and "table_ok (map fst tab) (length tab) H"
    and "H ! probe (length H) s j = EMPTY \<or> fst (tab ! unat (H ! probe (length H) s j)) = name"
  obtains i where "i \<le> j"
    and "find_from ix name (length H) s =
      Some (if H ! probe (length H) s i = EMPTY then None else Some (unat (H ! probe (length H) s i)))"
    and "H ! probe (length H) s i = EMPTY \<or>
      unat (H ! probe (length H) s i) < length tab \<and> fst (tab ! unat (H ! probe (length H) s i)) = name"
proof -
  let ?p = "probe (length H) s" and ?stop = "\<lambda>j. H ! probe (length H) s j = EMPTY \<or> fst (tab ! unat (H ! probe (length H) s j)) = name"
  from first_stop [of ?stop, OF assms(6)] obtain i where i: "i \<le> j" "?stop i" "\<And>l. l < i \<Longrightarrow> \<not> ?stop l" by metis
  have inside: "?p l < length H" for l using assms(4) by (intro probe_less) linarith
  have raw: "raw_at ix (unat (H ! ?p l)) = Some (tab ! unat (H ! ?p l)) \<and> unat (H ! ?p l) < length tab" if "H ! ?p l \<noteq> EMPTY" for l
    using assms(1,5) that inside [of l] by (auto simp: table_ok_def index_ok_def)
  have "find_from ix name (length H) s = find_from ix name (length H) (?p i)"
    by (rule find_from_skips [OF assms(2-4)]) (metis i(3) raw prod.collapse)
  also have "\<dots> = Some (if H ! ?p i = EMPTY then None else Some (unat (H ! ?p i)))"
    using be32_table [OF inside [of i]] assms(2) i(2) raw [of i]
    by (subst find_from.simps) (auto simp: word_unat_eq_iff split: prod.splits)
  finally show ?thesis using that [OF i(1)] i(2) raw [of i] by auto
qed

lemma slots_of_index: "pi_hash ix = concat (map u32_be H) \<Longrightarrow> length (pi_hash ix) div 4 = length H"
  by simp

lemma find_name_hit:
  assumes "index_ok ix tab" and "n < length tab" and "fst (tab ! n) = as_bytes name"
  shows "find_name ix name = Some (Some n)"
proof -
  let ?b = "as_bytes name"
  obtain H where H: "pi_hash ix = concat (map u32_be H)" "length H = hash_slots (length tab)" "table_ok (map fst tab) (length tab) H"
    using assms(1) unfolding index_ok_def by blast
  have small: "n < 4294967295" using assms(1,2) by (auto simp: index_ok_def)
  have "0 < length tab" using assms(2) by linarith
  then obtain k where k: "length H = 2 ^ k" using hash_slots_power [of "length tab"] H(2) by metis
  have home: "first_slot ?b (length H) < length H" by (rule first_slot_less) (simp add: k)
  let ?p = "probe (length H) (first_slot ?b (length H))"
  have "map fst tab ! n = ?b" using assms(2,3) by simp
  from table_ok_reach [OF H(3) assms(2) this] obtain j where
    j: "H ! ?p j = word_of_nat n" "\<And>i. i < j \<Longrightarrow> H ! ?p i \<noteq> EMPTY" by blast
  have n: "unat (word_of_nat n :: u32) = n" "(word_of_nat n :: u32) \<noteq> EMPTY"
    using small by (simp_all add: unat_of_nat_u32 word_unat_eq_iff)
  have "H ! ?p j = EMPTY \<or> fst (tab ! unat (H ! ?p j)) = ?b" using j(1) n(1) assms(3) by simp
  from find_from_stops [OF assms(1) H(1) k home H(3) this] obtain i where i: "i \<le> j"
    "find_from ix ?b (length H) (first_slot ?b (length H)) = Some (if H ! ?p i = EMPTY then None else Some (unat (H ! ?p i)))"
    "H ! ?p i = EMPTY \<or> unat (H ! ?p i) < length tab \<and> fst (tab ! unat (H ! ?p i)) = ?b" by blast
  have "H ! ?p i \<noteq> EMPTY" using j n(2) i(1) by (cases "i = j") auto
  moreover from this i(3) have "unat (H ! ?p i) = n"
    using assms nth_eq_iff_index_eq [of "map fst tab" "unat (H ! ?p i)" n] by (auto simp: index_ok_def)
  ultimately show ?thesis
    using i(2) k unfolding find_name_def slots_of_index [OF H(1)] by (simp add: Let_def)
qed

lemma find_name_miss:
  assumes "index_ok ix tab" and "as_bytes name \<notin> fst ` set tab"
  shows "find_name ix name = Some None"
proof -
  let ?b = "as_bytes name"
  obtain H where H: "pi_hash ix = concat (map u32_be H)" "length H = hash_slots (length tab)" "table_ok (map fst tab) (length tab) H"
    using assms(1) unfolding index_ok_def by blast
  show ?thesis
  proof (cases "tab = []")
    case True
    with H(1,2) show ?thesis by (simp add: find_name_def hash_slots_def)
  next
    case False
    then obtain k where k: "length H = 2 ^ k" "2 * length tab \<le> length H"
      using hash_slots_power [of "length tab"] H(2) by auto
    have home: "first_slot ?b (length H) < length H" by (rule first_slot_less) (simp add: k)
    let ?p = "probe (length H) (first_slot ?b (length H))"
    have "0 < length tab" using False by simp
    then have "card {i. i < length H \<and> H ! i \<noteq> EMPTY} < length H"
      using H(3) k(2) unfolding table_ok_def by linarith
    from some_slot_empty [OF this] probe_reaches [OF _ home] obtain j where "H ! ?p j = EMPTY" by metis
    then have "H ! ?p j = EMPTY \<or> fst (tab ! unat (H ! ?p j)) = ?b" ..
    from find_from_stops [OF assms(1) H(1) k(1) home H(3) this] obtain i where
      i: "find_from ix ?b (length H) (first_slot ?b (length H)) = Some (if H ! ?p i = EMPTY then None else Some (unat (H ! ?p i)))"
      "H ! ?p i = EMPTY \<or> unat (H ! ?p i) < length tab \<and> fst (tab ! unat (H ! ?p i)) = ?b" by blast
    with assms(2) have "H ! ?p i = EMPTY" by (metis image_eqI nth_mem)
    with i(1) k(1) show ?thesis unfolding find_name_def slots_of_index [OF H(1)] by (simp add: Let_def)
  qed
qed

section \<open>Lookups by id\<close>

lemma partition_point_spec:
  assumes "\<And>k. k < n \<Longrightarrow> pred k = Some (P k)" and "\<And>a b. a \<le> b \<Longrightarrow> b < n \<Longrightarrow> P b \<Longrightarrow> P a"
    and "lo \<le> hi" and "hi \<le> n" and "\<And>k. k < lo \<Longrightarrow> P k" and "\<And>k. hi \<le> k \<Longrightarrow> k < n \<Longrightarrow> \<not> P k"
  shows "\<exists>r\<le>n. partition_point pred lo hi = Some r \<and> (\<forall>k<n. P k \<longleftrightarrow> k < r)"
  using assms(3-)
proof (induction "hi - lo" arbitrary: lo hi rule: less_induct)
  case less
  let ?mid = "lo + (hi - lo) div 2"
  show ?case
  proof (cases "lo < hi")
    case False
    with less.prems have "lo = hi" by simp
    moreover have "P k \<longleftrightarrow> k < hi" if "k < n" for k using less.prems(3,4) [of k] \<open>lo = hi\<close> that by (cases "k < hi") auto
    ultimately show ?thesis using less.prems(2) by (subst partition_point.simps) auto
  next
    case True
    then have mid: "?mid < hi" "lo \<le> ?mid" by auto
    then have mn: "?mid < n" using less.prems(2) by linarith
    show ?thesis
    proof (cases "P ?mid")
      case True
      have "\<exists>r\<le>n. partition_point pred (?mid + 1) hi = Some r \<and> (\<forall>k<n. P k \<longleftrightarrow> k < r)"
      proof (rule less.hyps)
        show "P k" if "k < ?mid + 1" for k using assms(2) [of k ?mid] mn True that by simp
      qed (use less.prems mid in auto)
      with True \<open>lo < hi\<close> assms(1) [OF mn] show ?thesis by (subst partition_point.simps) (simp add: Let_def)
    next
      case False
      have "\<exists>r\<le>n. partition_point pred lo ?mid = Some r \<and> (\<forall>k<n. P k \<longleftrightarrow> k < r)"
      proof (rule less.hyps)
        show "\<not> P k" if "?mid \<le> k" "k < n" for k using assms(2) [of ?mid k] False that by blast
      qed (use less.prems mid in auto)
      with False \<open>lo < hi\<close> assms(1) [OF mn] show ?thesis by (subst partition_point.simps) (simp add: Let_def)
    qed
  qed
qed

lemma upt_filter: "a \<le> b \<Longrightarrow> b \<le> n \<Longrightarrow> [a..<b] = filter (\<lambda>k. a \<le> k \<and> k < b) [0..<n]"
  by (rule sorted_distinct_set_unique) (auto simp: sorted_wrt_filter)

lemma map_nth_filter: "map ((!) xs) (filter (\<lambda>k. P (xs ! k)) [0..<length xs]) = filter P xs"
  by (metis (no_types, lifting) filter_map map_nth comp_def filter_cong)

lemma id_order_set [simp]: "length (id_order tab) = length tab" "set (id_order tab) = {..<length tab}"
  by (auto simp: id_order_def)

lemma id_order_sorted:
  assumes "a \<le> b" and "b < length tab"
  shows "sint (did_of (snd (tab ! (id_order tab ! a)))) \<le> sint (did_of (snd (tab ! (id_order tab ! b))))"
proof -
  let ?f = "\<lambda>n. (sint (did_of (snd (tab ! n))), n)"
  have "sorted (map ?f (id_order tab))" by (simp add: id_order_def)
  from sorted_nth_mono [OF this, of a b] assms have "?f (id_order tab ! a) \<le> ?f (id_order tab ! b)" by simp
  then show ?thesis by (auto simp: less_eq_prod_def)
qed

lemma id_order_filter:
  "filter (\<lambda>n. did_of (snd (tab ! n)) = nid) (id_order tab) = filter (\<lambda>n. did_of (snd (tab ! n)) = nid) [0..<length tab]"
    (is "filter ?P _ = _")
proof -
  let ?f = "\<lambda>n. (sint (did_of (snd (tab ! n))), n)"
  have "sorted_wrt (\<lambda>a b. ?f a \<le> ?f b) (filter ?P [0..<length tab])"
  proof (rule sorted_wrt_mono_rel)
    show "sorted_wrt (\<le>) (filter ?P [0..<length tab])" by (simp add: sorted_wrt_filter)
  qed (auto simp: less_eq_prod_def)
  then have "sorted (map ?f (filter ?P [0..<length tab]))" by (simp add: sorted_wrt_map)
  then show ?thesis unfolding id_order_def filter_sort by (rule sort_key_id_if_sorted)
qed

definition pair_ok :: "byte list \<times> byte list \<Rightarrow> bool" where
  "pair_ok p \<longleftrightarrow> utf8_valid (fst p) \<and> (case from_bytes_without_raw (snd p) of Inr _ \<Rightarrow> True | Inl _ \<Rightarrow> False)"

definition shown :: "byte list \<times> byte list \<Rightarrow> string \<times> WingNodeDef" where
  "shown p = (str_of_bytes (fst p), projr (from_bytes_without_raw (snd p)))"

lemma index_reads:
  assumes "index_ok ix tab" and "n < length tab"
  shows "id_at ix n = Some (did_of (snd (tab ! n)))"
    and "pair_ok (tab ! n) \<Longrightarrow> name_at ix n = Some (fst (shown (tab ! n)))"
    and "pair_ok (tab ! n) \<Longrightarrow> def_at ix n = Some (snd (shown (tab ! n)))"
proof -
  have r: "raw_at ix n = Some (fst (tab ! n), snd (tab ! n))" and l: "\<not> length (snd (tab ! n)) < 8"
    using assms by (auto simp: index_ok_def)
  show "id_at ix n = Some (did_of (snd (tab ! n)))" using l by (simp add: id_at_def r def_id_def did_of_def case_prod_beta)
  show "name_at ix n = Some (fst (shown (tab ! n)))" if "pair_ok (tab ! n)"
    using that by (simp add: name_at_def r from_utf8_def pair_ok_def shown_def case_prod_beta)
  show "def_at ix n = Some (snd (shown (tab ! n)))" if "pair_ok (tab ! n)"
    using that by (auto simp: def_at_def r pair_ok_def shown_def case_prod_beta split: sum.splits)
qed

lemma by_id_ordinal_index:
  assumes "index_ok ix tab" and "k < length tab"
  shows "by_id_ordinal ix k = Some (id_order tab ! k)" and "id_order tab ! k < length tab"
proof -
  show l: "id_order tab ! k < length tab" using assms(2) nth_mem [of k "id_order tab"] by simp
  have "length tab < 4294967296" using assms(1) by (simp add: index_ok_def)
  then have "id_order tab ! k < 4294967296" using l by linarith
  moreover have "pi_by_id ix = concat (map u32_be (map word_of_nat (id_order tab)))" using assms(1) by (simp add: index_ok_def)
  ultimately show "by_id_ordinal ix k = Some (id_order tab ! k)"
    using be32_table [of k "map word_of_nat (id_order tab)"] assms(2) by (simp add: by_id_ordinal_def unat_of_nat_u32)
qed

lemma entries_between_index:
  assumes "index_ok ix tab" and "list_all pair_ok tab" and "\<forall>k\<in>set ks. k < length tab"
  shows "entries_between ix ks = Some (map (\<lambda>k. shown (tab ! (id_order tab ! k))) ks)"
  using assms(3)
proof (induction ks)
  case (Cons k ks)
  then have k: "k < length tab" by simp
  note o = by_id_ordinal_index [OF assms(1) k]
  have "pair_ok (tab ! (id_order tab ! k))" using assms(2) o(2) by (simp add: list_all_length)
  with Cons index_reads [OF assms(1) o(2)] o(1) show ?case by simp
qed simp

lemma by_id_bound:
  assumes "index_ok ix tab" and "\<And>a b. a \<le> b \<Longrightarrow> Q b \<Longrightarrow> Q a"
  shows "\<exists>r\<le>length tab.
    partition_point (\<lambda>k. map_option (\<lambda>i. Q (sint i)) (Option.bind (by_id_ordinal ix k) (id_at ix))) 0 (length tab) = Some r \<and>
    (\<forall>k<length tab. Q (sint (did_of (snd (tab ! (id_order tab ! k))))) \<longleftrightarrow> k < r)"
proof (rule partition_point_spec)
  show "map_option (\<lambda>i. Q (sint i)) (Option.bind (by_id_ordinal ix k) (id_at ix)) =
      Some (Q (sint (did_of (snd (tab ! (id_order tab ! k))))))" if "k < length tab" for k
    using by_id_ordinal_index [OF assms(1) that] index_reads(1) [OF assms(1)] by simp
  show "Q (sint (did_of (snd (tab ! (id_order tab ! a)))))"
    if "a \<le> b" "b < length tab" "Q (sint (did_of (snd (tab ! (id_order tab ! b)))))" for a b
    using assms(2) id_order_sorted that by blast
qed auto

lemma id_segment:
  assumes "start \<le> length tab" and "stop \<le> length tab"
    and "\<And>k. k < length tab \<Longrightarrow> start \<le> k \<and> k < stop \<longleftrightarrow> did_of (snd (tab ! (id_order tab ! k))) = nid"
  shows "map (\<lambda>k. shown (tab ! (id_order tab ! k))) [start..<stop] = map shown (filter (\<lambda>p. did_of (snd p) = nid) tab)"
proof (cases "start \<le> stop")
  case False
  then have "\<not> did_of (snd (tab ! n)) = nid" if "n < length tab" for n
  proof -
    from that id_order_set(2) [of tab] obtain i where "i < length tab" "id_order tab ! i = n"
      by (metis id_order_set(1) in_set_conv_nth lessThan_iff)
    with assms(3) [of i] False show ?thesis by auto
  qed
  then have "filter (\<lambda>p. did_of (snd p) = nid) tab = []" by (metis (mono_tags, lifting) filter_False in_set_conv_nth)
  with False show ?thesis by simp
next
  case True
  let ?P = "\<lambda>n. did_of (snd (tab ! n)) = nid"
  have "[start..<stop] = filter (\<lambda>k. start \<le> k \<and> k < stop) [0..<length tab]" by (rule upt_filter [OF True assms(2)])
  also have "\<dots> = filter (\<lambda>k. ?P (id_order tab ! k)) [0..<length (id_order tab)]"
    using assms(3) by (intro filter_cong) auto
  finally have "map ((!) (id_order tab)) [start..<stop] = filter ?P (id_order tab)"
    using map_nth_filter [of "id_order tab" ?P] by (simp only:)
  also have "\<dots> = filter ?P [0..<length tab]" by (rule id_order_filter)
  finally have "map ((!) tab) (map ((!) (id_order tab)) [start..<stop]) = filter (\<lambda>p. did_of (snd p) = nid) tab"
    using map_nth_filter [of tab "\<lambda>p. did_of (snd p) = nid"] by (simp only:)
  then have "map shown (map ((!) tab) (map ((!) (id_order tab)) [start..<stop])) = map shown (filter (\<lambda>p. did_of (snd p) = nid) tab)"
    by (rule arg_cong)
  then show ?thesis by (simp add: comp_def)
qed

lemma by_id_index:
  fixes nid :: i32
  assumes "index_ok ix tab" and "list_all pair_ok tab"
  defines "hits \<equiv> filter (\<lambda>p. did_of (snd p) = nid) tab"
  shows "by_id ix nid = Some (if hits = [] then None else Some (map shown hits))"
proof -
  let ?n = "length tab" and ?id = "\<lambda>k. did_of (snd (tab ! (id_order tab ! k)))"
  have len: "pi_len ix = ?n" using assms(1) by (simp add: index_ok_def)
  from by_id_bound [OF assms(1), of "\<lambda>i. i < sint nid"] obtain start where start: "start \<le> ?n"
    "partition_point (\<lambda>k. map_option (\<lambda>i. sint i < sint nid) (Option.bind (by_id_ordinal ix k) (id_at ix))) 0 ?n = Some start"
    "\<forall>k<?n. sint (?id k) < sint nid \<longleftrightarrow> k < start" by auto
  from by_id_bound [OF assms(1), of "\<lambda>i. i \<le> sint nid"] obtain stop where stop: "stop \<le> ?n"
    "partition_point (\<lambda>k. map_option (\<lambda>i. sint i \<le> sint nid) (Option.bind (by_id_ordinal ix k) (id_at ix))) 0 ?n = Some stop"
    "\<forall>k<?n. sint (?id k) \<le> sint nid \<longleftrightarrow> k < stop" by auto
  have "start \<le> k \<and> k < stop \<longleftrightarrow> ?id k = nid" if "k < ?n" for k
    using start(3) [rule_format, OF that] stop(3) [rule_format, OF that] by (auto simp: not_less [symmetric] intro: signed_word_eqI)
  from id_segment [OF start(1) stop(1) this]
  have seg: "map (\<lambda>k. shown (tab ! (id_order tab ! k))) [start..<stop] = map shown hits" by (simp add: hits_def)
  then have "start < stop \<longleftrightarrow> hits \<noteq> []" by (metis list.map_disc_iff upt_eq_Nil_conv not_less_zero le_eq_less_or_eq linorder_not_le)
  with seg entries_between_index [OF assms(1,2), of "[start..<stop]"] stop(1) show ?thesis
    by (simp add: by_id_def Let_def len start(2) stop(2))
qed

section \<open>The property map round trip\<close>

abbreviation entry_def :: "entry \<Rightarrow> WingNodeDef" where "entry_def e \<equiv> projr (from_bytes_without_raw (snd (snd e)))"

definition decodable :: "entry \<Rightarrow> bool" where
  "decodable e \<longleftrightarrow> is_str (fst (snd e)) \<and> (case from_bytes_without_raw (snd (snd e)) of Inr _ \<Rightarrow> True | Inl _ \<Rightarrow> False)"

lemma pairs_ok: "list_all decodable es \<Longrightarrow> list_all pair_ok (map pair_of (name_order es))"
  by (auto simp: list_all_iff decodable_def pair_ok_def is_str_def name_order_def)

lemma pair_index:
  assumes "e \<in> set es"
  obtains n where "n < length (map pair_of (name_order es))" and "map pair_of (name_order es) ! n = pair_of e"
proof -
  have "e \<in> set (name_order es)" using assms by (simp add: name_order_def)
  then obtain n where "n < length (name_order es)" "name_order es ! n = e" by (auto simp: in_set_conv_nth)
  with that [of n] show ?thesis by simp
qed

lemma shown_pair: "shown (pair_of e) = (fst (snd e), entry_def e)"
  by (simp add: shown_def)

text \<open>
  The property map round trip by name. The blob written from the records of a sweep (distinct names,
  lengths that fit their fields, at most 4 GiB) is accepted by the reader, and looking up each written name
  ends and gives back its definition and its id, while every other name ends with \<open>None\<close>: no
  probe runs forever or reads outside the blob.
\<close>

lemma propmap_lookup:
  assumes "entries_ok es" and "list_all decodable es"
  shows "\<exists>ix. written_index es = Some ix \<and> pi_len ix = length es \<and>
    (\<forall>e\<in>set es. get_def ix (fst (snd e)) = Some (Some (entry_def e)) \<and>
       id_of ix (fst (snd e)) = Some (Some (did_of (snd (snd e))))) \<and>
    (\<forall>name. name \<notin> (\<lambda>e. fst (snd e)) ` set es \<longrightarrow> get_def ix name = Some None \<and> id_of ix name = Some None)"
proof -
  let ?tab = "map pair_of (name_order es)"
  obtain ix where ix: "written_index es = Some ix" "index_ok ix ?tab" using written_index_ok [OF assms(1)] by blast
  have "get_def ix (fst (snd e)) = Some (Some (entry_def e)) \<and> id_of ix (fst (snd e)) = Some (Some (did_of (snd (snd e))))"
    if e: "e \<in> set es" for e
  proof -
    from pair_index [OF e] obtain n where n: "n < length ?tab" "?tab ! n = pair_of e" .
    have f: "find_name ix (fst (snd e)) = Some (Some n)" using find_name_hit [OF ix(2) n(1)] n(2) by simp
    have "pair_ok (?tab ! n)" using pairs_ok [OF assms(2)] n(1) by (simp only: list_all_length)
    from index_reads(1) [OF ix(2) n(1)] index_reads(3) [OF ix(2) n(1) this] show ?thesis
      unfolding n(2) shown_pair by (simp add: get_def_def id_of_def f)
  qed
  moreover have "find_name ix name = Some None" if "name \<notin> (\<lambda>e. fst (snd e)) ` set es" for name
    using that by (intro find_name_miss [OF ix(2)]) (force simp: name_order_def)
  moreover have "pi_len ix = length es" using ix(2) by (simp add: index_ok_def name_order_def)
  ultimately show ?thesis using ix(1) by (intro exI [of _ ix]) (simp add: get_def_def id_of_def)
qed

text \<open>
  The property map by id: a lookup of an id ends and gives exactly the written records with that id, in
  the order of their names, and \<open>None\<close> when there is none.
\<close>

lemma propmap_by_id:
  assumes "entries_ok es" and "list_all decodable es"
  shows "\<exists>ix. written_index es = Some ix \<and>
    (\<forall>nid. let hits = filter (\<lambda>e. did_of (snd (snd e)) = nid) (name_order es) in
       by_id ix nid = Some (if hits = [] then None else Some (map (\<lambda>e. (fst (snd e), entry_def e)) hits)))"
proof -
  let ?tab = "map pair_of (name_order es)"
  obtain ix where ix: "written_index es = Some ix" "index_ok ix ?tab" using written_index_ok [OF assms(1)] by blast
  have "filter (\<lambda>p. did_of (snd p) = nid) ?tab = map pair_of (filter (\<lambda>e. did_of (snd (snd e)) = nid) (name_order es))" for nid
    by (simp add: filter_map comp_def)
  with by_id_index [OF ix(2) pairs_ok [OF assms(2)]] ix(1) show ?thesis
    by (intro exI [of _ ix]) (simp add: Let_def shown_def comp_def)
qed

definition sample_entries :: "entry list" where
  "sample_entries = [(0, ''/ch/2/g'', sample_raw), (0, ''/ch/1/g'', sample_raw)]"

lemma sample_entries_ok: "entries_ok sample_entries" "list_all decodable sample_entries"
proof -
  show "entries_ok sample_entries"
    by (simp add: entries_ok_def sample_entries_def sample_raw_def entry_ok_def sweep_bytes_def push_entry_def)
  show "list_all decodable sample_entries" by code_simp
qed

lemma sample_entries_order: "name_order sample_entries = [(0, ''/ch/1/g'', sample_raw), (0, ''/ch/2/g'', sample_raw)]"
  by code_simp

lemma sample_entry_def:
  "projr (from_bytes_without_raw sample_raw) = sample_parsed\<lparr>nd_raw := []\<rparr>" "did_of sample_raw = 0x1234"
  by code_simp+

end
