(* ===== verification/Udp.thy ===== *)
theory Udp
  imports Wing_Prelude
begin

text \<open>
  What a program using one UDP socket observes: the successive readings of the clock, what each
  receive gives, which sends fail, and the datagrams sent so far. A receive whose outcome the
  script does not give is still waiting: an operation that needs it returns \<open>None\<close>.
\<close>

text \<open>A datagram with the number of its source address, or a receive error.\<close>

datatype recv = Packet nat "byte list" | NoPacket io_kind

record Net =
  n_clock :: "int list"
  n_now :: int
  n_recv :: "recv list"
  n_send_errors :: "io_kind option list"
  n_sent :: "byte list list"

definition clock :: "Net \<Rightarrow> int \<times> Net" where
  "clock w = (case n_clock w of [] \<Rightarrow> (n_now w, w) | t # ts \<Rightarrow> (t, w\<lparr>n_clock := ts, n_now := t\<rparr>))"

definition send_datagram :: "byte list \<Rightarrow> Net \<Rightarrow> io_kind option \<times> Net" where
  "send_datagram bytes w =
     (case n_send_errors w of
        Some k # ks \<Rightarrow> (Some k, w\<lparr>n_send_errors := ks\<rparr>)
      | None # ks \<Rightarrow> (None, w\<lparr>n_send_errors := ks, n_sent := n_sent w @ [bytes]\<rparr>)
      | [] \<Rightarrow> (None, w\<lparr>n_sent := n_sent w @ [bytes]\<rparr>))"

definition recv_datagram :: "Net \<Rightarrow> (recv \<times> Net) option" where
  "recv_datagram w = (case n_recv w of [] \<Rightarrow> None | r # rs \<Rightarrow> Some (r, w\<lparr>n_recv := rs\<rparr>))"

lemma clock_keeps [simp]:
  "clock w = (t, w') \<Longrightarrow> n_recv w' = n_recv w"
  "clock w = (t, w') \<Longrightarrow> n_sent w' = n_sent w"
  "clock w = (t, w') \<Longrightarrow> n_send_errors w' = n_send_errors w"
  by (auto simp: clock_def split: list.splits)

lemma send_keeps [simp]:
  "send_datagram bytes w = (e, w') \<Longrightarrow> n_recv w' = n_recv w"
  by (auto simp: send_datagram_def split: list.splits option.splits)

lemma send_sends:
  "send_datagram bytes w = (e, w') \<Longrightarrow> n_sent w' = n_sent w @ (if e = None then [bytes] else [])"
  by (auto simp: send_datagram_def split: list.splits option.splits)

lemma recv_takes:
  "recv_datagram w = Some (r, w') \<Longrightarrow> n_recv w = r # n_recv w' \<and> n_sent w' = n_sent w"
  by (auto simp: recv_datagram_def split: list.splits)

lemma recv_datagram_None: "recv_datagram w = None \<longleftrightarrow> n_recv w = []"
  by (auto simp: recv_datagram_def split: list.splits)

end
