(* ===== verification/Discovery.thy ===== *)
theory Discovery
  imports Udp Rust_Split
begin

text \<open>
  Discovery (\<open>src/console.rs\<close>): the reply body, the broadcast scan and the unicast firmware probe.
  Printing an address (\<open>IpAddr::to_string\<close>) is the parameter \<open>show_ip\<close>.
\<close>

record DiscoveryInfo =
  di_ip :: string
  di_name :: string
  di_model :: string
  di_serial :: string
  di_firmware :: string

text \<open>Fields after the sixth are ignored, as the source never asks for them.\<close>

definition parse_info :: "string \<Rightarrow> DiscoveryInfo option" where
  "parse_info reply =
     (case split_on CHR '','' reply of
        tag # rest \<Rightarrow>
          if tag \<noteq> ''WING'' then None
          else (case rest of
            ip # name # model # serial # firmware # _ \<Rightarrow>
              Some \<lparr>di_ip = ip, di_name = name, di_model = model, di_serial = serial, di_firmware = firmware\<rparr>
          | _ \<Rightarrow> None)
      | [] \<Rightarrow> None)"

definition from_datagram :: "(nat \<Rightarrow> string) \<Rightarrow> byte list \<Rightarrow> nat \<Rightarrow> DiscoveryInfo option" where
  "from_datagram show_ip payload from_ip =
     Option.bind (from_utf8 payload) (\<lambda>s. map_option (\<lambda>info. info\<lparr>di_ip := show_ip from_ip\<rparr>) (parse_info s))"

section \<open>The scan\<close>

abbreviation probe_bytes :: "byte list" where "probe_bytes \<equiv> as_bytes ''WING?''"

definition already_seen :: "DiscoveryInfo list \<Rightarrow> DiscoveryInfo \<Rightarrow> bool" where
  "already_seen results info \<longleftrightarrow> (\<exists>seen\<in>set results. di_ip seen = di_ip info \<and> di_serial seen = di_serial info)"

text \<open>The loop, by the receives the socket gives; the buffer has 1024 bytes.\<close>

function scan_loop :: "(nat \<Rightarrow> string) \<Rightarrow> bool \<Rightarrow> int \<Rightarrow> nat \<Rightarrow> nat \<Rightarrow> DiscoveryInfo list \<Rightarrow> Net \<Rightarrow>
    (DiscoveryInfo list \<times> Net) option" where
  "scan_loop show_ip stop_on_first deadline attempts packets_seen results w =
     (if attempts < 10 \<and> packets_seen < 100 then
        (case clock w of (t, w1) \<Rightarrow>
         if t < deadline then
           (case recv_datagram w1 of
              None \<Rightarrow> None
            | Some (Packet from_ip payload, w2) \<Rightarrow>
                (case from_datagram show_ip (take 1024 payload) from_ip of
                   None \<Rightarrow> scan_loop show_ip stop_on_first deadline attempts (packets_seen + 1) results w2
                 | Some info \<Rightarrow>
                     if already_seen results info
                     then scan_loop show_ip stop_on_first deadline attempts (packets_seen + 1) results w2
                     else if stop_on_first then Some (results @ [info], w2)
                     else scan_loop show_ip stop_on_first deadline attempts (packets_seen + 1) (results @ [info]) w2)
            | Some (NoPacket k, w2) \<Rightarrow>
                (case send_datagram probe_bytes w2 of (_, w3) \<Rightarrow>
                 scan_loop show_ip stop_on_first deadline (attempts + 1) packets_seen results w3))
         else Some (results, w1))
      else Some (results, w))"
  by pat_completeness auto

termination scan_loop
  by (relation "measure (\<lambda>(_, _, _, attempts, packets_seen, _, _). (10 - attempts) + (100 - packets_seen))") auto

declare scan_loop.simps [simp del]

text \<open>\<open>configured\<close> is the outcome of \<open>set_read_timeout\<close>.\<close>

definition scan_on :: "(nat \<Rightarrow> string) \<Rightarrow> unit result \<Rightarrow> bool \<Rightarrow> int \<Rightarrow> Net \<Rightarrow>
    (DiscoveryInfo list result \<times> Net) option" where
  "scan_on show_ip configured stop_on_first window w =
     (case configured of
        Inl e \<Rightarrow> Some (Inl e, w)
      | Inr _ \<Rightarrow>
          (case clock w of (t, w1) \<Rightarrow>
           case send_datagram probe_bytes w1 of
             (Some k, w2) \<Rightarrow> Some (Inl (Io k), w2)
           | (None, w2) \<Rightarrow>
               map_option (\<lambda>(results, w3). (Inr results, w3)) (scan_loop show_ip stop_on_first (t + window) 0 0 [] w2)))"

section \<open>The firmware probe\<close>

text \<open>\<open>ready\<close>: the socket could be bound. Setting the read timeout is taken to succeed, as its
  argument is never zero.\<close>

function probe_loop :: "(nat \<Rightarrow> string) \<Rightarrow> nat \<Rightarrow> int \<Rightarrow> Net \<Rightarrow> (string option \<times> Net) option" where
  "probe_loop show_ip ip deadline w =
     (case clock w of (t, w1) \<Rightarrow>
      if deadline < t then Some (None, w1)
      else (case recv_datagram w1 of
          None \<Rightarrow> None
        | Some (NoPacket k, w2) \<Rightarrow> Some (None, w2)
        | Some (Packet from_ip payload, w2) \<Rightarrow>
            if from_ip = ip then Some (map_option di_firmware (from_datagram show_ip (take 1024 payload) ip), w2)
            else probe_loop show_ip ip deadline w2))"
  by pat_completeness auto

termination probe_loop
  by (relation "measure (\<lambda>(_, _, _, w). length (n_recv w))")
    (auto dest!: recv_takes clock_keeps(1) [OF sym], metis length_Cons lessI)

declare probe_loop.simps [simp del]

definition probe_firmware :: "(nat \<Rightarrow> string) \<Rightarrow> bool \<Rightarrow> nat \<Rightarrow> Net \<Rightarrow> (string option \<times> Net) option" where
  "probe_firmware show_ip ready ip w =
     (if \<not> ready then Some (None, w)
      else case send_datagram probe_bytes w of
        (Some k, w1) \<Rightarrow> Some (None, w1)
      | (None, w1) \<Rightarrow> (case clock w1 of (t, w2) \<Rightarrow> probe_loop show_ip ip (t + 300000000) w2))"

section \<open>What a scan reports\<close>

definition info_key :: "DiscoveryInfo \<Rightarrow> string \<times> string" where
  "info_key info = (di_ip info, di_serial info)"

definition reported :: "(nat \<Rightarrow> string) \<Rightarrow> recv list \<Rightarrow> DiscoveryInfo \<Rightarrow> bool" where
  "reported show_ip packets info \<longleftrightarrow>
     (\<exists>ip payload. Packet ip payload \<in> set packets \<and> from_datagram show_ip (take 1024 payload) ip = Some info)"

text \<open>The invariant of the loop: the packets \<open>ps\<close> are those of the whole scan.\<close>

definition scan_inv :: "(nat \<Rightarrow> string) \<Rightarrow> recv list \<Rightarrow> DiscoveryInfo list \<Rightarrow> bool" where
  "scan_inv show_ip ps results \<longleftrightarrow> distinct (map info_key results) \<and> list_all (reported show_ip ps) results"

lemma scan_inv_push:
  assumes "scan_inv show_ip ps results" and "\<not> already_seen results info" and "reported show_ip ps info"
  shows "scan_inv show_ip ps (results @ [info])"
  using assms by (auto simp: scan_inv_def already_seen_def info_key_def)

lemma from_datagram_ip: "from_datagram show_ip payload ip = Some info \<Longrightarrow> di_ip info = show_ip ip"
  by (auto simp: from_datagram_def split: bind_splits)

text \<open>One pass of the loop, with the counters' budget.\<close>

lemma scan_loop_ends:
  assumes "(10 - attempts) + (100 - packets_seen) \<le> length (n_recv w) + 1"
    and "scan_inv show_ip ps results" and "set (n_recv w) \<subseteq> set ps" and "stop_on_first \<longrightarrow> results = []"
  shows "\<exists>results' w' used. scan_loop show_ip stop_on_first deadline attempts packets_seen results w = Some (results', w') \<and>
    n_recv w = used @ n_recv w' \<and> length used \<le> (10 - attempts) + (100 - packets_seen) - 1 \<and>
    scan_inv show_ip ps results' \<and> (stop_on_first \<longrightarrow> length results' \<le> 1)" (is "\<exists>results' w' used. ?P results' w' used")
  using assms
proof (induction "(10 - attempts) + (100 - packets_seen)" arbitrary: attempts packets_seen results w rule: less_induct)
  case less
  obtain t w1 where c: "clock w = (t, w1)" by (cases "clock w") auto
  note r1 = clock_keeps(1) [OF c]
  show ?case
  proof (cases "attempts < 10 \<and> packets_seen < 100 \<and> t < deadline")
    case False
    then show ?thesis using less.prems(2,4) c r1
      by (subst scan_loop.simps) (auto split: prod.splits intro!: exI [of _ "[]"])
  next
    case True
    then have "0 < length (n_recv w)" using less.prems(1) by linarith
    then have "n_recv w1 \<noteq> []" using r1 by auto
    then obtain r w2 where rd: "recv_datagram w1 = Some (r, w2)" using recv_datagram_None [of w1] by (cases "recv_datagram w1") auto
    have rs: "n_recv w = r # n_recv w2" using recv_takes [OF rd] r1 by simp
    have next_step: "\<exists>results'' w' used. scan_loop show_ip stop_on_first deadline a p results' w3 = Some (results'', w') \<and>
        n_recv w = used @ n_recv w' \<and> length used \<le> (10 - attempts) + (100 - packets_seen) - 1 \<and>
        scan_inv show_ip ps results'' \<and> (stop_on_first \<longrightarrow> length results'' \<le> 1)"
      if "a = attempts + 1 \<and> p = packets_seen \<or> a = attempts \<and> p = packets_seen + 1"
        and "scan_inv show_ip ps results'" and "n_recv w3 = n_recv w2" and "stop_on_first \<longrightarrow> results' = []" for a p results' w3
    proof -
      have "\<exists>results'' w' used. scan_loop show_ip stop_on_first deadline a p results' w3 = Some (results'', w') \<and>
        n_recv w3 = used @ n_recv w' \<and> length used \<le> (10 - a) + (100 - p) - 1 \<and>
        scan_inv show_ip ps results'' \<and> (stop_on_first \<longrightarrow> length results'' \<le> 1)"
        using that True less.prems(1,3) rs by (intro less.hyps) auto
      then obtain results'' w' used where "scan_loop show_ip stop_on_first deadline a p results' w3 = Some (results'', w')"
        "n_recv w3 = used @ n_recv w'" "length used \<le> (10 - a) + (100 - p) - 1"
        "scan_inv show_ip ps results''" "stop_on_first \<longrightarrow> length results'' \<le> 1" by blast
      with that(1,3) True rs show ?thesis
        by (intro exI [of _ results''] exI [of _ w'] exI [of _ "r # used"]) auto
    qed
    show ?thesis
    proof (cases r)
      case (NoPacket k)
      obtain e w3 where "send_datagram probe_bytes w2 = (e, w3)" by (cases "send_datagram probe_bytes w2") auto
      with True c rd NoPacket next_step [of "attempts + 1" packets_seen results w3] less.prems(2,4) show ?thesis
        by (subst scan_loop.simps) (simp add: send_keeps)
    next
      case (Packet from_ip payload)
      show ?thesis
      proof (cases "from_datagram show_ip (take 1024 payload) from_ip")
        case None
        with True c rd Packet next_step [of attempts "packets_seen + 1" results w2] less.prems(2,4) show ?thesis
          by (subst scan_loop.simps) simp
      next
        case (Some info)
        have rep: "reported show_ip ps info" using Some Packet rs less.prems(3) by (auto simp: reported_def)
        show ?thesis
        proof (cases "already_seen results info")
          case seen: True
          with True c rd Packet Some next_step [of attempts "packets_seen + 1" results w2] less.prems(2,4) show ?thesis
            by (subst scan_loop.simps) simp
        next
          case fresh: False
          note inv = scan_inv_push [OF less.prems(2) fresh rep]
          show ?thesis
          proof (cases stop_on_first)
            case stop: True
            have "scan_loop show_ip stop_on_first deadline attempts packets_seen results w = Some (results @ [info], w2)"
              using True c rd Packet Some fresh stop by (subst scan_loop.simps) simp
            with inv stop less.prems(4) rs True show ?thesis
              by (intro exI [of _ "results @ [info]"] exI [of _ w2] exI [of _ "[r]"]) auto
          next
            case go: False
            with True c rd Packet Some fresh inv next_step [of attempts "packets_seen + 1" "results @ [info]" w2] show ?thesis
              by (subst scan_loop.simps) simp
          qed
        qed
      qed
    qed
  qed
qed


definition lan :: Net where
  "lan = \<lparr>n_clock = [], n_now = 0,
     n_recv = Packet 7 (as_bytes ''WING,10.0.0.1,Desk,ngc,SN1,3.1'') # Packet 7 (as_bytes ''WING,6.6.6.6,Desk,ngc,SN1,3.1'') #
       replicate 107 (NoPacket TimedOut), n_send_errors = [], n_sent = []\<rparr>"


end
