(* ===== verification/Osc.thy ===== *)
theory Osc
  imports Discovery Rust_Num
begin

text \<open>
  The OSC codec, the request builders and the reply parsers of \<open>src/osc.rs\<close>: messages of an address and
  arguments, their 4-byte aligned wire form, and the grammar of node commands.
\<close>

section \<open>Messages and errors\<close>

datatype OscNodeError = NodeNotFound | ValueError | BufferOverflow | NodeIsNotPar | IncompleteData | StackEmpty

datatype OscError =
    OscIo io_kind
  | Malformed string
  | TooLarge nat
  | OscTimeout
  | NodeRejected OscNodeError
  | RetriesExhausted nat

type_synonym 'a osc_result = "OscError + 'a"

datatype OscArg = OscInt i32 | OscFloat f32 | OscStr string | OscBlob "byte list"

record OscMessage =
  addr :: string
  args :: "OscArg list"

definition osc_message :: "string \<Rightarrow> OscArg list \<Rightarrow> OscMessage" where
  "osc_message a xs = \<lparr>addr = a, args = xs\<rparr>"

definition MAX_PACKET_BYTES :: nat where
  "MAX_PACKET_BYTES = 32 * 1024"

section \<open>Encoding\<close>

definition padded :: "nat \<Rightarrow> nat" where
  "padded n = ((n + 1 + 3) div 4) * 4"

definition push_osc_string :: "byte list \<Rightarrow> string \<Rightarrow> byte list" where
  "push_osc_string buf s = buf @ as_bytes s @ replicate (padded (length s) - length s) 0"

definition blob_pad :: "nat \<Rightarrow> nat" where
  "blob_pad n = (4 - n mod 4) mod 4"

definition push_osc_blob :: "byte list \<Rightarrow> byte list \<Rightarrow> byte list" where
  "push_osc_blob buf data = buf @ u32_be (word_of_nat (length data)) @ data @ replicate (blob_pad (length data)) 0"

fun type_tag :: "OscArg \<Rightarrow> char" where
  "type_tag (OscInt _) = CHR ''i''"
| "type_tag (OscFloat _) = CHR ''f''"
| "type_tag (OscStr _) = CHR ''s''"
| "type_tag (OscBlob _) = CHR ''b''"

fun push_osc_arg :: "byte list \<Rightarrow> OscArg \<Rightarrow> byte list" where
  "push_osc_arg buf (OscInt v) = buf @ u32_be v"
| "push_osc_arg buf (OscFloat v) = buf @ u32_be v"
| "push_osc_arg buf (OscStr v) = push_osc_string buf v"
| "push_osc_arg buf (OscBlob v) = push_osc_blob buf v"

definition has_nul :: "string \<Rightarrow> bool" where
  "has_nul s \<longleftrightarrow> 0 \<in> set (as_bytes s)"

definition arg_has_nul :: "OscArg \<Rightarrow> bool" where
  "arg_has_nul a \<longleftrightarrow> (case a of OscStr v \<Rightarrow> has_nul v | _ \<Rightarrow> False)"

definition encode :: "OscMessage \<Rightarrow> byte list osc_result" where
  "encode msg =
     (if has_nul (addr msg) \<or> list_ex arg_has_nul (args msg)
      then Inl (Malformed ''OSC strings cannot contain embedded NULs'')
      else
        let buf = push_osc_string [] (addr msg);
            buf = (if args msg = [] then buf
                   else foldl push_osc_arg (push_osc_string buf (CHR '','' # map type_tag (args msg))) (args msg)) in
        if length buf > MAX_PACKET_BYTES then Inl (TooLarge (length buf)) else Inr buf)"

lemma encode_code [code]:
  "encode msg =
     (if has_nul (addr msg) \<or> list_ex arg_has_nul (args msg)
      then Inl (Malformed ''OSC strings cannot contain embedded NULs'')
      else
        let buf = push_osc_string [] (addr msg);
            buf = (if args msg = [] then buf
                   else foldl push_osc_arg (push_osc_string buf (CHR '','' # map type_tag (args msg))) (args msg)) in
        if int (length buf) > 32768 then Inl (TooLarge (length buf)) else Inr buf)"
  by (simp add: encode_def MAX_PACKET_BYTES_def)

text \<open>What a receive leaves of a datagram in a buffer of \<open>MAX_PACKET_BYTES\<close>.\<close>

definition received :: "byte list \<Rightarrow> byte list" where
  "received bytes = take MAX_PACKET_BYTES bytes"

lemma received_code [code]: "received bytes = (if int (length bytes) \<le> 32768 then bytes else take MAX_PACKET_BYTES bytes)"
  by (simp add: received_def MAX_PACKET_BYTES_def)

section \<open>Decoding\<close>

text \<open>\<open>position\<close> of the first NUL of a slice.\<close>

fun nul_position :: "byte list \<Rightarrow> nat option" where
  "nul_position [] = None"
| "nul_position (b # bs) = (if b = 0 then Some 0 else map_option Suc (nul_position bs))"

definition read_osc_string :: "(OscError, string) reader" where
  "read_osc_string bytes start =
     and_then (ok_or (nul_position (drop start bytes)) (Malformed ''unterminated OSC string'')) (\<lambda>nul.
     and_then (ok_or (from_utf8 (take nul (drop start bytes))) (Malformed ''invalid utf8 in OSC string'')) (\<lambda>s.
     if start + padded nul > length bytes then Inl (Malformed ''truncated OSC string padding'')
     else Inr (s, start + padded nul)))"

definition read_osc_i32 :: "(OscError, i32) reader" where
  "read_osc_i32 bytes i =
     (if i + 4 \<le> length bytes then Inr (u32_from_be (take 4 (drop i bytes)), i + 4)
      else Inl (Malformed ''truncated int32 argument''))"

definition read_osc_f32 :: "(OscError, f32) reader" where
  "read_osc_f32 bytes i =
     (if i + 4 \<le> length bytes then Inr (u32_from_be (take 4 (drop i bytes)), i + 4)
      else Inl (Malformed ''truncated float32 argument''))"

definition read_blob :: "(OscError, byte list) reader" where
  "read_blob bytes i =
     and_then (read_osc_i32 bytes i) (\<lambda>(size, i).
     if sint size < 0 then Inl (Malformed ''negative blob size'')
     else let size = unat size in
       if i + size > length bytes then Inl (Malformed ''truncated blob data'')
       else let data = take size (drop i bytes); i = i + size in
         if i + blob_pad size > length bytes then Inl (Malformed ''truncated blob padding'')
         else Inr (data, i + blob_pad size))"

definition read_osc_arg :: "char \<Rightarrow> (OscError, OscArg) reader" where
  "read_osc_arg c bytes i =
     (if c = CHR ''i'' then and_then (read_osc_i32 bytes i) (\<lambda>(v, i). Inr (OscInt v, i))
      else if c = CHR ''f'' then and_then (read_osc_f32 bytes i) (\<lambda>(v, i). Inr (OscFloat v, i))
      else if c = CHR ''s'' then and_then (read_osc_string bytes i) (\<lambda>(v, i). Inr (OscStr v, i))
      else if c = CHR ''b'' then and_then (read_blob bytes i) (\<lambda>(v, i). Inr (OscBlob v, i))
      else Inl (Malformed ''unsupported OSC type tag''))"

fun read_osc_args :: "string \<Rightarrow> (OscError, OscArg list) reader" where
  "read_osc_args [] bytes i = Inr ([], i)"
| "read_osc_args (c # cs) bytes i =
     and_then (read_osc_arg c bytes i) (\<lambda>(a, i).
     and_then (read_osc_args cs bytes i) (\<lambda>(xs, i). Inr (a # xs, i)))"

abbreviation tag_message :: string where
  "tag_message \<equiv> ''type tag string must start with '' @ [CHR 0x27, CHR '','', CHR 0x27]"

definition decode :: "byte list \<Rightarrow> OscMessage osc_result" where
  "decode bytes =
     and_then (read_osc_string bytes 0) (\<lambda>(a, i).
     if \<not> starts_with ''/'' a
     then Inl (Malformed ''address pattern must start with '/' (bundles are not supported)'')
     else if i \<ge> length bytes then Inr (osc_message a [])
     else and_then (read_osc_string bytes i) (\<lambda>(tag, i).
       case tag of
         [] \<Rightarrow> Inl (Malformed tag_message)
       | c # chars \<Rightarrow>
           if c \<noteq> CHR '','' then Inl (Malformed tag_message)
           else and_then (read_osc_args chars bytes i) (\<lambda>(xs, i).
             if i \<noteq> length bytes then Inl (Malformed ''trailing bytes after OSC arguments'')
             else Inr (osc_message a xs))))"

lemma read_osc_arg_error: "read_osc_arg c bytes i = Inl e \<Longrightarrow> \<exists>s. e = Malformed s"
  by (auto simp: read_osc_arg_def read_osc_string_def read_osc_i32_def read_osc_f32_def read_blob_def and_then_iffs Let_def split: if_splits)

lemma read_osc_args_error: "read_osc_args cs bytes i = Inl e \<Longrightarrow> \<exists>s. e = Malformed s"
  by (induction cs arbitrary: i) (auto simp: and_then_iffs dest: read_osc_arg_error)

text \<open>Every decoding error is \<open>Malformed\<close>, which the request loop skips.\<close>

lemma decode_error: "decode bytes = Inl e \<Longrightarrow> \<exists>s. e = Malformed s"
  by (auto simp: decode_def read_osc_string_def and_then_iffs dest: read_osc_args_error split: if_splits list.splits)

section \<open>Requests\<close>

definition validate_address_path :: "string \<Rightarrow> unit osc_result" where
  "validate_address_path path =
     (if list_ex (\<lambda>c. c \<in> set ''*?[]{}, '') path
      then Inl (Malformed ''address path contains an OSC-reserved wildcard/pattern character'')
      else Inr ())"

definition get_param :: "string \<Rightarrow> OscMessage osc_result" where
  "get_param path = and_then (validate_address_path path) (\<lambda>_. Inr (osc_message path []))"

text \<open>\<open>{:08x}\<close> of a \<open>u32\<close>: eight hexadecimal digits, the most significant first.\<close>

definition hex_digit :: "nat \<Rightarrow> char" where
  "hex_digit n = (if n < 10 then char_of (48 + n) else char_of (87 + n))"

definition hex8 :: "u32 \<Rightarrow> string" where
  "hex8 w = map (\<lambda>k. hex_digit (unat (take_bit 4 (drop_bit (4 * k) w)))) [7, 6, 5, 4, 3, 2, 1, 0]"

definition get_param_by_id :: "i32 \<Rightarrow> OscMessage" where
  "get_param_by_id nid = osc_message (''/#'' @ hex8 nid) []"

definition set_string :: "string \<Rightarrow> string \<Rightarrow> OscMessage osc_result" where
  "set_string path v = and_then (validate_address_path path) (\<lambda>_. Inr (osc_message path [OscStr v]))"

definition set_float :: "string \<Rightarrow> f32 \<Rightarrow> OscMessage osc_result" where
  "set_float path v = and_then (validate_address_path path) (\<lambda>_. Inr (osc_message path [OscFloat v]))"

definition set_int :: "string \<Rightarrow> i32 \<Rightarrow> OscMessage osc_result" where
  "set_int path v = and_then (validate_address_path path) (\<lambda>_. Inr (osc_message path [OscInt v]))"

definition toggle :: "string \<Rightarrow> OscMessage osc_result" where
  "toggle path = set_int path (- 1)"

definition set_enum_by_name :: "string \<Rightarrow> string \<Rightarrow> OscMessage osc_result" where
  "set_enum_by_name path name = set_string path name"

definition set_enum_by_index :: "string \<Rightarrow> i32 \<Rightarrow> OscMessage osc_result" where
  "set_enum_by_index path index = set_int path index"

text \<open>The checks \<open>"." | ".."\<close> of the source are subsumed by the one on \<open>'.'\<close>; they are kept.\<close>

definition bad_pair_name :: "string \<Rightarrow> bool" where
  "bad_pair_name name \<longleftrightarrow>
     name = [] \<or> list_ex (\<lambda>c. c \<in> set ''/.,='') name \<or> has_nul name \<or> name = ''.'' \<or> name = ''..''"

fun format_pairs :: "(string \<times> string) list \<Rightarrow> string list osc_result" where
  "format_pairs [] = Inr []"
| "format_pairs ((name, v) # pairs) =
     (if bad_pair_name name
      then Inl (Malformed ''node pair names must be local leaf names without grammar separators'')
      else if CHR '','' \<in> set v \<or> has_nul v
      then Inl (Malformed ''node pair values cannot contain commas or embedded NULs; use set_string for arbitrary strings'')
      else and_then (format_pairs pairs) (\<lambda>formatted. Inr ((name @ ''='' @ v) # formatted)))"

definition format_node_pairs :: "(string \<times> string) list \<Rightarrow> string osc_result" where
  "format_node_pairs pairs = and_then (format_pairs pairs) (\<lambda>formatted. Inr (join_with CHR '','' formatted))"

definition node_set_local :: "string \<Rightarrow> (string \<times> string) list \<Rightarrow> OscMessage osc_result" where
  "node_set_local node_path pairs =
     and_then (validate_address_path node_path) (\<lambda>_.
     and_then (format_node_pairs pairs) (\<lambda>s. Inr (osc_message node_path [OscStr s])))"

definition node_set_root :: "string \<Rightarrow> OscMessage" where
  "node_set_root payload = osc_message ''/'' [OscStr payload]"

definition node_query :: "string \<Rightarrow> string \<Rightarrow> OscMessage osc_result" where
  "node_query q node_path = and_then (validate_address_path node_path) (\<lambda>_. Inr (osc_message node_path [OscStr q]))"

definition node_dump :: "string \<Rightarrow> OscMessage osc_result" where
  "node_dump = node_query ''*''"

definition node_describe :: "string \<Rightarrow> OscMessage osc_result" where
  "node_describe = node_query ''?''"

definition node_describe_with_values :: "string \<Rightarrow> OscMessage osc_result" where
  "node_describe_with_values = node_query ''#''"

definition console_info :: OscMessage where
  "console_info = osc_message ''/?'' []"

definition with_reply_port :: "u16 \<Rightarrow> OscMessage \<Rightarrow> OscMessage" where
  "with_reply_port port msg = osc_message (''/%'' @ show_nat (unat port) @ addr msg) (args msg)"

datatype SubscriptionFormat = BinaryFormat | OscTriplet | OscNative

fun format_address :: "SubscriptionFormat \<Rightarrow> string" where
  "format_address BinaryFormat = ''/*b''"
| "format_address OscTriplet = ''/*s''"
| "format_address OscNative = ''/*S''"

definition subscribe_message :: "SubscriptionFormat \<Rightarrow> OscMessage" where
  "subscribe_message fmt = osc_message (format_address fmt) []"

section \<open>Replies\<close>

datatype ParamFacets =
    StringOrEnum string
  | FloatFacets string f32 f32
  | IntFacets string f32 i32
  | NativeFloat f32
  | NativeInt i32

record ParamReply =
  pr_path :: string
  pr_facets :: ParamFacets

definition param_facets :: "OscArg list \<Rightarrow> ParamFacets option" where
  "param_facets xs =
     (case xs of
        [OscStr display] \<Rightarrow> Some (StringOrEnum display)
      | [OscStr display, OscFloat raw, OscFloat v] \<Rightarrow> Some (FloatFacets display raw v)
      | [OscStr display, OscFloat raw, OscInt v] \<Rightarrow> Some (IntFacets display raw v)
      | [OscFloat v] \<Rightarrow> Some (NativeFloat v)
      | [OscInt v] \<Rightarrow> Some (NativeInt v)
      | _ \<Rightarrow> None)"

definition parse_param_reply :: "OscMessage \<Rightarrow> ParamReply osc_result" where
  "parse_param_reply msg =
     and_then (ok_or (param_facets (args msg)) (Malformed ''unexpected parameter reply shape'')) (\<lambda>facets.
     Inr \<lparr>pr_path = addr msg, pr_facets = facets\<rparr>)"

datatype OscEvent = ParamEvent ParamReply | BinaryEvent "byte list" | RawEvent OscMessage

definition classify_event :: "OscMessage \<Rightarrow> OscEvent" where
  "classify_event msg =
     (if addr msg = ''/'' then
        (case args msg of [OscBlob data] \<Rightarrow> BinaryEvent data | _ \<Rightarrow> RawEvent msg)
      else if strip_suffix ''*'' (addr msg) \<noteq> None then RawEvent msg
      else case parse_param_reply msg of Inr reply \<Rightarrow> ParamEvent reply | Inl _ \<Rightarrow> RawEvent msg)"

definition parse_node_error :: "string \<Rightarrow> OscNodeError option" where
  "parse_node_error s =
     (if s = ''NODE NOT FOUND'' then Some NodeNotFound
      else if s = ''VALUE ERROR'' then Some ValueError
      else if s = ''BUFFER OVERFLOW'' then Some BufferOverflow
      else if s = ''NODE IS NOT PAR'' then Some NodeIsNotPar
      else if s = ''INCOMPLETE DATA'' then Some IncompleteData
      else if s = ''STACK EMPTY'' then Some StackEmpty
      else None)"

definition single_string :: "string \<Rightarrow> OscMessage \<Rightarrow> string osc_result" where
  "single_string complaint msg = (case args msg of [OscStr s] \<Rightarrow> Inr s | _ \<Rightarrow> Inl (Malformed complaint))"

abbreviation ack_message :: string where
  "ack_message \<equiv> ''not a node-ack address (expected '' @ [CHR 0x27] @ ''/*'' @ [CHR 0x27] @ '' or '' @
     [CHR 0x27] @ ''<node>*'' @ [CHR 0x27] @ '')''"

definition parse_node_ack :: "OscMessage \<Rightarrow> unit osc_result" where
  "parse_node_ack msg =
     (if strip_suffix ''*'' (addr msg) = None then Inl (Malformed ack_message)
      else and_then (single_string ''node ack payload must be a single string'' msg) (\<lambda>payload.
        if payload = ''OK'' then Inr ()
        else case parse_node_error payload of
          Some err \<Rightarrow> Inl (NodeRejected err)
        | None \<Rightarrow> Inl (Malformed ''unrecognized node ack payload'')))"

text \<open>\<open>split_once('=')\<close>.\<close>

fun split_once :: "char \<Rightarrow> string \<Rightarrow> (string \<times> string) option" where
  "split_once c [] = None"
| "split_once c (x # xs) = (if x = c then Some ([], xs) else map_option (\<lambda>(a, b). (x # a, b)) (split_once c xs))"

definition parse_node_dump :: "OscMessage \<Rightarrow> (string \<times> string) list osc_result" where
  "parse_node_dump msg =
     and_then (single_string ''node dump payload must be a single string'' msg) (\<lambda>payload.
     Inr (List.map_filter (split_once CHR ''='') (filter (\<lambda>kv. kv \<noteq> []) (split_on CHR '','' payload))))"

definition parse_console_info :: "OscMessage \<Rightarrow> DiscoveryInfo osc_result" where
  "parse_console_info msg =
     and_then (single_string ''console info payload must be a single string'' msg) (\<lambda>payload.
     ok_or (parse_info payload) (Malformed ''unexpected console info payload''))"

section \<open>The codec\<close>

definition osc_string_ok :: "string \<Rightarrow> bool" where
  "osc_string_ok s \<longleftrightarrow> is_str s \<and> \<not> has_nul s"

abbreviation osc_string_bytes :: "string \<Rightarrow> byte list" where "osc_string_bytes \<equiv> push_osc_string []"

abbreviation blob_bytes :: "byte list \<Rightarrow> byte list" where "blob_bytes \<equiv> push_osc_blob []"

fun arg_bytes :: "OscArg \<Rightarrow> byte list" where
  "arg_bytes (OscInt v) = u32_be v"
| "arg_bytes (OscFloat v) = u32_be v"
| "arg_bytes (OscStr v) = osc_string_bytes v"
| "arg_bytes (OscBlob v) = blob_bytes v"

fun arg_ok :: "OscArg \<Rightarrow> bool" where
  "arg_ok (OscStr v) = osc_string_ok v"
| "arg_ok (OscBlob v) = (length v < 2147483648)"
| "arg_ok _ = True"

lemma padded_gt: "n < padded n"
  by (simp add: padded_def)

lemma padded_dvd: "4 dvd padded n"
  by (simp add: padded_def)

lemma nul_position_append: "0 \<notin> set xs \<Longrightarrow> nul_position (xs @ 0 # ys) = Some (length xs)"
  by (induction xs) auto

lemma length_osc_string [simp]: "length (osc_string_bytes s) = padded (length s)"
  using padded_gt [of "length s"] by (simp add: push_osc_string_def)

interpretation osc_string: cursor_codec osc_string_ok osc_string_bytes read_osc_string
proof
  fix s pre post
  assume ok: "osc_string_ok s"
  obtain k where k: "padded (length s) - length s = Suc k" using padded_gt [of "length s"] by (cases "padded (length s) - length s") auto
  have "nul_position (osc_string_bytes s @ post) = Some (length s)"
    using nul_position_append [of "as_bytes s"] ok by (simp add: push_osc_string_def k osc_string_ok_def has_nul_def)
  moreover have "take (length s) (osc_string_bytes s @ post) = as_bytes s" by (simp add: push_osc_string_def)
  ultimately show "read_osc_string (pre @ osc_string_bytes s @ post) (length pre) = Inr (s, length pre + length (osc_string_bytes s))"
    using ok by (simp add: read_osc_string_def osc_string_ok_def)
qed

interpretation osc_i32: cursor_codec "\<lambda>_. True" u32_be read_osc_i32
  by unfold_locales (simp add: read_osc_i32_def)

interpretation osc_f32: cursor_codec "\<lambda>_. True" u32_be read_osc_f32
  by unfold_locales (simp add: read_osc_f32_def)

lemma sint_of_small: "n < 2147483648 \<Longrightarrow> sint (word_of_nat n :: i32) = int n"
  by (simp add: signed_of_nat signed_take_bit_int_eq_self)

interpretation osc_blob: cursor_codec "\<lambda>d. length d < 2147483648" blob_bytes read_blob
proof
  fix d pre post :: "byte list"
  assume l: "length d < 2147483648"
  let ?n = "word_of_nat (length d) :: u32" and ?pad = "replicate (blob_pad (length d)) 0 @ post"
  have "read_osc_i32 (pre @ blob_bytes d @ post) (length pre) = Inr (?n, length pre + 4)"
    using osc_i32.rd_enc [where x = ?n and pre = pre and post = "d @ ?pad"] by (simp add: push_osc_blob_def)
  moreover have "drop (length pre + 4) (pre @ blob_bytes d @ post) = d @ ?pad" by (simp add: push_osc_blob_def)
  moreover have "unat ?n = length d" using l by (intro unat_of_nat_u32) simp
  ultimately show "read_blob (pre @ blob_bytes d @ post) (length pre) = Inr (d, length pre + length (blob_bytes d))"
    using l by (simp add: read_blob_def sint_of_small push_osc_blob_def Let_def)
qed

text \<open>An argument read by its own tag.\<close>

lemma read_arg_bytes:
  "arg_ok a \<Longrightarrow> read_osc_arg (type_tag a) (pre @ arg_bytes a @ post) (length pre) = Inr (a, length pre + length (arg_bytes a))"
  by (cases a) (simp_all add: read_osc_arg_def osc_string.rd_enc osc_i32.rd_enc osc_f32.rd_enc osc_blob.rd_enc)

lemma read_args_bytes:
  "list_all arg_ok xs \<Longrightarrow> read_osc_args (map type_tag xs) (pre @ concat (map arg_bytes xs) @ post) (length pre) =
     Inr (xs, length pre + length (concat (map arg_bytes xs)))"
proof (induction xs arbitrary: pre)
  case (Cons a xs)
  then have "read_osc_arg (type_tag a) (pre @ arg_bytes a @ concat (map arg_bytes xs) @ post) (length pre) =
      Inr (a, length pre + length (arg_bytes a))" by (intro read_arg_bytes) simp
  with Cons.IH [of "pre @ arg_bytes a"] Cons.prems show ?case by simp
qed simp

lemma foldl_push_arg: "foldl push_osc_arg buf xs = buf @ concat (map arg_bytes xs)"
proof (induction xs arbitrary: buf)
  case (Cons a xs)
  have "push_osc_arg buf a = buf @ arg_bytes a" by (cases a) (simp_all add: push_osc_string_def push_osc_blob_def)
  with Cons show ?case by simp
qed simp

lemma push_osc_string_append: "push_osc_string buf s = buf @ osc_string_bytes s"
  by (simp add: push_osc_string_def)

definition wire :: "OscMessage \<Rightarrow> byte list" where
  "wire m = osc_string_bytes (addr m) @
     (if args m = [] then [] else osc_string_bytes (CHR '','' # map type_tag (args m)) @ concat (map arg_bytes (args m)))"

lemma encode_wire:
  "encode m =
     (if has_nul (addr m) \<or> list_ex arg_has_nul (args m) then Inl (Malformed ''OSC strings cannot contain embedded NULs'')
      else if length (wire m) > MAX_PACKET_BYTES then Inl (TooLarge (length (wire m))) else Inr (wire m))"
  by (simp add: encode_def wire_def Let_def foldl_push_arg push_osc_string_append [of "osc_string_bytes _"])

lemma tag_byte: "byte_of_char (type_tag a) < 0x80" "byte_of_char (type_tag a) \<noteq> 0"
  by (cases a; simp add: byte_of_char_def)+

lemma tags_ok: "osc_string_ok (CHR '','' # map type_tag xs)"
proof -
  have "byte_of_char CHR '','' < 0x80" "byte_of_char CHR '','' \<noteq> 0" by (simp_all add: byte_of_char_def)
  then have "list_all (\<lambda>b. b < 0x80) (as_bytes (CHR '','' # map type_tag xs))" "0 \<notin> set (as_bytes (CHR '','' # map type_tag xs))"
    using tag_byte by (auto simp: list_all_iff as_bytes_def)
  then show ?thesis by (simp add: osc_string_ok_def has_nul_def ascii_is_str del: as_bytes_Cons)
qed

lemma arg_bytes_dvd: "4 dvd length (arg_bytes a)"
proof (cases a)
  case (OscBlob v)
  have "4 dvd n + blob_pad n" for n
  proof -
    have "n mod 4 < 4" by simp
    then have "n + (4 - n mod 4) = 4 * (n div 4 + 1)" by presburger
    then have "(n + (4 - n mod 4) mod 4) mod 4 = 0" by (simp add: mod_add_right_eq)
    then show ?thesis by (simp add: blob_pad_def mod_eq_0_iff_dvd)
  qed
  from this [of "length v"] OscBlob show ?thesis by (simp add: push_osc_blob_def)
qed (simp_all add: padded_dvd)

lemma wire_dvd: "4 dvd length (wire m)"
proof -
  have "4 dvd length (concat (map arg_bytes xs))" for xs
    by (induction xs) (auto simp: arg_bytes_dvd)
  then show ?thesis by (auto simp: wire_def padded_dvd)
qed

lemma decode_wire:
  assumes "osc_string_ok (addr m)" and "starts_with ''/'' (addr m)" and "list_all arg_ok (args m)"
  shows "decode (wire m) = Inr m"
proof (cases "args m = []")
  case True
  then show ?thesis using osc_string.rd_enc [OF assms(1), of "[]" "[]"] assms(2)
    by (simp add: decode_def wire_def osc_message_def)
next
  case False
  let ?tag = "CHR '','' # map type_tag (args m)"
  let ?a = "osc_string_bytes (addr m)" and ?t = "osc_string_bytes ?tag" and ?xs = "concat (map arg_bytes (args m))"
  have w: "wire m = ?a @ ?t @ ?xs" using False by (simp add: wire_def)
  have 1: "read_osc_string (wire m) 0 = Inr (addr m, length ?a)"
    using osc_string.rd_enc [OF assms(1), of "[]" "?t @ ?xs"] by (simp add: w)
  have 2: "read_osc_string (wire m) (length ?a) = Inr (?tag, length ?a + length ?t)"
    using osc_string.rd_enc [OF tags_ok, of ?a "args m" ?xs] by (simp add: w)
  have 3: "read_osc_args (map type_tag (args m)) (wire m) (length ?a + length ?t) = Inr (args m, length (wire m))"
    using read_args_bytes [OF assms(3), of "?a @ ?t" "[]"] by (simp add: w)
  have "length ?a < length (wire m)" using padded_gt [of "length ?tag"] by (simp add: w)
  with 1 2 3 assms(2) show ?thesis by (simp add: decode_def osc_message_def del: length_osc_string)
qed

definition message_ok :: "OscMessage \<Rightarrow> bool" where
  "message_ok m \<longleftrightarrow> is_str (addr m) \<and> starts_with ''/'' (addr m) \<and>
     list_all (\<lambda>a. case a of OscStr v \<Rightarrow> is_str v | _ \<Rightarrow> True) (args m)"

lemma arg_length_le: "a \<in> set xs \<Longrightarrow> length (arg_bytes a) \<le> length (concat (map arg_bytes xs))"
  by (induction xs) auto

lemma blob_fits: "length v \<le> length (arg_bytes (OscBlob v))"
  by (simp add: push_osc_blob_def)

lemma args_ok_if_fits:
  assumes "message_ok m" and "\<not> list_ex arg_has_nul (args m)" and "length (wire m) \<le> MAX_PACKET_BYTES"
  shows "list_all arg_ok (args m)"
  unfolding list_all_iff
proof
  fix a
  assume a: "a \<in> set (args m)"
  then have "args m \<noteq> []" by auto
  then have "length (arg_bytes a) \<le> 32768"
    using arg_length_le [OF a] assms(3) by (auto simp: wire_def MAX_PACKET_BYTES_def)
  moreover have "\<not> arg_has_nul a" "case a of OscStr v \<Rightarrow> is_str v | _ \<Rightarrow> True"
    using a assms(1,2) by (auto simp: message_ok_def list_all_iff list_ex_iff)
  ultimately show "arg_ok a"
    using blob_fits by (cases a) (auto simp: arg_has_nul_def osc_string_ok_def push_osc_blob_def)
qed

text \<open>
  C24. OSC round trip: a message whose address starts with a slash is either refused because one of its
  strings holds a NUL, refused with its exact size because it would exceed 32 KB, or encoded
  to a packet of whole 4-byte words within the limit that decodes back to that message.
\<close>

theorem osc_encode_decode:
  assumes "message_ok m"
  shows "case encode m of
      Inr bytes \<Rightarrow> decode bytes = Inr m \<and> 4 dvd length bytes \<and> length bytes \<le> MAX_PACKET_BYTES
    | Inl e \<Rightarrow> (has_nul (addr m) \<or> list_ex arg_has_nul (args m)) \<and> (\<exists>s. e = Malformed s) \<or>
        e = TooLarge (length (wire m)) \<and> MAX_PACKET_BYTES < length (wire m)"
proof -
  have "decode (wire m) = Inr m"
    if "\<not> has_nul (addr m)" "\<not> list_ex arg_has_nul (args m)" "length (wire m) \<le> MAX_PACKET_BYTES"
    using that assms args_ok_if_fits [OF assms] by (intro decode_wire) (auto simp: message_ok_def osc_string_ok_def)
  then show ?thesis using wire_dvd [of m] by (auto simp: encode_wire)
qed

definition fader_event :: OscMessage where
  "fader_event = osc_message ''/ch/1/fdr'' [OscStr ''-3.0'', OscFloat 0x3f19999a, OscFloat 0xc0400000, OscBlob [1, 2, 3]]"

theorem osc_encode_decode_witness:
  "message_ok fader_event \<and> (\<exists>bytes. encode fader_event = Inr bytes \<and> decode bytes = Inr fader_event \<and> length bytes = 44)"
proof -
  have ok: "message_ok fader_event" by code_simp
  have "length (wire fader_event) = 44" by code_simp
  moreover have "\<not> (has_nul (addr fader_event) \<or> list_ex arg_has_nul (args fader_event))" by code_simp
  ultimately have e: "encode fader_event = Inr (wire fader_event)" by (simp add: encode_wire MAX_PACKET_BYTES_def)
  with osc_encode_decode [OF ok] ok \<open>length (wire fader_event) = 44\<close> show ?thesis by simp
qed

section \<open>The node grammar\<close>

lemma split_once_at: "c \<notin> set xs \<Longrightarrow> split_once c (xs @ c # ys) = Some (xs, ys)"
  by (induction xs) auto

lemma split_once_join: "split_once c s = Some (a, b) \<Longrightarrow> s = a @ c # b \<and> c \<notin> set a"
  by (induction s arbitrary: a) (auto split: if_splits)

lemma format_pairs_ok:
  "format_pairs pairs = Inr formatted \<Longrightarrow>
     formatted = map (\<lambda>(name, v). name @ ''='' @ v) pairs \<and> list_all (\<lambda>(name, v). \<not> bad_pair_name name \<and> CHR '','' \<notin> set v) pairs"
  by (induction pairs arbitrary: formatted rule: format_pairs.induct) (auto simp: and_then_iffs split: if_splits)

lemma format_pairs_error:
  "format_pairs pairs = Inl e \<Longrightarrow>
     (\<exists>s. e = Malformed s) \<and> list_ex (\<lambda>(name, v). bad_pair_name name \<or> CHR '','' \<in> set v \<or> has_nul v) pairs"
  by (induction pairs arbitrary: e rule: format_pairs.induct) (auto simp: and_then_iffs split: if_splits)

lemma split_on_snoc: "split_on c (s @ [c]) = split_on c s @ [[]]"
  by (induction s) (auto split: list.splits)

lemma parse_formatted:
  assumes "list_all (\<lambda>(name, v). \<not> bad_pair_name name \<and> CHR '','' \<notin> set v) pairs"
  defines "s \<equiv> join_with CHR '','' (map (\<lambda>(name, v). name @ ''='' @ v) pairs)"
  shows "filter (\<lambda>kv. kv \<noteq> []) (split_on CHR '','' s) = map (\<lambda>(name, v). name @ ''='' @ v) pairs"
    and "List.map_filter (split_once CHR ''='') (map (\<lambda>(name, v). name @ ''='' @ v) pairs) = pairs"
proof -
  let ?f = "\<lambda>(name, v). name @ ''='' @ v :: string"
  have no_comma: "\<forall>x\<in>set (map ?f pairs). CHR '','' \<notin> set x"
    using assms(1) by (auto simp: list_all_iff bad_pair_name_def list_ex_iff)
  have "filter (\<lambda>kv. kv \<noteq> []) (map ?f pairs) = map ?f pairs"
    by (rule filter_True) auto
  then show "filter (\<lambda>kv. kv \<noteq> []) (split_on CHR '','' s) = map ?f pairs"
    using no_comma split_join [of "map ?f pairs" "CHR '',''"] by (cases "pairs = []") (auto simp: s_def)
  have "split_once CHR ''='' (?f p) = Some p" if "p \<in> set pairs" for p
    using that assms(1) split_once_at [of "CHR ''=''" "fst p" "snd p"]
    by (auto simp: list_all_iff bad_pair_name_def list_ex_iff case_prod_beta)
  then show "List.map_filter (split_once CHR ''='') (map ?f pairs) = pairs"
    by (simp add: List.map_filter_def comp_def map_idI)
qed

text \<open>
  Node writes and node dumps share one grammar: what \<open>node_set_local\<close> sends for a list of pairs, a
  reader of dumps reads back as exactly those pairs in order, also with the trailing comma a
  console appends; and the builder refuses every pair that would not survive.
\<close>

theorem node_pairs_roundtrip:
  "case node_set_local path pairs of
     Inr m \<Rightarrow> (\<exists>s. args m = [OscStr s] \<and> parse_node_dump m = Inr pairs \<and>
       parse_node_dump (osc_message a [OscStr (s @ '','')]) = Inr pairs)
   | Inl e \<Rightarrow> (\<exists>s. e = Malformed s) \<and>
       ((\<exists>e. validate_address_path path = Inl e) \<or> list_ex (\<lambda>(name, v). bad_pair_name name \<or> CHR '','' \<in> set v \<or> has_nul v) pairs)"
proof (cases "validate_address_path path")
  case (Inl e)
  then show ?thesis by (auto simp: node_set_local_def validate_address_path_def split: if_splits)
next
  case (Inr u)
  show ?thesis
  proof (cases "format_pairs pairs")
    case (Inl e)
    with Inr format_pairs_error [OF Inl] show ?thesis by (simp add: node_set_local_def format_node_pairs_def)
  next
    case fmt: (Inr formatted)
    let ?s = "join_with CHR '','' formatted"
    note ok = format_pairs_ok [OF fmt]
    note parsed = parse_formatted [OF conjunct2 [OF ok]]
    have m: "node_set_local path pairs = Inr (osc_message path [OscStr ?s])"
      using Inr fmt by (simp add: node_set_local_def format_node_pairs_def)
    have "parse_node_dump (osc_message b [OscStr ?s]) = Inr pairs"
      "parse_node_dump (osc_message b [OscStr (?s @ '','')]) = Inr pairs" for b
      using parsed conjunct1 [OF ok]
      by (simp_all add: parse_node_dump_def single_string_def osc_message_def split_on_snoc)
    then show ?thesis by (simp add: m) (simp add: osc_message_def)
  qed
qed

end
