(* ===== verification/OscClient.thy ===== *)
theory OscClient
  imports Osc
begin

text \<open>
  The UDP client of \<open>src/osc.rs\<close>: sending, matching replies, buffering unsolicited messages,
  retrying, and subscriptions with their renewal. The names the property map gives an id are the
  parameter \<open>id_names\<close> (\<open>WingConsole::id_to_defs_iter\<close> on the embedded map). Times are in nanoseconds.
\<close>

section \<open>Matching replies\<close>

fun hex_val :: "char \<Rightarrow> nat option" where
  "hex_val c =
     (let n = (of_char c :: nat) in
      if 48 \<le> n \<and> n \<le> 57 then Some (n - 48)
      else if 97 \<le> n \<and> n \<le> 102 then Some (n - 87)
      else if 65 \<le> n \<and> n \<le> 70 then Some (n - 55)
      else None)"

declare hex_val.simps [simp del]

fun hex_digits_val :: "nat \<Rightarrow> string \<Rightarrow> nat option" where
  "hex_digits_val acc [] = Some acc"
| "hex_digits_val acc (c # cs) = Option.bind (hex_val c) (\<lambda>d. hex_digits_val (16 * acc + d) cs)"

text \<open>\<open>u32::from_str_radix(_, 16).ok()\<close>: an optional plus sign, at least one digit, no overflow.\<close>

definition parse_hex_u32 :: "string \<Rightarrow> u32 option" where
  "parse_hex_u32 s =
     (let ds = (case s of c # cs \<Rightarrow> if c = CHR ''+'' then cs else s | [] \<Rightarrow> []) in
      if ds = [] then None
      else Option.bind (hex_digits_val 0 ds) (\<lambda>n. if n < 2 ^ 32 then Some (word_of_nat n) else None))"

definition is_relative_write :: "OscMessage \<Rightarrow> bool" where
  "is_relative_write msg \<longleftrightarrow> (case args msg of [OscInt v] \<Rightarrow> v = - 1 | _ \<Rightarrow> False)"

definition strip_reply_port :: "string \<Rightarrow> string" where
  "strip_reply_port a =
     (case strip_prefix ''/%'' a of
        None \<Rightarrow> a
      | Some rest \<Rightarrow>
          (let digits = length (takeWhile is_digit rest) in
           if 0 < digits \<and> starts_with ''/'' (drop digits rest) then drop digits rest else a))"

definition reply_matches :: "(i32 \<Rightarrow> string list) \<Rightarrow> string \<Rightarrow> string \<Rightarrow> bool" where
  "reply_matches id_names request reply =
     (let request = strip_reply_port request;
          reply = (case strip_suffix ''*'' reply of Some r \<Rightarrow> r | None \<Rightarrow> reply) in
      reply = request \<or>
      (case Option.bind (strip_prefix ''/#'' request) parse_hex_u32 of
         None \<Rightarrow> False
       | Some nid \<Rightarrow> reply \<in> set (id_names nid)))"

section \<open>The client\<close>

record SubscriptionState =
  sub_format :: SubscriptionFormat
  sub_renew_interval :: int
  sub_next_renew :: int

text \<open>\<open>oc_reply_port\<close> is the port of the reply socket, when one is bound.\<close>

record WingOscClient =
  oc_reply_port :: "u16 option"
  oc_unsolicited :: "OscMessage list"
  oc_dropped :: nat
  oc_subscription :: "SubscriptionState option"

definition new_client :: WingOscClient where
  "new_client = \<lparr>oc_reply_port = None, oc_unsolicited = [], oc_dropped = 0, oc_subscription = None\<rparr>"

definition bind_reply_port :: "u16 osc_result \<Rightarrow> WingOscClient \<Rightarrow> WingOscClient osc_result" where
  "bind_reply_port bound c = and_then bound (\<lambda>port. Inr (c\<lparr>oc_reply_port := Some port\<rparr>))"

definition UNSOLICITED_CAP :: nat where
  "UNSOLICITED_CAP = 1024"

definition DUPLICATE_DRAIN_CAP :: nat where
  "DUPLICATE_DRAIN_CAP = 64"

definition SUBSCRIPTION_RENEW_MARGIN :: int where
  "SUBSCRIPTION_RENEW_MARGIN = 5000000000"

definition send :: "OscMessage \<Rightarrow> Net \<Rightarrow> unit osc_result \<times> Net" where
  "send msg w =
     (case encode msg of
        Inl e \<Rightarrow> (Inl e, w)
      | Inr bytes \<Rightarrow>
          (case send_datagram bytes w of
             (Some k, w) \<Rightarrow> (Inl (OscIo k), w)
           | (None, w) \<Rightarrow> (Inr (), w)))"

text \<open>A zero timeout is refused by \<open>set_read_timeout\<close>.\<close>

definition recv_message :: "int \<Rightarrow> Net \<Rightarrow> (OscMessage osc_result \<times> Net) option" where
  "recv_message timeout w =
     (if timeout \<le> 0 then Some (Inl (OscIo OtherKind), w)
      else case recv_datagram w of
        None \<Rightarrow> None
      | Some (NoPacket k, w) \<Rightarrow>
          Some (Inl (if k = WouldBlock \<or> k = TimedOut then OscTimeout else OscIo k), w)
      | Some (Packet from_ip bytes, w) \<Rightarrow> Some (decode (received bytes), w))"

lemma cap_code: "n \<ge> UNSOLICITED_CAP \<longleftrightarrow> int n \<ge> 1024"
  by (simp add: UNSOLICITED_CAP_def)

definition buffer_unsolicited :: "OscMessage \<Rightarrow> WingOscClient \<Rightarrow> WingOscClient" where
  "buffer_unsolicited msg c =
     (let c = (if length (oc_unsolicited c) \<ge> UNSOLICITED_CAP
               then c\<lparr>oc_unsolicited := tl (oc_unsolicited c), oc_dropped := oc_dropped c + 1\<rparr> else c) in
      c\<lparr>oc_unsolicited := oc_unsolicited c @ [msg]\<rparr>)"

lemmas buffer_unsolicited_code [code] = buffer_unsolicited_def [unfolded cap_code]

text \<open>The derived \<open>PartialEq\<close>: floats compare as IEEE numbers.\<close>

fun osc_arg_eq :: "OscArg \<Rightarrow> OscArg \<Rightarrow> bool" where
  "osc_arg_eq (OscInt v) (OscInt u) = (v = u)"
| "osc_arg_eq (OscFloat v) (OscFloat u) = f32_eq v u"
| "osc_arg_eq (OscStr v) (OscStr u) = (v = u)"
| "osc_arg_eq (OscBlob v) (OscBlob u) = (v = u)"
| "osc_arg_eq _ _ = False"

definition osc_message_eq :: "OscMessage \<Rightarrow> OscMessage \<Rightarrow> bool" where
  "osc_message_eq m n \<longleftrightarrow> addr m = addr n \<and> list_all2 osc_arg_eq (args m) (args n)"

fun drain_loop :: "nat \<Rightarrow> OscMessage \<Rightarrow> int \<Rightarrow> WingOscClient \<Rightarrow> Net \<Rightarrow> (WingOscClient \<times> Net) option" where
  "drain_loop 0 matched deadline c w = Some (c, w)"
| "drain_loop (Suc n) matched deadline c w =
     (case clock w of (t, w) \<Rightarrow>
      if t \<ge> deadline then Some (c, w)
      else (case recv_datagram w of
          None \<Rightarrow> None
        | Some (NoPacket k, w) \<Rightarrow> Some (c, w)
        | Some (Packet from_ip bytes, w) \<Rightarrow>
            (case decode (received bytes) of
               Inr msg \<Rightarrow>
                 if osc_message_eq msg matched then drain_loop n matched deadline c w
                 else Some (buffer_unsolicited msg c, w)
             | Inl (Malformed s) \<Rightarrow> drain_loop n matched deadline c w
             | Inl _ \<Rightarrow> Some (c, w))))"

definition drain_duplicate_replies :: "OscMessage \<Rightarrow> int \<Rightarrow> WingOscClient \<Rightarrow> Net \<Rightarrow> (WingOscClient \<times> Net) option" where
  "drain_duplicate_replies = drain_loop DUPLICATE_DRAIN_CAP"

function request_loop :: "(i32 \<Rightarrow> string list) \<Rightarrow> string \<Rightarrow> int \<Rightarrow> WingOscClient \<Rightarrow> Net \<Rightarrow>
    (OscMessage osc_result \<times> WingOscClient \<times> Net) option" where
  "request_loop id_names a deadline c w =
     (case clock w of (t, w1) \<Rightarrow>
      let remaining = max 0 (deadline - t) in
      if remaining = 0 then Some (Inl OscTimeout, c, w1)
      else (case recv_message remaining w1 of
          None \<Rightarrow> None
        | Some (Inl e, w2) \<Rightarrow>
            (case e of
               Malformed s \<Rightarrow> request_loop id_names a deadline c w2
             | _ \<Rightarrow> Some (Inl e, c, w2))
        | Some (Inr reply, w2) \<Rightarrow>
            if reply_matches id_names a (addr reply)
            then map_option (\<lambda>(c, w). (Inr reply, c, w)) (drain_duplicate_replies reply deadline c w2)
            else request_loop id_names a deadline (buffer_unsolicited reply c) w2))"
  by pat_completeness auto

lemma recv_message_takes:
  "recv_message timeout w = Some (res, w') \<Longrightarrow> timeout > 0 \<Longrightarrow>
     \<exists>r. n_recv w = r # n_recv w' \<and> n_sent w' = n_sent w \<and>
       (case r of Packet from_ip bytes \<Rightarrow> res = decode (received bytes)
        | NoPacket k \<Rightarrow> res = Inl (if k = WouldBlock \<or> k = TimedOut then OscTimeout else OscIo k))"
  by (auto simp: recv_message_def dest!: recv_takes split: option.splits prod.splits recv.splits)

lemma recv_message_shorter:
  assumes "(t, w1) = clock w" and "recv_message d w1 = Some (res, w2)" and "0 < d"
  shows "length (n_recv w2) < length (n_recv w)"
  using recv_message_takes [OF assms(2,3)] clock_keeps(1) [OF assms(1) [symmetric]] by auto

termination request_loop
  by (relation "measure (\<lambda>(_, _, _, _, w). length (n_recv w))")
    (auto simp: max_def split: if_splits intro: recv_message_shorter)

declare request_loop.simps [simp del]

definition request :: "(i32 \<Rightarrow> string list) \<Rightarrow> OscMessage \<Rightarrow> int \<Rightarrow> WingOscClient \<Rightarrow> Net \<Rightarrow>
    (OscMessage osc_result \<times> WingOscClient \<times> Net) option" where
  "request id_names msg timeout c w =
     (case clock w of (t, w) \<Rightarrow>
      case send msg w of
        (Inl e, w) \<Rightarrow> Some (Inl e, c, w)
      | (Inr _, w) \<Rightarrow> request_loop id_names (addr msg) (t + timeout) c w)"

record RequestPolicy =
  rq_attempts :: nat
  rq_timeout_per_attempt :: int

definition default_request_policy :: RequestPolicy where
  "default_request_policy = \<lparr>rq_attempts = 3, rq_timeout_per_attempt = 500000000\<rparr>"

text \<open>The attempts \<open>attempt, attempt + 1, \<dots>\<close>, of which \<open>left\<close> are left.\<close>

fun retry_loop :: "(i32 \<Rightarrow> string list) \<Rightarrow> OscMessage \<Rightarrow> RequestPolicy \<Rightarrow> nat \<Rightarrow> nat \<Rightarrow> WingOscClient \<Rightarrow> Net \<Rightarrow>
    (OscMessage osc_result \<times> WingOscClient \<times> Net) option" where
  "retry_loop id_names msg policy attempt 0 c w = Some (Inl (RetriesExhausted (rq_attempts policy)), c, w)"
| "retry_loop id_names msg policy attempt (Suc left) c w =
     (case request id_names msg (rq_timeout_per_attempt policy) c w of
        None \<Rightarrow> None
      | Some (Inr reply, c, w) \<Rightarrow> Some (Inr reply, c, w)
      | Some (Inl e, c, w) \<Rightarrow>
          if e = OscTimeout then
            if attempt < rq_attempts policy then retry_loop id_names msg policy (attempt + 1) left c w
            else Some (Inl (RetriesExhausted attempt), c, w)
          else Some (Inl e, c, w))"

definition request_with_policy :: "(i32 \<Rightarrow> string list) \<Rightarrow> OscMessage \<Rightarrow> RequestPolicy \<Rightarrow> WingOscClient \<Rightarrow> Net \<Rightarrow>
    (OscMessage osc_result \<times> WingOscClient \<times> Net) option" where
  "request_with_policy id_names msg policy c w =
     (if is_relative_write msg then request id_names msg (rq_timeout_per_attempt policy) c w
      else retry_loop id_names msg policy 1 (max (rq_attempts policy) 1) c w)"

definition take_unsolicited :: "WingOscClient \<Rightarrow> OscMessage list \<times> WingOscClient" where
  "take_unsolicited c = (oc_unsolicited c, c\<lparr>oc_unsolicited := []\<rparr>)"

definition take_unsolicited_dropped :: "WingOscClient \<Rightarrow> nat \<times> WingOscClient" where
  "take_unsolicited_dropped c = (oc_dropped c, c\<lparr>oc_dropped := 0\<rparr>)"

section \<open>Subscriptions\<close>

definition subscription_message :: "SubscriptionFormat \<Rightarrow> WingOscClient \<Rightarrow> OscMessage" where
  "subscription_message fmt c =
     (let message = subscribe_message fmt in
      case oc_reply_port c of Some port \<Rightarrow> with_reply_port port message | None \<Rightarrow> message)"

definition subscribe_with_renewal :: "SubscriptionFormat \<Rightarrow> int \<Rightarrow> WingOscClient \<Rightarrow> Net \<Rightarrow>
    unit osc_result \<times> WingOscClient \<times> Net" where
  "subscribe_with_renewal fmt renew_interval c w =
     (case send (subscription_message fmt c) w of
        (Inl e, w) \<Rightarrow> (Inl e, c, w)
      | (Inr _, w) \<Rightarrow>
          (case clock w of (t, w) \<Rightarrow>
           (Inr (), c\<lparr>oc_subscription := Some \<lparr>sub_format = fmt, sub_renew_interval = renew_interval,
              sub_next_renew = t + renew_interval\<rparr>\<rparr>, w)))"

definition subscribe :: "SubscriptionFormat \<Rightarrow> WingOscClient \<Rightarrow> Net \<Rightarrow> unit osc_result \<times> WingOscClient \<times> Net" where
  "subscribe fmt = subscribe_with_renewal fmt SUBSCRIPTION_RENEW_MARGIN"

definition renew_due :: "WingOscClient \<Rightarrow> Net \<Rightarrow> bool \<times> Net" where
  "renew_due c w =
     (case oc_subscription c of
        None \<Rightarrow> (False, w)
      | Some s \<Rightarrow> (case clock w of (t, w) \<Rightarrow> (t \<ge> sub_next_renew s, w)))"

definition renew :: "WingOscClient \<Rightarrow> Net \<Rightarrow> unit osc_result \<times> WingOscClient \<times> Net" where
  "renew c w =
     (case oc_subscription c of
        None \<Rightarrow> (Inr (), c, w)
      | Some s \<Rightarrow>
          (case send (subscription_message (sub_format s) c) w of
             (Inl e, w) \<Rightarrow> (Inl e, c, w)
           | (Inr _, w) \<Rightarrow>
               (case clock w of (t, w) \<Rightarrow>
                (Inr (), c\<lparr>oc_subscription := Some (s\<lparr>sub_next_renew := t + sub_renew_interval s\<rparr>)\<rparr>, w))))"

text \<open>Renewing when due, as the loop of \<open>poll_event\<close> does first.\<close>

definition renew_if_due :: "WingOscClient \<Rightarrow> Net \<Rightarrow> unit osc_result \<times> WingOscClient \<times> Net" where
  "renew_if_due c w = (case renew_due c w of (due, w) \<Rightarrow> if due then renew c w else (Inr (), c, w))"

lemma send_keeps_recv: "send msg w = (res, w') \<Longrightarrow> n_recv w' = n_recv w"
  by (auto simp: send_def split: sum.splits prod.splits option.splits)

lemma renew_if_due_keeps: "renew_if_due c w = (res, c', w') \<Longrightarrow> n_recv w' = n_recv w"
  by (auto simp: renew_if_due_def renew_due_def renew_def dest!: send_keeps_recv clock_keeps(1)
      split: option.splits prod.splits sum.splits if_splits)

definition poll_wait :: "int \<Rightarrow> WingOscClient \<Rightarrow> Net \<Rightarrow> int \<times> Net" where
  "poll_wait until_deadline c w =
     (case (case oc_subscription c of
              Some s \<Rightarrow> (case clock w of (t, w) \<Rightarrow> (max 0 (sub_next_renew s - t), w))
            | None \<Rightarrow> (until_deadline, w)) of
        (until_renew, w) \<Rightarrow> (max (min until_deadline until_renew) 1000000, w))"

lemma poll_wait_keeps: "poll_wait d c w = (t, w') \<Longrightarrow> n_recv w' = n_recv w \<and> 0 < t"
  by (auto simp: poll_wait_def split: option.splits prod.splits dest!: clock_keeps(1))

function poll_loop :: "int \<Rightarrow> WingOscClient \<Rightarrow> Net \<Rightarrow> (OscEvent osc_result \<times> WingOscClient \<times> Net) option" where
  "poll_loop deadline c w =
     (case renew_if_due c w of
        (Inl e, c1, w1) \<Rightarrow> Some (Inl e, c1, w1)
      | (Inr _, c1, w1) \<Rightarrow>
          (case clock w1 of (t, w2) \<Rightarrow>
           let until_deadline = max 0 (deadline - t) in
           if until_deadline = 0 then Some (Inl OscTimeout, c1, w2)
           else (case poll_wait until_deadline c1 w2 of (wait, w3) \<Rightarrow>
             (case recv_message wait w3 of
                None \<Rightarrow> None
              | Some (Inr msg, w4) \<Rightarrow> Some (Inr (classify_event msg), c1, w4)
              | Some (Inl e, w4) \<Rightarrow>
                  if e = OscTimeout then poll_loop deadline c1 w4 else Some (Inl e, c1, w4)))))"
  by pat_completeness auto

lemma poll_shorter:
  assumes "renew_if_due c w = (res, c1, w1)" and "(t, w2) = clock w1" and "(wait, w3) = poll_wait d c1 w2"
    and "recv_message wait w3 = Some (r, w4)"
  shows "length (n_recv w4) < length (n_recv w)"
  using renew_if_due_keeps [OF assms(1)] clock_keeps(1) [OF assms(2) [symmetric]] poll_wait_keeps [OF assms(3) [symmetric]]
    recv_message_takes [OF assms(4)] by auto

termination poll_loop
  by (relation "measure (\<lambda>(_, _, w). length (n_recv w))") (auto intro: poll_shorter [OF sym])

declare poll_loop.simps [simp del]

definition poll_event :: "int \<Rightarrow> WingOscClient \<Rightarrow> Net \<Rightarrow> (OscEvent osc_result \<times> WingOscClient \<times> Net) option" where
  "poll_event timeout c w =
     (if oc_subscription c = None then Some (Inl (Malformed ''poll_event called with no active subscription''), c, w)
      else case clock w of (t, w) \<Rightarrow> poll_loop (t + timeout) c w)"

section \<open>The unsolicited buffer\<close>

definition newest :: "nat \<Rightarrow> 'a list \<Rightarrow> 'a list" where
  "newest n xs = drop (length xs - n) xs"

definition buffer_all :: "OscMessage list \<Rightarrow> WingOscClient \<Rightarrow> WingOscClient" where
  "buffer_all msgs c = fold buffer_unsolicited msgs c"

lemma buffer_all_simps [simp]:
  "buffer_all [] c = c" "buffer_all (m # ms) c = buffer_all ms (buffer_unsolicited m c)"
  "buffer_all (ms @ ns) c = buffer_all ns (buffer_all ms c)"
  by (simp_all add: buffer_all_def)

lemma newest_short [simp]: "length xs \<le> n \<Longrightarrow> newest n xs = xs"
  by (simp add: newest_def)

lemma length_newest [simp]: "length (newest n xs) = min (length xs) n"
  by (auto simp: newest_def)

lemma newest_newest: "newest n (newest n xs @ ys) = newest n (xs @ ys)"
proof (cases "length xs \<le> n")
  case False
  then have "drop (length (drop (length xs - n) xs @ ys) - n) (drop (length xs - n) xs @ ys) =
      drop (length ys) (drop (length xs - n) (xs @ ys))" by simp
  also have "length ys + (length xs - n) = length (xs @ ys) - n" using False by simp
  then have "drop (length ys) (drop (length xs - n) (xs @ ys)) = drop (length (xs @ ys) - n) (xs @ ys)"
    by (simp only: drop_drop)
  finally show ?thesis by (simp add: newest_def)
qed simp

lemma buffer_one:
  assumes "length (oc_unsolicited c) \<le> UNSOLICITED_CAP"
  shows "oc_unsolicited (buffer_unsolicited m c) = newest UNSOLICITED_CAP (oc_unsolicited c @ [m])"
    and "oc_dropped (buffer_unsolicited m c) + min (length (oc_unsolicited c) + 1) UNSOLICITED_CAP =
      oc_dropped c + length (oc_unsolicited c) + 1"
  using assms by (auto simp: buffer_unsolicited_def newest_def Let_def UNSOLICITED_CAP_def drop_Suc tl_drop [symmetric])

text \<open>Buffering keeps the newest messages, in order, and counts the ones it drops.\<close>

lemma buffer_all_exact:
  assumes "length (oc_unsolicited c) \<le> UNSOLICITED_CAP"
  shows "oc_unsolicited (buffer_all ms c) = newest UNSOLICITED_CAP (oc_unsolicited c @ ms)"
    and "oc_dropped (buffer_all ms c) + length (oc_unsolicited (buffer_all ms c)) =
      oc_dropped c + length (oc_unsolicited c) + length ms"
proof -
  have "oc_unsolicited (buffer_all ms c) = newest UNSOLICITED_CAP (oc_unsolicited c @ ms) \<and>
    oc_dropped (buffer_all ms c) + length (oc_unsolicited (buffer_all ms c)) =
      oc_dropped c + length (oc_unsolicited c) + length ms"
    using assms
  proof (induction ms arbitrary: c)
    case (Cons m ms)
    have "length (oc_unsolicited (buffer_unsolicited m c)) \<le> UNSOLICITED_CAP" using buffer_one [OF Cons.prems] by simp
    from Cons.IH [OF this] buffer_one [OF Cons.prems, of m] newest_newest [of UNSOLICITED_CAP "oc_unsolicited c @ [m]" ms]
    show ?case by auto
  qed simp
  then show "oc_unsolicited (buffer_all ms c) = newest UNSOLICITED_CAP (oc_unsolicited c @ ms)"
    and "oc_dropped (buffer_all ms c) + length (oc_unsolicited (buffer_all ms c)) =
      oc_dropped c + length (oc_unsolicited c) + length ms" by blast+
qed

section \<open>Requests\<close>

text \<open>The messages among a list of receives: what decodes, in order.\<close>

definition packet_message :: "recv \<Rightarrow> OscMessage option" where
  "packet_message r =
     (case r of Packet _ bytes \<Rightarrow> (case decode (received bytes) of Inr m \<Rightarrow> Some m | Inl _ \<Rightarrow> None)
      | NoPacket _ \<Rightarrow> None)"

definition heard :: "recv list \<Rightarrow> OscMessage list" where
  "heard rs = List.map_filter packet_message rs"

lemma heard_simps [simp]:
  "heard [] = []" "heard (r # rs) = (case packet_message r of Some m \<Rightarrow> m # heard rs | None \<Rightarrow> heard rs)"
  "heard (rs @ ss) = heard rs @ heard ss"
  by (auto simp: heard_def List.map_filter_def split: option.splits)

lemma recv_message_heard:
  assumes "recv_message timeout w = Some (res, w')" and "0 < timeout"
  shows "\<exists>r. n_recv w = r # n_recv w' \<and> n_sent w' = n_sent w \<and> packet_message r = (case res of Inr m \<Rightarrow> Some m | Inl _ \<Rightarrow> None)"
proof -
  obtain r where r: "n_recv w = r # n_recv w'" "n_sent w' = n_sent w"
    "case r of Packet from_ip bytes \<Rightarrow> res = decode (received bytes)
     | NoPacket k \<Rightarrow> res = Inl (if k = WouldBlock \<or> k = TimedOut then OscTimeout else OscIo k)"
    using recv_message_takes [OF assms] by blast
  then have "packet_message r = (case res of Inr m \<Rightarrow> Some m | Inl _ \<Rightarrow> None)"
    by (cases r) (auto simp: packet_message_def split: sum.splits)
  with r show ?thesis by blast
qed

lemma drain_step:
  assumes "drain_loop (Suc n) matched deadline c w = Some (c', w')"
  obtains (stop) "n_recv w' = n_recv w" "n_sent w' = n_sent w" "c' = c"
    | (last) r where "n_recv w = r # n_recv w'" "n_sent w' = n_sent w"
        "c' = (case packet_message r of Some m \<Rightarrow> buffer_unsolicited m c | None \<Rightarrow> c)"
    | (more) r w2 where "n_recv w = r # n_recv w2" "n_sent w2 = n_sent w" "drain_loop n matched deadline c w2 = Some (c', w')"
        "\<And>m. packet_message r = Some m \<Longrightarrow> osc_message_eq m matched"
proof -
  obtain t w1 where c1: "clock w = (t, w1)" by (cases "clock w") auto
  note k = clock_keeps(1,2) [OF c1]
  show thesis
  proof (cases "t \<ge> deadline")
    case True
    with assms c1 k stop show thesis by simp
  next
    case False
    with assms c1 obtain r w2 where r: "recv_datagram w1 = Some (r, w2)" by (cases "recv_datagram w1") auto
    note rk = recv_takes [OF r]
    show thesis
    proof (cases r)
      case (NoPacket kind)
      then show thesis using assms c1 k r rk False last [of r] by (simp add: packet_message_def)
    next
      case (Packet from_ip bytes)
      then show thesis
      proof (cases "decode (received bytes)")
        case (Inl e)
        then show thesis
          using assms c1 k r rk False Packet last [of r] more [of r w2] by (cases e) (simp_all add: packet_message_def)
      next
        case (Inr m)
        then show thesis
          using assms c1 k r rk False Packet last [of r] more [of r w2]
          by (cases "osc_message_eq m matched") (simp_all add: packet_message_def)
      qed
    qed
  qed
qed

lemma drain_loop_heard:
  assumes "drain_loop n matched deadline c w = Some (c', w')"
  shows "\<exists>used dups tail. n_recv w = used @ n_recv w' \<and> n_sent w' = n_sent w \<and> heard used = dups @ tail \<and>
    list_all (\<lambda>m. osc_message_eq m matched) dups \<and> length tail \<le> 1 \<and> c' = buffer_all tail c"
  using assms
proof (induction n arbitrary: w)
  case 0
  then show ?case by auto
next
  case (Suc n)
  from Suc.prems show ?case
  proof (cases rule: drain_step)
    case stop
    then show ?thesis by auto
  next
    case (last r)
    then show ?thesis
      by (intro exI [of _ "[r]"] exI [of _ "[]"] exI [of _ "case packet_message r of Some m \<Rightarrow> [m] | None \<Rightarrow> []"])
        (auto split: option.splits)
  next
    case (more r w2)
    from Suc.IH [OF more(3)] obtain used dups tail where i: "n_recv w2 = used @ n_recv w'" "n_sent w' = n_sent w2"
      "heard used = dups @ tail" "list_all (\<lambda>m. osc_message_eq m matched) dups" "length tail \<le> 1" "c' = buffer_all tail c" by blast
    with more show ?thesis
      by (intro exI [of _ "r # used"] exI [of _ "(case packet_message r of Some m \<Rightarrow> [m] | None \<Rightarrow> []) @ dups"] exI [of _ tail])
        (auto split: option.splits)
  qed
qed

definition answered :: "(i32 \<Rightarrow> string list) \<Rightarrow> string \<Rightarrow> WingOscClient \<Rightarrow> WingOscClient \<Rightarrow> OscMessage list \<Rightarrow>
    OscMessage osc_result \<Rightarrow> bool" where
  "answered id_names a c c' msgs res \<longleftrightarrow>
     (case res of
        Inr reply \<Rightarrow> (\<exists>others dups tail. msgs = others @ reply # dups @ tail \<and>
          list_all (\<lambda>m. \<not> reply_matches id_names a (addr m)) others \<and> reply_matches id_names a (addr reply) \<and>
          list_all (\<lambda>m. osc_message_eq m reply) dups \<and> length tail \<le> 1 \<and> c' = buffer_all (others @ tail) c)
      | Inl e \<Rightarrow> list_all (\<lambda>m. \<not> reply_matches id_names a (addr m)) msgs \<and> c' = buffer_all msgs c)"

lemma answered_other:
  assumes "answered id_names a (buffer_unsolicited m c) c' msgs res" and "\<not> reply_matches id_names a (addr m)"
  shows "answered id_names a c c' (m # msgs) res"
proof (cases res)
  case (Inr reply)
  with assms(1) obtain others dups tail where "msgs = others @ reply # dups @ tail"
    "list_all (\<lambda>m. \<not> reply_matches id_names a (addr m)) others" "reply_matches id_names a (addr reply)"
    "list_all (\<lambda>m. osc_message_eq m reply) dups" "length tail \<le> 1" "c' = buffer_all (others @ tail) (buffer_unsolicited m c)"
    by (auto simp: answered_def)
  with Inr assms(2) show ?thesis
    unfolding answered_def by (simp only: sum.case) (intro exI [of _ "m # others"] exI [of _ dups] exI [of _ tail], simp)
qed (use assms in \<open>auto simp: answered_def\<close>)

text \<open>One turn of the request loop before its deadline, by what the socket gives.\<close>

lemma request_turn:
  assumes "clock w = (t, w1)" and "t < deadline"
  shows "recv_message (deadline - t) w1 = None \<Longrightarrow> request_loop id_names a deadline c w = None"
    and "recv_message (deadline - t) w1 = Some (Inl (Malformed s), w2) \<Longrightarrow>
      request_loop id_names a deadline c w = request_loop id_names a deadline c w2"
    and "recv_message (deadline - t) w1 = Some (Inl e, w2) \<Longrightarrow> (\<And>s. e \<noteq> Malformed s) \<Longrightarrow>
      request_loop id_names a deadline c w = Some (Inl e, c, w2)"
    and "recv_message (deadline - t) w1 = Some (Inr m, w2) \<Longrightarrow> \<not> reply_matches id_names a (addr m) \<Longrightarrow>
      request_loop id_names a deadline c w = request_loop id_names a deadline (buffer_unsolicited m c) w2"
    and "recv_message (deadline - t) w1 = Some (Inr m, w2) \<Longrightarrow> reply_matches id_names a (addr m) \<Longrightarrow>
      request_loop id_names a deadline c w = map_option (\<lambda>(c, w). (Inr m, c, w)) (drain_duplicate_replies m deadline c w2)"
  using assms(2)
  by (subst request_loop.simps, simp add: assms(1) Let_def split: OscError.splits)+

lemma request_over: "clock w = (t, w1) \<Longrightarrow> deadline \<le> t \<Longrightarrow> request_loop id_names a deadline c w = Some (Inl OscTimeout, c, w1)"
  by (subst request_loop.simps) (simp add: Let_def)

lemma request_step:
  assumes "request_loop id_names a deadline c w = Some (res, c', w')"
  obtains (stop) e where "res = Inl e" "n_recv w' = n_recv w" "n_sent w' = n_sent w" "c' = c"
    | (fail) r e where "n_recv w = r # n_recv w'" "n_sent w' = n_sent w" "packet_message r = None" "res = Inl e" "c' = c"
    | (skip) r w2 where "n_recv w = r # n_recv w2" "n_sent w2 = n_sent w" "packet_message r = None"
        "request_loop id_names a deadline c w2 = Some (res, c', w')"
    | (other) r w2 m where "n_recv w = r # n_recv w2" "n_sent w2 = n_sent w" "packet_message r = Some m"
        "\<not> reply_matches id_names a (addr m)" "request_loop id_names a deadline (buffer_unsolicited m c) w2 = Some (res, c', w')"
    | (hit) r w2 m where "n_recv w = r # n_recv w2" "n_sent w2 = n_sent w" "packet_message r = Some m"
        "reply_matches id_names a (addr m)" "res = Inr m" "drain_duplicate_replies m deadline c w2 = Some (c', w')"
proof -
  obtain t w1 where c1: "clock w = (t, w1)" by (cases "clock w") auto
  note k = clock_keeps(1,2) [OF c1]
  show thesis
  proof (cases "t < deadline")
    case False
    with assms request_over [OF c1] k show thesis by (intro stop [of OscTimeout]) auto
  next
    case True
    note turn = request_turn [OF c1 True]
    obtain p w2 where r: "recv_message (deadline - t) w1 = Some (p, w2)"
      using assms turn(1) by (cases "recv_message (deadline - t) w1") auto
    have "0 < deadline - t" using True by simp
    from recv_message_heard [OF r this] k obtain pk where
      pk: "n_recv w = pk # n_recv w2" "n_sent w2 = n_sent w" "packet_message pk = (case p of Inr m \<Rightarrow> Some m | Inl _ \<Rightarrow> None)" by auto
    show thesis
    proof (cases p)
      case (Inl e)
      note none = pk(3) [unfolded Inl sum.case]
      show thesis
      proof (cases "\<exists>s. e = Malformed s")
        case True
        with turn(2) r Inl assms have "request_loop id_names a deadline c w2 = Some (res, c', w')" by auto
        from skip [OF pk(1,2) none this] show thesis .
      next
        case False
        with turn(3) r Inl assms have "Some (Inl e, c, w2) = Some (res, c', w')" by metis
        with pk none show thesis by (intro fail [of pk e]) auto
      qed
    next
      case (Inr m)
      note some = pk(3) [unfolded Inr sum.case]
      show thesis
      proof (cases "reply_matches id_names a (addr m)")
        case True
        with turn(5) r Inr assms have "res = Inr m \<and> drain_duplicate_replies m deadline c w2 = Some (c', w')" by auto
        with hit [OF pk(1,2) some True] show thesis by blast
      next
        case False
        with turn(4) r Inr assms have "request_loop id_names a deadline (buffer_unsolicited m c) w2 = Some (res, c', w')" by auto
        from other [OF pk(1,2) some False this] show thesis .
      qed
    qed
  qed
qed

lemma request_loop_heard:
  assumes "request_loop id_names a deadline c w = Some (res, c', w')"
  shows "\<exists>used. n_recv w = used @ n_recv w' \<and> n_sent w' = n_sent w \<and> answered id_names a c c' (heard used) res"
  using assms
proof (induction "length (n_recv w)" arbitrary: c w rule: less_induct)
  case less
  from less.prems show ?case
  proof (cases rule: request_step)
    case (stop e)
    then show ?thesis by (auto simp: answered_def)
  next
    case (fail r e)
    then show ?thesis by (intro exI [of _ "[r]"]) (simp add: answered_def)
  next
    case (skip r w2)
    with less.hyps [OF _ skip(4)] obtain used where "n_recv w2 = used @ n_recv w'" "n_sent w' = n_sent w2"
      "answered id_names a c c' (heard used) res" by auto
    with skip show ?thesis by (intro exI [of _ "r # used"]) simp
  next
    case (other r w2 m)
    with less.hyps [OF _ other(5)] obtain used where "n_recv w2 = used @ n_recv w'" "n_sent w' = n_sent w2"
      "answered id_names a (buffer_unsolicited m c) c' (heard used) res" by auto
    with other answered_other show ?thesis by (intro exI [of _ "r # used"]) simp
  next
    case (hit r w2 m)
    from drain_loop_heard [OF hit(6) [unfolded drain_duplicate_replies_def]] obtain used dups tail where
      "n_recv w2 = used @ n_recv w'" "n_sent w' = n_sent w2" "heard used = dups @ tail"
      "list_all (\<lambda>x. osc_message_eq x m) dups" "length tail \<le> 1" "c' = buffer_all tail c" by blast
    with hit show ?thesis
      unfolding answered_def
      by (intro exI [of _ "r # used"])
        (simp del: buffer_all_simps(3), intro exI [of _ "[]"] exI [of _ dups] exI [of _ tail], simp)
  qed
qed

text \<open>A socket that falls silent: a receive that times out or fails ends every wait.\<close>

definition silences :: "recv list \<Rightarrow> nat" where
  "silences rs = length (filter (\<lambda>r. case r of NoPacket _ \<Rightarrow> True | _ \<Rightarrow> False) rs)"

lemma silences_simps [simp]:
  "silences [] = 0" "silences (Packet i b # rs) = silences rs" "silences (NoPacket k # rs) = Suc (silences rs)"
  by (simp_all add: silences_def)

lemma drain_loop_returns: "1 \<le> silences (n_recv w) \<Longrightarrow> drain_loop n matched deadline c w \<noteq> None"
proof (induction n arbitrary: w)
  case (Suc n)
  obtain t w1 where c1: "clock w = (t, w1)" by (cases "clock w") auto
  with Suc.prems have "n_recv w1 \<noteq> []" using clock_keeps(1) [OF c1] by auto
  then obtain r w2 where r: "recv_datagram w1 = Some (r, w2)" using recv_datagram_None [of w1] by (cases "recv_datagram w1") auto
  have rs: "n_recv w = r # n_recv w2" using recv_takes [OF r] clock_keeps(1) [OF c1] by simp
  then show ?case
    using Suc.IH [of w2] Suc.prems c1 r
    by (cases r) (auto split: sum.splits OscError.splits)
qed simp

lemma request_loop_returns: "2 \<le> silences (n_recv w) \<Longrightarrow> request_loop id_names a deadline c w \<noteq> None"
proof (induction "length (n_recv w)" arbitrary: c w rule: less_induct)
  case less
  obtain t w1 where c1: "clock w = (t, w1)" by (cases "clock w") auto
  note k = clock_keeps(1) [OF c1]
  show ?case
  proof (cases "t < deadline")
    case False
    with request_over [OF c1] show ?thesis by simp
  next
    case True
    note turn = request_turn [OF c1 True]
    from less.prems k have "n_recv w1 \<noteq> []" by auto
    then obtain r rs where rs: "n_recv w1 = r # rs" by (meson neq_Nil_conv)
    let ?w2 = "w1\<lparr>n_recv := rs\<rparr>"
    have IH: "request_loop id_names a deadline c' ?w2 \<noteq> None" if "2 \<le> silences rs" for c'
      using less.hyps [of ?w2 c'] that rs k by simp
    have dr: "drain_duplicate_replies m deadline c ?w2 \<noteq> None" if "1 \<le> silences rs" for m
      using drain_loop_returns [of ?w2] that by (simp add: drain_duplicate_replies_def)
    show ?thesis
    proof (cases r)
      case (NoPacket kind)
      then have "recv_message (deadline - t) w1 = Some (Inl (if kind = WouldBlock \<or> kind = TimedOut then OscTimeout else OscIo kind), ?w2)"
        using True rs by (simp add: recv_message_def recv_datagram_def)
      from turn(3) [OF this] show ?thesis by (simp split: if_splits)
    next
      case (Packet i bytes)
      then have sil: "2 \<le> silences rs" using less.prems rs k by simp
      have m: "recv_message (deadline - t) w1 = Some (decode (received bytes), ?w2)"
        using True rs Packet by (simp add: recv_message_def recv_datagram_def)
      show ?thesis
      proof (cases "decode (received bytes)")
        case (Inl e)
        show ?thesis
        proof (cases "\<exists>s. e = Malformed s")
          case True
          with turn(2) m Inl IH [OF sil] show ?thesis by auto
        next
          case False
          with turn(3) m Inl show ?thesis by auto
        qed
      next
        case (Inr msg)
        with turn(4,5) m IH [OF sil] dr [of msg] sil show ?thesis
          by (cases "reply_matches id_names a (addr msg)") auto
      qed
    qed
  qed
qed

lemma send_outcome:
  assumes "send msg w = (res, w')"
  shows "n_recv w' = n_recv w" and "n_sent w' = n_sent w @ (case res of Inr _ \<Rightarrow> [projr (encode msg)] | Inl _ \<Rightarrow> [])"
    and "res = Inr () \<Longrightarrow> \<exists>bytes. encode msg = Inr bytes"
  using assms by (auto simp: send_def dest: send_keeps send_sends split: sum.splits prod.splits option.splits)

text \<open>What a request did: one datagram when it got past sending, and what it heard.\<close>

lemma request_heard:
  assumes "request id_names msg timeout c w = Some (res, c', w')"
  shows "\<exists>used sent. n_recv w = used @ n_recv w' \<and> n_sent w' = n_sent w @ sent \<and>
    answered id_names (addr msg) c c' (heard used) res \<and>
    (sent = [] \<and> used = [] \<and> (\<exists>e. res = Inl e \<and> e \<noteq> OscTimeout) \<or> (\<exists>bytes. encode msg = Inr bytes \<and> sent = [bytes]))"
proof -
  obtain t w1 where c1: "clock w = (t, w1)" by (cases "clock w") auto
  obtain sr w2 where s: "send msg w1 = (sr, w2)" by (cases "send msg w1") auto
  note k = clock_keeps(1,2) [OF c1] send_outcome [OF s]
  show ?thesis
  proof (cases sr)
    case (Inl e)
    have "e \<noteq> OscTimeout" using s Inl by (auto simp: send_def encode_def Let_def split: sum.splits prod.splits option.splits if_splits)
    with Inl assms c1 s k show ?thesis
      by (intro exI [of _ "[]"]) (auto simp: request_def answered_def)
  next
    case (Inr u)
    then have run: "request_loop id_names (addr msg) (t + timeout) c w2 = Some (res, c', w')"
      using assms c1 s by (simp add: request_def)
    from request_loop_heard [OF run] obtain used where
      "n_recv w2 = used @ n_recv w'" "n_sent w' = n_sent w2" "answered id_names (addr msg) c c' (heard used) res" by blast
    moreover obtain bytes where "encode msg = Inr bytes" using k(5) Inr by auto
    ultimately show ?thesis using k Inr by (intro exI [of _ used] exI [of _ "[bytes]"]) auto
  qed
qed

lemma request_loop_error:
  "request_loop id_names a deadline c w = Some (Inl e, c', w') \<Longrightarrow> e = OscTimeout \<or> (\<exists>k. e = OscIo k)"
proof (induction "length (n_recv w)" arbitrary: c w rule: less_induct)
  case less
  obtain t w1 where c1: "clock w = (t, w1)" by (cases "clock w") auto
  show ?case
  proof (cases "t < deadline")
    case False
    with less.prems request_over [OF c1] show ?thesis by auto
  next
    case True
    note turn = request_turn [OF c1 True]
    obtain p w2 where r: "recv_message (deadline - t) w1 = Some (p, w2)"
      using less.prems turn(1) by (cases "recv_message (deadline - t) w1") auto
    have "p = Inl e \<Longrightarrow> (\<And>s. e \<noteq> Malformed s) \<Longrightarrow> e = OscTimeout \<or> (\<exists>k. e = OscIo k)" for e
      using r True decode_error by (auto simp: recv_message_def split: option.splits prod.splits recv.splits if_splits)
    moreover have "length (n_recv w2) < length (n_recv w)"
      using recv_message_shorter [OF c1 [symmetric] r] True by simp
    note IH = less.hyps [OF this]
    ultimately show ?thesis
      using less.prems turn(2-5) r IH
      by (cases p; cases "\<exists>s. p = Inl (Malformed s)"; cases "\<exists>m. p = Inr m \<and> reply_matches id_names a (addr m)") fastforce+
  qed
qed

lemma request_returns: "2 \<le> silences (n_recv w) \<Longrightarrow> request id_names msg timeout c w \<noteq> None"
  using request_loop_returns by (auto simp: request_def dest!: clock_keeps(1) send_outcome(1) split: prod.splits sum.splits)

text \<open>
  C20. A request returns once the socket falls silent, and loses nothing of what it heard: the reply is the
  first message that answers the address, exact duplicates of it are dropped, and every other
  message joins the unsolicited buffer in arrival order, which keeps the newest 1024 and counts the rest.
  A failed request buffered everything it heard, and none of it answered.
\<close>

theorem request_keeps_order:
  assumes "2 \<le> silences (n_recv w)" and "length (oc_unsolicited c) \<le> UNSOLICITED_CAP"
  shows "\<exists>res c' w' used others dups.
    request id_names msg timeout c w = Some (res, c', w') \<and> n_recv w = used @ n_recv w' \<and>
    (case res of
       Inr reply \<Rightarrow> reply_matches id_names (addr msg) (addr reply) \<and>
         (\<exists>before after. others = before @ after \<and> length after \<le> 1 \<and> heard used = before @ reply # dups @ after \<and>
            list_all (\<lambda>m. \<not> reply_matches id_names (addr msg) (addr m)) before) \<and>
         list_all (\<lambda>m. osc_message_eq m reply) dups
     | Inl _ \<Rightarrow> heard used = others \<and> list_all (\<lambda>m. \<not> reply_matches id_names (addr msg) (addr m)) others) \<and>
    oc_unsolicited c' = newest UNSOLICITED_CAP (oc_unsolicited c @ others) \<and>
    oc_dropped c' + length (oc_unsolicited c') = oc_dropped c + length (oc_unsolicited c) + length others"
proof -
  obtain res c' w' where run: "request id_names msg timeout c w = Some (res, c', w')"
    using request_returns [OF assms(1), of id_names msg timeout c] by auto
  from request_heard [OF run] obtain used where used: "n_recv w = used @ n_recv w'"
    "answered id_names (addr msg) c c' (heard used) res" by blast
  show ?thesis
  proof (cases res)
    case (Inl e)
    with used buffer_all_exact [OF assms(2), of "heard used"] run show ?thesis
      by (intro exI [of _ res] exI [of _ c'] exI [of _ w'] exI [of _ used] exI [of _ "heard used"]) (simp add: answered_def)
  next
    case (Inr reply)
    with used(2) obtain before dups after where h: "heard used = before @ reply # dups @ after"
      "list_all (\<lambda>m. \<not> reply_matches id_names (addr msg) (addr m)) before" "reply_matches id_names (addr msg) (addr reply)"
      "list_all (\<lambda>m. osc_message_eq m reply) dups" "length after \<le> 1" "c' = buffer_all (before @ after) c"
      by (auto simp: answered_def)
    have "\<exists>b a. before @ after = b @ a \<and> length a \<le> 1 \<and> heard used = b @ reply # dups @ a \<and>
        list_all (\<lambda>m. \<not> reply_matches id_names (addr msg) (addr m)) b"
      using h(1,2,5) by blast
    with h(3,4) buffer_all_exact [OF assms(2), of "before @ after"] run used(1) show ?thesis
      unfolding h(6) Inr
      by (intro exI [of _ "Inr reply"] exI [of _ "buffer_all (before @ after) c"] exI [of _ w'] exI [of _ used]
          exI [of _ "before @ after"] exI [of _ dups]) (simp only: sum.case simp_thms)
  qed
qed

lemma request_error:
  assumes "request id_names msg timeout c w = Some (Inl e, c', w')"
  shows "e \<noteq> RetriesExhausted n"
proof -
  obtain t w1 where c1: "clock w = (t, w1)" by (cases "clock w") auto
  obtain sr w2 where s: "send msg w1 = (sr, w2)" by (cases "send msg w1") auto
  show ?thesis
  proof (cases sr)
    case (Inl e')
    then have "e' \<noteq> RetriesExhausted n"
      using s by (auto simp: send_def encode_def Let_def split: sum.splits prod.splits option.splits if_splits)
    with Inl assms c1 s show ?thesis by (simp add: request_def)
  next
    case (Inr u)
    then show ?thesis using assms c1 s by (auto simp: request_def dest: request_loop_error)
  qed
qed

lemma retry_loop_sends:
  assumes "retry_loop id_names msg policy attempt left c w = Some (res, c', w')"
    and "attempt + left = Suc (max (rq_attempts policy) 1)" and "1 \<le> left" and "1 \<le> attempt"
  shows "\<exists>k\<le>left. n_sent w' = n_sent w @ replicate k (projr (encode msg)) \<and> res \<noteq> Inl OscTimeout \<and>
    (\<forall>n. res = Inl (RetriesExhausted n) \<longrightarrow> k = left \<and> n = max (rq_attempts policy) 1)"
  using assms
proof (induction left arbitrary: attempt c w)
  case (Suc left)
  obtain r c1 w1 where rq: "request id_names msg (rq_timeout_per_attempt policy) c w = Some (r, c1, w1)"
    using Suc.prems(1) by (cases "request id_names msg (rq_timeout_per_attempt policy) c w") auto
  from request_heard [OF rq] obtain sent where sent: "n_sent w1 = n_sent w @ sent"
    "sent = [] \<and> (\<exists>e. r = Inl e \<and> e \<noteq> OscTimeout) \<or> sent = [projr (encode msg)]" by auto
  then obtain j where j: "j \<le> 1" "n_sent w1 = n_sent w @ replicate j (projr (encode msg))" "r = Inl OscTimeout \<longrightarrow> j = 1"
    by (metis One_nat_def le_refl replicate_0 replicate_Suc sum.inject(1) zero_le)
  show ?case
  proof (cases "r = Inl OscTimeout \<and> attempt < rq_attempts policy")
    case True
    then have "retry_loop id_names msg policy (attempt + 1) left c1 w1 = Some (res, c', w')" using Suc.prems(1) rq by simp
    from Suc.IH [OF this] Suc.prems(2) True obtain k where k: "k \<le> left" "n_sent w' = n_sent w1 @ replicate k (projr (encode msg))"
      "res \<noteq> Inl OscTimeout" "\<forall>n. res = Inl (RetriesExhausted n) \<longrightarrow> k = left \<and> n = max (rq_attempts policy) 1"
      by (auto simp: max_def split: if_splits)
    with j True show ?thesis by (intro exI [of _ "Suc k"]) (auto simp: replicate_app_Cons_same max_def)
  next
    case False
    have run: "(res, c', w') = (if r = Inl OscTimeout then Inl (RetriesExhausted attempt) else r, c1, w1)"
      using Suc.prems(1) rq False by (cases r) (auto split: if_splits)
    have "k = Suc left \<and> n = max (rq_attempts policy) 1"
      if "res = Inl (RetriesExhausted n)" "k = j" for n k
    proof -
      have "r \<noteq> Inl (RetriesExhausted m)" for m using request_error rq by blast
      then have "r = Inl OscTimeout" using run that(1) by (cases "r = Inl OscTimeout") auto
      with False j(3) run that Suc.prems(2-4) show ?thesis by (auto simp: max_def split: if_splits)
    qed
    with j run show ?thesis by (intro exI [of _ j]) (auto split: if_splits)
  qed
next
  case 0
  from this(3) show ?case by (simp only: not_one_le_zero)
qed

text \<open>
  C32. Retrying is bounded and never repeats a relative write: a toggle goes out at most once whatever the policy,
  any other message at most \<open>max(attempts, 1)\<close> times, each time with the same bytes; and \<open>RetriesExhausted\<close>
  is reported exactly with that number, after that many sends.
\<close>

theorem retries_bounded:
  assumes "request_with_policy id_names msg policy c w = Some (res, c', w')"
  defines "allowed \<equiv> if is_relative_write msg then 1 else max (rq_attempts policy) 1"
  shows "\<exists>k\<le>allowed. n_sent w' = n_sent w @ replicate k (projr (encode msg)) \<and>
    (\<forall>n. res = Inl (RetriesExhausted n) \<longrightarrow> n = allowed \<and> k = n \<and> \<not> is_relative_write msg) \<and>
    (res = Inl OscTimeout \<longrightarrow> is_relative_write msg)"
proof (cases "is_relative_write msg")
  case True
  then have rq: "request id_names msg (rq_timeout_per_attempt policy) c w = Some (res, c', w')"
    using assms(1) by (simp add: request_with_policy_def)
  from request_heard [OF rq] obtain sent where "n_sent w' = n_sent w @ sent" "sent = [] \<or> sent = [projr (encode msg)]" by auto
  then obtain k where "k \<le> 1" "n_sent w' = n_sent w @ replicate k (projr (encode msg))"
    by (metis One_nat_def le_refl replicate_0 replicate_Suc zero_le)
  moreover have "res \<noteq> Inl (RetriesExhausted n)" for n using request_error rq by blast
  ultimately show ?thesis using True by (auto simp: allowed_def)
next
  case False
  with assms(1) have "retry_loop id_names msg policy 1 (max (rq_attempts policy) 1) c w = Some (res, c', w')"
    by (simp add: request_with_policy_def)
  from retry_loop_sends [OF this] False show ?thesis by (auto simp: allowed_def)
qed

definition osc_reply :: OscMessage where
  "osc_reply = osc_message ''/ch/1/fdr'' [OscInt 3]"

definition osc_chatter :: OscMessage where
  "osc_chatter = osc_message ''/ch/2/fdr'' [OscInt 4]"

text \<open>A socket on which another event, the reply, its duplicate and then silence arrive.\<close>

definition chatty_net :: Net where
  "chatty_net = \<lparr>n_clock = [], n_now = 0,
     n_recv = [Packet 0 (wire osc_chatter), Packet 0 (wire osc_reply), Packet 0 (wire osc_reply), NoPacket TimedOut, NoPacket TimedOut],
     n_send_errors = [], n_sent = []\<rparr>"

theorem request_keeps_order_witness:
  "\<exists>res c' w'. request (\<lambda>_. []) (osc_message ''/ch/1/fdr'' []) 1000 new_client chatty_net = Some (res, c', w') \<and>
     res = Inr osc_reply \<and> oc_unsolicited c' = [osc_chatter] \<and> oc_dropped c' = 0"
proof -
  let ?run = "request (\<lambda>_. []) (osc_message ''/ch/1/fdr'' []) 1000 new_client chatty_net"
  have r: "map_option (\<lambda>(res, c, w). (res, oc_unsolicited c, oc_dropped c)) ?run = Some (Inr osc_reply, [osc_chatter], 0)" by code_simp
  have "2 \<le> silences (n_recv chatty_net)" by (simp add: chatty_net_def)
  moreover have "length (oc_unsolicited new_client) \<le> UNSOLICITED_CAP" by (simp add: new_client_def)
  ultimately show ?thesis
    using request_keeps_order [of chatty_net new_client "\<lambda>_. []" "osc_message ''/ch/1/fdr'' []" 1000] r
    by (auto simp: UNSOLICITED_CAP_def)
qed

definition silent_net :: Net where
  "silent_net = \<lparr>n_clock = [], n_now = 0, n_recv = [NoPacket TimedOut, NoPacket TimedOut, NoPacket TimedOut],
     n_send_errors = [], n_sent = []\<rparr>"

theorem retries_bounded_witness:
  "\<exists>c' w'. request_with_policy (\<lambda>_. []) (osc_message ''/ch/1/fdr'' []) default_request_policy new_client silent_net =
       Some (Inl (RetriesExhausted 3), c', w') \<and> length (n_sent w') = 3"
proof -
  let ?run = "request_with_policy (\<lambda>_. []) (osc_message ''/ch/1/fdr'' []) default_request_policy new_client silent_net"
  have "map_option fst ?run = Some (Inl (RetriesExhausted 3))" by code_simp
  then obtain c' w' where run: "?run = Some (Inl (RetriesExhausted 3), c', w')" by auto
  have "n_sent silent_net = []" by (simp add: silent_net_def)
  with retries_bounded [OF run] run show ?thesis by auto
qed

end
