(* ===== verification/Rust_Text.thy ===== *)
theory Rust_Text
  imports Rust_Num Rust_Split
begin

text \<open>
  Text as the tools read it: the white space of \<open>char::is_whitespace\<close> (Unicode's \<open>White_Space\<close>), \<open>trim_start\<close>,
  \<open>trim_end\<close>, \<open>trim\<close>, \<open>split_whitespace\<close>, \<open>splitn\<close> at white space, \<open>lines\<close>, \<open>split_once\<close> and the hexadecimal digits. A string
  is the list of its UTF-8 bytes; the lead byte of a white-space character occurs only at the start of a
  character, so scanning byte by byte finds exactly the characters.
\<close>

section \<open>White space\<close>

text \<open>The length of the white-space character at the start of a string, 0 when there is none.\<close>

definition ascii_ws :: "char \<Rightarrow> bool" where
  "ascii_ws c \<longleftrightarrow> (let n = (of_char c :: nat) in n = 32 \<or> 9 \<le> n \<and> n \<le> 13)"

fun ws_len :: "string \<Rightarrow> nat" where
  "ws_len [] = 0"
| "ws_len (c # s) =
     (let a = byte_of_char c; rest = as_bytes (take 2 s) in
      if ascii_ws c then 1
      else if a = 0xc2 \<and> (take 1 rest = [0x85] \<or> take 1 rest = [0xa0]) then 2
      else if a = 0xe1 \<and> rest = [0x9a, 0x80] then 3
      else if a = 0xe2 \<and> length rest = 2 \<and> rest ! 0 = 0x80 \<and>
        (0x80 \<le> rest ! 1 \<and> rest ! 1 \<le> 0x8a \<or> rest ! 1 = 0xa8 \<or> rest ! 1 = 0xa9 \<or> rest ! 1 = 0xaf) then 3
      else if a = 0xe2 \<and> rest = [0x81, 0x9f] then 3
      else if a = 0xe3 \<and> rest = [0x80, 0x80] then 3
      else 0)"

declare ws_len.simps(2) [simp del]

lemma ascii_ws_code [code]:
  "ascii_ws c \<longleftrightarrow> c = CHR 0x20 \<or> c = CHR 0x09 \<or> c = CHR 0x0a \<or> c = CHR 0x0b \<or> c = CHR 0x0c \<or> c = CHR 0x0d"
proof -
  have "(of_char c :: nat) = 32 \<longleftrightarrow> c = CHR 0x20" "(of_char c :: nat) = 9 \<longleftrightarrow> c = CHR 0x09" "(of_char c :: nat) = 10 \<longleftrightarrow> c = CHR 0x0a"
    "(of_char c :: nat) = 11 \<longleftrightarrow> c = CHR 0x0b" "(of_char c :: nat) = 12 \<longleftrightarrow> c = CHR 0x0c" "(of_char c :: nat) = 13 \<longleftrightarrow> c = CHR 0x0d"
    using of_char_eq_iff [of c "CHR 0x20", where ?'a = nat] of_char_eq_iff [of c "CHR 0x09", where ?'a = nat]
      of_char_eq_iff [of c "CHR 0x0a", where ?'a = nat] of_char_eq_iff [of c "CHR 0x0b", where ?'a = nat]
      of_char_eq_iff [of c "CHR 0x0c", where ?'a = nat] of_char_eq_iff [of c "CHR 0x0d", where ?'a = nat] by simp_all
  moreover have "9 \<le> n \<and> n \<le> 13 \<longleftrightarrow> n = 9 \<or> n = 10 \<or> n = 11 \<or> n = 12 \<or> n = (13 :: nat)" for n by auto
  ultimately show ?thesis by (simp only: ascii_ws_def Let_def)
qed

lemma ws_len_code [code]:
  "ws_len [] = 0"
  "ws_len (c # s) =
     (if \<not> digit7 c then if ascii_ws c then 1 else 0
      else let a = byte_of_char c; rest = as_bytes (take 2 s) in
      if a = 0xc2 \<and> (take 1 rest = [0x85] \<or> take 1 rest = [0xa0]) then 2
      else if a = 0xe1 \<and> rest = [0x9a, 0x80] then 3
      else if a = 0xe2 \<and> length rest = 2 \<and> rest ! 0 = 0x80 \<and>
        (0x80 \<le> rest ! 1 \<and> rest ! 1 \<le> 0x8a \<or> rest ! 1 = 0xa8 \<or> rest ! 1 = 0xa9 \<or> rest ! 1 = 0xaf) then 3
      else if a = 0xe2 \<and> rest = [0x81, 0x9f] then 3
      else if a = 0xe3 \<and> rest = [0x80, 0x80] then 3
      else 0)"
proof -
  have low: "byte_of_char c \<noteq> 0xc2 \<and> byte_of_char c \<noteq> 0xe1 \<and> byte_of_char c \<noteq> 0xe2 \<and> byte_of_char c \<noteq> 0xe3" if "\<not> digit7 c"
  proof -
    have "(of_char c :: nat) < 128" using that by (cases c) (simp add: of_char_Char horner_sum_simps)
    then have "unat (byte_of_char c) < 128" by (simp add: byte_of_char_def unat_of_nat)
    then show ?thesis by auto
  qed
  have high: "\<not> ascii_ws c" if "digit7 c" using that by (auto simp: ascii_ws_code)
  show "ws_len [] = 0" by simp
  show "ws_len (c # s) =
     (if \<not> digit7 c then if ascii_ws c then 1 else 0
      else let a = byte_of_char c; rest = as_bytes (take 2 s) in
      if a = 0xc2 \<and> (take 1 rest = [0x85] \<or> take 1 rest = [0xa0]) then 2
      else if a = 0xe1 \<and> rest = [0x9a, 0x80] then 3
      else if a = 0xe2 \<and> length rest = 2 \<and> rest ! 0 = 0x80 \<and>
        (0x80 \<le> rest ! 1 \<and> rest ! 1 \<le> 0x8a \<or> rest ! 1 = 0xa8 \<or> rest ! 1 = 0xa9 \<or> rest ! 1 = 0xaf) then 3
      else if a = 0xe2 \<and> rest = [0x81, 0x9f] then 3
      else if a = 0xe3 \<and> rest = [0x80, 0x80] then 3
      else 0)"
    using low high by (cases "digit7 c") (simp_all add: ws_len.simps(2) Let_def)
qed

text \<open>The string up to the first white-space character, and the string behind it.\<close>

fun split_once_ws :: "string \<Rightarrow> (string \<times> string) option" where
  "split_once_ws [] = None"
| "split_once_ws (c # s) =
     (if ws_len (c # s) > 0 then Some ([], drop (ws_len (c # s)) (c # s))
      else map_option (\<lambda>(p, r). (c # p, r)) (split_once_ws s))"

lemma split_once_ws_length: "split_once_ws s = Some (p, r) \<Longrightarrow> length r < length s"
  by (induction s arbitrary: p r) (auto split: if_splits)

text \<open>\<open>s.splitn(n, char::is_whitespace)\<close>.\<close>

fun splitn_ws :: "nat \<Rightarrow> string \<Rightarrow> string list" where
  "splitn_ws 0 s = []"
| "splitn_ws (Suc n) s =
     (if n = 0 then [s]
      else case split_once_ws s of None \<Rightarrow> [s] | Some (p, r) \<Rightarrow> p # splitn_ws n r)"

function split_whitespace :: "string \<Rightarrow> string list" where
  "split_whitespace s =
     (case split_once_ws s of
        None \<Rightarrow> if s = [] then [] else [s]
      | Some (p, r) \<Rightarrow> (if p = [] then [] else [p]) @ split_whitespace r)"
  by pat_completeness auto

termination split_whitespace
  by (relation "measure length") (auto simp: split_once_ws_length)

declare split_whitespace.simps [simp del]

function trim_start :: "string \<Rightarrow> string" where
  "trim_start s = (if ws_len s > 0 then trim_start (drop (ws_len s) s) else s)"
  by pat_completeness auto

termination trim_start
  by (relation "measure length") (auto split: list.split, case_tac s, auto)

declare trim_start.simps [simp del]

definition blank_str :: "string \<Rightarrow> bool" where
  "blank_str s \<longleftrightarrow> trim_start s = []"

fun trim_end :: "string \<Rightarrow> string" where
  "trim_end [] = []"
| "trim_end (c # s) = (if blank_str (c # s) then [] else c # trim_end s)"

definition trim :: "string \<Rightarrow> string" where
  "trim s = trim_end (trim_start s)"

text \<open>\<open>s.chars().filter(|c| !c.is_whitespace())\<close>.\<close>

definition without_ws :: "string \<Rightarrow> string" where
  "without_ws s = concat (split_whitespace s)"

section \<open>Lines and keys\<close>

text \<open>A line ends at a newline, with the carriage return before it; the piece behind the last newline is a line unless it is empty.\<close>

definition chomp :: "string \<Rightarrow> string" where
  "chomp s = (if s \<noteq> [] \<and> last s = CHR 0x0d then butlast s else s)"

definition lines :: "string \<Rightarrow> string list" where
  "lines s =
     (let pieces = split_on CHR 0x0a s in
      map chomp (butlast pieces) @ (if last pieces = [] then [] else [last pieces]))"

fun split_once :: "char \<Rightarrow> string \<Rightarrow> (string \<times> string) option" where
  "split_once c [] = None"
| "split_once c (x # s) = (if x = c then Some ([], s) else map_option (\<lambda>(p, r). (x # p, r)) (split_once c s))"

definition ascii_lower :: "string \<Rightarrow> string" where
  "ascii_lower s = map (\<lambda>c. let n = (of_char c :: nat) in if 65 \<le> n \<and> n \<le> 90 then char_of (n + 32) else c) s"

lemma ascii_lower_code [code]:
  "ascii_lower s = map (\<lambda>c. let n = (of_char c :: int) in if 65 \<le> n \<and> n \<le> 90 then char_of (n + 32) else c) s"
proof -
  have "(of_char c :: int) = int (of_char c)" for c by (simp add: of_nat_of_char)
  moreover have "char_of (int (of_char c) + 32) = char_of (of_char c + 32 :: nat)" for c
    using char_of_nat [of "of_char c + 32", where ?'a = int] by (simp only: of_nat_add of_nat_numeral)
  ultimately show ?thesis unfolding ascii_lower_def Let_def by (simp only: of_nat_numeral flip: of_nat_le_iff [where ?'a = int])
qed

text \<open>\<open>s.parse::<u64>()\<close>.\<close>

definition parse_u64 :: "string \<Rightarrow> nat option" where
  "parse_u64 s = parse_unsigned (2 ^ 64 - 1) s"

lemma parse_u64_code [code]:
  "parse_u64 s =
     (let ds = (case s of c # cs \<Rightarrow> if c = CHR ''+'' then cs else s | [] \<Rightarrow> []) in
      case parse_digits ds of None \<Rightarrow> None | Some n \<Rightarrow> if int n \<le> 18446744073709551615 then Some n else None)"
  by (simp add: parse_u64_def parse_unsigned_def Let_def split: option.split list.split)

section \<open>Hexadecimal\<close>

definition hex_char :: "nat \<Rightarrow> char" where
  "hex_char n = ''0123456789abcdef'' ! n"

definition encode_hex :: "byte list \<Rightarrow> string" where
  "encode_hex bytes = concat (map (\<lambda>b. [hex_char (unat b div 16), hex_char (unat b mod 16)]) bytes)"

definition hex_val :: "char \<Rightarrow> nat option" where
  "hex_val c =
     (let n = (of_char c :: nat) in
      if 48 \<le> n \<and> n \<le> 57 then Some (n - 48)
      else if 97 \<le> n \<and> n \<le> 102 then Some (n - 87)
      else if 65 \<le> n \<and> n \<le> 70 then Some (n - 55)
      else None)"

text \<open>\<open>u8::from_str_radix(pair, 16)\<close> on two bytes: a plus sign and one digit is a number too.\<close>

definition hex_pair :: "char \<Rightarrow> char \<Rightarrow> byte option" where
  "hex_pair a b =
     (case hex_val b of
        None \<Rightarrow> None
      | Some l \<Rightarrow>
          if a = CHR ''+'' then Some (word_of_nat l)
          else map_option (\<lambda>h. word_of_nat (16 * h + l)) (hex_val a))"

datatype hex_error = OddLength | BadDigit

text \<open>
  The pairs from the left, up to the first that is no number. \<open>None\<close> is the panic of a slice
  that would cut a character.
\<close>

definition char_start :: "string \<Rightarrow> bool" where
  "char_start s \<longleftrightarrow> (case s of [] \<Rightarrow> True | c # _ \<Rightarrow> \<not> utf8_cont (byte_of_char c))"

fun hex_pairs :: "string \<Rightarrow> (hex_error + byte list) option" where
  "hex_pairs (a # b # s) =
     (if \<not> char_start s then None
      else case hex_pair a b of
          None \<Rightarrow> Some (Inl BadDigit)
        | Some x \<Rightarrow> map_option (\<lambda>r. and_then r (\<lambda>xs. Inr (x # xs))) (hex_pairs s))"
| "hex_pairs _ = Some (Inr [])"

definition decode_hex :: "string \<Rightarrow> (hex_error + byte list) option" where
  "decode_hex s =
     (let compact = without_ws s in
      if odd (length compact) then Some (Inl OddLength) else hex_pairs compact)"

section \<open>White-space characters\<close>

definition is_ws :: "string \<Rightarrow> bool" where
  "is_ws w \<longleftrightarrow> w \<noteq> [] \<and> ws_len w = length w"

definition ascii_char :: "char \<Rightarrow> bool" where
  "ascii_char c \<longleftrightarrow> byte_of_char c < 0x80"

lemma ws_len_split:
  assumes "ws_len s > 0"
  obtains w t where "s = w @ t" "is_ws w" "length w = ws_len s" "\<And>t'. ws_len (w @ t') = length w"
    "(\<exists>c. w = [c] \<and> ascii_ws c) \<or> (\<forall>c\<in>set w. \<not> ascii_char c)"
proof -
  obtain c r where s: "s = c # r" using assms by (cases s) auto
  let ?b = "as_bytes (take 2 r)"
  consider (one) "ascii_ws c"
    | (two) d r' where "\<not> ascii_ws c" "r = d # r'" "byte_of_char c = 0xc2" "byte_of_char d = 0x85 \<or> byte_of_char d = 0xa0"
    | (three) d e r' where "\<not> ascii_ws c" "r = d # e # r'"
      "byte_of_char c = 0xe1 \<and> byte_of_char d = 0x9a \<and> byte_of_char e = 0x80 \<or>
       byte_of_char c = 0xe2 \<and> byte_of_char d = 0x80 \<and>
         (0x80 \<le> byte_of_char e \<and> byte_of_char e \<le> 0x8a \<or> byte_of_char e = 0xa8 \<or> byte_of_char e = 0xa9 \<or> byte_of_char e = 0xaf) \<or>
       byte_of_char c = 0xe2 \<and> byte_of_char d = 0x81 \<and> byte_of_char e = 0x9f \<or>
       byte_of_char c = 0xe3 \<and> byte_of_char d = 0x80 \<and> byte_of_char e = 0x80"
    using assms unfolding s ws_len.simps(2) Let_def
    by (cases r; cases "tl r") (auto split: if_splits)
  then show ?thesis
  proof cases
    case one
    then have "ws_len ([c] @ t') = 1" for t' by (simp add: ws_len.simps(2) Let_def)
    then show ?thesis using that [of "[c]" r] one s by (auto simp: is_ws_def)
  next
    case two
    then have l: "ws_len ([c, d] @ t') = 2" for t' by (auto simp: ws_len.simps(2) Let_def)
    have "\<not> ascii_char c" "\<not> ascii_char d" using two by (auto simp: ascii_char_def)
    then show ?thesis using that [of "[c, d]" r'] two(2) s l l [of "[]"] by (auto simp: is_ws_def)
  next
    case three
    then have l: "ws_len ([c, d, e] @ t') = 3" for t' by (auto simp: ws_len.simps(2) Let_def)
    have "\<not> ascii_char c" "\<not> ascii_char d" "\<not> ascii_char e" using three by (auto simp: ascii_char_def not_less)
    then show ?thesis using that [of "[c, d, e]" r'] three(2) s l l [of "[]"] by (auto simp: is_ws_def)
  qed
qed

lemma is_ws_append:
  assumes "is_ws w"
  shows "ws_len (w @ t) = length w"
proof -
  have "ws_len w > 0" using assms by (simp add: is_ws_def)
  then show ?thesis
  proof (cases rule: ws_len_split)
    case (1 w' t')
    have "length w' = length w" using 1(3) assms by (simp only: is_ws_def)
    then have "w' = w" using 1(1) by (metis append_eq_conv_conj order_refl take_all_iff)
    with 1(4) show ?thesis by blast
  qed
qed

lemma ws_len_append: "0 < ws_len x \<Longrightarrow> 0 < ws_len (x @ y)"
proof -
  assume "0 < ws_len x"
  from ws_len_split [OF this] obtain w t where "x = w @ t" "is_ws w" by metis
  then show ?thesis by (simp add: is_ws_append is_ws_def)
qed

text \<open>An ASCII character ends every multi-byte character before it.\<close>

lemma ws_len_before_ascii:
  assumes "0 < ws_len (x @ c # y)" and "x \<noteq> []" and "ascii_char c"
  shows "0 < ws_len x"
proof -
  from ws_len_split [OF assms(1)] obtain w t where w: "x @ c # y = w @ t" "is_ws w"
    "(\<exists>c. w = [c] \<and> ascii_ws c) \<or> (\<forall>c\<in>set w. \<not> ascii_char c)" by metis
  have "length w \<le> length x"
  proof (rule ccontr)
    assume long: "\<not> length w \<le> length x"
    then have "w ! length x = c" using w(1) by (metis nth_append nth_append_length not_le)
    then have "c \<in> set w" using long by (metis not_le nth_mem)
    then show False using w(3) assms(2,3) long by (cases x) auto
  qed
  then obtain u where "x = w @ u" using w(1) by (metis append_eq_append_conv_if append_take_drop_id)
  then show ?thesis using w(2) by (simp add: is_ws_append is_ws_def)
qed

lemma split_once_ws_parts:
  "split_once_ws s = Some (p, r) \<Longrightarrow> split_once_ws p = None \<and> (\<exists>w. is_ws w \<and> s = p @ w @ r)"
proof (induction s arbitrary: p r)
  case (Cons c s)
  show ?case
  proof (cases "0 < ws_len (c # s)")
    case True
    from ws_len_split [OF True] obtain w t where w: "c # s = w @ t" "is_ws w" "length w = ws_len (c # s)" by metis
    then have "drop (ws_len (c # s)) (c # s) = t" by (metis append_eq_conv_conj)
    then have "p = []" "r = t" using Cons.prems True by auto
    then show ?thesis using w(1,2) by auto
  next
    case False
    then obtain p' where p': "p = c # p'" "split_once_ws s = Some (p', r)" using Cons.prems by (auto split: if_splits)
    from Cons.IH [OF p'(2)] obtain w where w: "split_once_ws p' = None" "is_ws w" "s = p' @ w @ r" by auto
    have "\<not> 0 < ws_len (c # p')"
    proof
      assume "0 < ws_len (c # p')"
      from ws_len_append [OF this, of "w @ r"] False w(3) show False by simp
    qed
    then show ?thesis using p'(1) w by auto
  qed
qed simp

lemma split_once_ws_at:
  "split_once_ws p = None \<Longrightarrow> split_once_ws (p @ CHR '' '' # t) = Some (p, t)"
proof (induction p)
  case Nil
  have "ws_len (CHR '' '' # t) = 1" by (simp add: ws_len.simps(2) ascii_ws_def)
  then show ?case by simp
next
  case (Cons c p)
  have "ascii_char CHR '' ''" by (simp add: ascii_char_def byte_of_char_def)
  then have "\<not> 0 < ws_len (c # p @ CHR '' '' # t)"
    using ws_len_before_ascii [of "c # p" "CHR '' ''" t] Cons.prems by (auto split: if_splits)
  then show ?case using Cons by (auto split: if_splits)
qed

section \<open>Splitting rendered lines\<close>

lemma splitn_three:
  assumes "split_once_ws a = None" and "split_once_ws b = None" and "split_once_ws c = None"
  shows "splitn_ws 4 (a @ '' '' @ b @ '' '' @ c @ '' '' @ d) = [a, b, c, d]"
    and "splitn_ws 4 (a @ '' '' @ b @ '' '' @ c) = [a, b, c]"
  using assms by (simp_all add: eval_nat_numeral split_once_ws_at)

lemma split_whitespace_three:
  assumes "split_once_ws a = None" and "split_once_ws b = None" and "split_once_ws c = None"
  shows "split_whitespace (a @ '' '' @ b @ '' '' @ c) = filter (\<lambda>x. x \<noteq> []) [a, b, c]"
  using assms by (simp add: split_whitespace.simps [of "_ @ _"] split_whitespace.simps [of c] split_once_ws_at)

lemma splitn_fields:
  assumes "splitn_ws 4 s = a # b # c # more"
  obtains v w where "is_ws v" "is_ws w" "split_once_ws a = None" "split_once_ws b = None" "split_once_ws c = None"
    "more = []" "s = a @ v @ b @ w @ c"
  | u v w d where "is_ws u" "is_ws v" "is_ws w" "split_once_ws a = None" "split_once_ws b = None" "split_once_ws c = None"
    "more = [d]" "s = a @ v @ b @ w @ c @ u @ d"
proof -
  obtain r where r: "split_once_ws s = Some (a, r)" "splitn_ws 3 r = b # c # more"
    using assms by (auto simp: eval_nat_numeral split: option.splits)
  obtain r' where r': "split_once_ws r = Some (b, r')" "splitn_ws 2 r' = c # more"
    using r(2) by (auto simp: eval_nat_numeral split: option.splits)
  obtain v w where vw: "is_ws v" "is_ws w" "split_once_ws a = None" "split_once_ws b = None" "s = a @ v @ b @ w @ r'"
    using split_once_ws_parts [OF r(1)] split_once_ws_parts [OF r'(1)] by auto
  show ?thesis
  proof (cases "split_once_ws r'")
    case None
    then show ?thesis using r'(2) vw that(1) by (auto simp: eval_nat_numeral)
  next
    case (Some p)
    then obtain d where d: "split_once_ws r' = Some (c, d)" "more = [d]"
      using r'(2) by (cases p) (auto simp: eval_nat_numeral)
    then show ?thesis using split_once_ws_parts [OF d(1)] vw that(2) by auto
  qed
qed

section \<open>Trimming\<close>

lemma trim_start_ws [simp]: "is_ws w \<Longrightarrow> trim_start (w @ t) = trim_start t"
  by (subst trim_start.simps) (simp add: is_ws_append is_ws_def)

lemma trim_start_id: "ws_len s = 0 \<Longrightarrow> trim_start s = s"
  by (subst trim_start.simps) simp

lemma ws_len_trim_start: "ws_len (trim_start s) = 0"
  by (induction s rule: trim_start.induct) (metis bot_nat_0.not_eq_extremum trim_start.simps)

lemma blank_Nil [simp]: "blank_str []"
  by (simp add: blank_str_def trim_start_id)

lemma blank_ws: "is_ws w \<Longrightarrow> blank_str w"
  using trim_start_ws [of w "[]"] by (simp add: blank_str_def trim_start_id)

lemma trim_start_blank: "blank_str x \<Longrightarrow> trim_start (x @ y) = trim_start y"
proof (induction "length x" arbitrary: x rule: less_induct)
  case less
  show ?case
  proof (cases "0 < ws_len x")
    case True
    from ws_len_split [OF True] obtain w t where w: "x = w @ t" "is_ws w" by metis
    then have "length t < length x" by (simp add: is_ws_def)
    moreover have "blank_str t" using less.prems w by (simp add: blank_str_def)
    ultimately show ?thesis using less.hyps [of t] w by simp
  next
    case False
    then have "x = []" using less.prems by (simp add: blank_str_def trim_start_id)
    then show ?thesis by simp
  qed
qed

lemma blank_append: "blank_str x \<Longrightarrow> blank_str y \<Longrightarrow> blank_str (x @ y)"
  by (simp add: blank_str_def [of "_ @ _"] trim_start_blank) (simp add: blank_str_def)

lemma trim_end_rest: "\<exists>u. s = trim_end s @ u \<and> blank_str u"
proof (induction s)
  case (Cons c s)
  then show ?case by (cases "blank_str (c # s)") auto
qed simp

lemma trim_end_idem [simp]: "trim_end (trim_end s) = trim_end s"
proof (induction s)
  case (Cons c s)
  obtain u where u: "s = trim_end s @ u" "blank_str u" using trim_end_rest by blast
  have "blank_str (c # trim_end s) \<Longrightarrow> blank_str (c # s)"
    using blank_append [of "c # trim_end s" u] u by simp
  then show ?case using Cons by auto
qed simp

lemma trimmed_suffix: "trim_end (x @ u) = x @ u \<Longrightarrow> u \<noteq> [] \<Longrightarrow> \<not> blank_str u"
proof (induction x)
  case Nil
  then show ?case by (cases u) (auto split: if_splits)
next
  case (Cons c x)
  then show ?case by (auto split: if_splits)
qed

text \<open>A string that ends with an ASCII character other than white space is trimmed.\<close>

lemma not_blank_last: "ascii_char c \<Longrightarrow> \<not> ascii_ws c \<Longrightarrow> \<not> blank_str (x @ [c])"
proof (induction "length x" arbitrary: x rule: less_induct)
  case less
  show ?case
  proof (cases "0 < ws_len (x @ [c])")
    case True
    from ws_len_split [OF True] obtain w t where w: "x @ [c] = w @ t" "is_ws w"
      "(\<exists>c. w = [c] \<and> ascii_ws c) \<or> (\<forall>c\<in>set w. \<not> ascii_char c)" by metis
    have "c \<notin> set w" using w(3) less.prems by auto
    then have "t \<noteq> []" using w(1) by (metis append_Nil2 in_set_conv_decomp)
    then obtain t' where t: "t = t' @ [c]" "x = w @ t'" using w(1) by (metis append_eq_append_conv2 append_butlast_last_id butlast_append butlast_snoc last_appendR last_snoc)
    then have "length t' < length x" using w(2) by (simp add: is_ws_def)
    then show ?thesis using less.hyps [of t'] less.prems t w by (simp add: blank_str_def)
  next
    case False
    then show ?thesis by (simp add: blank_str_def trim_start_id)
  qed
qed

lemma trim_end_last: "ascii_char c \<Longrightarrow> \<not> ascii_ws c \<Longrightarrow> trim_end (x @ [c]) = x @ [c]"
proof (induction x)
  case Nil
  then show ?case using not_blank_last [of c "[]"] by simp
next
  case (Cons d x)
  then show ?case using not_blank_last [of c "d # x"] by simp
qed

lemma trim_Nil_blank: "trim s = [] \<longleftrightarrow> blank_str s"
proof -
  have "blank_str s" if "trim_end (trim_start s) = []"
  proof -
    obtain u where "trim_start s = trim_end (trim_start s) @ u" "blank_str u" using trim_end_rest by blast
    then have "blank_str (trim_start s)" using that by simp
    then show ?thesis by (simp add: blank_str_def trim_start_id [OF ws_len_trim_start])
  qed
  then show ?thesis by (auto simp: trim_def blank_str_def)
qed

lemma blank_trim: "blank_str (trim s) \<Longrightarrow> blank_str s"
proof -
  assume b: "blank_str (trim s)"
  obtain u where "trim_start s = trim s @ u" "blank_str u" using trim_end_rest [of "trim_start s"] by (auto simp: trim_def)
  then have "blank_str (trim_start s)" using b blank_append by metis
  then show ?thesis by (simp add: blank_str_def trim_start_id [OF ws_len_trim_start])
qed

section \<open>Strings without white space\<close>

definition solid :: "string \<Rightarrow> bool" where
  "solid s \<longleftrightarrow> (\<forall>c\<in>set s. ascii_char c \<and> \<not> ascii_ws c)"

lemma solid_simps [simp]: "solid []" "solid (c # s) \<longleftrightarrow> ascii_char c \<and> \<not> ascii_ws c \<and> solid s" "solid (s @ t) \<longleftrightarrow> solid s \<and> solid t"
  by (auto simp: solid_def)

lemma solid_ws_len: "solid s \<Longrightarrow> ws_len s = 0"
proof (rule ccontr)
  assume s: "solid s" and "ws_len s \<noteq> 0"
  then have "0 < ws_len s" by simp
  from ws_len_split [OF this] obtain w t where "s = w @ t" "is_ws w"
    "(\<exists>c. w = [c] \<and> ascii_ws c) \<or> (\<forall>c\<in>set w. \<not> ascii_char c)" by metis
  then show False using s by (cases w) (auto simp: is_ws_def)
qed

lemma solid_split [simp]: "solid s \<Longrightarrow> split_once_ws s = None"
proof (induction s)
  case (Cons c s)
  then have "ws_len (c # s) = 0" by (intro solid_ws_len) simp
  then show ?case using Cons by simp
qed simp

lemma solid_tokens: "solid s \<Longrightarrow> s \<noteq> [] \<Longrightarrow> split_whitespace s = [s]"
  by (simp add: split_whitespace.simps [of s])

lemma solid_without_ws: "solid s \<Longrightarrow> without_ws s = s"
  by (cases "s = []") (simp_all add: without_ws_def solid_tokens split_whitespace.simps [of "[]"])

lemma solid_trim_end: "solid s \<Longrightarrow> trim_end s = s"
proof (cases s rule: rev_cases)
  case (snoc t c)
  then show "solid s \<Longrightarrow> trim_end s = s" by (simp add: trim_end_last)
qed simp

lemma solid_trim: "solid s \<Longrightarrow> trim s = s"
  by (simp add: trim_def trim_start_id solid_ws_len solid_trim_end)

lemma trim_space: "solid s \<Longrightarrow> trim (CHR '' '' # s) = s"
proof -
  assume s: "solid s"
  have "is_ws '' ''" by (simp add: is_ws_def ws_len.simps(2) ascii_ws_def)
  from trim_start_ws [OF this, of s] have "trim_start (CHR '' '' # s) = trim_start s" by simp
  then show ?thesis using s by (simp add: trim_def trim_start_id solid_ws_len solid_trim_end)
qed

lemma show_nat_solid: "solid (show_nat n)"
proof -
  have "ascii_char c \<and> \<not> ascii_ws c" if "is_digit c" for c
  proof -
    have n: "48 \<le> (of_char c :: nat)" "(of_char c :: nat) \<le> 57" using that by (auto simp: is_digit_def)
    then have "unat (byte_of_char c) < 128" by (simp add: byte_of_char_def unat_of_nat)
    then show ?thesis using n by (simp add: ascii_char_def ascii_ws_def word_less_nat_alt)
  qed
  then show ?thesis using show_nat_digits [of n] by (auto simp: solid_def list_all_iff)
qed

lemma tokens_Nil: "split_whitespace s = [] \<Longrightarrow> blank_str s"
proof (induction s rule: split_whitespace.induct)
  case (1 s)
  show ?case
  proof (cases "split_once_ws s")
    case None
    then show ?thesis using "1.prems" by (simp add: split_whitespace.simps [of s] split: if_splits)
  next
    case (Some pr)
    then obtain p r where pr: "split_once_ws s = Some (p, r)" by (cases pr) auto
    then have "p = []" "split_whitespace r = []" using "1.prems" by (auto simp: split_whitespace.simps [of s] split: if_splits)
    moreover from this have "blank_str r" using "1.IH" [OF pr refl] by simp
    ultimately show ?thesis using split_once_ws_parts [OF pr] blank_append blank_ws by auto
  qed
qed

lemma token_nonempty: "t \<in> set (split_whitespace s) \<Longrightarrow> t \<noteq> []"
  by (induction s rule: split_whitespace.induct) (subst (asm) (2) split_whitespace.simps, auto split: option.splits if_splits)

lemma without_ws_Nil: "without_ws s = [] \<Longrightarrow> blank_str s"
  using token_nonempty [of _ s] by (intro tokens_Nil) (auto simp: without_ws_def)

section \<open>Hexadecimal round trip\<close>

lemma hex_char_ok:
  assumes "n < 16"
  shows "hex_val (hex_char n) = Some n" and "ascii_char (hex_char n)" and "\<not> ascii_ws (hex_char n)" and "hex_char n \<noteq> CHR ''+''"
    and "hex_char n \<noteq> CHR 0x0a"
proof -
  have "list_all (\<lambda>n. hex_val (hex_char n) = Some n \<and> ascii_char (hex_char n) \<and> \<not> ascii_ws (hex_char n) \<and>
      hex_char n \<noteq> CHR ''+'' \<and> hex_char n \<noteq> CHR 0x0a) [0..<16]" by code_simp
  then show "hex_val (hex_char n) = Some n" "ascii_char (hex_char n)" "\<not> ascii_ws (hex_char n)" "hex_char n \<noteq> CHR ''+''"
    "hex_char n \<noteq> CHR 0x0a"
    using assms by (auto simp: list_all_iff)
qed

lemma nibbles: "unat (b :: byte) div 16 < 16" "unat b mod 16 < 16"
proof -
  have "unat b < 2 ^ LENGTH(8)" by (rule unsigned_less)
  then have "unat b < 256" by simp
  then show "unat b div 16 < 16" "unat b mod 16 < 16" by (simp_all add: less_mult_imp_div_less)
qed

lemma encode_hex_Cons: "encode_hex (b # bs) = hex_char (unat b div 16) # hex_char (unat b mod 16) # encode_hex bs"
  by (simp add: encode_hex_def)

lemma encode_hex_Nil [simp]: "encode_hex [] = []"
  by (simp add: encode_hex_def)

lemma encode_hex_solid [simp]: "solid (encode_hex bs)"
  by (induction bs) (simp_all add: encode_hex_Cons hex_char_ok nibbles)

lemma encode_hex_line: "CHR 0x0a \<notin> set (encode_hex bs)"
  by (induction bs) (simp_all add: encode_hex_Cons hex_char_ok(5) [OF nibbles(1)] hex_char_ok(5) [OF nibbles(2)] not_sym)

lemma encode_hex_even: "even (length (encode_hex bs))"
  by (induction bs) (simp_all add: encode_hex_Cons)

lemma solid_char_start: "solid s \<Longrightarrow> char_start s"
  by (auto simp: char_start_def ascii_char_def utf8_cont_def not_less split: list.split)

lemma hex_pairs_encode: "hex_pairs (encode_hex bs) = Some (Inr bs)"
proof (induction bs)
  case (Cons b bs)
  have "word_of_nat (16 * (unat b div 16) + unat b mod 16) = b" by (simp only: mult_div_mod_eq) simp
  then have "hex_pair (hex_char (unat b div 16)) (hex_char (unat b mod 16)) = Some b"
    by (simp add: hex_pair_def hex_char_ok nibbles del: of_nat_add of_nat_mult)
  then show ?case using Cons by (simp add: encode_hex_Cons solid_char_start)
qed simp

lemma decode_encode_hex [simp]: "decode_hex (encode_hex bs) = Some (Inr bs)"
  by (simp add: decode_hex_def solid_without_ws encode_hex_even hex_pairs_encode)

lemma decode_hex_Nil: "decode_hex s = Some (Inr []) \<Longrightarrow> blank_str s"
proof -
  assume d: "decode_hex s = Some (Inr [])"
  have "without_ws s = []"
  proof (cases "without_ws s" rule: hex_pairs.cases)
    case (1 a b t)
    then show ?thesis using d by (auto simp: decode_hex_def Let_def and_then_iffs split: if_splits option.splits)
  qed (use d in \<open>auto simp: decode_hex_def Let_def split: if_splits\<close>)
  then show ?thesis by (rule without_ws_Nil)
qed

section \<open>Lines of a rendered text\<close>

definition with_nl :: "string \<Rightarrow> string" where
  "with_nl s = s @ [CHR 0x0a]"

lemma split_on_lines: "\<forall>l\<in>set ls. CHR 0x0a \<notin> set l \<Longrightarrow> split_on CHR 0x0a (concat (map with_nl ls)) = ls @ [[]]"
  by (induction ls) (simp_all add: with_nl_def split_on_sep)

lemma lines_concat: "\<forall>l\<in>set ls. CHR 0x0a \<notin> set l \<and> chomp l = l \<Longrightarrow> lines (concat (map with_nl ls)) = ls"
  by (simp add: lines_def split_on_lines map_idI)

lemma join_lines: "ls \<noteq> [] \<Longrightarrow> join_with CHR 0x0a ls @ [CHR 0x0a] = concat (map with_nl ls)"
proof (induction "CHR 0x0a" ls rule: join_with.induct)
  case (3 s t ts)
  then show ?case by (simp add: with_nl_def)
qed (simp_all add: with_nl_def)

lemma lines_no_newline: "l \<in> set (lines s) \<Longrightarrow> CHR 0x0a \<notin> set l"
proof -
  have "CHR 0x0a \<notin> set (chomp x)" if "CHR 0x0a \<notin> set x" for x
    using that by (auto simp: chomp_def dest: in_set_butlastD)
  then show "l \<in> set (lines s) \<Longrightarrow> CHR 0x0a \<notin> set l"
    using split_on_segments [of _ "CHR 0x0a" s] last_in_set [OF split_on_ne [of "CHR 0x0a" s]]
    by (auto simp: lines_def Let_def dest: in_set_butlastD split: if_splits)
qed

lemma chomp_trimmed: "trim_end l = l \<Longrightarrow> chomp l = l"
proof (cases l rule: rev_cases)
  case (snoc t c)
  have "is_ws [CHR 0x0d]" by (simp add: is_ws_def ws_len.simps(2) ascii_ws_def)
  then have "blank_str [CHR 0x0d]" by (rule blank_ws)
  then show "trim_end l = l \<Longrightarrow> chomp l = l" using trimmed_suffix [of t "[c]"] snoc by (auto simp: chomp_def)
qed (simp add: chomp_def)

lemma trim_end_set: "set (trim_end s) \<subseteq> set s"
  by (induction s) auto

section \<open>Trimming a rendered line\<close>

lemma blank_before_ascii: "blank_str (y @ d # z) \<Longrightarrow> ascii_char d \<Longrightarrow> blank_str y \<and> blank_str (d # z)"
proof (induction "length y" arbitrary: y rule: less_induct)
  case less
  show ?case
  proof (cases "y = []")
    case False
    have "0 < ws_len (y @ d # z)"
      using less.prems(1) False trim_start_id [of "y @ d # z"] by (auto simp: blank_str_def)
    from ws_len_before_ascii [OF this False less.prems(2)] have "0 < ws_len y" .
    from ws_len_split [OF this] obtain w t where w: "y = w @ t" "is_ws w" by metis
    then have "length t < length y" by (simp add: is_ws_def)
    moreover have "blank_str (t @ d # z)" using less.prems(1) w by (simp add: blank_str_def)
    ultimately show ?thesis using less.hyps [of t] less.prems(2) w by (simp add: blank_append blank_ws)
  qed (use less.prems in simp)
qed

lemma trim_end_eq: "blank_str u \<Longrightarrow> (\<And>x y. t = x @ y \<Longrightarrow> y \<noteq> [] \<Longrightarrow> \<not> blank_str (y @ u)) \<Longrightarrow> trim_end (t @ u) = t"
proof (induction t)
  case Nil
  then show ?case by (cases u) auto
next
  case (Cons c t)
  have "\<not> blank_str ((c # t) @ u)" using Cons.prems(2) [of "[]" "c # t"] by simp
  moreover have "trim_end (t @ u) = t" using Cons.prems by (intro Cons.IH) (auto dest: Cons.prems(2) [of "c # _"])
  ultimately show ?case by simp
qed

lemma ws_free_suffix: "split_once_ws (x @ y) = None \<Longrightarrow> split_once_ws y = None"
  by (induction x) (auto split: if_splits)

lemma ws_free_not_blank: "split_once_ws y = None \<Longrightarrow> y \<noteq> [] \<Longrightarrow> \<not> blank_str y"
  by (cases y) (auto simp: blank_str_def trim_start_id split: if_splits)

lemma space_facts: "ascii_char CHR '' ''" "blank_str '' ''" "is_ws '' ''"
  by (simp_all add: ascii_char_def byte_of_char_def is_ws_def ws_len.simps(2) ascii_ws_def blank_ws)

lemma trim_end_space:
  assumes "split_once_ws c = None" and "c \<noteq> []"
  shows "trim_end (x @ '' '' @ c @ '' '') = x @ '' '' @ c"
proof -
  have "\<not> blank_str (y @ '' '')" if y: "x @ '' '' @ c = x' @ y" "y \<noteq> []" for x' y
  proof
    assume "blank_str (y @ '' '')"
    then have b: "blank_str y" using blank_before_ascii [of y "CHR '' ''" "[]"] space_facts by simp
    show False
    proof (cases "length y \<le> length c")
      case True
      have "y = drop (length x') (x @ '' '' @ c)" using y(1) by simp
      moreover have "length x + 1 \<le> length x'" using True arg_cong [OF y(1), of length] by simp
      ultimately have "y = drop (length x' - (length x + 1)) c" by (simp add: drop_Cons')
      then obtain z where "c = z @ y" by (metis append_take_drop_id)
      then show False using assms(1) ws_free_suffix ws_free_not_blank b y(2) by blast
    next
      case False
      then have "length x' \<le> length x" using arg_cong [OF y(1), of length] by simp
      then obtain z where z: "y = z @ '' '' @ c" using y(1) by (auto simp: append_eq_append_conv2)
      then have "blank_str (CHR '' '' # c)" using b blank_before_ascii [of z "CHR '' ''" c] space_facts by simp
      then have "blank_str c" using trim_start_ws [OF space_facts(3), of c] by (simp add: blank_str_def)
      then show False using assms ws_free_not_blank by blast
    qed
  qed
  then show ?thesis using trim_end_eq [of "'' ''" "x @ '' '' @ c"] space_facts(2) by simp
qed

end
