(* ===== verification/Redact.thy ===== *)
theory Redact
  imports Rust_Text "HOL-Library.Multiset"
begin

text \<open>
  The redaction scanner and rewriter of \<open>tools/redact.rs\<close>: serials, IPv4 literals and MAC addresses in
  captured bytes, found with their spans, rewritten in place at the same length, and the same
  over the reassembled streams of a capture.
\<close>

section \<open>Bytes\<close>

definition digit_byte :: "byte \<Rightarrow> bool" where
  "digit_byte b \<longleftrightarrow> 0x30 \<le> b \<and> b \<le> 0x39"

definition hex_byte :: "byte \<Rightarrow> bool" where
  "hex_byte b \<longleftrightarrow> digit_byte b \<or> (0x41 \<le> b \<and> b \<le> 0x46) \<or> (0x61 \<le> b \<and> b \<le> 0x66)"

definition is_ip_body :: "byte \<Rightarrow> bool" where
  "is_ip_body b \<longleftrightarrow> digit_byte b \<or> b = 0x2e"

definition is_mac_body :: "byte \<Rightarrow> bool" where
  "is_mac_body b \<longleftrightarrow> hex_byte b \<or> b = 0x3a"

text \<open>\<open>bytes[a..b]\<close>, for \<open>a \<le> b \<le> len\<close>.\<close>

definition span :: "byte list \<Rightarrow> nat \<Rightarrow> nat \<Rightarrow> byte list" where
  "span bytes a b = take (b - a) (drop a bytes)"

definition boundary_before :: "(byte \<Rightarrow> bool) \<Rightarrow> byte list \<Rightarrow> nat \<Rightarrow> bool" where
  "boundary_before is_body bytes i \<longleftrightarrow> i = 0 \<or> i - 1 \<ge> length bytes \<or> \<not> is_body (bytes ! (i - 1))"

definition boundary_at :: "(byte \<Rightarrow> bool) \<Rightarrow> byte list \<Rightarrow> nat \<Rightarrow> bool" where
  "boundary_at is_body bytes i \<longleftrightarrow> i \<ge> length bytes \<or> \<not> is_body (bytes ! i)"

section \<open>Finding\<close>

datatype Finding = Serial string | Ip string | Mac string

record Match =
  m_start :: nat
  m_end :: nat
  m_finding :: Finding

function find_serials :: "byte list \<Rightarrow> nat \<Rightarrow> Match list" where
  "find_serials bytes i =
     (if i + 3 \<le> length bytes then
        if span bytes i (i + 3) = as_bytes ''NGC'' then
          (let digits_start = i + 3;
               j = digits_start + length (takeWhile digit_byte (drop digits_start bytes)) in
           (if j > digits_start \<and> list_ex (\<lambda>b. b \<noteq> 0x30) (span bytes digits_start j)
            then [\<lparr>m_start = i, m_end = j, m_finding = Serial (from_utf8_lossy (span bytes i j))\<rparr>] else []) @
           find_serials bytes (max j (i + 1)))
        else find_serials bytes (i + 1)
      else [])"
  by pat_completeness auto

termination find_serials
  by (relation "measure (\<lambda>(bytes, i). length bytes - i)") auto

declare find_serials.simps [simp del]

text \<open>The octets still to come, from \<open>pos\<close>; at most three digits each.\<close>

fun parse_octets :: "nat \<Rightarrow> byte list \<Rightarrow> nat \<Rightarrow> nat option" where
  "parse_octets 0 bytes pos = Some pos"
| "parse_octets (Suc k) bytes pos =
     (let digits = takeWhile digit_byte (take 3 (drop pos bytes)); after = pos + length digits in
      if digits = [] then None
      else (case parse_digits (str_of_bytes digits) of
          None \<Rightarrow> None
        | Some v \<Rightarrow>
            if v > 255 then None
            else if k > 0 then
              if after \<ge> length bytes \<or> bytes ! after \<noteq> 0x2e then None else parse_octets k bytes (after + 1)
            else Some after))"

definition parse_ipv4_end :: "byte list \<Rightarrow> nat \<Rightarrow> nat option" where
  "parse_ipv4_end bytes start = parse_octets 4 bytes start"

definition is_allowed_ip :: "string \<Rightarrow> bool" where
  "is_allowed_ip ip \<longleftrightarrow>
     ip = ''0.0.0.0'' \<or> ip = ''127.0.0.1'' \<or>
     (case Option.bind (strip_prefix ''192.0.2.'' ip) (parse_unsigned (2 ^ 32 - 1)) of
        None \<Rightarrow> False | Some n \<Rightarrow> n \<le> 255)"

lemma is_allowed_ip_code [code]:
  "is_allowed_ip ip \<longleftrightarrow>
     ip = ''0.0.0.0'' \<or> ip = ''127.0.0.1'' \<or>
     (case strip_prefix ''192.0.2.'' ip of None \<Rightarrow> False | Some rest \<Rightarrow> parse_unsigned 255 rest \<noteq> None)"
  by (auto simp: is_allowed_ip_def parse_unsigned_def Let_def split: option.splits)

function find_ips :: "byte list \<Rightarrow> nat \<Rightarrow> Match list" where
  "find_ips bytes i =
     (if i < length bytes then
        (case (if digit_byte (bytes ! i) \<and> boundary_before is_ip_body bytes i then parse_ipv4_end bytes i else None) of
           None \<Rightarrow> find_ips bytes (i + 1)
         | Some e \<Rightarrow>
             (let ip = from_utf8_lossy (span bytes i e) in
              (if boundary_at is_ip_body bytes e \<and> \<not> is_allowed_ip ip
               then [\<lparr>m_start = i, m_end = e, m_finding = Ip ip\<rparr>] else [])) @
             find_ips bytes (max e (i + 1)))
      else [])"
  by pat_completeness auto

termination find_ips
  by (relation "measure (\<lambda>(bytes, i). length bytes - i)") auto

declare find_ips.simps [simp del]

fun parse_groups :: "nat \<Rightarrow> byte list \<Rightarrow> nat \<Rightarrow> nat option" where
  "parse_groups 0 bytes pos = Some pos"
| "parse_groups (Suc k) bytes pos =
     (if pos + 2 > length bytes \<or> \<not> hex_byte (bytes ! pos) \<or> \<not> hex_byte (bytes ! (pos + 1)) then None
      else if k > 0 then
        if pos + 2 \<ge> length bytes \<or> bytes ! (pos + 2) \<noteq> 0x3a then None else parse_groups k bytes (pos + 3)
      else Some (pos + 2))"

definition parse_mac_end :: "byte list \<Rightarrow> nat \<Rightarrow> nat option" where
  "parse_mac_end bytes start = parse_groups 6 bytes start"

definition is_allowed_mac :: "string \<Rightarrow> bool" where
  "is_allowed_mac mac \<longleftrightarrow>
     (case strip_prefix ''02:00:00:00:00:'' mac of
        None \<Rightarrow> False | Some rest \<Rightarrow> length rest = 2 \<and> list_all hex_byte (as_bytes rest))"

function find_macs :: "byte list \<Rightarrow> nat \<Rightarrow> Match list" where
  "find_macs bytes i =
     (if i < length bytes then
        (case parse_mac_end bytes i of
           None \<Rightarrow> find_macs bytes (i + 1)
         | Some e \<Rightarrow>
             (let mac = ascii_lower (from_utf8_lossy (span bytes i e)) in
              (if boundary_before is_mac_body bytes i \<and> boundary_at is_mac_body bytes e \<and> \<not> is_allowed_mac mac
               then [\<lparr>m_start = i, m_end = e, m_finding = Mac mac\<rparr>] else [])) @
             find_macs bytes (max e (i + 1)))
      else [])"
  by pat_completeness auto

termination find_macs
  by (relation "measure (\<lambda>(bytes, i). length bytes - i)") auto

declare find_macs.simps [simp del]

definition find_matches :: "byte list \<Rightarrow> Match list" where
  "find_matches bytes = find_serials bytes 0 @ find_ips bytes 0 @ find_macs bytes 0"

definition scan :: "byte list \<Rightarrow> Finding list" where
  "scan bytes = map m_finding (find_matches bytes)"

definition scan_str :: "string \<Rightarrow> Finding list" where
  "scan_str s = scan (as_bytes s)"

section \<open>Rewriting\<close>

text \<open>The three error messages of the source.\<close>

datatype RedactError = NoSameLength string | LengthMismatch Finding | NotFullyRedacted

definition fit_test_net_ip :: "nat \<Rightarrow> string option" where
  "fit_test_net_ip len = List.find (\<lambda>s. length s = len) (map (\<lambda>n. ''192.0.2.'' @ show_nat n) [0..<256])"

definition replacement_for :: "Finding \<Rightarrow> RedactError + string" where
  "replacement_for f =
     (case f of
        Serial s \<Rightarrow> Inr (''NGC'' @ replicate (length s - 3) CHR ''0'')
      | Mac _ \<Rightarrow> Inr ''02:00:00:00:00:00''
      | Ip ip \<Rightarrow> ok_or (fit_test_net_ip (length ip)) (NoSameLength ip))"

definition overwrite :: "byte list \<Rightarrow> nat \<Rightarrow> byte list \<Rightarrow> byte list" where
  "overwrite out i bs = take i out @ bs @ drop (i + length bs) out"

fun rewrite_all :: "Match list \<Rightarrow> byte list \<Rightarrow> RedactError + byte list" where
  "rewrite_all [] out = Inr out"
| "rewrite_all (m # ms) out =
     and_then (replacement_for (m_finding m)) (\<lambda>r.
       if length r \<noteq> m_end m - m_start m then Inl (LengthMismatch (m_finding m))
       else rewrite_all ms (overwrite out (m_start m) (as_bytes r)))"

fun redact_passes :: "nat \<Rightarrow> byte list \<Rightarrow> RedactError + byte list" where
  "redact_passes 0 out = Inl NotFullyRedacted"
| "redact_passes (Suc n) out =
     (let ms = find_matches out in
      if ms = [] then Inr out else and_then (rewrite_all ms out) (redact_passes n))"

definition redact_bytes :: "byte list \<Rightarrow> RedactError + byte list" where
  "redact_bytes bytes = redact_passes 4 bytes"

section \<open>Streams of events\<close>

type_synonym event = "string \<times> byte list"

definition flush_group :: "nat list \<Rightarrow> nat list list" where
  "flush_group g = (if g = [] then [] else [g])"

fun group_events :: "nat \<Rightarrow> event list \<Rightarrow> nat list \<Rightarrow> nat list \<Rightarrow> nat list list" where
  "group_events index [] incoming outgoing = flush_group incoming @ flush_group outgoing"
| "group_events index ((channel, bytes) # events) incoming outgoing =
     (if channel = ''N<'' \<and> bytes = [] then
        flush_group incoming @ flush_group outgoing @ group_events (index + 1) events [] []
      else if channel = ''N<'' then group_events (index + 1) events (incoming @ [index]) outgoing
      else if channel = ''N>'' then group_events (index + 1) events incoming (outgoing @ [index])
      else [index] # group_events (index + 1) events incoming outgoing)"

definition groups :: "event list \<Rightarrow> nat list list" where
  "groups events = group_events 0 events [] []"

definition gather :: "event list \<Rightarrow> nat list \<Rightarrow> byte list" where
  "gather events indices = concat (map (\<lambda>i. snd (events ! i)) indices)"

definition scan_events :: "event list \<Rightarrow> Finding list" where
  "scan_events events = concat (map (\<lambda>indices. scan (gather events indices)) (groups events))"

text \<open>\<open>copy_from_slice\<close> of the redacted bytes, chunk by chunk.\<close>

fun scatter :: "nat list \<Rightarrow> byte list \<Rightarrow> event list \<Rightarrow> event list" where
  "scatter [] redacted events = events"
| "scatter (i # is) redacted events =
     (let len = length (snd (events ! i)) in
      scatter is (drop len redacted) (events[i := (fst (events ! i), take len redacted)]))"

fun redact_groups :: "nat list list \<Rightarrow> event list \<Rightarrow> RedactError + event list" where
  "redact_groups [] events = Inr events"
| "redact_groups (g # gs) events =
     and_then (redact_bytes (gather events g)) (\<lambda>redacted. redact_groups gs (scatter g redacted events))"

definition redact_events :: "event list \<Rightarrow> RedactError + event list" where
  "redact_events events = redact_groups (groups events) events"

section \<open>Spans of the findings\<close>

text \<open>A match lies inside the scanned bytes and its text has the length of its span.\<close>

definition finding_length :: "Finding \<Rightarrow> nat" where
  "finding_length f = (case f of Serial s \<Rightarrow> length s | Ip s \<Rightarrow> length s | Mac s \<Rightarrow> length s)"

definition match_ok :: "byte list \<Rightarrow> Match \<Rightarrow> bool" where
  "match_ok bytes m \<longleftrightarrow> m_start m \<le> m_end m \<and> m_end m \<le> length bytes \<and> finding_length (m_finding m) = m_end m - m_start m \<and>
     (case m_finding m of Serial _ \<Rightarrow> 3 \<le> m_end m - m_start m | Mac _ \<Rightarrow> m_end m - m_start m = 17 | Ip _ \<Rightarrow> True)"

abbreviation ascii :: "byte list \<Rightarrow> bool" where
  "ascii \<equiv> list_all (\<lambda>b. b < 0x80)"

lemma span_same [simp]: "span bytes a a = []"
  by (simp add: span_def)

lemma span_join: "a \<le> b \<Longrightarrow> b \<le> c \<Longrightarrow> span bytes a c = span bytes a b @ span bytes b c"
  using take_add [of "b - a" "c - b" "drop a bytes"] by (simp add: span_def)

lemma length_span [simp]: "b \<le> length bytes \<Longrightarrow> length (span bytes a b) = b - a"
  by (auto simp: span_def)

lemma span_one: "a < length bytes \<Longrightarrow> span bytes a (Suc a) = [bytes ! a]"
  by (simp add: span_def take_Suc_conv_app_nth)

lemma digit_byte_ascii: "digit_byte b \<Longrightarrow> b < 0x80"
  unfolding digit_byte_def by (rule le_less_trans [of _ "0x39"]) simp_all

lemma hex_byte_ascii: "hex_byte b \<Longrightarrow> b < 0x80"
  unfolding hex_byte_def
  by (auto dest: digit_byte_ascii intro: le_less_trans [of _ "0x46"] le_less_trans [of _ "0x66"])

lemma span_takeWhile:
  "span bytes a (a + length (takeWhile P (take n (drop a bytes)))) = takeWhile P (take n (drop a bytes))"
  "span bytes a (a + length (takeWhile P (drop a bytes))) = takeWhile P (drop a bytes)"
proof -
  have "take (length (takeWhile P (take n xs))) xs = takeWhile P (take n xs)" for xs
  proof -
    have "length (takeWhile P (take n xs)) \<le> n" using length_takeWhile_le [of P "take n xs"] by simp
    then show ?thesis using takeWhile_eq_take [of P "take n xs"] by simp
  qed
  then show "span bytes a (a + length (takeWhile P (take n (drop a bytes)))) = takeWhile P (take n (drop a bytes))"
    "span bytes a (a + length (takeWhile P (drop a bytes))) = takeWhile P (drop a bytes)"
    by (simp_all add: span_def takeWhile_eq_take [symmetric])
qed

lemma takeWhile_digits_ascii: "ascii (takeWhile digit_byte bs)"
  by (auto simp: list_all_iff dest!: set_takeWhileD intro: digit_byte_ascii)

lemma takeWhile_end: "a \<le> length bytes \<Longrightarrow> a + length (takeWhile P (drop a bytes)) \<le> length bytes"
  using length_takeWhile_le [of P "drop a bytes"] by simp

lemma takeWhile_take_end: "a \<le> length bytes \<Longrightarrow> a + length (takeWhile P (take n (drop a bytes))) \<le> length bytes"
  using length_takeWhile_le [of P "take n (drop a bytes)"] by (simp add: le_diff_conv2)

lemma parse_octets_span:
  assumes "parse_octets k bytes pos = Some e" "pos \<le> length bytes"
  shows "pos \<le> e \<and> e \<le> length bytes \<and> ascii (span bytes pos e)"
  using assms
proof (induction k bytes pos rule: parse_octets.induct)
  case (2 k bytes pos)
  let ?d = "takeWhile digit_byte (take 3 (drop pos bytes))"
  let ?a = "pos + length ?d"
  have a: "?a \<le> length bytes" "span bytes pos ?a = ?d" "ascii ?d"
    using 2(3) by (simp_all add: takeWhile_take_end span_takeWhile takeWhile_digits_ascii)
  show ?case
  proof (cases "k > 0")
    case True
    with 2 a have dot: "?a < length bytes" "bytes ! ?a = 0x2e" and "parse_octets k bytes (?a + 1) = Some e"
      by (auto simp: Let_def split: if_splits option.splits)
    then have ih: "?a + 1 \<le> e \<and> e \<le> length bytes \<and> ascii (span bytes (?a + 1) e)"
      using 2 True by (auto simp: Let_def split: if_splits option.splits)
    then have "span bytes pos e = ?d @ [0x2e] @ span bytes (?a + 1) e"
      using a dot span_join [of pos ?a e bytes] span_join [of ?a "Suc ?a" e bytes] by (simp add: span_one)
    then show ?thesis using ih a by simp
  next
    case False
    with 2 a show ?thesis by (auto simp: Let_def split: if_splits option.splits)
  qed
qed auto

lemma parse_groups_span:
  assumes "parse_groups k bytes pos = Some e" "pos \<le> length bytes"
  shows "e = pos + (3 * k - 1) \<and> e \<le> length bytes \<and> ascii (span bytes pos e)"
  using assms
proof (induction k bytes pos rule: parse_groups.induct)
  case (2 k bytes pos)
  have hex: "pos + 2 \<le> length bytes" "hex_byte (bytes ! pos)" "hex_byte (bytes ! (pos + 1))"
    using 2 by (auto split: if_splits)
  then have two: "span bytes pos (pos + 2) = [bytes ! pos, bytes ! (pos + 1)]"
    using span_join [of pos "Suc pos" "Suc (Suc pos)" bytes] by (simp add: span_one)
  show ?case
  proof (cases "k > 0")
    case True
    with 2 hex have dot: "pos + 2 < length bytes" "bytes ! (pos + 2) = 0x3a" and "parse_groups k bytes (pos + 3) = Some e"
      by (auto split: if_splits)
    then have ih: "e = pos + 3 + (3 * k - 1) \<and> e \<le> length bytes \<and> ascii (span bytes (pos + 3) e)"
      using 2 True by (auto split: if_splits)
    then have "span bytes pos e = span bytes pos (pos + 2) @ [0x3a] @ span bytes (pos + 3) e"
      using dot span_join [of pos "pos + 2" e bytes] span_join [of "pos + 2" "pos + 3" e bytes]
        span_one [of "pos + 2" bytes] by (simp add: eval_nat_numeral)
    then show ?thesis using ih hex True two by (auto simp: hex_byte_ascii)
  next
    case False
    with 2 hex two show ?thesis by (auto simp: hex_byte_ascii split: if_splits)
  qed
qed auto

lemma find_serials_ok: "\<forall>m\<in>set (find_serials bytes i). match_ok bytes m"
proof (induction bytes i rule: find_serials.induct)
  case (1 bytes i)
  let ?d = "takeWhile digit_byte (drop (i + 3) bytes)"
  let ?m = "\<lparr>m_start = i, m_end = i + 3 + length ?d, m_finding = Serial (from_utf8_lossy (span bytes i (i + 3 + length ?d)))\<rparr>"
  have "match_ok bytes ?m" if "i + 3 \<le> length bytes" "span bytes i (i + 3) = as_bytes ''NGC''"
  proof -
    have "span bytes i (i + 3 + length ?d) = as_bytes ''NGC'' @ ?d"
      using that span_join [of i "i + 3" "i + 3 + length ?d" bytes] span_takeWhile(2) [of bytes "i + 3" digit_byte] by simp
    moreover have "ascii (as_bytes ''NGC'')" by (simp add: byte_of_char_def)
    ultimately have "from_utf8_lossy (span bytes i (i + 3 + length ?d)) = str_of_bytes (as_bytes ''NGC'' @ ?d)"
      using takeWhile_digits_ascii by (simp add: from_utf8_lossy_ascii)
    then show ?thesis using that takeWhile_end [of "i + 3" bytes digit_byte]
      by (simp add: match_ok_def finding_length_def)
  qed
  with 1 show ?case by (subst find_serials.simps) (auto simp: Let_def)
qed

lemma find_ips_ok: "\<forall>m\<in>set (find_ips bytes i). match_ok bytes m"
proof (induction bytes i rule: find_ips.induct)
  case (1 bytes i)
  let ?r = "if digit_byte (bytes ! i) \<and> boundary_before is_ip_body bytes i then parse_ipv4_end bytes i else None"
  show ?case
  proof (cases "i < length bytes")
    case True
    show ?thesis
    proof (cases ?r)
      case None
      with 1(1) True show ?thesis by (subst find_ips.simps) (auto split: if_splits)
    next
      case (Some e)
      then have "parse_octets 4 bytes i = Some e" by (auto simp: parse_ipv4_end_def split: if_splits)
      then have "i \<le> e \<and> e \<le> length bytes \<and> ascii (span bytes i e)"
        using True by (intro parse_octets_span) auto
      then have "match_ok bytes \<lparr>m_start = i, m_end = e, m_finding = Ip (from_utf8_lossy (span bytes i e))\<rparr>"
        by (simp add: match_ok_def finding_length_def from_utf8_lossy_ascii)
      with 1(2) [OF True Some] True Some show ?thesis by (subst find_ips.simps) (simp add: Let_def, blast)
    qed
  qed (simp add: find_ips.simps [of bytes i])
qed

lemma find_macs_ok: "\<forall>m\<in>set (find_macs bytes i). match_ok bytes m"
proof (induction bytes i rule: find_macs.induct)
  case (1 bytes i)
  show ?case
  proof (cases "i < length bytes")
    case True
    show ?thesis
    proof (cases "parse_mac_end bytes i")
      case None
      with 1(1) True show ?thesis by (subst find_macs.simps) simp
    next
      case (Some e)
      then have "e = i + (3 * 6 - 1) \<and> e \<le> length bytes \<and> ascii (span bytes i e)"
        using True unfolding parse_mac_end_def by (intro parse_groups_span) auto
      then have e: "e = i + 17" "e \<le> length bytes" "from_utf8_lossy (span bytes i e) = str_of_bytes (span bytes i e)"
        by (auto simp: from_utf8_lossy_ascii)
      then have "match_ok bytes \<lparr>m_start = i, m_end = e, m_finding = Mac (ascii_lower (from_utf8_lossy (span bytes i e)))\<rparr>"
        unfolding e(3) by (simp add: match_ok_def finding_length_def ascii_lower_def)
      with 1(2) [OF True Some] True Some show ?thesis by (subst find_macs.simps) (simp add: Let_def, blast)
    qed
  qed (simp add: find_macs.simps [of bytes i])
qed

lemma find_matches_ok: "m \<in> set (find_matches bytes) \<Longrightarrow> match_ok bytes m"
  using find_serials_ok find_ips_ok find_macs_ok by (auto simp: find_matches_def)

section \<open>Rewriting keeps the length\<close>

lemma fit_test_net_ip_length: "fit_test_net_ip len = Some s \<Longrightarrow> length s = len"
  by (auto simp: fit_test_net_ip_def find_Some_iff)

lemma replacement_length:
  "match_ok bytes m \<Longrightarrow> replacement_for (m_finding m) = Inr r \<Longrightarrow> length r = m_end m - m_start m"
  by (auto simp: match_ok_def finding_length_def replacement_for_def fit_test_net_ip_length split: Finding.splits)

lemma length_overwrite: "i + length bs \<le> length out \<Longrightarrow> length (overwrite out i bs) = length out"
  by (simp add: overwrite_def)

text \<open>Every slice of the writes is in range, so no pass panics or changes the length.\<close>

lemma rewrite_all_length:
  "\<forall>m\<in>set ms. match_ok out m \<Longrightarrow>
     case rewrite_all ms out of Inr out' \<Rightarrow> length out' = length out | Inl e \<Rightarrow> \<forall>f. e \<noteq> LengthMismatch f"
proof (induction ms arbitrary: out)
  case (Cons m ms)
  show ?case
  proof (cases "replacement_for (m_finding m)")
    case (Inl e)
    then show ?thesis by (auto simp: replacement_for_def split: Finding.splits)
  next
    case (Inr r)
    then have len: "length r = m_end m - m_start m" using Cons.prems by (intro replacement_length) auto
    moreover have "length (overwrite out (m_start m) (as_bytes r)) = length out"
      using len Cons.prems by (intro length_overwrite) (auto simp: match_ok_def)
    moreover from this have "\<forall>m'\<in>set ms. match_ok (overwrite out (m_start m) (as_bytes r)) m'"
      using Cons.prems by (auto simp: match_ok_def)
    ultimately show ?thesis using Inr Cons.IH [of "overwrite out (m_start m) (as_bytes r)"] Cons.prems
      by (auto simp: match_ok_def split: sum.splits)
  qed
qed simp

lemma redact_passes_clean:
  "case redact_passes n out of
     Inr out' \<Rightarrow> length out' = length out \<and> find_matches out' = []
   | Inl e \<Rightarrow> \<forall>f. e \<noteq> LengthMismatch f"
proof (induction n arbitrary: out)
  case (Suc n)
  show ?case
  proof (cases "find_matches out = []")
    case False
    have "case rewrite_all (find_matches out) out of Inr out' \<Rightarrow> length out' = length out | Inl e \<Rightarrow> \<forall>f. e \<noteq> LengthMismatch f"
      by (rule rewrite_all_length) (simp add: find_matches_ok)
    then show ?thesis using False Suc.IH [of "projr (rewrite_all (find_matches out) out)"]
      by (auto simp: Let_def split: sum.splits)
  qed simp
qed simp

lemma redact_bytes_clean:
  "redact_bytes bytes = Inr out \<Longrightarrow> length out = length bytes \<and> find_matches out = []"
  "redact_bytes bytes \<noteq> Inl (LengthMismatch f)"
  using redact_passes_clean [where n = 4 and out = bytes] by (auto simp: redact_bytes_def split: sum.splits)

lemma redact_bytes_fixed: "find_matches bytes = [] \<Longrightarrow> redact_bytes bytes = Inr bytes"
  by (simp add: redact_bytes_def eval_nat_numeral Let_def)

section \<open>Redacting a capture\<close>

text \<open>The groups depend only on the channels and on which \<open>N<\<close> events are empty.\<close>

definition shape :: "event list \<Rightarrow> (string \<times> nat) list" where
  "shape events = map (\<lambda>(channel, bytes). (channel, length bytes)) events"

lemma groups_shape: "shape xs = shape ys \<Longrightarrow> groups xs = groups ys"
proof -
  have "group_events index xs inc out = group_events index ys inc out" if "shape xs = shape ys" for index inc out
    using that
  proof (induction xs arbitrary: ys index inc out)
    case (Cons x xs)
    then obtain y ys' where "ys = y # ys'" "fst y = fst x" "length (snd y) = length (snd x)" "shape xs = shape ys'"
      by (cases ys) (auto simp: shape_def split: prod.splits)
    then show ?case using Cons.IH [of ys'] by (cases x; cases y) auto
  qed (simp add: shape_def)
  then show "shape xs = shape ys \<Longrightarrow> groups xs = groups ys" by (simp add: groups_def)
qed

lemma concat_flush_group [simp]: "concat (flush_group g) = g"
  by (simp add: flush_group_def)

lemma group_events_mset:
  "mset (concat (group_events index events inc out)) \<subseteq># mset inc + mset out + mset [index..<index + length events]"
proof (induction index events inc out rule: group_events.induct)
  case (2 index channel bytes events inc out)
  have upt: "mset [index..<index + length ((channel, bytes) # events)] =
      add_mset index (mset [Suc index..<Suc index + length events])"
    by (simp add: upt_conv_Cons del: upt_Suc)
  consider (cut) "channel = ''N<'' \<and> bytes = []" | (inc) "channel = ''N<'' \<and> bytes \<noteq> []"
    | (out) "channel = ''N>''" | (other) "channel \<noteq> ''N<'' \<and> channel \<noteq> ''N>''" by blast
  then show ?case
  proof cases
    case cut
    with 2(1) have "mset (concat (group_events (index + 1) events [] [])) \<subseteq># mset [Suc index..<Suc index + length events]"
      by simp
    then have "mset (concat (group_events (index + 1) events [] [])) \<subseteq># add_mset index (mset [Suc index..<Suc index + length events])"
      by (rule subset_mset.order_trans) simp
    then show ?thesis unfolding upt using cut by simp
  next
    case inc
    then show ?thesis unfolding upt using 2(2) by (simp add: ac_simps del: upt_Suc)
  next
    case out
    then show ?thesis unfolding upt using 2(3) by (simp add: ac_simps del: upt_Suc)
  next
    case other
    then show ?thesis unfolding upt using 2(4) by (simp add: ac_simps del: upt_Suc)
  qed
qed simp

lemma groups_indices: "distinct (concat (groups events))" "i \<in> set (concat (groups events)) \<Longrightarrow> i < length events"
proof -
  have sub: "mset (concat (groups events)) \<subseteq># mset [0..<length events]"
    using group_events_mset [of 0 events "[]" "[]"] by (simp add: groups_def)
  then have "mset (concat (groups events)) + (mset [0..<length events] - mset (concat (groups events))) = mset [0..<length events]"
    by simp
  then show "distinct (concat (groups events))"
    by (metis distinct_upt mset_append ex_mset mset_eq_imp_distinct_iff distinct_append)
  show "i \<in> set (concat (groups events)) \<Longrightarrow> i < length events"
    using set_mset_mono [OF sub] by auto
qed

lemma gather_Cons [simp]: "gather events [] = []" "gather events (i # is) = snd (events ! i) @ gather events is"
  by (simp_all add: gather_def)

lemma gather_cong: "(\<And>i. i \<in> set is \<Longrightarrow> xs ! i = ys ! i) \<Longrightarrow> gather xs is = gather ys is"
  by (simp add: gather_def cong: map_cong)

lemma scatter_frame: "i \<notin> set is \<Longrightarrow> scatter is redacted events ! i = events ! i"
  by (induction "is" redacted events rule: scatter.induct) (auto simp: Let_def)

lemma scatter_shape:
  "distinct is \<Longrightarrow> \<forall>i\<in>set is. i < length events \<Longrightarrow> length redacted = length (gather events is) \<Longrightarrow>
     shape (scatter is redacted events) = shape events \<and> gather (scatter is redacted events) is = redacted"
proof (induction "is" arbitrary: redacted events)
  case (Cons i "is")
  let ?len = "length (snd (events ! i))"
  let ?ev = "events[i := (fst (events ! i), take ?len redacted)]"
  have same: "gather ?ev is = gather events is" using Cons.prems by (intro gather_cong) (metis distinct.simps(2) nth_list_update_neq)
  have ih: "shape (scatter is (drop ?len redacted) ?ev) = shape ?ev"
    "gather (scatter is (drop ?len redacted) ?ev) is = drop ?len redacted"
    using Cons.IH [of ?ev "drop ?len redacted"] Cons.prems same by auto
  have "shape ?ev = shape events"
    using Cons.prems by (auto simp: shape_def map_update split: prod.splits intro!: nth_equalityI simp: nth_list_update)
  moreover have "scatter is (drop ?len redacted) ?ev ! i = ?ev ! i" using Cons.prems by (intro scatter_frame) auto
  ultimately show ?case using ih Cons.prems by (simp add: Let_def)
qed (simp add: shape_def)

lemma redact_groups_clean:
  "distinct (concat gs) \<Longrightarrow> \<forall>i\<in>set (concat gs). i < length events \<Longrightarrow> redact_groups gs events = Inr events' \<Longrightarrow>
     shape events' = shape events \<and> (\<forall>g\<in>set gs. find_matches (gather events' g) = []) \<and>
     (\<forall>i. i \<notin> set (concat gs) \<longrightarrow> events' ! i = events ! i)"
proof (induction gs arbitrary: events)
  case (Cons g gs)
  then obtain redacted where r: "redact_bytes (gather events g) = Inr redacted"
    "redact_groups gs (scatter g redacted events) = Inr events'"
    by (auto simp: and_then_iffs)
  have clean: "length redacted = length (gather events g)" "find_matches redacted = []"
    using redact_bytes_clean(1) [OF r(1)] by auto
  have sc: "shape (scatter g redacted events) = shape events" "gather (scatter g redacted events) g = redacted"
    using scatter_shape [of g events redacted] clean Cons.prems by auto
  then have "length (scatter g redacted events) = length events" by (metis length_map shape_def)
  then have ih: "shape events' = shape events" "\<forall>g\<in>set gs. find_matches (gather events' g) = []"
    "\<And>i. i \<notin> set (concat gs) \<Longrightarrow> events' ! i = scatter g redacted events ! i"
    using Cons.IH [OF _ _ r(2)] Cons.prems sc(1) by auto
  have "gather events' g = redacted"
    using ih(3) Cons.prems(1) sc(2) gather_cong [of g events' "scatter g redacted events"] by auto
  then show ?case using ih clean scatter_frame by auto
qed simp

lemma redact_groups_error: "redact_groups gs events \<noteq> Inl (LengthMismatch f)"
proof (induction gs arbitrary: events)
  case (Cons g gs)
  then show ?case using redact_bytes_clean(2) [of "gather events g" f] by (cases "redact_bytes (gather events g)") auto
qed simp

lemma scan_events_Nil: "scan_events events = [] \<longleftrightarrow> (\<forall>g\<in>set (groups events). find_matches (gather events g) = [])"
  by (auto simp: scan_events_def scan_def)

lemma scatter_same: "scatter is (gather events is) events = events"
  by (induction "is") (simp_all add: Let_def)

lemma redact_groups_fixed:
  "\<forall>g\<in>set gs. find_matches (gather events g) = [] \<Longrightarrow> redact_groups gs events = Inr events"
  by (induction gs) (simp_all add: redact_bytes_fixed scatter_same)

lemma redact_events_clean:
  assumes "redact_events events = Inr events'"
  shows "shape events' = shape events" and "scan_events events' = []" and "redact_events events' = Inr events'"
proof -
  have clean: "shape events' = shape events" "\<forall>g\<in>set (groups events). find_matches (gather events' g) = []"
    using assms redact_groups_clean [of "groups events" events events'] groups_indices by (auto simp: redact_events_def)
  then have "groups events' = groups events" by (intro groups_shape)
  then show "shape events' = shape events" "scan_events events' = []" "redact_events events' = Inr events'"
    using clean by (simp_all add: scan_events_Nil redact_groups_fixed redact_events_def)
qed

text \<open>
  C12. Redacting a capture either fails because of an address with no replacement of its length, or
  because four passes were not enough, and never with the internal length mismatch; when it
  succeeds, every event keeps its channel and its length, the scanner finds nothing left in the
  reassembled streams, whatever the splits between the chunks, and a second redaction changes nothing.
\<close>

theorem redacted_captures_are_clean:
  "case redact_events events of
     Inr events' \<Rightarrow> shape events' = shape events \<and> scan_events events' = [] \<and> redact_events events' = Inr events'
   | Inl e \<Rightarrow> e = NotFullyRedacted \<or> (\<exists>ip. e = NoSameLength ip)"
proof (cases "redact_events events")
  case (Inl e)
  then show ?thesis using redact_groups_error [of "groups events" events]
    by (cases e) (auto simp: redact_events_def)
next
  case (Inr events')
  then show ?thesis using redact_events_clean [OF Inr] by simp
qed

text \<open>An address at the end of a sentence is part of a longer run of digits and dots, and is not reported.\<close>

lemma address_before_full_stop_missed:
  "scan_str ''at 10.0.0.5'' = [Ip ''10.0.0.5'']" "scan_str ''at 10.0.0.5.'' = []"
  by code_simp+

end
