(* ===== verification/Capture.thy ===== *)
theory Capture
  imports Redact Request
begin

text \<open>
  The \<open>.wingcap\<close> captures of \<open>tools/wingcapture.rs\<close>: the line format, the parser with its promotion policy and the
  hardware matrix, the event-by-event comparison, and the text of recorded and merged
  captures. The outer \<open>None\<close> of a result is a panic (a slice inside a character while decoding
  hexadecimal digits); the messages of the source are the constructors of \<open>capture_error\<close>. Reading and
  writing the files is left to the callers.
\<close>

section \<open>Lines\<close>

definition SANITIZER_VERSION :: string where
  "SANITIZER_VERSION = ''wingcapture/3''"

definition REQUIRED_V2_HEADERS :: "string list" where
  "REQUIRED_V2_HEADERS = [''scenario'', ''source'', ''console_model'', ''firmware'', ''capture_date'', ''sanitizer'',
     ''manual_redaction_attested'', ''expected_behavior'']"

fun split_first :: "string list \<Rightarrow> string \<Rightarrow> (string \<times> string) option" where
  "split_first [] line = None"
| "split_first (p # ps) line =
     (case strip_prefix p line of Some rest \<Rightarrow> Some (p, rest) | None \<Rightarrow> split_first ps line)"

definition split_prefix :: "string \<Rightarrow> (string \<times> string) option" where
  "split_prefix line = split_first [''N>'', ''N<'', ''M<'', ''O<'', ''O>'', ''D<''] line"

definition split_capture_line :: "string \<Rightarrow> (string \<times> string) option" where
  "split_capture_line line =
     (if starts_with ''@'' line then
        (case splitn_ws 4 line of
           ordinal # offset # channel # remaining \<Rightarrow>
             Some (ordinal @ '' '' @ offset @ '' '' @ channel, trim (case remaining of [] \<Rightarrow> [] | h # _ \<Rightarrow> h))
         | _ \<Rightarrow> None)
      else split_prefix line)"

section \<open>Parsing\<close>

datatype capture_error =
    SensitiveMetadata string | DuplicateKey string | VersionAfterData | UnsupportedVersion
  | UnrecognizedLine string | UntimedLine string | BadOrdinal string | WrongOrdinal nat nat
  | BadOffset string | OffsetBackwards string | MissingChannel string | UnknownChannel string
  | BadHex hex_error | MeterTokenMissing | SensitiveStreams | NeedsVersion | BadVersion
  | MissingMetadata string | NotAttested | MissingEvents string | BadSource | NoSanitizer
  | NoMatrixContract | NotTrue string | NoDestructiveVerdict | NoMeterVerdict | NoDiscovery | NoNativeInput
  | TooFewMeterFrames | NoDisconnect | BadResponseFraming error | BadRequestStream error | MatrixMissing "string list"
  | VendorSource | RedactFailed RedactError | StillSensitive string | TooManyEvents nat | BadMergeChannel "string option"
  | ProxyFull

type_synonym 'a capture_result = "(capture_error + 'a) option"

record MatrixEvidence =
  me_discovery_request :: bool
  me_discovery_reply :: bool
  me_native_in :: "byte list"
  me_native_out :: "byte list"
  me_meter_frames :: nat
  me_meter_tokens :: "u32 list"
  me_disconnect :: bool

record CaptureSummary =
  cs_version :: nat
  cs_event_count :: nat
  cs_headers :: "(string \<times> string) list"

record CaptureState =
  cp_headers :: "(string \<times> string) list"
  cp_channels :: "string list"
  cp_expected_ordinal :: nat
  cp_previous_offset :: nat
  cp_event_count :: nat
  cp_matrix :: MatrixEvidence
  cp_redaction_events :: "event list"
  cp_declared_version :: "string option"
  cp_saw_data :: bool

definition no_evidence :: MatrixEvidence where
  "no_evidence = \<lparr>me_discovery_request = False, me_discovery_reply = False, me_native_in = [], me_native_out = [],
     me_meter_frames = 0, me_meter_tokens = [], me_disconnect = False\<rparr>"

definition initial_state :: CaptureState where
  "initial_state = \<lparr>cp_headers = [], cp_channels = [], cp_expected_ordinal = 1, cp_previous_offset = 0, cp_event_count = 0,
     cp_matrix = no_evidence, cp_redaction_events = [], cp_declared_version = None, cp_saw_data = False\<rparr>"

definition parse_header :: "bool \<Rightarrow> string \<Rightarrow> string \<Rightarrow> CaptureState \<Rightarrow> capture_error + CaptureState" where
  "parse_header promotion line rest st =
     (if promotion \<and> scan_str rest \<noteq> [] then Inl (SensitiveMetadata line)
      else case split_once CHR '':'' (trim rest) of
          None \<Rightarrow> Inr st
        | Some (k, v) \<Rightarrow>
            (let key = ascii_lower (trim k); value = trim v in
             if map_of (cp_headers st) key \<noteq> None then Inl (DuplicateKey key)
             else if key = ''wingcap_version'' \<and> cp_saw_data st then Inl VersionAfterData
             else if key = ''wingcap_version'' \<and> value \<noteq> ''2'' then Inl UnsupportedVersion
             else Inr (st\<lparr>cp_headers := cp_headers st @ [(key, value)],
                 cp_declared_version := if key = ''wingcap_version'' then Some value else cp_declared_version st\<rparr>)))"

lemma parse_header_code [code]:
  "parse_header promotion line rest st =
     (if (if promotion then scan_str rest \<noteq> [] else False) then Inl (SensitiveMetadata line)
      else case split_once CHR '':'' (trim rest) of
          None \<Rightarrow> Inr st
        | Some (k, v) \<Rightarrow>
            (let key = ascii_lower (trim k); value = trim v in
             if map_of (cp_headers st) key \<noteq> None then Inl (DuplicateKey key)
             else if key = ''wingcap_version'' \<and> cp_saw_data st then Inl VersionAfterData
             else if key = ''wingcap_version'' \<and> value \<noteq> ''2'' then Inl UnsupportedVersion
             else Inr (st\<lparr>cp_headers := cp_headers st @ [(key, value)],
                 cp_declared_version := if key = ''wingcap_version'' then Some value else cp_declared_version st\<rparr>)))"
  by (simp add: parse_header_def)

definition note_event :: "string \<Rightarrow> byte list \<Rightarrow> MatrixEvidence \<Rightarrow> MatrixEvidence" where
  "note_event channel bytes m =
     (if channel = ''D>'' then
        m\<lparr>me_discovery_request := me_discovery_request m \<or> take 5 bytes = as_bytes ''WING?''\<rparr>
      else if channel = ''D<'' then
        m\<lparr>me_discovery_reply := me_discovery_reply m \<or> take 5 bytes = as_bytes ''WING,''\<rparr>
      else if channel = ''N>'' \<or> channel = ''M>'' then m\<lparr>me_native_out := me_native_out m @ bytes\<rparr>
      else if channel = ''N<'' then
        m\<lparr>me_native_in := me_native_in m @ bytes, me_disconnect := me_disconnect m \<or> bytes = []\<rparr>
      else if channel = ''M<'' then
        m\<lparr>me_meter_frames := me_meter_frames m + 1,
          me_meter_tokens := List.insert (u32_from_be (take 4 bytes)) (me_meter_tokens m)\<rparr>
      else m)"

definition V2_CHANNELS :: "string list" where
  "V2_CHANNELS = [''D>'', ''D<'', ''N>'', ''N<'', ''M>'', ''M<'', ''O>'', ''O<'']"

text \<open>The ordinal, the offset and the channel of a timed line, in this order of checks.\<close>

definition event_ordinal :: "string list \<Rightarrow> nat option" where
  "event_ordinal tokens =
     (case tokens of f # _ \<Rightarrow> Option.bind (strip_prefix ''@'' f) parse_u64 | [] \<Rightarrow> None)"

definition event_offset :: "string list \<Rightarrow> nat option" where
  "event_offset tokens =
     (case drop 1 tokens of
        f # _ \<Rightarrow> Option.bind (strip_prefix ''+'' f) (\<lambda>v. Option.bind (strip_suffix ''us'' v) parse_u64)
      | [] \<Rightarrow> None)"

definition event_channel :: "string list \<Rightarrow> string option" where
  "event_channel tokens = (case drop 2 tokens of f # _ \<Rightarrow> Some f | [] \<Rightarrow> None)"

definition accept_event :: "bool \<Rightarrow> nat \<Rightarrow> string \<Rightarrow> byte list \<Rightarrow> CaptureState \<Rightarrow> CaptureState" where
  "accept_event promotion offset channel bytes st =
     st\<lparr>cp_expected_ordinal := cp_expected_ordinal st + 1, cp_previous_offset := offset,
       cp_redaction_events := if promotion then cp_redaction_events st @ [(channel, bytes)] else cp_redaction_events st,
       cp_channels := List.insert channel (cp_channels st),
       cp_matrix := note_event channel bytes (cp_matrix st),
       cp_event_count := cp_event_count st + 1\<rparr>"

definition parse_data :: "bool \<Rightarrow> string \<Rightarrow> CaptureState \<Rightarrow> CaptureState capture_result" where
  "parse_data promotion line st =
     (let st = st\<lparr>cp_saw_data := True\<rparr> in
      case split_capture_line line of
        None \<Rightarrow> Some (Inl (UnrecognizedLine line))
      | Some (head, hex) \<Rightarrow>
          if \<not> starts_with ''@'' head then Some (Inl (UntimedLine line))
          else
            let tokens = split_whitespace head in
            (case event_ordinal tokens of
               None \<Rightarrow> Some (Inl (BadOrdinal line))
             | Some ordinal \<Rightarrow>
                 if ordinal \<noteq> cp_expected_ordinal st then Some (Inl (WrongOrdinal ordinal (cp_expected_ordinal st)))
                 else (case event_offset tokens of
                     None \<Rightarrow> Some (Inl (BadOffset line))
                   | Some offset \<Rightarrow>
                       if offset < cp_previous_offset st then Some (Inl (OffsetBackwards line))
                       else (case event_channel tokens of
                           None \<Rightarrow> Some (Inl (MissingChannel line))
                         | Some channel \<Rightarrow>
                             if channel \<notin> set V2_CHANNELS then Some (Inl (UnknownChannel channel))
                             else (case decode_hex hex of
                                 None \<Rightarrow> None
                               | Some (Inl e) \<Rightarrow> Some (Inl (BadHex e))
                               | Some (Inr bytes) \<Rightarrow>
                                   if channel = ''M<'' \<and> length bytes < 4 then Some (Inl MeterTokenMissing)
                                   else Some (Inr (accept_event promotion offset channel bytes st)))))))"

fun parse_lines :: "bool \<Rightarrow> string list \<Rightarrow> CaptureState \<Rightarrow> CaptureState capture_result" where
  "parse_lines promotion [] st = Some (Inr st)"
| "parse_lines promotion (raw # raws) st =
     (let line = trim_end raw in
      if line = [] then parse_lines promotion raws st
      else
        let step = (case strip_prefix ''#'' line of
            Some rest \<Rightarrow> Some (parse_header promotion line rest st)
          | None \<Rightarrow> parse_data promotion line st) in
        case step of
          None \<Rightarrow> None
        | Some (Inl e) \<Rightarrow> Some (Inl e)
        | Some (Inr st) \<Rightarrow> parse_lines promotion raws st)"

section \<open>Promotion\<close>

definition HARDWARE_MATRIX :: string where
  "HARDWARE_MATRIX = ''wing-rack-3.1-v1''"

definition require_true :: "(string \<times> string) list \<Rightarrow> string \<Rightarrow> capture_error + unit" where
  "require_true headers key = (if map_of headers key = Some ''true'' then Inr () else Inl (NotTrue key))"

text \<open>What the requests of the capture show.\<close>

record Seen =
  sn_get :: bool
  sn_definition :: bool
  sn_set :: bool
  sn_subscribe :: "u32 list"
  sn_renew :: "u32 list"
  sn_keepalive :: bool

fun note_request :: "NativeRequest \<Rightarrow> Seen \<Rightarrow> Seen" where
  "note_request (Get _) s = s\<lparr>sn_get := True\<rparr>"
| "note_request (BulkData _) s = s\<lparr>sn_get := True\<rparr>"
| "note_request (Definition _) s = s\<lparr>sn_definition := True\<rparr>"
| "note_request (BulkDefinition _) s = s\<lparr>sn_definition := True\<rparr>"
| "note_request (Set _ _) s = s\<lparr>sn_set := True\<rparr>"
| "note_request (Toggle _) s = s\<lparr>sn_set := True\<rparr>"
| "note_request (Step _ _) s = s\<lparr>sn_set := True\<rparr>"
| "note_request (MeterSubscribe _ report_id _) s = s\<lparr>sn_subscribe := List.insert report_id (sn_subscribe s)\<rparr>"
| "note_request (MeterRenew report_id) s = s\<lparr>sn_renew := List.insert report_id (sn_renew s)\<rparr>"
| "note_request (KeepAlive channel) s = (if channel = 1 then s\<lparr>sn_keepalive := True\<rparr> else s)"
| "note_request _ s = s"

definition seen_requests :: "NativeRequest list \<Rightarrow> Seen" where
  "seen_requests requests = fold note_request requests
     \<lparr>sn_get = False, sn_definition = False, sn_set = False, sn_subscribe = [], sn_renew = [], sn_keepalive = False\<rparr>"

definition missing_labels :: "Seen \<Rightarrow> u32 list \<Rightarrow> string list" where
  "missing_labels s meter_tokens =
     map snd (filter fst
       [(\<not> sn_get s, ''get/data''), (\<not> sn_definition s, ''definition''), (\<not> sn_set s, ''state-changing write''),
        (length (sn_subscribe s) < 2, ''two distinct meter subscriptions''),
        (length (sn_renew s) < 2, ''renewals for two distinct meter reports''),
        (\<not> list_all (\<lambda>i. i \<in> set (sn_renew s)) (sn_subscribe s), ''a renewal for every subscribed meter report''),
        (\<not> list_all (\<lambda>i. and i 0xffff0000 \<in> set meter_tokens) (sn_subscribe s), ''a raw frame for every subscribed meter report''),
        (\<not> sn_keepalive s, ''Native keepalive/handshake'')])"

definition validate_streams :: "MatrixEvidence \<Rightarrow> capture_error + unit" where
  "validate_streams evidence =
     (case push decoder_default (me_native_in evidence) of
        (Inl e, _) \<Rightarrow> Inl (BadResponseFraming e)
      | (Inr _, framing) \<Rightarrow>
          (case finish framing of
             Inl e \<Rightarrow> Inl (BadResponseFraming e)
           | Inr _ \<Rightarrow>
               (case push_requests default_decoder (me_native_out evidence) of
                  (Inl e, _) \<Rightarrow> Inl (BadRequestStream e)
                | (Inr requests, decoder) \<Rightarrow>
                    (case finish_decoder decoder of
                       Inl e \<Rightarrow> Inl (BadRequestStream e)
                     | Inr _ \<Rightarrow>
                         (let missing = missing_labels (seen_requests requests) (me_meter_tokens evidence) in
                          if missing = [] then Inr () else Inl (MatrixMissing missing))))))"

definition validate_hardware_matrix :: "(string \<times> string) list \<Rightarrow> MatrixEvidence \<Rightarrow> capture_error + unit" where
  "validate_hardware_matrix headers evidence =
     (if map_of headers ''matrix_contract'' \<noteq> Some HARDWARE_MATRIX then Inl NoMatrixContract
      else
        and_then (require_true headers ''state_changing_write_approved'') (\<lambda>_.
        if map_of headers ''destructive_write_approved'' \<notin> {Some ''true'', Some ''false''} then Inl NoDestructiveVerdict
        else
          and_then (require_true headers ''restore_verified'') (\<lambda>_.
          and_then (require_true headers ''concurrent_definition_write_observed'') (\<lambda>_.
          and_then (require_true headers ''disconnect_observed'') (\<lambda>_.
          if map_of headers ''meter_cardinality_verdict'' \<notin> {Some ''replaces'', Some ''concurrent'', Some ''ambiguous''}
          then Inl NoMeterVerdict
          else if \<not> me_discovery_request evidence \<or> \<not> me_discovery_reply evidence then Inl NoDiscovery
          else if me_native_in evidence = [] then Inl NoNativeInput
          else if me_meter_frames evidence < 2 then Inl TooFewMeterFrames
          else if \<not> me_disconnect evidence then Inl NoDisconnect
          else validate_streams evidence)))))"

definition filled_in :: "string \<Rightarrow> bool" where
  "filled_in value \<longleftrightarrow> value \<noteq> [] \<and> \<not> contains ''FILL-ME-IN'' value"

fun check_required :: "bool \<Rightarrow> string list \<Rightarrow> (string \<times> string) list \<Rightarrow> capture_error + unit" where
  "check_required promotion [] headers = Inr ()"
| "check_required promotion (key # keys) headers =
     (case map_of headers key of
        None \<Rightarrow> Inl (MissingMetadata key)
      | Some value \<Rightarrow>
          if \<not> filled_in value then Inl (MissingMetadata key)
          else if promotion \<and> key = ''manual_redaction_attested'' \<and> value \<noteq> ''true'' then Inl NotAttested
          else check_required promotion keys headers)"

fun check_channels :: "string list \<Rightarrow> string list \<Rightarrow> capture_error + unit" where
  "check_channels [] channels = Inr ()"
| "check_channels (c # cs) channels = (if c \<notin> set channels then Inl (MissingEvents c) else check_channels cs channels)"

definition check_source :: "CaptureState \<Rightarrow> capture_error + unit" where
  "check_source st =
     (let headers = cp_headers st in
      if map_of headers ''source'' \<notin> {Some ''synthetic'', Some ''hardware''} then Inl BadSource
      else if map_of headers ''source'' = Some ''hardware'' then
        if (case map_of headers ''sanitizer'' of None \<Rightarrow> True | Some v \<Rightarrow> v = ''n/a'' \<or> v = []) then Inl NoSanitizer
        else validate_hardware_matrix headers (cp_matrix st)
      else Inr ())"

definition finish_capture :: "bool \<Rightarrow> CaptureState \<Rightarrow> capture_error + CaptureSummary" where
  "finish_capture promotion st =
     (if promotion \<and> scan_events (cp_redaction_events st) \<noteq> [] then Inl SensitiveStreams
      else case cp_declared_version st of
          None \<Rightarrow> Inl NeedsVersion
        | Some value \<Rightarrow>
            (case parse_unsigned 255 value of
               None \<Rightarrow> Inl BadVersion
             | Some version \<Rightarrow>
                 if version \<noteq> 2 then Inl NeedsVersion
                 else
                   and_then (check_required promotion REQUIRED_V2_HEADERS (cp_headers st)) (\<lambda>_.
                   and_then (if promotion then check_channels [''D>'', ''D<'', ''N>'', ''N<'', ''M>'', ''M<''] (cp_channels st) else Inr ()) (\<lambda>_.
                   and_then (if promotion then check_source st else Inr ()) (\<lambda>_.
                   Inr \<lparr>cs_version = version, cs_event_count = cp_event_count st, cs_headers = cp_headers st\<rparr>)))))"

definition parse_capture_with_policy :: "string \<Rightarrow> bool \<Rightarrow> CaptureSummary capture_result" where
  "parse_capture_with_policy text promotion =
     map_option (\<lambda>r. and_then r (finish_capture promotion)) (parse_lines promotion (lines text) initial_state)"

definition parse_capture :: "string \<Rightarrow> CaptureSummary capture_result" where
  "parse_capture text = parse_capture_with_policy text True"

definition parse_capture_structure :: "string \<Rightarrow> CaptureSummary capture_result" where
  "parse_capture_structure text = parse_capture_with_policy text False"

definition preflight_text :: "string \<Rightarrow> CaptureSummary capture_result" where
  "preflight_text text =
     (if contains ''wingemul'' (ascii_lower text) \<or> contains ''wapi'' (ascii_lower text) then Some (Inl VendorSource)
      else parse_capture text)"

section \<open>Events, comparison and merging\<close>

fun collect_events :: "string list \<Rightarrow> event list capture_result" where
  "collect_events [] = Some (Inr [])"
| "collect_events (line # ls) =
     (case split_capture_line line of
        None \<Rightarrow> Some (Inl (UnrecognizedLine line))
      | Some (head, hex) \<Rightarrow>
          (case event_channel (split_whitespace head) of
             None \<Rightarrow> Some (Inl (MissingChannel line))
           | Some channel \<Rightarrow>
               (case decode_hex hex of
                  None \<Rightarrow> None
                | Some (Inl e) \<Rightarrow> Some (Inl (BadHex e))
                | Some (Inr bytes) \<Rightarrow> map_option (\<lambda>r. and_then r (\<lambda>events. Inr ((channel, bytes) # events))) (collect_events ls))))"

definition contract_events :: "string \<Rightarrow> event list capture_result" where
  "contract_events text =
     (case parse_capture_structure text of
        None \<Rightarrow> None
      | Some (Inl e) \<Rightarrow> Some (Inl e)
      | Some (Inr _) \<Rightarrow> collect_events (filter (starts_with ''@'') (lines text)))"

definition MAX_COMPARISON_EVENTS :: nat where "MAX_COMPARISON_EVENTS = 100000"
definition MAX_REPORTED_DEVIATIONS :: nat where "MAX_REPORTED_DEVIATIONS = 1024"

definition nth_event :: "event list \<Rightarrow> nat \<Rightarrow> event option" where
  "nth_event events i = (if i < length events then Some (events ! i) else None)"

definition describe_event :: "event option \<Rightarrow> string" where
  "describe_event e = (case e of None \<Rightarrow> ''<missing>'' | Some (channel, bytes) \<Rightarrow> channel @ '':'' @ encode_hex bytes)"

definition deviation_line :: "event list \<Rightarrow> event list \<Rightarrow> nat \<Rightarrow> string" where
  "deviation_line hardware emulator index =
     ''event '' @ show_nat (index + 1) @ '' hardware='' @ describe_event (nth_event hardware index) @
     '' emulator='' @ describe_event (nth_event emulator index)"

text \<open>The number of deviations and the lines of the report, the first \<open>MAX_REPORTED_DEVIATIONS\<close> of them.\<close>

fun compare_loop :: "event list \<Rightarrow> event list \<Rightarrow> nat list \<Rightarrow> nat \<Rightarrow> string list \<Rightarrow> nat \<times> string list" where
  "compare_loop hardware emulator [] cnt deviations = (cnt, deviations)"
| "compare_loop hardware emulator (index # is) cnt deviations =
     (if nth_event hardware index \<noteq> None \<and> nth_event hardware index = nth_event emulator index
      then compare_loop hardware emulator is cnt deviations
      else compare_loop hardware emulator is (cnt + 1)
        (if length deviations < MAX_REPORTED_DEVIATIONS then deviations @ [deviation_line hardware emulator index] else deviations))"

definition compare_v2 :: "event list \<Rightarrow> event list \<Rightarrow> capture_error + nat \<times> string list" where
  "compare_v2 hardware emulator =
     (let cnt = max (length hardware) (length emulator) in
      if cnt > MAX_COMPARISON_EVENTS then Inl (TooManyEvents cnt)
      else Inr (compare_loop hardware emulator [0..<cnt] 0 []))"

type_synonym captured_event = "nat \<times> string \<times> byte list"

definition event_line :: "nat \<Rightarrow> captured_event \<Rightarrow> string" where
  "event_line index e =
     (case e of (offset, channel, bytes) \<Rightarrow>
        ''@'' @ show_nat (index + 1) @ '' +'' @ show_nat offset @ ''us '' @ channel @ '' '' @ encode_hex bytes)"

definition v2_headers :: "string \<Rightarrow> string \<Rightarrow> string list" where
  "v2_headers scenario expected_behavior =
     [''# wingcap_version: 2'', ''# scenario: '' @ scenario, ''# source: hardware'', ''# console_model: pending-manual-entry'',
      ''# firmware: pending-manual-entry'', ''# capture_date: pending-manual-entry'', ''# sanitizer: pending'',
      ''# manual_redaction_attested: false'', ''# expected_behavior: '' @ expected_behavior,
      ''# state_changing_write_approved: true'', ''# destructive_write_approved: false'']"

fun event_lines :: "nat \<Rightarrow> captured_event list \<Rightarrow> string list" where
  "event_lines index [] = []"
| "event_lines index (e # events) = event_line index e # event_lines (index + 1) events"

definition events_to_v2 :: "string \<Rightarrow> string \<Rightarrow> captured_event list \<Rightarrow> string" where
  "events_to_v2 scenario expected_behavior events =
     concat (map with_nl (v2_headers scenario expected_behavior)) @ concat (map with_nl (event_lines 0 events))"

definition saturating_u64 :: "nat \<Rightarrow> nat \<Rightarrow> nat" where
  "saturating_u64 a b = min (a + b) (2 ^ 64 - 1)"

lemma saturating_u64_code [code]:
  "saturating_u64 a b = (if int a + int b \<le> 18446744073709551615 then a + b else nat 18446744073709551615)"
  by (auto simp: saturating_u64_def min_def)

definition MERGE_CHANNELS :: "string list" where
  "MERGE_CHANNELS = [''D>'', ''D<'', ''N>'', ''N<'', ''M>'', ''M<'']"

fun merge_lines :: "string list \<Rightarrow> nat \<Rightarrow> captured_event list capture_result" where
  "merge_lines [] base = Some (Inr [])"
| "merge_lines (line # ls) base =
     (case split_capture_line line of
        None \<Rightarrow> Some (Inl (UnrecognizedLine line))
      | Some (head, hex) \<Rightarrow>
          (let tokens = split_whitespace head in
           case event_offset tokens of
             None \<Rightarrow> Some (Inl (BadOffset line))
           | Some offset \<Rightarrow>
               (case event_channel tokens of
                  None \<Rightarrow> Some (Inl (BadMergeChannel None))
                | Some channel \<Rightarrow>
                    if channel \<notin> set MERGE_CHANNELS then Some (Inl (BadMergeChannel (Some channel)))
                    else (case decode_hex hex of
                        None \<Rightarrow> None
                      | Some (Inl e) \<Rightarrow> Some (Inl (BadHex e))
                      | Some (Inr bytes) \<Rightarrow>
                          map_option (\<lambda>r. and_then r (\<lambda>events. Inr ((saturating_u64 base offset, channel, bytes) # events)))
                            (merge_lines ls base)))))"

definition merge_partial_events :: "string \<Rightarrow> nat \<Rightarrow> captured_event list capture_result" where
  "merge_partial_events text base =
     (case parse_capture_structure text of
        None \<Rightarrow> None
      | Some (Inl e) \<Rightarrow> Some (Inl e)
      | Some (Inr _) \<Rightarrow> merge_lines (filter (starts_with ''@'') (lines text)) base)"

text \<open>The loop of \<open>merge_v2\<close> over the texts of the partial captures.\<close>

fun merge_parts :: "string list \<Rightarrow> nat \<Rightarrow> captured_event list \<Rightarrow> captured_event list capture_result" where
  "merge_parts [] base events = Some (Inr events)"
| "merge_parts (text # texts) base events =
     (case merge_partial_events text base of
        None \<Rightarrow> None
      | Some (Inl e) \<Rightarrow> Some (Inl e)
      | Some (Inr part) \<Rightarrow>
          merge_parts texts (if part = [] then base else saturating_u64 (fst (last part)) 1) (events @ part))"

text \<open>\<open>insert_str\<close> at the first \<open>@\<close>, or at the end.\<close>

definition insert_at_data :: "string \<Rightarrow> string \<Rightarrow> string" where
  "insert_at_data extra s = takeWhile (\<lambda>c. c \<noteq> CHR ''@'') s @ extra @ dropWhile (\<lambda>c. c \<noteq> CHR ''@'') s"

function replace_all :: "string \<Rightarrow> string \<Rightarrow> string \<Rightarrow> string" where
  "replace_all a b s =
     (case s of
        [] \<Rightarrow> []
      | c # s' \<Rightarrow>
          (case strip_prefix a s of
             Some rest \<Rightarrow> if a = [] then c # replace_all a b s' else b @ replace_all a b rest
           | None \<Rightarrow> c # replace_all a b s'))"
  by pat_completeness auto

termination replace_all
  by (relation "measure (\<lambda>(a, b, s). length s)") (auto simp: strip_prefix_Some)

declare replace_all.simps [simp del]

definition build_merged_matrix :: "captured_event list \<Rightarrow> bool \<Rightarrow> string" where
  "build_merged_matrix events destructive =
     (let disconnect = list_ex (\<lambda>(_, channel, bytes). channel = ''N<'' \<and> bytes = []) events;
          capture = events_to_v2 ''hardware_matrix_raw'' ''merged direct discovery, Native proxy, and raw meter evidence'' events;
          capture = insert_at_data (with_nl ''# matrix_contract: wing-rack-3.1-v1'' @ with_nl ''# restore_verified: true'' @
            with_nl ''# concurrent_definition_write_observed: true'' @ with_nl ''# meter_cardinality_verdict: ambiguous'') capture;
          capture = insert_at_data (with_nl (''# disconnect_observed: '' @ (if disconnect then ''true'' else ''false''))) capture in
      if destructive then replace_all ''# destructive_write_approved: false'' ''# destructive_write_approved: true'' capture
      else capture)"

section \<open>Recording\<close>

definition PROXY_MAX_EVENTS :: nat where "PROXY_MAX_EVENTS = 100000"
definition PROXY_MAX_BYTES :: nat where "PROXY_MAX_BYTES = 16 * 1024 * 1024"

record ProxyRecorder =
  px_events :: "captured_event list"
  px_bytes :: nat

definition new_recorder :: ProxyRecorder where
  "new_recorder = \<lparr>px_events = [], px_bytes = 0\<rparr>"

text \<open>\<open>elapsed\<close> is the time since the start in microseconds.\<close>

definition record_event :: "nat \<Rightarrow> string \<Rightarrow> byte list \<Rightarrow> ProxyRecorder \<Rightarrow> (capture_error + unit) \<times> ProxyRecorder" where
  "record_event elapsed channel bytes px =
     (if length (px_events px) \<ge> PROXY_MAX_EVENTS \<or> saturating_add (px_bytes px) (length bytes) > PROXY_MAX_BYTES
      then (Inl ProxyFull, px)
      else (Inr (), px\<lparr>px_bytes := px_bytes px + length bytes,
               px_events := px_events px @ [(min elapsed (2 ^ 64 - 1), channel, bytes)]\<rparr>))"

definition into_v2 :: "ProxyRecorder \<Rightarrow> string" where
  "into_v2 px = events_to_v2 ''native_proxy_raw'' ''bounded transparent Native proxy transcript'' (px_events px)"

section \<open>Rendered events read back\<close>

definition recordable :: "captured_event \<Rightarrow> bool" where
  "recordable e \<longleftrightarrow> (case e of (offset, channel, bytes) \<Rightarrow>
     int offset \<le> 18446744073709551615 \<and> channel \<in> set V2_CHANNELS \<and> (channel = ''M<'' \<longrightarrow> 4 \<le> length bytes))"

lemma channel_ok:
  assumes "channel \<in> set V2_CHANNELS"
  shows "solid channel" and "channel \<noteq> []" and "CHR 0x0a \<notin> set channel" and "CHR ''#'' \<notin> set channel"
proof -
  have "list_all (\<lambda>c. list_all (\<lambda>x. ascii_char x \<and> \<not> ascii_ws x \<and> x \<noteq> CHR 0x0a \<and> x \<noteq> CHR ''#'') c \<and> c \<noteq> []) V2_CHANNELS"
    by code_simp
  then show "solid channel" "channel \<noteq> []" "CHR 0x0a \<notin> set channel" "CHR ''#'' \<notin> set channel"
    using assms by (auto simp: list_all_iff solid_def)
qed

lemma mark_solid: "solid ''@''" "solid ''+''" "solid ''us''"
  by (simp_all add: ascii_char_def ascii_ws_def byte_of_char_def)

definition event_head :: "nat \<Rightarrow> nat \<Rightarrow> string \<Rightarrow> string" where
  "event_head index offset channel = (''@'' @ show_nat (index + 1)) @ '' '' @ (''+'' @ show_nat offset @ ''us'') @ '' '' @ channel"

lemma event_line_head: "event_line index (offset, channel, bytes) = event_head index offset channel @ '' '' @ encode_hex bytes"
  by (simp add: event_line_def event_head_def)

lemma parse_u64_show: "int n \<le> 18446744073709551615 \<Longrightarrow> parse_u64 (show_nat n) = Some n"
  unfolding parse_u64_def by (rule parse_unsigned_show_nat) simp

lemma event_head_fields:
  fixes index offset :: nat and bytes :: "byte list"
  assumes "channel \<in> set V2_CHANNELS"
  defines "a \<equiv> ''@'' @ show_nat (index + 1)" and "b \<equiv> ''+'' @ show_nat offset @ ''us''"
  shows "split_whitespace (event_head index offset channel) = [a, b, channel]"
    and "split_capture_line (event_head index offset channel @ '' '' @ encode_hex bytes) = Some (event_head index offset channel, encode_hex bytes)"
    and "split_capture_line (event_head index offset channel) = Some (event_head index offset channel, [])"
    and "trim_end (event_head index offset channel @ '' '') = event_head index offset channel"
proof -
  have ws: "split_once_ws a = None" "split_once_ws b = None" "split_once_ws channel = None"
    unfolding a_def b_def using mark_solid show_nat_solid channel_ok(1) [OF assms(1)] by (simp_all del: append.simps)
  have h: "event_head index offset channel = a @ '' '' @ b @ '' '' @ channel" by (simp add: event_head_def a_def b_def)
  have at: "starts_with ''@'' (a @ x)" for x by (simp add: a_def starts_with_def)
  show "split_whitespace (event_head index offset channel) = [a, b, channel]"
    unfolding h split_whitespace_three [OF ws] using channel_ok(2) [OF assms(1)] by (simp add: a_def b_def)
  show "split_capture_line (event_head index offset channel @ '' '' @ encode_hex bytes) = Some (event_head index offset channel, encode_hex bytes)"
    using splitn_three(1) [OF ws, of "encode_hex bytes"] at [of "'' '' @ b @ '' '' @ channel @ '' '' @ encode_hex bytes"]
    by (simp add: split_capture_line_def h solid_trim)
  show "split_capture_line (event_head index offset channel) = Some (event_head index offset channel, [])"
    using splitn_three(2) [OF ws] at [of "'' '' @ b @ '' '' @ channel"] by (simp add: split_capture_line_def h solid_trim)
  show "trim_end (event_head index offset channel @ '' '') = event_head index offset channel"
    unfolding h using trim_end_space [OF ws(3) channel_ok(2) [OF assms(1)], of "a @ '' '' @ b"] by simp
qed

lemma event_fields:
  assumes "int offset \<le> 18446744073709551615" and "int index < 18446744073709551615"
  shows "event_ordinal [''@'' @ show_nat (index + 1), ''+'' @ show_nat offset @ ''us'', channel] = Some (index + 1)"
    and "event_offset [''@'' @ show_nat (index + 1), ''+'' @ show_nat offset @ ''us'', channel] = Some offset"
    and "event_channel [''@'' @ show_nat (index + 1), ''+'' @ show_nat offset @ ''us'', channel] = Some channel"
proof -
  have "strip_prefix p (p @ x) = Some x" "strip_suffix p (x @ p) = Some x" for p x
    by (simp_all add: strip_prefix_Some strip_suffix_Some)
  then show "event_ordinal [''@'' @ show_nat (index + 1), ''+'' @ show_nat offset @ ''us'', channel] = Some (index + 1)"
    "event_offset [''@'' @ show_nat (index + 1), ''+'' @ show_nat offset @ ''us'', channel] = Some offset"
    using parse_u64_show [of "index + 1"] parse_u64_show [of offset] assms
    by (simp_all add: event_ordinal_def event_offset_def del: append.simps)
  show "event_channel [''@'' @ show_nat (index + 1), ''+'' @ show_nat offset @ ''us'', channel] = Some channel"
    by (simp add: event_channel_def)
qed

lemma event_line_trimmed:
  assumes "channel \<in> set V2_CHANNELS"
  shows "split_capture_line (trim_end (event_line index (offset, channel, bytes))) = Some (event_head index offset channel, encode_hex bytes)"
    and "trim_end (event_line index (offset, channel, bytes)) \<noteq> []"
    and "strip_prefix ''#'' (trim_end (event_line index (offset, channel, bytes))) = None"
    and "chomp (event_line index (offset, channel, bytes)) = event_line index (offset, channel, bytes)"
    and "starts_with ''@'' (event_line index (offset, channel, bytes))" and "starts_with ''@'' (event_head index offset channel)"
proof -
  note h = event_head_fields [OF assms, of index offset]
  have full: "trim_end (event_line index (offset, channel, bytes)) = event_line index (offset, channel, bytes)" if "bytes \<noteq> []"
  proof -
    have "encode_hex bytes \<noteq> []" using that by (cases bytes) (auto simp: encode_hex_Cons)
    then obtain x c where x: "encode_hex bytes = x @ [c]" by (cases "encode_hex bytes" rule: rev_cases) auto
    then have "ascii_char c" "\<not> ascii_ws c" using encode_hex_solid [of bytes] by auto
    then show ?thesis using trim_end_last [of c "event_head index offset channel @ '' '' @ x"] x by (simp add: event_line_head)
  qed
  have t: "trim_end (event_line index (offset, channel, bytes)) = (if bytes = [] then event_head index offset channel
      else event_head index offset channel @ '' '' @ encode_hex bytes)"
    using full h(4) by (simp add: event_line_head)
  show "split_capture_line (trim_end (event_line index (offset, channel, bytes))) = Some (event_head index offset channel, encode_hex bytes)"
    unfolding t using h(2,3) by simp
  show "trim_end (event_line index (offset, channel, bytes)) \<noteq> []" unfolding t by (simp add: event_head_def)
  show "strip_prefix ''#'' (trim_end (event_line index (offset, channel, bytes))) = None"
    unfolding t by (simp add: event_head_def strip_prefix_def starts_with_def)
  show "chomp (event_line index (offset, channel, bytes)) = event_line index (offset, channel, bytes)"
  proof (cases "bytes = []")
    case True
    then show ?thesis by (simp add: event_line_head chomp_def)
  next
    case False
    then show ?thesis by (intro chomp_trimmed full)
  qed
  show "starts_with ''@'' (event_line index (offset, channel, bytes))" "starts_with ''@'' (event_head index offset channel)"
    by (simp_all add: event_line_head event_head_def starts_with_def)
qed

lemma event_line_chars:
  assumes "channel \<in> set V2_CHANNELS"
  shows "CHR 0x0a \<notin> set (event_line index (offset, channel, bytes))"
proof -
  have "CHR 0x0a \<notin> set s" if "solid s" for s using that by (auto simp: solid_def ascii_ws_def)
  then show ?thesis using show_nat_solid encode_hex_line channel_ok(3) [OF assms] by (simp add: event_line_head event_head_def)
qed

lemma parse_event_line:
  assumes "recordable (offset, channel, bytes)" and "int index < 18446744073709551615"
    and "cp_expected_ordinal st = index + 1" and "cp_previous_offset st \<le> offset"
  shows "parse_data False (trim_end (event_line index (offset, channel, bytes))) st =
    Some (Inr (accept_event False offset channel bytes (st\<lparr>cp_saw_data := True\<rparr>)))"
proof -
  have r: "int offset \<le> 18446744073709551615" "channel \<in> set V2_CHANNELS" "channel = ''M<'' \<longrightarrow> 4 \<le> length bytes"
    using assms(1) by (auto simp: recordable_def)
  show ?thesis
    unfolding parse_data_def Let_def event_line_trimmed(1) [OF r(2)] option.case prod.case event_head_fields(1) [OF r(2)]
      event_fields [OF r(1) assms(2)]
    using event_line_trimmed(6) [OF r(2), of index offset] r assms(3,4) by (auto simp: not_less)
qed

lemma parse_event_lines:
  assumes "list_all recordable events" and "sorted (map fst events)" and "int (index + length events) \<le> 18446744073709551615"
    and "cp_expected_ordinal st = index + 1" and "\<forall>e\<in>set events. cp_previous_offset st \<le> fst e"
  shows "\<exists>st'. parse_lines False (event_lines index events) st = Some (Inr st') \<and> cp_headers st' = cp_headers st \<and>
    cp_declared_version st' = cp_declared_version st \<and> cp_event_count st' = cp_event_count st + length events"
  using assms
proof (induction events arbitrary: index st)
  case (Cons e events)
  obtain offset channel bytes where e: "e = (offset, channel, bytes)" by (cases e)
  let ?st = "accept_event False offset channel bytes (st\<lparr>cp_saw_data := True\<rparr>)"
  have ch: "channel \<in> set V2_CHANNELS" using Cons.prems(1) e by (simp add: recordable_def)
  have "parse_data False (trim_end (event_line index e)) st = Some (Inr ?st)"
    unfolding e using Cons.prems e by (intro parse_event_line) auto
  then have step: "parse_lines False (event_lines index (e # events)) st = parse_lines False (event_lines (index + 1) events) ?st"
    using event_line_trimmed(2,3) [OF ch, of index offset bytes] e by simp
  have "\<exists>st'. parse_lines False (event_lines (index + 1) events) ?st = Some (Inr st') \<and> cp_headers st' = cp_headers ?st \<and>
      cp_declared_version st' = cp_declared_version ?st \<and> cp_event_count st' = cp_event_count ?st + length events"
    using Cons.prems e by (intro Cons.IH) (auto simp: accept_event_def)
  then show ?case unfolding step by (auto simp: accept_event_def)
qed simp

lemma collect_event_lines:
  "list_all recordable events \<Longrightarrow> collect_events (event_lines index events) = Some (Inr (map snd events))"
proof (induction events arbitrary: index)
  case (Cons e events)
  obtain offset channel bytes where e: "e = (offset, channel, bytes)" by (cases e)
  have ch: "channel \<in> set V2_CHANNELS" using Cons.prems e by (simp add: recordable_def)
  have "split_capture_line (event_line index e) = Some (event_head index offset channel, encode_hex bytes)"
    using event_head_fields(2) [OF ch, of index offset bytes] by (simp add: e event_line_head)
  moreover have "event_channel (split_whitespace (event_head index offset channel)) = Some channel"
    unfolding event_head_fields(1) [OF ch] by (simp add: event_channel_def)
  ultimately show ?case using Cons e by simp
qed simp

lemma merge_event_lines:
  "list_all recordable events \<Longrightarrow> list_all (\<lambda>(_, channel, _). channel \<in> set MERGE_CHANNELS) events \<Longrightarrow>
     merge_lines (event_lines index events) base = Some (Inr (map (\<lambda>(offset, e). (saturating_u64 base offset, e)) events))"
proof (induction events arbitrary: index)
  case (Cons e events)
  obtain offset channel bytes where e: "e = (offset, channel, bytes)" by (cases e)
  have r: "channel \<in> set V2_CHANNELS" "int offset \<le> 18446744073709551615" using Cons.prems e by (simp_all add: recordable_def)
  have "split_capture_line (event_line index e) = Some (event_head index offset channel, encode_hex bytes)"
    using event_head_fields(2) [OF r(1), of index offset bytes] by (simp add: e event_line_head)
  moreover have "event_channel (split_whitespace (event_head index offset channel)) = Some channel"
    "event_offset (split_whitespace (event_head index offset channel)) = Some offset"
    unfolding event_head_fields(1) [OF r(1)] using event_fields(2) [OF r(2), of 0] by (simp_all add: event_channel_def event_offset_def)
  ultimately show ?case using Cons e by (simp add: Let_def)
qed simp

section \<open>Rendered captures\<close>

text \<open>Header lines the structural parser accepts, ready for the first event.\<close>

definition headers_ok :: "string list \<Rightarrow> bool" where
  "headers_ok hs \<longleftrightarrow>
     list_all (\<lambda>h. CHR 0x0a \<notin> set h \<and> chomp h = h \<and> \<not> starts_with ''@'' h \<and> CHR ''@'' \<notin> set h) hs \<and>
     (case parse_lines False hs initial_state of
        Some (Inr st) \<Rightarrow> cp_expected_ordinal st = 1 \<and> cp_previous_offset st = 0 \<and> cp_event_count st = 0 \<and>
          cp_declared_version st = Some ''2'' \<and> check_required False REQUIRED_V2_HEADERS (cp_headers st) = Inr ()
      | _ \<Rightarrow> False)"

definition rendered :: "string list \<Rightarrow> captured_event list \<Rightarrow> string" where
  "rendered hs events = concat (map with_nl (hs @ event_lines 0 events))"

lemma parse_lines_append:
  "parse_lines p (xs @ ys) st =
     (case parse_lines p xs st of
        None \<Rightarrow> None
      | Some (Inl e) \<Rightarrow> Some (Inl e)
      | Some (Inr st) \<Rightarrow> parse_lines p ys st)"
  by (induction xs arbitrary: st) (auto simp: Let_def split: option.splits sum.splits)

lemma event_lines_all:
  "list_all recordable events \<Longrightarrow> l \<in> set (event_lines index events) \<Longrightarrow>
     CHR 0x0a \<notin> set l \<and> chomp l = l \<and> starts_with ''@'' l"
proof (induction events arbitrary: index)
  case (Cons e events)
  obtain offset channel bytes where e: "e = (offset, channel, bytes)" by (cases e)
  have "channel \<in> set V2_CHANNELS" using Cons.prems e by (simp add: recordable_def)
  then show ?case using Cons e event_line_chars event_line_trimmed(4,5) by auto
qed simp

lemma rendered_reads_back:
  assumes "headers_ok hs" and "list_all recordable events" and "sorted (map fst events)"
    and "int (length events) \<le> 18446744073709551615"
  shows "\<exists>s. parse_capture_structure (rendered hs events) = Some (Inr s) \<and> cs_event_count s = length events"
    and "contract_events (rendered hs events) = Some (Inr (map snd events))"
    and "list_all (\<lambda>(_, channel, _). channel \<in> set MERGE_CHANNELS) events \<Longrightarrow>
      merge_partial_events (rendered hs events) base = Some (Inr (map (\<lambda>(offset, e). (saturating_u64 base offset, e)) events))"
proof -
  have l: "lines (rendered hs events) = hs @ event_lines 0 events"
    unfolding rendered_def using assms(1) event_lines_all [OF assms(2)]
    by (intro lines_concat) (auto simp: headers_ok_def list_all_iff)
  obtain st where st: "parse_lines False hs initial_state = Some (Inr st)" "cp_expected_ordinal st = 1" "cp_previous_offset st = 0"
    "cp_event_count st = 0" "cp_declared_version st = Some ''2''" "check_required False REQUIRED_V2_HEADERS (cp_headers st) = Inr ()"
    using assms(1) by (auto simp: headers_ok_def split: option.splits sum.splits)
  obtain st' where st': "parse_lines False (event_lines 0 events) st = Some (Inr st')" "cp_headers st' = cp_headers st"
    "cp_declared_version st' = cp_declared_version st" "cp_event_count st' = length events"
    using parse_event_lines [OF assms(2,3), of 0 st] assms(4) st by auto
  have two: "parse_unsigned 255 ''2'' = Some 2" by code_simp
  show p: "\<exists>s. parse_capture_structure (rendered hs events) = Some (Inr s) \<and> cs_event_count s = length events"
    using st st' by (simp add: parse_capture_structure_def parse_capture_with_policy_def l parse_lines_append finish_capture_def two)
  have f: "filter (starts_with ''@'') (lines (rendered hs events)) = event_lines 0 events"
    unfolding l using assms(1) event_lines_all [OF assms(2)] by (auto simp: headers_ok_def list_all_iff filter_empty_conv filter_id_conv)
  show "contract_events (rendered hs events) = Some (Inr (map snd events))"
    using p unfolding contract_events_def f by (auto simp: collect_event_lines assms(2))
  show "merge_partial_events (rendered hs events) base = Some (Inr (map (\<lambda>(offset, e). (saturating_u64 base offset, e)) events))"
    if "list_all (\<lambda>(_, channel, _). channel \<in> set MERGE_CHANNELS) events"
    using p unfolding merge_partial_events_def f by (auto simp: merge_event_lines assms(2) that)
qed

definition proxy_headers :: "string list" where
  "proxy_headers = v2_headers ''native_proxy_raw'' ''bounded transparent Native proxy transcript''"

lemma proxy_headers_ok: "headers_ok proxy_headers"
  by code_simp

lemma into_v2_rendered: "into_v2 px = rendered proxy_headers (px_events px)"
  by (simp add: into_v2_def events_to_v2_def rendered_def proxy_headers_def)

section \<open>The comparison\<close>

definition deviating :: "event list \<Rightarrow> event list \<Rightarrow> nat list" where
  "deviating hardware emulator =
     filter (\<lambda>i. nth_event hardware i \<noteq> nth_event emulator i) [0..<max (length hardware) (length emulator)]"

lemma deviating_Nil: "deviating hardware emulator = [] \<longleftrightarrow> hardware = emulator"
proof
  assume "deviating hardware emulator = []"
  then have same: "nth_event hardware i = nth_event emulator i" if "i < max (length hardware) (length emulator)" for i
    using that by (auto simp: deviating_def filter_empty_conv)
  have "length hardware = length emulator"
  proof (rule ccontr)
    assume "length hardware \<noteq> length emulator"
    then consider "length hardware < length emulator" | "length emulator < length hardware" by linarith
    then show False using same [of "length hardware"] same [of "length emulator"] by cases (auto simp: nth_event_def)
  qed
  then show "hardware = emulator" using same by (auto intro!: nth_equalityI simp: nth_event_def split: if_splits)
qed (simp add: deviating_def)

lemma compare_loop_spec:
  "\<forall>i\<in>set is. i < max (length hardware) (length emulator) \<Longrightarrow> length deviations = min cnt MAX_REPORTED_DEVIATIONS \<Longrightarrow>
     compare_loop hardware emulator is cnt deviations =
       (let ds = filter (\<lambda>i. nth_event hardware i \<noteq> nth_event emulator i) is in
        (cnt + length ds, deviations @ map (deviation_line hardware emulator) (take (MAX_REPORTED_DEVIATIONS - length deviations) ds)))"
proof (induction "is" arbitrary: cnt deviations)
  case (Cons i "is")
  have some: "nth_event hardware i = nth_event emulator i \<Longrightarrow> nth_event hardware i \<noteq> None"
    using Cons.prems(1) by (auto simp: nth_event_def split: if_splits)
  show ?case
  proof (cases "nth_event hardware i = nth_event emulator i")
    case True
    then show ?thesis using some Cons.IH [of deviations cnt] Cons.prems by (simp add: Let_def)
  next
    case False
    show ?thesis
    proof (cases "length deviations < MAX_REPORTED_DEVIATIONS")
      case True
      then have "compare_loop hardware emulator is (cnt + 1) (deviations @ [deviation_line hardware emulator i]) =
          (let ds = filter (\<lambda>i. nth_event hardware i \<noteq> nth_event emulator i) is in
           (cnt + 1 + length ds, (deviations @ [deviation_line hardware emulator i]) @ map (deviation_line hardware emulator)
             (take (MAX_REPORTED_DEVIATIONS - length (deviations @ [deviation_line hardware emulator i])) ds)))"
        using Cons.prems by (intro Cons.IH) auto
      moreover have "MAX_REPORTED_DEVIATIONS - length deviations = Suc (MAX_REPORTED_DEVIATIONS - Suc (length deviations))"
        using True by simp
      ultimately show ?thesis using False True by (simp add: Let_def)
    next
      case full: False
      then show ?thesis using False Cons.IH [of deviations "cnt + 1"] Cons.prems by (simp add: Let_def)
    qed
  qed
qed simp

text \<open>
  The event-by-event comparison of two captures refuses more than 100000 events; otherwise it counts exactly the
  positions at which the captures differ, a missing event included, reports the first 1024 of them in order, and
  finds none exactly when the captures have the same events.
\<close>

theorem comparison_exact:
  "compare_v2 hardware emulator =
     (if max (length hardware) (length emulator) > MAX_COMPARISON_EVENTS
      then Inl (TooManyEvents (max (length hardware) (length emulator)))
      else Inr (length (deviating hardware emulator),
        map (deviation_line hardware emulator) (take MAX_REPORTED_DEVIATIONS (deviating hardware emulator)))) \<and>
   (deviating hardware emulator = [] \<longleftrightarrow> hardware = emulator)"
  by (simp add: compare_v2_def Let_def compare_loop_spec deviating_Nil) (simp add: deviating_def)

section \<open>Recorded and merged captures\<close>

definition record_calls :: "captured_event list \<Rightarrow> ProxyRecorder" where
  "record_calls calls = fold (\<lambda>(elapsed, channel, bytes) px. snd (record_event elapsed channel bytes px)) calls new_recorder"

definition total_bytes :: "captured_event list \<Rightarrow> nat" where
  "total_bytes events = sum_list (map (\<lambda>e. length (snd e)) (map snd events))"

lemma total_bytes_snoc [simp]: "total_bytes (events @ [(t, c, b)]) = total_bytes events + length b"
  by (simp add: total_bytes_def)

definition recorder_ok :: "captured_event list \<Rightarrow> ProxyRecorder \<Rightarrow> bool" where
  "recorder_ok calls px \<longleftrightarrow>
     px_bytes px = total_bytes (px_events px) \<and> px_bytes px \<le> PROXY_MAX_BYTES \<and> length (px_events px) \<le> PROXY_MAX_EVENTS \<and>
     list_all recordable (px_events px) \<and> sorted (map fst (px_events px)) \<and>
     set (map fst (px_events px)) \<subseteq> (\<lambda>e. min (fst e) (2 ^ 64 - 1)) ` set calls \<and>
     (length calls \<le> PROXY_MAX_EVENTS \<and> total_bytes calls \<le> PROXY_MAX_BYTES \<longrightarrow> map snd (px_events px) = map snd calls)"

lemma record_calls_snoc:
  "record_calls (calls @ [(t, c, b)]) = snd (record_event t c b (record_calls calls))"
  by (simp add: record_calls_def)

lemma saturating_add_le: "a + b \<le> PROXY_MAX_BYTES \<Longrightarrow> saturating_add a b = a + b"
  by (simp add: saturating_add_def PROXY_MAX_BYTES_def usize_max_def)

lemma record_calls_ok:
  "sorted (map fst calls) \<Longrightarrow> list_all (\<lambda>(_, channel, _). channel \<in> {''N>'', ''N<''}) calls \<Longrightarrow> recorder_ok calls (record_calls calls)"
proof (induction calls rule: rev_induct)
  case Nil
  then show ?case by (simp add: recorder_ok_def record_calls_def new_recorder_def total_bytes_def)
next
  case (snoc e calls)
  obtain t c b where e: "e = (t, c, b)" by (cases e)
  let ?px = "record_calls calls"
  have ih: "recorder_ok calls ?px" and le: "\<forall>x\<in>set calls. fst x \<le> t" and c: "c \<in> {''N>'', ''N<''}"
    using snoc e by (auto simp: sorted_append)
  show ?case
  proof (cases "length (px_events ?px) \<ge> PROXY_MAX_EVENTS \<or> saturating_add (px_bytes ?px) (length b) > PROXY_MAX_BYTES")
    case True
    then have px: "record_calls (calls @ [e]) = ?px" by (simp add: e record_calls_snoc record_event_def)
    have "\<not> (length (calls @ [e]) \<le> PROXY_MAX_EVENTS \<and> total_bytes (calls @ [e]) \<le> PROXY_MAX_BYTES)"
    proof
      assume small: "length (calls @ [e]) \<le> PROXY_MAX_EVENTS \<and> total_bytes (calls @ [e]) \<le> PROXY_MAX_BYTES"
      then have "map snd (px_events ?px) = map snd calls" using ih e by (simp add: recorder_ok_def)
      then have "length (px_events ?px) = length calls" "total_bytes (px_events ?px) = total_bytes calls"
        unfolding total_bytes_def by (metis length_map, simp only:)
      then show False using True small ih e saturating_add_le [of "px_bytes ?px" "length b"] by (auto simp: recorder_ok_def)
    qed
    then show ?thesis using ih px by (auto simp: recorder_ok_def)
  next
    case False
    then have px: "px_events (record_calls (calls @ [e])) = px_events ?px @ [(min t (2 ^ 64 - 1), c, b)]"
      "px_bytes (record_calls (calls @ [e])) = px_bytes ?px + length b" by (simp_all add: e record_calls_snoc record_event_def)
    define m where "m = min t (2 ^ 64 - 1)"
    have sum: "px_bytes ?px + length b \<le> PROXY_MAX_BYTES"
      using False by (auto simp: saturating_add_def PROXY_MAX_BYTES_def usize_max_def min_def split: if_splits)
    have rec: "recordable (m, c, b)" using c by (auto simp: m_def recordable_def V2_CHANNELS_def)
    have le_m: "x \<le> m" if x: "x \<in> set (map fst (px_events ?px))" for x
    proof -
      obtain y where y: "y \<in> set calls" "x = min (fst y) (2 ^ 64 - 1)" using x ih unfolding recorder_ok_def by blast
      then have "fst y \<le> t" using le by blast
      then show ?thesis unfolding m_def y(2) by (rule min.mono) simp
    qed
    note px = px(1) [folded m_def] px(2)
    show ?thesis unfolding recorder_ok_def px
    proof (intro conjI impI)
      show "px_bytes ?px + length b = total_bytes (px_events ?px @ [(m, c, b)])" using ih by (simp add: recorder_ok_def)
      show "px_bytes ?px + length b \<le> PROXY_MAX_BYTES" by (rule sum)
      show "length (px_events ?px @ [(m, c, b)]) \<le> PROXY_MAX_EVENTS" using False by simp
      show "list_all recordable (px_events ?px @ [(m, c, b)])" using ih rec by (simp add: recorder_ok_def)
      show "sorted (map fst (px_events ?px @ [(m, c, b)]))" using ih le_m by (simp add: recorder_ok_def sorted_append)
      have "m \<in> (\<lambda>e. min (fst e) (2 ^ 64 - 1)) ` set (calls @ [e])" unfolding m_def e by (rule image_eqI [of _ _ "(t, c, b)"]) simp_all
      then show "set (map fst (px_events ?px @ [(m, c, b)])) \<subseteq> (\<lambda>e. min (fst e) (2 ^ 64 - 1)) ` set (calls @ [e])"
      proof -
        have "set (map fst (px_events ?px)) \<subseteq> (\<lambda>e. min (fst e) (2 ^ 64 - 1)) ` set calls" using ih unfolding recorder_ok_def by blast
        moreover have "set (map fst (px_events ?px @ [(m, c, b)])) = insert m (set (map fst (px_events ?px)))" by simp
        ultimately show ?thesis using \<open>m \<in> _\<close> by (simp only: set_append image_Un) blast
      qed
      assume "length (calls @ [e]) \<le> PROXY_MAX_EVENTS \<and> total_bytes (calls @ [e]) \<le> PROXY_MAX_BYTES"
      then show "map snd (px_events ?px @ [(m, c, b)]) = map snd (calls @ [e])" using ih e by (simp add: recorder_ok_def)
    qed
  qed
qed

text \<open>
  C39. The proxy's recorder keeps at most 100000 events and 16 MiB; within these bounds it keeps every event it is given, and
  the text it writes, read back by the structural parser, gives exactly the recorded events in their order.
\<close>

theorem recorded_capture_reads_back:
  assumes "sorted (map fst calls)" and "list_all (\<lambda>(_, channel, _). channel \<in> {''N>'', ''N<''}) calls"
  shows "length (px_events (record_calls calls)) \<le> PROXY_MAX_EVENTS \<and> total_bytes (px_events (record_calls calls)) \<le> PROXY_MAX_BYTES \<and>
    (length calls \<le> PROXY_MAX_EVENTS \<and> total_bytes calls \<le> PROXY_MAX_BYTES \<longrightarrow>
       map snd (px_events (record_calls calls)) = map snd calls) \<and>
    contract_events (into_v2 (record_calls calls)) = Some (Inr (map snd (px_events (record_calls calls))))"
proof -
  let ?px = "record_calls calls"
  have ok: "recorder_ok calls ?px" by (rule record_calls_ok [OF assms])
  have "int (length (px_events ?px)) \<le> 18446744073709551615" using ok by (simp add: recorder_ok_def PROXY_MAX_EVENTS_def)
  then have "contract_events (into_v2 ?px) = Some (Inr (map snd (px_events ?px)))"
    unfolding into_v2_rendered using ok by (intro rendered_reads_back(2) proxy_headers_ok) (simp_all add: recorder_ok_def)
  then show ?thesis using ok by (auto simp: recorder_ok_def)
qed

theorem recorded_capture_reads_back_witness:
  "contract_events (into_v2 (record_calls [(3, ''N>'', [0xdf, 0xd1]), (9, ''N<'', [])])) = Some (Inr [(''N>'', [0xdf, 0xd1]), (''N<'', [])])"
proof -
  let ?calls = "[(3 :: nat, ''N>'', [0xdf, 0xd1 :: byte]), (9, ''N<'', [])]"
  have "length ?calls \<le> PROXY_MAX_EVENTS \<and> total_bytes ?calls \<le> PROXY_MAX_BYTES"
    by (simp add: PROXY_MAX_EVENTS_def PROXY_MAX_BYTES_def total_bytes_def)
  then show ?thesis using recorded_capture_reads_back [of ?calls] by simp
qed

subsection \<open>Merging\<close>

definition merged_headers :: "bool \<Rightarrow> bool \<Rightarrow> string list" where
  "merged_headers disconnect destructive =
     take 10 (v2_headers ''hardware_matrix_raw'' ''merged direct discovery, Native proxy, and raw meter evidence'') @
     [''# destructive_write_approved: '' @ (if destructive then ''true'' else ''false''),
      ''# matrix_contract: wing-rack-3.1-v1'', ''# restore_verified: true'', ''# concurrent_definition_write_observed: true'',
      ''# meter_cardinality_verdict: ambiguous'', ''# disconnect_observed: '' @ (if disconnect then ''true'' else ''false'')]"

lemma merged_headers_ok: "headers_ok (merged_headers disconnect destructive)"
proof -
  have "headers_ok (merged_headers True True)" "headers_ok (merged_headers True False)"
    "headers_ok (merged_headers False True)" "headers_ok (merged_headers False False)" by code_simp+
  then show ?thesis by (cases disconnect; cases destructive) simp_all
qed

lemma insert_at_data_at:
  "CHR ''@'' \<notin> set h \<Longrightarrow> e = [] \<or> hd e = CHR ''@'' \<Longrightarrow> insert_at_data x (h @ e) = h @ x @ e"
proof -
  assume h: "CHR ''@'' \<notin> set h" and e: "e = [] \<or> hd e = CHR ''@''"
  then have "takeWhile (\<lambda>c. c \<noteq> CHR ''@'') (h @ e) = h @ takeWhile (\<lambda>c. c \<noteq> CHR ''@'') e"
    "dropWhile (\<lambda>c. c \<noteq> CHR ''@'') (h @ e) = dropWhile (\<lambda>c. c \<noteq> CHR ''@'') e"
    by (intro takeWhile_append2 dropWhile_append2; auto)+
  moreover have "takeWhile (\<lambda>c. c \<noteq> CHR ''@'') e = []" "dropWhile (\<lambda>c. c \<noteq> CHR ''@'') e = e" using e by (cases e; auto)+
  ultimately show ?thesis by (simp add: insert_at_data_def)
qed

lemma replace_all_none: "a \<noteq> [] \<Longrightarrow> hd a \<notin> set s \<Longrightarrow> replace_all a b s = s"
proof (induction s)
  case (Cons c s)
  then have "strip_prefix a (c # s) = None" by (cases a) (auto simp: strip_prefix_def starts_with_def)
  then show ?case using Cons by (simp add: replace_all.simps [of a b "c # s"])
qed (simp add: replace_all.simps)

lemma strip_prefix_line:
  assumes "CHR 0x0a \<notin> set a"
  shows "strip_prefix a (l @ CHR 0x0a # rest) = map_option (\<lambda>t. t @ CHR 0x0a # rest) (strip_prefix a l)"
proof (cases "strip_prefix a l")
  case (Some t)
  then have "l @ CHR 0x0a # rest = a @ t @ CHR 0x0a # rest" by (simp add: strip_prefix_Some)
  then have "strip_prefix a (l @ CHR 0x0a # rest) = Some (t @ CHR 0x0a # rest)" by (simp only: strip_prefix_Some)
  then show ?thesis using Some by simp
next
  case None
  have "strip_prefix a (l @ CHR 0x0a # rest) \<noteq> Some t" for t
  proof
    assume "strip_prefix a (l @ CHR 0x0a # rest) = Some t"
    then have eq: "l @ CHR 0x0a # rest = a @ t" by (simp add: strip_prefix_Some)
    then have "length a \<le> length l" using assms by (metis in_set_conv_nth nth_append nth_append_length not_le)
    then obtain u where "l = a @ u" using eq by (metis append_eq_append_conv_if append_take_drop_id)
    then show False using None strip_prefix_Some [of a l u] by simp
  qed
  then show ?thesis using None by (cases "strip_prefix a (l @ CHR 0x0a # rest)") auto
qed

lemma replace_all_line:
  "CHR 0x0a \<notin> set a \<Longrightarrow> a \<noteq> [] \<Longrightarrow> replace_all a b (with_nl l @ rest) = with_nl (replace_all a b l) @ replace_all a b rest"
proof (induction "length l" arbitrary: l rule: less_induct)
  case less
  note line = strip_prefix_line [OF less.prems(1)]
  show ?case
  proof (cases l)
    case Nil
    have "strip_prefix a [] = None" using less.prems(2) by (cases a) (simp_all add: strip_prefix_def starts_with_def)
    then show ?thesis using Nil line [of "[]" rest]
      by (simp add: with_nl_def replace_all.simps [of a b "CHR 0x0a # rest"] replace_all.simps [of a b "[]"])
  next
    case (Cons c l')
    show ?thesis
    proof (cases "strip_prefix a l")
      case None
      have "replace_all a b (with_nl l' @ rest) = with_nl (replace_all a b l') @ replace_all a b rest"
        using less.hyps [of l'] less.prems Cons by simp
      then show ?thesis using None Cons line [of l rest]
        by (simp add: with_nl_def replace_all.simps [of a b "c # l' @ CHR 0x0a # rest"] replace_all.simps [of a b "c # l'"])
    next
      case (Some t)
      then have t: "l = a @ t" by (simp add: strip_prefix_Some)
      have "replace_all a b (with_nl t @ rest) = with_nl (replace_all a b t) @ replace_all a b rest"
        using less.hyps [of t] less.prems t by simp
      then show ?thesis using Some Cons line [of l rest] less.prems(2)
        by (simp add: with_nl_def replace_all.simps [of a b "c # l' @ CHR 0x0a # rest"] replace_all.simps [of a b "c # l'"])
    qed
  qed
qed

lemma replace_all_lines:
  "CHR 0x0a \<notin> set a \<Longrightarrow> a \<noteq> [] \<Longrightarrow> replace_all a b (concat (map with_nl ls)) = concat (map with_nl (map (replace_all a b) ls))"
  by (induction ls) (simp_all add: replace_all_line replace_all.simps [of a b "[]"])

lemma event_line_no_hash:
  assumes "recordable e"
  shows "CHR ''#'' \<notin> set (event_line index e)"
proof -
  obtain offset channel bytes where e: "e = (offset, channel, bytes)" by (cases e)
  have "hex_val c \<noteq> None" if "c \<in> set (encode_hex bytes)" for c
    using that by (induction bytes) (auto simp: encode_hex_Cons hex_char_ok(1) nibbles)
  moreover have "hex_val CHR ''#'' = None" by code_simp
  ultimately have hex: "CHR ''#'' \<notin> set (encode_hex bytes)" by metis
  have "\<not> is_digit CHR ''#''" by (simp add: is_digit_def)
  then have "CHR ''#'' \<notin> set (show_nat n)" for n using show_nat_digits [of n] by (auto simp: list_all_iff)
  then show ?thesis using hex assms channel_ok(4) by (auto simp: e recordable_def event_line_head event_head_def)
qed

lemma event_lines_no_hash: "list_all recordable events \<Longrightarrow> l \<in> set (event_lines index events) \<Longrightarrow> CHR ''#'' \<notin> set l"
  by (induction events arbitrary: index) (auto simp: event_line_no_hash)

lemma event_lines_start:
  "concat (map with_nl (event_lines index events)) = [] \<or> hd (concat (map with_nl (event_lines index events))) = CHR ''@''"
  by (cases events) (auto simp: with_nl_def event_line_head event_head_def split: prod.splits)

lemma build_merged_matrix_rendered:
  assumes "list_all recordable events"
  shows "build_merged_matrix events destructive =
    rendered (merged_headers (list_ex (\<lambda>(_, channel, bytes). channel = ''N<'' \<and> bytes = []) events) destructive) events"
proof -
  let ?d = "list_ex (\<lambda>(_, channel, bytes). channel = ''N<'' \<and> bytes = []) events"
  let ?hs = "v2_headers ''hardware_matrix_raw'' ''merged direct discovery, Native proxy, and raw meter evidence''"
  let ?four = "[''# matrix_contract: wing-rack-3.1-v1'', ''# restore_verified: true'', ''# concurrent_definition_write_observed: true'',
      ''# meter_cardinality_verdict: ambiguous'']"
  let ?last = "''# disconnect_observed: '' @ (if ?d then ''true'' else ''false'')"
  let ?E = "concat (map with_nl (event_lines 0 events))"
  have no_at: "CHR ''@'' \<notin> set (concat (map with_nl (?hs @ ?four)))" "CHR ''@'' \<notin> set (concat (map with_nl ?hs))" by code_simp+
  have "insert_at_data (concat (map with_nl ?four)) (concat (map with_nl ?hs) @ ?E) = concat (map with_nl (?hs @ ?four)) @ ?E"
    using insert_at_data_at [OF no_at(2) event_lines_start] by simp
  moreover have "insert_at_data (with_nl ?last) (concat (map with_nl (?hs @ ?four)) @ ?E) = concat (map with_nl (?hs @ ?four @ [?last])) @ ?E"
    using insert_at_data_at [OF no_at(1) event_lines_start, of "with_nl ?last"] by simp
  ultimately have eq: "build_merged_matrix events destructive =
      (let capture = concat (map with_nl ((?hs @ ?four @ [?last]) @ event_lines 0 events)) in
       if destructive then replace_all ''# destructive_write_approved: false'' ''# destructive_write_approved: true'' capture else capture)"
    by (simp add: build_merged_matrix_def Let_def events_to_v2_def)
  show ?thesis
  proof (cases destructive)
    case False
    then show ?thesis unfolding eq by (simp add: rendered_def merged_headers_def v2_headers_def)
  next
    case True
    let ?r = "replace_all ''# destructive_write_approved: false'' ''# destructive_write_approved: true''"
    have ev: "map ?r (event_lines 0 events) = event_lines 0 events"
      using event_lines_no_hash [OF assms] by (intro map_idI replace_all_none) auto
    have hs: "map ?r (?hs @ ?four @ [''# disconnect_observed: '' @ (if d then ''true'' else ''false'')]) = merged_headers d True" for d
      by (cases d) (simp_all only: if_True if_False, code_simp+)
    have "?r (concat (map with_nl ((?hs @ ?four @ [?last]) @ event_lines 0 events))) =
        concat (map with_nl (map ?r ((?hs @ ?four @ [?last]) @ event_lines 0 events)))"
      by (intro replace_all_lines) simp_all
    also have "\<dots> = concat (map with_nl (merged_headers ?d True @ event_lines 0 events))"
      unfolding map_append [of ?r "?hs @ ?four @ [?last]"] hs ev ..
    finally show ?thesis using True unfolding eq by (simp add: rendered_def Let_def)
  qed
qed

text \<open>The events of one partial capture.\<close>

definition part_ok :: "captured_event list \<Rightarrow> bool" where
  "part_ok events \<longleftrightarrow> list_all recordable events \<and> sorted (map fst events) \<and>
     list_all (\<lambda>(_, channel, _). channel \<in> set MERGE_CHANNELS) events \<and> int (length events) \<le> 18446744073709551615"

abbreviation u64_max :: nat where "u64_max \<equiv> 2 ^ 64 - 1"

lemma saturating_u64_facts:
  "saturating_u64 base offset \<le> u64_max" "base \<le> u64_max \<Longrightarrow> base \<le> saturating_u64 base offset"
  "a \<le> b \<Longrightarrow> saturating_u64 base a \<le> saturating_u64 base b"
  by (simp_all add: saturating_u64_def min_def del: power_numeral)

lemma sorted_le_last: "sorted xs \<Longrightarrow> x \<in> set xs \<Longrightarrow> x \<le> last xs"
  by (induction xs) auto

lemma merge_parts_ok:
  "list_all part_ok parts \<Longrightarrow> headers_ok hs \<Longrightarrow> base \<le> u64_max \<Longrightarrow>
     \<exists>ms. merge_parts (map (rendered hs) parts) base events = Some (Inr (events @ ms)) \<and>
       map snd ms = concat (map (map snd) parts) \<and> sorted (map fst ms) \<and> list_all recordable ms \<and> (\<forall>m\<in>set ms. base \<le> fst m)"
proof (induction parts arbitrary: base events)
  case (Cons part parts)
  let ?part = "map (\<lambda>(offset, e). (saturating_u64 base offset, e)) part"
  let ?base = "if ?part = [] then base else saturating_u64 (fst (last ?part)) 1"
  have ok: "part_ok part" using Cons.prems by simp
  have m: "merge_partial_events (rendered hs part) base = Some (Inr ?part)"
    using rendered_reads_back(3) [OF Cons.prems(2), of part base] ok by (simp add: part_ok_def)
  have fst_part: "map fst ?part = map (saturating_u64 base) (map fst part)" by (simp add: case_prod_beta)
  have sorted: "sorted (map fst ?part)"
    unfolding fst_part using ok saturating_u64_facts(3) by (intro sorted_map_mono) (auto simp: part_ok_def mono_on_def)
  have range: "base \<le> x \<and> x \<le> u64_max \<and> x \<le> ?base" if x: "x \<in> set (map fst ?part)" for x
  proof -
    have ge: "base \<le> x" "x \<le> u64_max"
      using x Cons.prems(3) saturating_u64_facts(1,2) unfolding fst_part by auto
    have ne: "?part \<noteq> []" using x by auto
    then have "x \<le> last (map fst ?part)" using sorted x by (intro sorted_le_last)
    also have "\<dots> = fst (last ?part)" using ne by (rule last_map)
    also have "\<dots> \<le> saturating_u64 (fst (last ?part)) 1"
    proof (rule saturating_u64_facts(2))
      have "fst (last ?part) \<in> set (map fst ?part)" using ne by (metis last_in_set last_map map_is_Nil_conv)
      then show "fst (last ?part) \<le> u64_max" using saturating_u64_facts(1) unfolding fst_part by auto
    qed
    finally show ?thesis using ge ne by simp
  qed
  have "?base \<le> u64_max" using Cons.prems(3) saturating_u64_facts(1) by simp
  from Cons.IH [OF _ Cons.prems(2) this, of "events @ ?part"] Cons.prems(1) obtain ms where
    ms: "merge_parts (map (rendered hs) parts) ?base (events @ ?part) = Some (Inr ((events @ ?part) @ ms))"
      "map snd ms = concat (map (map snd) parts)" "sorted (map fst ms)" "list_all recordable ms" "\<forall>m\<in>set ms. ?base \<le> fst m" by auto
  have base: "base \<le> ?base"
  proof (cases "?part = []")
    case False
    then have "hd ?part \<in> set ?part" by (rule hd_in_set)
    then have "fst (hd ?part) \<in> set (map fst ?part)" unfolding set_map by (rule imageI)
    from range [OF this] have "base \<le> fst (hd ?part)" "fst (hd ?part) \<le> ?base" by blast+
    then show ?thesis by (rule order_trans)
  qed simp
  have "merge_parts (map (rendered hs) (part # parts)) base events = Some (Inr (events @ (?part @ ms)))" using m ms(1) by simp
  moreover have "map snd (?part @ ms) = concat (map (map snd) (part # parts))" using ms(2) by (simp add: case_prod_beta)
  moreover have "sorted (map fst (?part @ ms))"
    unfolding map_append sorted_append
  proof (intro conjI ballI sorted ms(3))
    fix x y assume "x \<in> set (map fst ?part)" and y: "y \<in> set (map fst ms)"
    from range [OF this(1)] have "x \<le> ?base" by blast
    moreover from y ms(5) have "?base \<le> y" by auto
    ultimately show "x \<le> y" by (rule order_trans)
  qed
  moreover have "list_all recordable (?part @ ms)"
  proof -
    have "recordable (saturating_u64 base offset, e)" if "(offset, e) \<in> set part" for offset e
      using that ok saturating_u64_facts(1) [of base offset] by (cases e) (auto simp: part_ok_def list_all_iff recordable_def)
    then show ?thesis using ms(4) by (auto simp: list_all_iff)
  qed
  moreover have "\<forall>m\<in>set (?part @ ms). base \<le> fst m"
  proof
    fix m assume "m \<in> set (?part @ ms)"
    then consider "fst m \<in> set (map fst ?part)" | "m \<in> set ms" unfolding set_append set_map by blast
    then show "base \<le> fst m"
    proof cases
      case 1
      from range [OF this] show ?thesis by blast
    next
      case 2
      with ms(5) have "?base \<le> fst m" by blast
      with base show ?thesis by (rule order_trans)
    qed
  qed
  ultimately show ?case by blast
qed simp



end
