(* ===== verification/Sanitize.thy ===== *)
theory Sanitize
  imports Capture
begin

text \<open>
  The sanitizer of \<open>tools/wingcapture.rs\<close> (\<open>sanitize_file\<close>, between the reading and the publication of its
  files): header lines are scanned, payload lines are decoded, redacted as reassembled streams and written
  back, and the result is scanned again.
\<close>

section \<open>Sanitizing\<close>

record Sanitizing =
  sz_out_lines :: "string list"
  sz_saw_header :: bool
  sz_events :: "event list"
  sz_payload_lines :: "(nat \<times> string) list"

definition sanitize_header :: "string \<Rightarrow> string \<Rightarrow> Sanitizing \<Rightarrow> capture_error + Sanitizing" where
  "sanitize_header line rest z =
     (if scan_str rest \<noteq> [] then Inl (SensitiveMetadata line)
      else if starts_with ''sanitizer:'' (trim_start rest) then
        Inr (z\<lparr>sz_saw_header := True, sz_out_lines := sz_out_lines z @ [''# sanitizer: '' @ SANITIZER_VERSION]\<rparr>)
      else Inr (z\<lparr>sz_out_lines := sz_out_lines z @ [line]\<rparr>))"

definition sanitize_data :: "string \<Rightarrow> Sanitizing \<Rightarrow> Sanitizing capture_result" where
  "sanitize_data line z =
     (case split_capture_line line of
        None \<Rightarrow> Some (Inl (UnrecognizedLine line))
      | Some (head, hex) \<Rightarrow>
          (case decode_hex (trim hex) of
             None \<Rightarrow> None
           | Some (Inl e) \<Rightarrow> Some (Inl (BadHex e))
           | Some (Inr bytes) \<Rightarrow>
               Some (Inr (z\<lparr>sz_events := sz_events z @ [(last (split_whitespace head), bytes)],
                 sz_payload_lines := sz_payload_lines z @ [(length (sz_out_lines z), head)],
                 sz_out_lines := sz_out_lines z @ [[]]\<rparr>))))"

fun sanitize_lines :: "string list \<Rightarrow> Sanitizing \<Rightarrow> Sanitizing capture_result" where
  "sanitize_lines [] z = Some (Inr z)"
| "sanitize_lines (raw # raws) z =
     (let line = trim_end raw in
      if line = [] then sanitize_lines raws z
      else
        let step = (case strip_prefix ''#'' line of
            Some rest \<Rightarrow> Some (sanitize_header line rest z)
          | None \<Rightarrow> sanitize_data line z) in
        case step of
          None \<Rightarrow> None
        | Some (Inl e) \<Rightarrow> Some (Inl e)
        | Some (Inr z) \<Rightarrow> sanitize_lines raws z)"

fun fill_payloads :: "(nat \<times> string) list \<Rightarrow> event list \<Rightarrow> string list \<Rightarrow> string list" where
  "fill_payloads ((i, head) # ps) ((_, bytes) # events) out =
     fill_payloads ps events (out[i := head @ '' '' @ encode_hex bytes])"
| "fill_payloads _ _ out = out"

fun recheck_lines :: "string list \<Rightarrow> capture_error + unit" where
  "recheck_lines [] = Inr ()"
| "recheck_lines (line # ls) =
     (case strip_prefix ''#'' line of
        Some rest \<Rightarrow> if scan_str rest \<noteq> [] then Inl (StillSensitive line) else recheck_lines ls
      | None \<Rightarrow> recheck_lines ls)"

definition finish_sanitizing :: "Sanitizing \<Rightarrow> capture_error + string" where
  "finish_sanitizing z =
     (case redact_events (sz_events z) of
        Inl e \<Rightarrow> Inl (RedactFailed e)
      | Inr events \<Rightarrow>
          if scan_events events \<noteq> [] then Inl SensitiveStreams
          else
            let out = fill_payloads (sz_payload_lines z) events (sz_out_lines z);
                out = (if sz_saw_header z then out else (''# sanitizer: '' @ SANITIZER_VERSION) # out) in
            and_then (recheck_lines out) (\<lambda>_. Inr (join_with CHR 0x0a out @ [CHR 0x0a])))"

definition sanitize_text :: "string \<Rightarrow> string capture_result" where
  "sanitize_text text =
     map_option (\<lambda>r. and_then r finish_sanitizing)
       (sanitize_lines (lines text) \<lparr>sz_out_lines = [], sz_saw_header = False, sz_events = [], sz_payload_lines = []\<rparr>)"

section \<open>The lines of a capture\<close>

text \<open>What a line of a capture is to the sanitizer.\<close>

datatype item = Header string | Sanitizer | Payload string "byte list"

definition item_of :: "string \<Rightarrow> item capture_result" where
  "item_of line =
     (case strip_prefix ''#'' line of
        Some rest \<Rightarrow>
          if scan_str rest \<noteq> [] then Some (Inl (SensitiveMetadata line))
          else if starts_with ''sanitizer:'' (trim_start rest) then Some (Inr Sanitizer)
          else Some (Inr (Header line))
      | None \<Rightarrow>
          (case split_capture_line line of
             None \<Rightarrow> Some (Inl (UnrecognizedLine line))
           | Some (head, hex) \<Rightarrow>
               map_option (\<lambda>r. case r of Inl e \<Rightarrow> Inl (BadHex e) | Inr bytes \<Rightarrow> Inr (Payload head bytes)) (decode_hex (trim hex))))"

fun items_of :: "string list \<Rightarrow> item list capture_result" where
  "items_of [] = Some (Inr [])"
| "items_of (raw # raws) =
     (if trim_end raw = [] then items_of raws
      else case item_of (trim_end raw) of
          None \<Rightarrow> None
        | Some (Inl e) \<Rightarrow> Some (Inl e)
        | Some (Inr it) \<Rightarrow> map_option (\<lambda>r. and_then r (\<lambda>its. Inr (it # its))) (items_of raws))"

fun item_events :: "item list \<Rightarrow> event list" where
  "item_events [] = []"
| "item_events (Payload head bytes # its) = (last (split_whitespace head), bytes) # item_events its"
| "item_events (_ # its) = item_events its"

fun show_item :: "item \<Rightarrow> string" where
  "show_item (Header h) = h"
| "show_item Sanitizer = ''# sanitizer: '' @ SANITIZER_VERSION"
| "show_item (Payload head bytes) = head @ '' '' @ encode_hex bytes"

text \<open>The items with the payloads of other events.\<close>

fun with_events :: "item list \<Rightarrow> event list \<Rightarrow> item list" where
  "with_events (Payload head _ # its) ((_, bytes) # events) = Payload head bytes # with_events its events"
| "with_events (it # its) events = it # with_events its events"
| "with_events [] events = []"

definition marked :: "item list \<Rightarrow> item list" where
  "marked its = (if Sanitizer \<in> set its then its else Sanitizer # its)"

fun skeleton :: "item \<Rightarrow> string" where
  "skeleton (Payload _ _) = []"
| "skeleton it = show_item it"

fun payload_lines :: "nat \<Rightarrow> item list \<Rightarrow> (nat \<times> string) list" where
  "payload_lines n [] = []"
| "payload_lines n (Payload head _ # its) = (n, head) # payload_lines (n + 1) its"
| "payload_lines n (_ # its) = payload_lines (n + 1) its"

definition absorb :: "item list \<Rightarrow> Sanitizing \<Rightarrow> Sanitizing" where
  "absorb its z =
     z\<lparr>sz_out_lines := sz_out_lines z @ map skeleton its, sz_saw_header := sz_saw_header z \<or> Sanitizer \<in> set its,
       sz_events := sz_events z @ item_events its,
       sz_payload_lines := sz_payload_lines z @ payload_lines (length (sz_out_lines z)) its\<rparr>"

lemma absorb_Nil [simp]: "absorb [] z = z"
  by (simp add: absorb_def)

lemma absorb_Cons: "absorb its (absorb [it] z) = absorb (it # its) z"
  by (cases it) (auto simp: absorb_def)

lemma sanitize_lines_items:
  "sanitize_lines raws z = map_option (\<lambda>r. and_then r (\<lambda>its. Inr (absorb its z))) (items_of raws)"
proof (induction raws arbitrary: z)
  case (Cons raw raws)
  let ?line = "trim_end raw"
  have step: "(case strip_prefix ''#'' ?line of Some rest \<Rightarrow> Some (sanitize_header ?line rest z) | None \<Rightarrow> sanitize_data ?line z) =
      map_option (\<lambda>r. and_then r (\<lambda>it. Inr (absorb [it] z))) (item_of ?line)"
    by (auto simp: item_of_def sanitize_header_def sanitize_data_def absorb_def split: option.splits sum.splits)
  show ?case
  proof (cases "?line = []")
    case False
    then show ?thesis unfolding sanitize_lines.simps Let_def step items_of.simps
      using Cons.IH absorb_Cons
      by (auto split: option.splits sum.splits simp: option.map_comp comp_def and_then_assoc)
  qed (use Cons.IH in simp)
qed simp

lemma fill_payloads_items:
  "length events = length (item_events its) \<Longrightarrow>
     fill_payloads (payload_lines (length out) its) events (out @ map skeleton its) = out @ map show_item (with_events its events)"
proof (induction its arbitrary: out events)
  case (Cons it its)
  show ?case
  proof (cases it)
    case (Payload head bytes)
    then obtain c b rest where e: "events = (c, b) # rest" using Cons.prems by (cases events) auto
    have "fill_payloads (payload_lines (length (out @ [show_item (Payload head b)])) its) rest ((out @ [show_item (Payload head b)]) @ map skeleton its) =
        (out @ [show_item (Payload head b)]) @ map show_item (with_events its rest)"
      using Cons.prems Payload e by (intro Cons.IH) simp
    then show ?thesis using Payload e by simp
  next
    case (Header h)
    then show ?thesis using Cons.IH [of events "out @ [h]"] Cons.prems by simp
  next
    case Sanitizer
    then show ?thesis using Cons.IH [of events "out @ [show_item Sanitizer]"] Cons.prems by simp
  qed
qed simp

section \<open>A rendered line reads back\<close>

definition PREFIXES :: "string list" where
  "PREFIXES = [''N>'', ''N<'', ''M<'', ''O<'', ''O>'', ''D<'']"

text \<open>The part of a data line before its digits: a channel, or an ordinal, an offset and a channel.\<close>

definition head_ok :: "string \<Rightarrow> byte list \<Rightarrow> bool" where
  "head_ok head bytes \<longleftrightarrow>
     head \<in> set PREFIXES \<or>
     (\<exists>a b c. head = (CHR ''@'' # a) @ '' '' @ b @ '' '' @ c \<and> split_once_ws (CHR ''@'' # a) = None \<and>
        split_once_ws b = None \<and> split_once_ws c = None \<and> (bytes = [] \<longrightarrow> c \<noteq> []))"

lemma head_ok_timed:
  "split_once_ws (CHR ''@'' # a) = None \<Longrightarrow> split_once_ws b = None \<Longrightarrow> split_once_ws c = None \<Longrightarrow> (bytes = [] \<Longrightarrow> c \<noteq> []) \<Longrightarrow>
     head_ok ((CHR ''@'' # a) @ '' '' @ b @ '' '' @ c) bytes"
  unfolding head_ok_def by blast

lemma split_first_in: "split_first ps line = Some (p, rest) \<Longrightarrow> p \<in> set ps \<and> line = p @ rest"
  by (induction ps) (auto simp: strip_prefix_Some split: option.splits)

lemma prefix_lines:
  assumes "p \<in> set PREFIXES"
  shows "split_capture_line (p @ rest) = Some (p, rest)" and "strip_prefix ''#'' (p @ rest) = None" and "trim_end (p @ '' '') = p"
    and "CHR 0x0a \<notin> set p"
proof -
  have "list_all (\<lambda>p. trim_end (p @ '' '') = p \<and> CHR 0x0a \<notin> set p) PREFIXES" by code_simp
  then show "trim_end (p @ '' '') = p" "CHR 0x0a \<notin> set p" using assms by (auto simp: list_all_iff)
  show "split_capture_line (p @ rest) = Some (p, rest)" "strip_prefix ''#'' (p @ rest) = None"
    using assms by (auto simp: PREFIXES_def split_capture_line_def split_prefix_def strip_prefix_def starts_with_def)
qed

lemma data_head_ok:
  assumes "split_capture_line line = Some (head, hex)" and "decode_hex (trim hex) = Some (Inr bytes)" and "trim_end line = line"
    and "CHR 0x0a \<notin> set line"
  shows "head_ok head bytes \<and> CHR 0x0a \<notin> set head"
proof (cases "starts_with ''@'' line")
  case False
  then have "split_first PREFIXES line = Some (head, hex)"
    using assms(1) by (simp add: split_capture_line_def split_prefix_def PREFIXES_def)
  from split_first_in [OF this] show ?thesis using prefix_lines(4) by (simp add: head_ok_def)
next
  case True
  then obtain l where l: "line = CHR ''@'' # l" by (auto simp: starts_with_iff)
  have at: "ws_len line = 0" by (simp add: l ws_len.simps(2) ascii_ws_def byte_of_char_def)
  obtain a b c tail where f: "splitn_ws 4 line = a # b # c # tail" "head = a @ '' '' @ b @ '' '' @ c"
    "hex = trim (case tail of [] \<Rightarrow> [] | h # _ \<Rightarrow> h)"
    using assms(1) True by (auto simp: split_capture_line_def split: list.splits)
  from f(1) show ?thesis
  proof (cases rule: splitn_fields)
    case (1 v w)
    then have "a \<noteq> []" using at is_ws_append [of v "b @ w @ c"] by (auto simp: is_ws_def)
    then obtain a' where "a = CHR ''@'' # a'" using 1(7) l by (cases a) auto
    moreover have "c \<noteq> []"
      using 1(2,7) assms(3) trimmed_suffix [of "a @ v @ b" w] blank_ws [of w] by (auto simp: is_ws_def)
    ultimately have "head_ok head bytes" using f(2) head_ok_timed [of a' b c bytes] 1 by simp
    then show ?thesis using f(2) 1 assms(4) by auto
  next
    case (2 u v w d)
    then have "a \<noteq> []" using at is_ws_append [of v "b @ w @ c @ u @ d"] by (auto simp: is_ws_def)
    then obtain a' where "a = CHR ''@'' # a'" using 2(8) l by (cases a) auto
    moreover have "bytes \<noteq> []"
    proof
      assume "bytes = []"
      then have "blank_str (trim hex)" using assms(2) decode_hex_Nil by blast
      then have "blank_str d" using f(3) 2(7) blank_trim by simp
      then have "blank_str (u @ d)" using 2(1) by (simp add: blank_append blank_ws)
      then show False using 2(1,8) assms(3) trimmed_suffix [of "a @ v @ b @ w @ c" "u @ d"] by (auto simp: is_ws_def)
    qed
    ultimately have "head_ok head bytes" using f(2) head_ok_timed [of a' b c bytes] 2 by simp
    then show ?thesis using f(2) 2 assms(4) by auto
  qed
qed

lemma payload_reads_back:
  assumes "head_ok head bytes"
  shows "trim_end (show_item (Payload head bytes)) \<noteq> []"
    and "item_of (trim_end (show_item (Payload head bytes))) = Some (Inr (Payload head bytes))"
    and "chomp (show_item (Payload head bytes)) = show_item (Payload head bytes)"
proof -
  let ?l = "show_item (Payload head bytes)"
  have full: "trim_end ?l = ?l" if "bytes \<noteq> []"
  proof -
    have "encode_hex bytes \<noteq> []" using that by (cases bytes) (auto simp: encode_hex_Cons)
    then obtain x c where x: "encode_hex bytes = x @ [c]" by (cases "encode_hex bytes" rule: rev_cases) auto
    then have "ascii_char c" "\<not> ascii_ws c" using encode_hex_solid [of bytes] by auto
    then show ?thesis using trim_end_last [of c "head @ '' '' @ x"] x by simp
  qed
  show "chomp ?l = ?l"
  proof (cases "bytes = []")
    case True
    then show ?thesis by (simp add: chomp_def)
  next
    case False
    then show ?thesis using full chomp_trimmed by blast
  qed
  have decoded: "decode_hex (trim (encode_hex bytes)) = Some (Inr bytes)" by (simp add: solid_trim)
  from assms consider (pre) "head \<in> set PREFIXES"
    | (timed) a b c where "head = (CHR ''@'' # a) @ '' '' @ b @ '' '' @ c" "split_once_ws (CHR ''@'' # a) = None"
      "split_once_ws b = None" "split_once_ws c = None" "bytes = [] \<longrightarrow> c \<noteq> []"
    unfolding head_ok_def by blast
  then have "trim_end ?l \<noteq> [] \<and> item_of (trim_end ?l) = Some (Inr (Payload head bytes))"
  proof cases
    case pre
    have ne: "head \<noteq> []" using pre by (auto simp: PREFIXES_def)
    show ?thesis
    proof (cases "bytes = []")
      case True
      have "trim [] = []" "decode_hex [] = Some (Inr [])" using decode_encode_hex [of "[]"] by (simp_all add: solid_trim)
      then show ?thesis using True prefix_lines(3) [OF pre] prefix_lines(1,2) [OF pre, of "[]"] ne by (simp add: item_of_def)
    next
      case False
      then show ?thesis using full prefix_lines(1,2) [OF pre, of "'' '' @ encode_hex bytes"] ne
        by (simp add: item_of_def trim_space)
    qed
  next
    case timed
    have at: "strip_prefix ''#'' (CHR ''@'' # x) = None" "starts_with ''@'' (CHR ''@'' # x)" for x
      by (simp_all add: strip_prefix_def starts_with_def)
    show ?thesis
    proof (cases "bytes = []")
      case True
      have t: "trim_end ?l = head" using True timed trim_end_space [of c "(CHR ''@'' # a) @ '' '' @ b"] by simp
      have "split_capture_line head = Some (head, trim [])"
        using splitn_three(2) [OF timed(2-4)] at(2) timed(1) by (simp add: split_capture_line_def)
      moreover have "trim [] = []" "decode_hex [] = Some (Inr [])" using decode_encode_hex [of "[]"] by (simp_all add: solid_trim)
      ultimately show ?thesis using t timed(1) at(1) True by (simp add: item_of_def)
    next
      case False
      have "split_capture_line ?l = Some (head, trim (encode_hex bytes))"
        using splitn_three(1) [OF timed(2-4), of "encode_hex bytes"] at(2) timed(1) by (simp add: split_capture_line_def)
      then show ?thesis using full [OF False] timed(1) at(1) decoded by (simp add: item_of_def solid_trim)
    qed
  qed
  then show "trim_end ?l \<noteq> []" "item_of (trim_end ?l) = Some (Inr (Payload head bytes))" by auto
qed

section \<open>Sanitizing is idempotent\<close>

fun item_good :: "item \<Rightarrow> bool" where
  "item_good (Header h) \<longleftrightarrow> h \<noteq> [] \<and> trim_end h = h \<and> CHR 0x0a \<notin> set h \<and> item_of h = Some (Inr (Header h))"
| "item_good Sanitizer \<longleftrightarrow> True"
| "item_good (Payload head bytes) \<longleftrightarrow> head_ok head bytes \<and> CHR 0x0a \<notin> set head"

lemma item_of_good:
  assumes "item_of line = Some (Inr it)" and "trim_end line = line" and "line \<noteq> []" and "CHR 0x0a \<notin> set line"
  shows "item_good it"
proof (cases it)
  case (Header h)
  then have "h = line" using assms(1) by (auto simp: item_of_def split: option.splits if_splits sum.splits)
  then show ?thesis using assms Header by simp
next
  case (Payload head bytes)
  then obtain hex where "split_capture_line line = Some (head, hex)" "decode_hex (trim hex) = Some (Inr bytes)"
    using assms(1) by (auto simp: item_of_def split: option.splits if_splits sum.splits)
  then show ?thesis using data_head_ok [OF _ _ assms(2,4)] Payload by auto
qed simp

lemma items_of_good:
  "items_of raws = Some (Inr its) \<Longrightarrow> \<forall>l\<in>set raws. CHR 0x0a \<notin> set l \<Longrightarrow> list_all item_good its"
proof (induction raws arbitrary: its)
  case (Cons raw raws)
  show ?case
  proof (cases "trim_end raw = []")
    case False
    obtain it its' where its: "item_of (trim_end raw) = Some (Inr it)" "items_of raws = Some (Inr its')" "its = it # its'"
      using Cons.prems(1) False by (auto simp: and_then_iffs split: option.splits sum.splits)
    have "CHR 0x0a \<notin> set (trim_end raw)" using Cons.prems(2) trim_end_set [of raw] by auto
    then have "item_good it" using item_of_good [OF its(1)] False by simp
    then show ?thesis using Cons.IH [OF its(2)] Cons.prems(2) its(3) by simp
  qed (use Cons in simp)
qed simp

lemma good_reads_back:
  assumes "item_good it"
  shows "trim_end (show_item it) \<noteq> []" and "item_of (trim_end (show_item it)) = Some (Inr it)"
    and "chomp (show_item it) = show_item it" and "CHR 0x0a \<notin> set (show_item it)"
proof -
  have s: "trim_end (show_item Sanitizer) = show_item Sanitizer" "item_of (show_item Sanitizer) = Some (Inr Sanitizer)"
    "CHR 0x0a \<notin> set (show_item Sanitizer)" "show_item Sanitizer \<noteq> []" by code_simp+
  show "trim_end (show_item it) \<noteq> []" "item_of (trim_end (show_item it)) = Some (Inr it)" "chomp (show_item it) = show_item it"
    using assms s chomp_trimmed payload_reads_back by (cases it; simp del: show_item.simps(3))+
  show "CHR 0x0a \<notin> set (show_item it)" using assms s(3) encode_hex_line by (cases it) auto
qed

lemma items_of_show: "list_all item_good its \<Longrightarrow> items_of (map show_item its) = Some (Inr its)"
  by (induction its) (simp_all add: good_reads_back)

lemma lines_of_show: "list_all item_good its \<Longrightarrow> lines (concat (map with_nl (map show_item its))) = map show_item its"
  by (intro lines_concat) (auto simp: list_all_iff good_reads_back)

lemma with_events_good:
  "list_all item_good its \<Longrightarrow> shape events = shape (item_events its) \<Longrightarrow>
     list_all item_good (with_events its events) \<and> item_events (with_events its events) = events \<and>
     (Sanitizer \<in> set (with_events its events) \<longleftrightarrow> Sanitizer \<in> set its)"
proof (induction its arbitrary: events)
  case (Cons it its)
  show ?case
  proof (cases it)
    case (Payload head b)
    then obtain c bytes rest where e: "events = (c, bytes) # rest" using Cons.prems(2) by (cases events) (auto simp: shape_def)
    then have s: "shape rest = shape (item_events its)" "c = last (split_whitespace head)" "b = [] \<longleftrightarrow> bytes = []"
      using Cons.prems(2) Payload by (auto simp: shape_def)
    then have "head_ok head bytes" using Cons.prems(1) Payload by (simp add: head_ok_def)
    then show ?thesis using Cons.IH [OF _ s(1)] Cons.prems(1) Payload e s(2) by auto
  qed (use Cons in auto)
qed (simp add: shape_def)

lemma with_own_events: "with_events its (item_events its) = its"
  by (induction its rule: item_events.induct) auto

lemma marked_facts:
  "marked (marked its) = marked its" "item_events (marked its) = item_events its"
  "list_all item_good its \<Longrightarrow> list_all item_good (marked its)" "marked its \<noteq> []"
  by (auto simp: marked_def)

lemma sanitize_text_items:
  "sanitize_text text =
     map_option (\<lambda>r. and_then r (\<lambda>its. case redact_events (item_events its) of
         Inl e \<Rightarrow> Inl (RedactFailed e)
       | Inr events \<Rightarrow>
           if scan_events events \<noteq> [] then Inl SensitiveStreams
           else let out = map show_item (marked (with_events its events)) in
             and_then (recheck_lines out) (\<lambda>_. Inr (concat (map with_nl out))))) (items_of (lines text))"
proof (cases "items_of (lines text)")
  case (Some r)
  show ?thesis
  proof (cases r)
    case (Inr its)
    let ?z = "absorb its \<lparr>sz_out_lines = [], sz_saw_header = False, sz_events = [], sz_payload_lines = []\<rparr>"
    have z: "sz_out_lines ?z = map skeleton its" "sz_saw_header ?z \<longleftrightarrow> Sanitizer \<in> set its" "sz_events ?z = item_events its"
      "sz_payload_lines ?z = payload_lines 0 its" by (simp_all add: absorb_def)
    have lines: "fill_payloads (payload_lines 0 its) events (map skeleton its) = map show_item (with_events its events)"
      if "length events = length (item_events its)" for events
      using fill_payloads_items [OF that, of "[]"] by simp
    have "finish_sanitizing ?z = (case redact_events (item_events its) of
         Inl e \<Rightarrow> Inl (RedactFailed e)
       | Inr events \<Rightarrow>
           if scan_events events \<noteq> [] then Inl SensitiveStreams
           else let out = map show_item (marked (with_events its events)) in
             and_then (recheck_lines out) (\<lambda>_. Inr (concat (map with_nl out))))"
    proof (cases "redact_events (item_events its)")
      case (Inr events)
      have sh: "shape events = shape (item_events its)" using redact_events_clean(1) [OF Inr] .
      then have len: "length events = length (item_events its)" by (metis length_map shape_def)
      have "Sanitizer \<in> set (with_events its events) \<longleftrightarrow> Sanitizer \<in> set its" for its :: "item list" and events
        by (induction its events rule: with_events.induct) auto
      then have out: "(if Sanitizer \<in> set its then map show_item (with_events its events)
          else (''# sanitizer: '' @ SANITIZER_VERSION) # map show_item (with_events its events)) =
          map show_item (marked (with_events its events))" by (simp add: marked_def)
      have "join_with CHR 0x0a (map show_item (marked (with_events its events))) @ [CHR 0x0a] =
          concat (map with_nl (map show_item (marked (with_events its events))))"
        using marked_facts(4) by (intro join_lines) simp
      then show ?thesis unfolding finish_sanitizing_def z Inr lines [OF len] Let_def sum.case out by simp
    qed (simp add: finish_sanitizing_def z)
    then show ?thesis using Some Inr by (simp add: sanitize_text_def sanitize_lines_items)
  qed (use Some in \<open>simp add: sanitize_text_def sanitize_lines_items\<close>)
qed (simp add: sanitize_text_def sanitize_lines_items)

lemma recheck_lines_ok: "recheck_lines ls = Inr () \<longleftrightarrow> (\<forall>l\<in>set ls. \<forall>rest. strip_prefix ''#'' l = Some rest \<longrightarrow> scan_str rest = [])"
  by (induction ls) (auto split: option.splits)

lemma sanitize_text_clean:
  assumes "sanitize_text text = Some (Inr out)"
  shows "sanitize_text out = Some (Inr out) \<and>
    (\<forall>line\<in>set (lines out). \<forall>rest. strip_prefix ''#'' line = Some rest \<longrightarrow> scan_str rest = []) \<and>
    (\<exists>its its'. items_of (lines text) = Some (Inr its) \<and> items_of (lines out) = Some (Inr its') \<and>
      shape (item_events its') = shape (item_events its) \<and> scan_events (item_events its') = [])"
proof -
  obtain its events where its: "items_of (lines text) = Some (Inr its)" "redact_events (item_events its) = Inr events"
    "recheck_lines (map show_item (marked (with_events its events))) = Inr ()"
    "out = concat (map with_nl (map show_item (marked (with_events its events))))"
  proof -
    obtain its where i: "items_of (lines text) = Some (Inr its)" and r: "(case redact_events (item_events its) of
         Inl e \<Rightarrow> Inl (RedactFailed e)
       | Inr events \<Rightarrow>
           if scan_events events \<noteq> [] then Inl SensitiveStreams
           else let out = map show_item (marked (with_events its events)) in
             and_then (recheck_lines out) (\<lambda>_. Inr (concat (map with_nl out)))) = Inr out"
      using assms unfolding sanitize_text_items by (auto simp only: and_then_eq_Inr_iff map_option_eq_Some)
    then obtain events where e: "redact_events (item_events its) = Inr events"
      by (cases "redact_events (item_events its)") auto
    with r have "recheck_lines (map show_item (marked (with_events its events))) = Inr ()"
      "out = concat (map with_nl (map show_item (marked (with_events its events))))"
      by (auto simp: and_then_iffs Let_def split: if_splits)
    with i e that show thesis by blast
  qed
  note clean = redact_events_clean [OF its(2)]
  let ?m = "marked (with_events its events)"
  have "list_all item_good its" using items_of_good [OF its(1)] lines_no_newline by blast
  then have w: "list_all item_good (with_events its events)" "item_events (with_events its events) = events"
    using with_events_good clean(1) by blast+
  then have m: "list_all item_good ?m" "item_events ?m = events" "with_events ?m events = ?m"
    using marked_facts with_own_events by metis+
  have l: "lines out = map show_item ?m" "items_of (lines out) = Some (Inr ?m)"
    using lines_of_show [OF m(1)] items_of_show [OF m(1)] its(4) by simp_all
  have "sanitize_text out = Some (Inr out)"
    unfolding sanitize_text_items l(2) using clean its(3,4) m marked_facts(1) by (simp add: Let_def)
  moreover have "\<forall>line\<in>set (lines out). \<forall>rest. strip_prefix ''#'' line = Some rest \<longrightarrow> scan_str rest = []"
    unfolding l(1) using its(3) by (simp only: recheck_lines_ok)
  moreover have "shape (item_events ?m) = shape (item_events its) \<and> scan_events (item_events ?m) = []" using m(2) clean by simp
  ultimately show ?thesis using its(1) l(2) by blast
qed

lemma sanitize_text_idem: "sanitize_text contents = Some (Inr cleaned) \<Longrightarrow> sanitize_text cleaned = Some (Inr cleaned)"
  by (simp only: sanitize_text_clean)


definition sample_text :: string where
  "sample_text = with_nl ''# x: y'' @ with_nl ''N< 4e47'' @ with_nl ''@2 +7us N<  43 31'' @ with_nl ''N>''"

definition sample_clean :: string where
  "sample_clean = with_nl ''# sanitizer: wingcapture/3'' @ with_nl ''# x: y'' @ with_nl ''N< 4e47'' @ with_nl ''@2 +7us N< 4330'' @ with_nl ''N> ''"


end
