(* ===== verification/Publish.thy ===== *)
theory Publish
  imports Rust_Num Rust_Split
begin

text \<open>
  The publication of tool outputs (\<open>tools/atomic_write.rs\<close>): every output is staged beside its
  destination, existing destinations are moved to backups, the staged files are renamed into place, and a
  failure part-way rolls back. The disk is a map from paths to files; every system call that changes it
  draws from a script whether it fails. Queries (\<open>symlink_metadata\<close>, \<open>exists\<close>) do not fail, and no other
  process changes the files meanwhile.
\<close>

section \<open>The disk\<close>

text \<open>A path is its directory and its file name.\<close>

datatype path = Path (parent_dir: "string list") (file_name: string)

datatype dirent = Regular "byte list" | Symlink | Directory

datatype fs_error = NotFound | AlreadyExists | IsDirectory | Refused

text \<open>A fault of a write leaves that many bytes written.\<close>

record Disk =
  dk_files :: "path \<rightharpoonup> dirent"
  dk_faults :: "nat option list"
  dk_pid :: nat
  dk_next :: u64

definition draw :: "Disk \<Rightarrow> nat option \<times> Disk" where
  "draw d = (case dk_faults d of [] \<Rightarrow> (None, d) | x # xs \<Rightarrow> (x, d\<lparr>dk_faults := xs\<rparr>))"

definition remove_file :: "path \<Rightarrow> Disk \<Rightarrow> (fs_error + unit) \<times> Disk" where
  "remove_file p d =
     (case draw d of
        (Some _, d) \<Rightarrow> (Inl Refused, d)
      | (None, d) \<Rightarrow>
          (case dk_files d p of
             None \<Rightarrow> (Inl NotFound, d)
           | Some Directory \<Rightarrow> (Inl IsDirectory, d)
           | Some _ \<Rightarrow> (Inr (), d\<lparr>dk_files := (dk_files d)(p := None)\<rparr>)))"

definition rename :: "path \<Rightarrow> path \<Rightarrow> Disk \<Rightarrow> (fs_error + unit) \<times> Disk" where
  "rename a b d =
     (case draw d of
        (Some _, d) \<Rightarrow> (Inl Refused, d)
      | (None, d) \<Rightarrow>
          (case dk_files d a of
             None \<Rightarrow> (Inl NotFound, d)
           | Some x \<Rightarrow>
               if dk_files d b = Some Directory then (Inl IsDirectory, d)
               else (Inr (), d\<lparr>dk_files := (dk_files d)(a := None, b \<mapsto> x)\<rparr>)))"

definition hard_link :: "path \<Rightarrow> path \<Rightarrow> Disk \<Rightarrow> (fs_error + unit) \<times> Disk" where
  "hard_link a b d =
     (case draw d of
        (Some _, d) \<Rightarrow> (Inl Refused, d)
      | (None, d) \<Rightarrow>
          (case dk_files d a of
             None \<Rightarrow> (Inl NotFound, d)
           | Some x \<Rightarrow>
               if dk_files d b \<noteq> None then (Inl AlreadyExists, d)
               else (Inr (), d\<lparr>dk_files := (dk_files d)(b \<mapsto> x)\<rparr>)))"

text \<open>\<open>create_new\<close>, \<open>write_all\<close> and \<open>sync_all\<close>.\<close>

definition write_new :: "path \<Rightarrow> byte list \<Rightarrow> Disk \<Rightarrow> (fs_error + unit) \<times> Disk" where
  "write_new p contents d =
     (case draw d of
        (Some _, d) \<Rightarrow> (Inl Refused, d)
      | (None, d) \<Rightarrow>
          if dk_files d p \<noteq> None then (Inl AlreadyExists, d)
          else (case draw d of
              (Some n, d) \<Rightarrow> (Inl Refused, d\<lparr>dk_files := (dk_files d)(p \<mapsto> Regular (take n contents))\<rparr>)
            | (None, d) \<Rightarrow>
                (case draw (d\<lparr>dk_files := (dk_files d)(p \<mapsto> Regular contents)\<rparr>) of
                   (Some _, d) \<Rightarrow> (Inl Refused, d)
                 | (None, d) \<Rightarrow> (Inr (), d))))"

section \<open>Publication\<close>

definition staged_path :: "path \<Rightarrow> string \<Rightarrow> Disk \<Rightarrow> path \<times> Disk" where
  "staged_path p suff d =
     (Path (parent_dir p) (''.'' @ file_name p @ ''.'' @ show_nat (dk_pid d) @ ''.'' @ show_nat (unat (dk_next d)) @ ''.'' @ suff),
      d\<lparr>dk_next := dk_next d + 1\<rparr>)"

text \<open>The error of a publication: a destination that is not a regular file, or the error with those of the rollback.\<close>

datatype publish_error = NonRegular path | Publication fs_error "path list"

type_synonym out_file = "path \<times> byte list"

fun non_regular :: "out_file list \<Rightarrow> Disk \<Rightarrow> path option" where
  "non_regular [] d = None"
| "non_regular ((p, _) # outputs) d =
     (case dk_files d p of
        Some Symlink \<Rightarrow> Some p
      | Some Directory \<Rightarrow> Some p
      | _ \<Rightarrow> non_regular outputs d)"

text \<open>\<open>let _ = remove_file(..)\<close> for each.\<close>

fun remove_all :: "path list \<Rightarrow> Disk \<Rightarrow> Disk" where
  "remove_all [] d = d"
| "remove_all (p # ps) d = remove_all ps (snd (remove_file p d))"

fun stage_outputs :: "out_file list \<Rightarrow> path list \<Rightarrow> Disk \<Rightarrow> (publish_error + path list) \<times> Disk" where
  "stage_outputs [] staged d = (Inr staged, d)"
| "stage_outputs ((p, contents) # outputs) staged d =
     (case staged_path p ''tmp'' d of (temp, d) \<Rightarrow>
      case write_new temp contents d of
        (Inl e, d) \<Rightarrow> (Inl (Publication e []), remove_all staged d)
      | (Inr _, d) \<Rightarrow> stage_outputs outputs (staged @ [temp]) d)"

text \<open>The rollback, from the last backup to the first; the paths it could not restore.\<close>

fun restore_backups :: "(path \<times> path) list \<Rightarrow> Disk \<Rightarrow> path list \<times> Disk" where
  "restore_backups [] d = ([], d)"
| "restore_backups ((original, saved) # backups) d =
     (case rename saved original d of (r, d) \<Rightarrow>
      case restore_backups backups d of (errs, d) \<Rightarrow>
        ((case r of Inl _ \<Rightarrow> [original] | Inr _ \<Rightarrow> []) @ errs, d))"

fun remove_published :: "path list \<Rightarrow> Disk \<Rightarrow> path list \<times> Disk" where
  "remove_published [] d = ([], d)"
| "remove_published (p # ps) d =
     (case remove_file p d of (r, d) \<Rightarrow>
      case remove_published ps d of (errs, d) \<Rightarrow> ((case r of Inl _ \<Rightarrow> [p] | Inr _ \<Rightarrow> []) @ errs, d))"

definition back_up :: "path \<Rightarrow> path \<Rightarrow> Disk \<Rightarrow> (fs_error + unit) \<times> Disk" where
  "back_up p backup d =
     (case hard_link p backup d of
        (Inl e, d) \<Rightarrow> (Inl e, d)
      | (Inr _, d) \<Rightarrow>
          (case remove_file p d of
             (Inl e, d) \<Rightarrow> (Inl e, snd (remove_file backup d))
           | (Inr _, d) \<Rightarrow> (Inr (), d)))"

fun backup_outputs :: "out_file list \<Rightarrow> path list \<Rightarrow> (path \<times> path) list \<Rightarrow> Disk \<Rightarrow>
    (publish_error + (path \<times> path) list) \<times> Disk" where
  "backup_outputs [] staged backups d = (Inr backups, d)"
| "backup_outputs ((p, _) # outputs) staged backups d =
     (if dk_files d p \<noteq> None then
        (case staged_path p ''bak'' d of (backup, d) \<Rightarrow>
         case back_up p backup d of
           (Inl e, d) \<Rightarrow>
             (case restore_backups (rev backups) d of (errs, d) \<Rightarrow>
                (Inl (Publication e errs), remove_all staged d))
         | (Inr _, d) \<Rightarrow> backup_outputs outputs staged (backups @ [(p, backup)]) d)
      else backup_outputs outputs staged backups d)"

fun rename_outputs :: "(path \<times> path) list \<Rightarrow> path list \<Rightarrow> (path \<times> path) list \<Rightarrow> Disk \<Rightarrow>
    (publish_error + unit) \<times> Disk" where
  "rename_outputs [] published backups d = (Inr (), d)"
| "rename_outputs ((p, temp) # rest) published backups d =
     (case rename temp p d of
        (Inl e, d) \<Rightarrow>
          (case remove_published published d of (errs, d) \<Rightarrow>
           case restore_backups (rev backups) d of (errs', d) \<Rightarrow>
             (Inl (Publication e (errs @ errs')), remove_all (temp # map snd rest) d))
      | (Inr _, d) \<Rightarrow> rename_outputs rest (published @ [p]) backups d)"

definition publish_outputs :: "out_file list \<Rightarrow> Disk \<Rightarrow> (publish_error + unit) \<times> Disk" where
  "publish_outputs outputs d =
     (case non_regular outputs d of
        Some p \<Rightarrow> (Inl (NonRegular p), d)
      | None \<Rightarrow>
          (case stage_outputs outputs [] d of
             (Inl e, d) \<Rightarrow> (Inl e, d)
           | (Inr staged, d) \<Rightarrow>
               (case backup_outputs outputs staged [] d of
                  (Inl e, d) \<Rightarrow> (Inl e, d)
                | (Inr backups, d) \<Rightarrow>
                    (case rename_outputs (zip (map fst outputs) staged) [] backups d of
                       (Inl e, d) \<Rightarrow> (Inl e, d)
                     | (Inr _, d) \<Rightarrow> (Inr (), remove_all (map snd backups) d)))))"

section \<open>System calls\<close>

definition hidden :: "path \<Rightarrow> bool" where
  "hidden p \<longleftrightarrow> starts_with ''.'' (file_name p)"

lemma draw_files [simp]: "dk_files (snd (draw d)) = dk_files d"
  by (simp add: draw_def split: list.split)

lemma draw_eq: "draw d = (r, d') \<Longrightarrow> dk_files d' = dk_files d"
  using draw_files [of d] by simp

lemma remove_file_cases:
  assumes "remove_file p d = (r, d')"
  obtains e where "r = Inl e" "dk_files d' = dk_files d"
  | "r = Inr ()" "dk_files d' = (dk_files d)(p := None)"
  using assms unfolding remove_file_def
  by (auto split: prod.splits option.splits dirent.splits dest!: draw_eq)

lemma rename_cases:
  assumes "rename a b d = (r, d')"
  obtains e where "r = Inl e" "dk_files d' = dk_files d"
  | x where "r = Inr ()" "dk_files d a = Some x" "dk_files d' = (dk_files d)(a := None, b \<mapsto> x)"
  using assms unfolding rename_def
  by (auto split: prod.splits option.splits if_splits dest!: draw_eq)

lemma hard_link_cases:
  assumes "hard_link a b d = (r, d')"
  obtains e where "r = Inl e" "dk_files d' = dk_files d"
  | x where "r = Inr ()" "dk_files d a = Some x" "dk_files d b = None" "dk_files d' = (dk_files d)(b \<mapsto> x)"
  using assms unfolding hard_link_def
  by (auto split: prod.splits option.splits if_splits dest!: draw_eq)

lemma write_new_cases:
  assumes "write_new p contents d = (r, d')"
  obtains e x where "r = Inl e" "dk_files d' = (dk_files d)(p := x)"
  | "r = Inr ()" "dk_files d p = None" "dk_files d' = (dk_files d)(p \<mapsto> Regular contents)"
proof -
  consider (refused) e where "r = Inl e" "dk_files d' = dk_files d"
    | (part) x where "r = Inl Refused" "dk_files d' = (dk_files d)(p \<mapsto> x)"
    | (finished) "r = Inr ()" "dk_files d p = None" "dk_files d' = (dk_files d)(p \<mapsto> Regular contents)"
    using assms unfolding write_new_def
    by (auto split: prod.splits option.splits if_splits dest!: draw_eq)
  then show ?thesis using that by cases (metis fun_upd_triv, auto)
qed

lemma staged_path_eq: "staged_path p suff d = (q, d') \<Longrightarrow> hidden q \<and> dk_files d' = dk_files d"
  by (auto simp: staged_path_def hidden_def starts_with_iff)

lemma remove_all_files: "dk_files (remove_all ps d) q = dk_files d q \<or> q \<in> set ps \<and> dk_files (remove_all ps d) q = None"
proof (induction ps arbitrary: d)
  case (Cons p ps)
  obtain r d1 where r: "remove_file p d = (r, d1)" by force
  then have "dk_files d1 q = dk_files d q \<or> q = p \<and> dk_files d1 q = None" by (cases rule: remove_file_cases) auto
  then show ?case using Cons [of d1] r by auto
qed simp

lemma remove_all_other: "q \<notin> set ps \<Longrightarrow> dk_files (remove_all ps d) q = dk_files d q"
  using remove_all_files [of ps d q] by blast

section \<open>Rolling back\<close>

lemma restore_backups_files:
  assumes "restore_backups bs d = (errs, d')"
    and "distinct (map fst bs)" and "distinct (map snd bs)" and "fst ` set bs \<inter> snd ` set bs = {}"
  shows "q \<notin> fst ` set bs \<Longrightarrow> q \<notin> snd ` set bs \<Longrightarrow> dk_files d' q = dk_files d q"
    and "(p, b) \<in> set bs \<Longrightarrow> p \<notin> set errs \<Longrightarrow> dk_files d' p = dk_files d b"
    and "(p, b) \<in> set bs \<Longrightarrow> dk_files d' p = dk_files d b \<or> dk_files d' b = dk_files d b"
proof -
  have "(\<forall>q. q \<notin> fst ` set bs \<longrightarrow> q \<notin> snd ` set bs \<longrightarrow> dk_files d' q = dk_files d q) \<and> set errs \<subseteq> fst ` set bs \<and>
    (\<forall>(p, b)\<in>set bs. p \<notin> set errs \<and> dk_files d' p = dk_files d b \<or> p \<in> set errs \<and> dk_files d' b = dk_files d b)"
    using assms
  proof (induction bs arbitrary: d errs)
    case (Cons pb bs)
    obtain p b where pb: "pb = (p, b)" by (cases pb)
    obtain r d1 where r: "rename b p d = (r, d1)" by force
    obtain es where es: "restore_backups bs d1 = (es, d')" "errs = (case r of Inl _ \<Rightarrow> [p] | Inr _ \<Rightarrow> []) @ es"
      using Cons.prems(1) r pb by (auto split: prod.splits)
    have ih: "\<forall>q. q \<notin> fst ` set bs \<longrightarrow> q \<notin> snd ` set bs \<longrightarrow> dk_files d' q = dk_files d1 q" "set es \<subseteq> fst ` set bs"
      "\<forall>(p, b)\<in>set bs. p \<notin> set es \<and> dk_files d' p = dk_files d1 b \<or> p \<in> set es \<and> dk_files d' b = dk_files d1 b"
      using Cons.IH [OF es(1)] Cons.prems by auto
    have fresh: "p \<notin> fst ` set bs" "p \<notin> snd ` set bs" "b \<notin> fst ` set bs" "b \<notin> snd ` set bs" "p \<noteq> b"
      using Cons.prems pb by auto
    from r show ?case
    proof (cases rule: rename_cases)
      case (1 e)
      then show ?thesis using ih fresh es(2) pb by (auto simp: case_prod_beta)
    next
      case (2 x)
      have same: "dk_files d1 b' = dk_files d b'" if "(p', b') \<in> set bs" for p' b'
        using 2(3) fresh that by (force simp: image_iff)
      have "\<forall>(p, b)\<in>set bs. p \<notin> set es \<and> dk_files d' p = dk_files d b \<or> p \<in> set es \<and> dk_files d' b = dk_files d b"
        using ih(3) same by fastforce
      moreover have "dk_files d' p = dk_files d b" "p \<notin> set es" using ih(1,2) fresh 2 by auto
      moreover have "dk_files d' q = dk_files d q" if "q \<notin> fst ` set bs" "q \<notin> snd ` set bs" "q \<noteq> p" "q \<noteq> b" for q
        using ih(1) that 2(3) by simp
      ultimately show ?thesis using ih(2) es(2) pb 2(1) by auto
    qed
  qed simp
  then show "q \<notin> fst ` set bs \<Longrightarrow> q \<notin> snd ` set bs \<Longrightarrow> dk_files d' q = dk_files d q"
    and "(p, b) \<in> set bs \<Longrightarrow> p \<notin> set errs \<Longrightarrow> dk_files d' p = dk_files d b"
    and "(p, b) \<in> set bs \<Longrightarrow> dk_files d' p = dk_files d b \<or> dk_files d' b = dk_files d b"
    by (fast, fast, fast)
qed

lemma remove_published_files:
  assumes "remove_published ps d = (errs, d')"
  shows "dk_files d' q = dk_files d q \<or> q \<in> set ps \<and> dk_files d' q = None"
    and "q \<in> set ps \<Longrightarrow> q \<in> set errs \<or> dk_files d' q = None"
proof -
  have all: "(dk_files d' q = dk_files d q \<or> q \<in> set ps \<and> dk_files d' q = None) \<and>
      (q \<in> set ps \<longrightarrow> q \<in> set errs \<or> dk_files d' q = None)"
    using assms
  proof (induction ps arbitrary: d errs)
    case (Cons p ps)
    obtain r d1 where r: "remove_file p d = (r, d1)" by force
    obtain es where es: "remove_published ps d1 = (es, d')" "errs = (case r of Inl _ \<Rightarrow> [p] | Inr _ \<Rightarrow> []) @ es"
      using Cons.prems r by (auto split: prod.splits)
    from r show ?case using Cons.IH [OF es(1)] es(2) by (cases rule: remove_file_cases) (auto split: if_splits)
  qed simp
  from all show "dk_files d' q = dk_files d q \<or> q \<in> set ps \<and> dk_files d' q = None" by blast
  from all show "q \<in> set ps \<Longrightarrow> q \<in> set errs \<or> dk_files d' q = None" by simp
qed

lemma remove_published_errs: "remove_published ps d = (errs, d') \<Longrightarrow> set errs \<subseteq> set ps"
proof (induction ps arbitrary: d errs)
  case (Cons p ps)
  then show ?case by (fastforce split: prod.splits sum.splits)
qed simp

text \<open>The backups of the original files \<open>f\<close> are in place, apart from the staged files.\<close>

definition backed_up :: "(path \<rightharpoonup> dirent) \<Rightarrow> path list \<Rightarrow> (path \<times> path) list \<Rightarrow> Disk \<Rightarrow> bool" where
  "backed_up f staged bs d \<longleftrightarrow>
     distinct (map fst bs) \<and> distinct (map snd bs) \<and> list_all hidden staged \<and>
     (\<forall>(p, b)\<in>set bs. \<not> hidden p \<and> hidden b \<and> b \<notin> set staged \<and> dk_files d b = f p \<and> f p \<noteq> None)"

fun unrestored :: "publish_error \<Rightarrow> path set" where
  "unrestored (NonRegular p) = {}"
| "unrestored (Publication e errs) = set errs"

text \<open>What a failure leaves: every visible file as before, apart from those it names, and no contents lost.\<close>

definition rolled_back :: "(path \<rightharpoonup> dirent) \<Rightarrow> publish_error \<Rightarrow> Disk \<Rightarrow> bool" where
  "rolled_back f e d \<longleftrightarrow>
     (\<forall>q. \<not> hidden q \<longrightarrow> q \<notin> unrestored e \<longrightarrow> dk_files d q = f q) \<and>
     (\<forall>q x. \<not> hidden q \<longrightarrow> f q = Some x \<longrightarrow> (\<exists>q'. dk_files d q' = Some x))"

lemma rolled_backI: "(\<And>q. \<not> hidden q \<Longrightarrow> dk_files d q = f q) \<Longrightarrow> rolled_back f e d"
  unfolding rolled_back_def by metis

lemma rollback:
  assumes ok: "backed_up f staged bs d" and restore: "restore_backups (rev bs) d = (errs, d1)"
    and others: "\<And>q. \<not> hidden q \<Longrightarrow> q \<notin> fst ` set bs \<Longrightarrow> q \<notin> set errs0 \<Longrightarrow> dk_files d q = f q"
    and E: "\<And>q. q \<in> set errs0 \<Longrightarrow> q \<notin> fst ` set bs \<Longrightarrow> f q = None"
    and T: "set T \<subseteq> set staged"
  shows "rolled_back f (Publication e (errs0 @ errs)) (remove_all T d1)"
proof -
  let ?d = "remove_all T d1"
  have "\<forall>p\<in>fst ` set bs. \<not> hidden p" "\<forall>b\<in>snd ` set bs. hidden b" using ok by (auto simp: backed_up_def)
  then have "fst ` set (rev bs) \<inter> snd ` set (rev bs) = {}" by force
  moreover have "distinct (map fst (rev bs))" "distinct (map snd (rev bs))"
    using ok by (simp_all add: backed_up_def rev_map [symmetric])
  ultimately have dis: "distinct (map fst (rev bs))" "distinct (map snd (rev bs))" "fst ` set (rev bs) \<inter> snd ` set (rev bs) = {}"
    by blast+
  note r = restore_backups_files [OF restore dis, simplified]
  have hid: "list_all hidden T" using ok T by (auto simp: backed_up_def list_all_iff)
  have vis: "dk_files ?d q = dk_files d1 q" if "\<not> hidden q" for q
    using hid that by (intro remove_all_other) (auto simp: list_all_iff)
  have bk: "\<not> hidden p" "hidden b" "dk_files ?d b = dk_files d1 b" "dk_files d b = f p" if "(p, b) \<in> set bs" for p b
    using ok that T by (auto simp: backed_up_def intro!: remove_all_other)
  have out: "dk_files d1 q = dk_files d q" if "\<not> hidden q" "q \<notin> fst ` set bs" for q
    using that bk(2) by (intro r(1)) auto
  have "dk_files ?d q = f q" if "\<not> hidden q" "q \<notin> set (errs0 @ errs)" for q
  proof (cases "q \<in> fst ` set bs")
    case True
    then obtain b where b: "(q, b) \<in> set bs" by auto
    then show ?thesis using r(2) [OF b] bk(4) [OF b] vis that by simp
  next
    case False
    then show ?thesis using out others vis that by simp
  qed
  moreover have "\<exists>q'. dk_files ?d q' = Some x" if "\<not> hidden q" "f q = Some x" for q x
  proof (cases "q \<in> fst ` set bs")
    case True
    then obtain b where b: "(q, b) \<in> set bs" by auto
    then show ?thesis using r(3) [OF b] bk(3,4) [OF b] vis that by metis
  next
    case False
    then show ?thesis using out others vis E that by (metis option.distinct(1))
  qed
  ultimately show ?thesis by (simp add: rolled_back_def)
qed

section \<open>The three phases\<close>

lemma stage_outputs_files:
  assumes "stage_outputs outputs staged d = (r, d')" and "list_all hidden staged"
  shows "case r of
      Inr all \<Rightarrow> \<exists>temps. all = staged @ temps \<and> list_all hidden temps \<and>
        list_all2 (\<lambda>(p, c) t. dk_files d' t = Some (Regular c)) outputs temps \<and> distinct temps \<and>
        (\<forall>t\<in>set temps. dk_files d t = None) \<and> (\<forall>q. q \<notin> set temps \<longrightarrow> dk_files d' q = dk_files d q)
    | Inl e \<Rightarrow> rolled_back (dk_files d) e d'"
  using assms
proof (induction outputs staged d rule: stage_outputs.induct)
  case (2 p contents outputs staged d)
  obtain temp d1 where t: "staged_path p ''tmp'' d = (temp, d1)" by force
  obtain w d2 where w: "write_new temp contents d1 = (w, d2)" by force
  have th: "hidden temp" "dk_files d1 = dk_files d" using staged_path_eq [OF t] by auto
  from w show ?case
  proof (cases rule: write_new_cases)
    case (1 e x)
    have "dk_files (remove_all staged d2) q = dk_files d q" if "\<not> hidden q" for q
    proof -
      have "dk_files (remove_all staged d2) q = dk_files d2 q"
        using 2(3) that by (intro remove_all_other) (auto simp: list_all_iff)
      then show ?thesis using 1 th that by auto
    qed
    then have "rolled_back (dk_files d) (Publication e []) (remove_all staged d2)" by (rule rolled_backI)
    then show ?thesis using 2(2) t w 1(1) by auto
  next
    case wrote: 2
    then have rec: "stage_outputs outputs (staged @ [temp]) d2 = (r, d')" using "2.prems"(1) t w by simp
    have ih: "case r of
        Inr all \<Rightarrow> \<exists>temps. all = (staged @ [temp]) @ temps \<and> list_all hidden temps \<and>
          list_all2 (\<lambda>(p, c) t. dk_files d' t = Some (Regular c)) outputs temps \<and> distinct temps \<and>
          (\<forall>t\<in>set temps. dk_files d2 t = None) \<and> (\<forall>q. q \<notin> set temps \<longrightarrow> dk_files d' q = dk_files d2 q)
      | Inl e \<Rightarrow> rolled_back (dk_files d2) e d'"
      using "2.IH" [OF t [symmetric] w [symmetric] _ rec] wrote(1) "2.prems"(2) th by simp
    show ?thesis
    proof (cases r)
      case (Inl e)
      have "\<not> hidden q \<Longrightarrow> dk_files d2 q = dk_files d q" for q using wrote th by auto
      then show ?thesis using ih Inl by (simp add: rolled_back_def)
    next
      case (Inr all)
      then obtain temps where temps: "all = (staged @ [temp]) @ temps" "list_all hidden temps"
        "list_all2 (\<lambda>(p, c) t. dk_files d' t = Some (Regular c)) outputs temps" "distinct temps"
        "\<forall>t\<in>set temps. dk_files d2 t = None" "\<forall>q. q \<notin> set temps \<longrightarrow> dk_files d' q = dk_files d2 q" using ih by auto
      have "temp \<notin> set temps" using temps(5) wrote(3) by auto
      then show ?thesis using Inr temps wrote th by (auto intro!: exI [of _ "temp # temps"] split: if_splits)
    qed
  qed
qed auto

text \<open>After the first phase: the staged files, the backups made so far, every other visible file as it was.\<close>

definition backing_up :: "(path \<rightharpoonup> dirent) \<Rightarrow> path list \<Rightarrow> (path \<rightharpoonup> dirent) \<Rightarrow> (path \<times> path) list \<Rightarrow> Disk \<Rightarrow> bool" where
  "backing_up f staged new bs d \<longleftrightarrow>
     backed_up f staged bs d \<and> (\<forall>t\<in>set staged. dk_files d t = new t \<and> new t \<noteq> None) \<and>
     (\<forall>q. \<not> hidden q \<longrightarrow> dk_files d q = (if q \<in> fst ` set bs then None else f q))"

lemma back_up_cases:
  assumes "back_up p b d = (r, d')" and "p \<noteq> b"
  obtains e where "r = Inl e" "dk_files d' = dk_files d"
  | e x where "r = Inl e" "dk_files d b = None" "dk_files d' = (dk_files d)(b := x)"
  | "r = Inr ()" "dk_files d p \<noteq> None" "dk_files d b = None" "dk_files d' = (dk_files d)(b := dk_files d p, p := None)"
proof -
  obtain l d1 where l: "hard_link p b d = (l, d1)" by force
  obtain m d2 where m: "remove_file p d1 = (m, d2)" by force
  obtain n d3 where n: "remove_file b d2 = (n, d3)" by force
  have eq: "back_up p b d = (case l of Inl e \<Rightarrow> (Inl e, d1) | Inr _ \<Rightarrow> (case m of Inl e \<Rightarrow> (Inl e, d3) | Inr _ \<Rightarrow> (Inr (), d2)))"
    using l m n by (simp add: back_up_def split: sum.split)
  from l show ?thesis
  proof (cases rule: hard_link_cases)
    case (1 e)
    then show ?thesis using eq assms(1) that(1) by auto
  next
    case (2 x)
    from m show ?thesis
    proof (cases rule: remove_file_cases)
      case (1 e)
      have "\<exists>x. dk_files d3 = (dk_files d)(b := x)" using n by (cases rule: remove_file_cases) (use 1 2 in auto)
      then show ?thesis using eq assms(1) 1 2 that(2) by auto
    next
      case removed: 2
      then show ?thesis using eq assms 2 that(3) by auto
    qed
  qed
qed

lemma backup_outputs_files:
  assumes "backup_outputs outputs staged bs d = (r, d')" and "backing_up f staged new bs d"
    and "distinct (map fst outputs)" and "\<forall>p\<in>fst ` set outputs. \<not> hidden p \<and> p \<notin> fst ` set bs"
  shows "case r of
      Inr bs' \<Rightarrow> backing_up f staged new bs' d' \<and> fst ` set bs \<subseteq> fst ` set bs' \<and> fst ` set bs' \<subseteq> fst ` set bs \<union> fst ` set outputs \<and>
        (\<forall>p\<in>fst ` set outputs. dk_files d' p = None)
    | Inl e \<Rightarrow> rolled_back f e d'"
  using assms
proof (induction outputs staged bs d rule: backup_outputs.induct)
  case (2 p c outputs staged bs d)
  have p: "\<not> hidden p" "p \<notin> fst ` set bs" "p \<notin> fst ` set outputs" using "2.prems" by auto
  show ?case
  proof (cases "dk_files d p = None")
    case True
    have "case r of
        Inr bs' \<Rightarrow> backing_up f staged new bs' d' \<and> fst ` set bs \<subseteq> fst ` set bs' \<and> fst ` set bs' \<subseteq> fst ` set bs \<union> fst ` set outputs \<and>
          (\<forall>p\<in>fst ` set outputs. dk_files d' p = None)
      | Inl e \<Rightarrow> rolled_back f e d'"
      using "2.IH"(2) True "2.prems" by simp
    moreover have "f p = None" using True "2.prems"(2) p by (simp add: backing_up_def)
    ultimately show ?thesis using p by (auto simp: backing_up_def split: sum.splits)
  next
    case False
    obtain b d1 where b: "staged_path p ''bak'' d = (b, d1)" by force
    have bh: "hidden b" "dk_files d1 = dk_files d" using staged_path_eq [OF b] by auto
    then have pb: "p \<noteq> b" using p by auto
    obtain u d2 where u: "back_up p b d1 = (u, d2)" by force
    have ok: "backed_up f staged bs d" "\<And>t. t \<in> set staged \<Longrightarrow> dk_files d t \<noteq> None"
      "\<And>q. \<not> hidden q \<Longrightarrow> dk_files d q = (if q \<in> fst ` set bs then None else f q)"
      using "2.prems"(2) by (auto simp: backing_up_def)
    have fresh: "b \<notin> set staged" "b \<notin> snd ` set bs" if "dk_files d1 b = None"
      using that bh ok(1,2) by (fastforce simp: backed_up_def)+
    have failed: ?thesis if "u = Inl e" "dk_files d2 = (dk_files d)(b := x)" "dk_files d b = None \<or> x = dk_files d b" for e x
    proof -
      have "backed_up f staged bs d2" using ok(1) that(2,3) fresh bh by (force simp: backed_up_def)
      moreover have "dk_files d2 q = f q" if "\<not> hidden q" "q \<notin> fst ` set bs" for q
        using ok(3) that bh \<open>dk_files d2 = _\<close> by auto
      moreover obtain errs d3 where r: "restore_backups (rev bs) d2 = (errs, d3)" by force
      ultimately have "rolled_back f (Publication e ([] @ errs)) (remove_all staged d3)"
        by (intro rollback [of f staged bs d2]) auto
      then show ?thesis using "2.prems"(1) False b u that(1) r by auto
    qed
    from u pb show ?thesis
    proof (cases rule: back_up_cases)
      case (1 e)
      then show ?thesis using failed [of e "dk_files d b"] bh by simp
    next
      case (2 e x)
      then show ?thesis using failed bh by simp
    next
      case 3
      have rec: "backup_outputs outputs staged (bs @ [(p, b)]) d2 = (r, d')" using "2.prems"(1) False b u 3(1) by simp
      have fp: "f p = dk_files d p" using ok(3) p by simp
      have b_fresh: "b \<notin> set staged" "b \<notin> snd ` set bs" using fresh 3 by auto
      have files: "dk_files d2 = (dk_files d)(b := dk_files d p, p := None)" using 3 bh by simp
      have old: "dk_files d2 b' = f p' \<and> \<not> hidden p' \<and> hidden b' \<and> b' \<notin> set staged \<and> f p' \<noteq> None" if "(p', b') \<in> set bs" for p' b'
      proof -
        have "b' \<noteq> b" using b_fresh that by force
        then show ?thesis using ok(1) that p files by (fastforce simp: backed_up_def)
      qed
      have "dk_files d2 b = f p" using files pb fp by simp
      then have "\<forall>(p', b')\<in>set (bs @ [(p, b)]). \<not> hidden p' \<and> hidden b' \<and> b' \<notin> set staged \<and> dk_files d2 b' = f p' \<and> f p' \<noteq> None"
        using old b_fresh(1) p(1) bh(1) fp False by (simp add: ball_Un) blast
      moreover have "distinct (map fst (bs @ [(p, b)]))" "distinct (map snd (bs @ [(p, b)]))" "list_all hidden staged"
        using ok(1) p b_fresh by (simp_all add: backed_up_def)
      ultimately have "backed_up f staged (bs @ [(p, b)]) d2" by (simp only: backed_up_def)
      moreover have "dk_files d2 t = dk_files d t" if "t \<in> set staged" for t
        using that b_fresh p ok(1) files by (auto simp: backed_up_def list_all_iff)
      moreover have "dk_files d2 q = (if q \<in> fst ` set (bs @ [(p, b)]) then None else f q)" if "\<not> hidden q" for q
        using that ok(3) [OF that] files bh by auto
      ultimately have "backing_up f staged new (bs @ [(p, b)]) d2"
        using "2.prems"(2) by (simp add: backing_up_def)
      then have "case r of
          Inr bs' \<Rightarrow> backing_up f staged new bs' d' \<and> fst ` set (bs @ [(p, b)]) \<subseteq> fst ` set bs' \<and> fst ` set bs' \<subseteq> fst ` set (bs @ [(p, b)]) \<union> fst ` set outputs \<and>
            (\<forall>p\<in>fst ` set outputs. dk_files d' p = None)
        | Inl e \<Rightarrow> rolled_back f e d'"
        using "2.IH"(1) [OF False b [symmetric] u [symmetric] _ rec] 3(1) "2.prems" p by auto
      then show ?thesis using p by (auto simp: backing_up_def split: sum.splits)
    qed
  qed
qed auto

lemma rename_outputs_files:
  assumes "rename_outputs (zip ps temps) published bs d = (r, d')" and "length temps = length ps"
    and "backed_up f staged bs d" and "set temps \<subseteq> set staged" and "distinct temps" and "distinct (published @ ps)"
    and "\<forall>p\<in>set (published @ ps). \<not> hidden p \<and> (p \<notin> fst ` set bs \<longrightarrow> f p = None)" and "fst ` set bs \<subseteq> set (published @ ps)"
    and "\<forall>p\<in>set published. dk_files d p = new p" and "list_all2 (\<lambda>p t. dk_files d t = new p) ps temps"
    and "\<forall>q. \<not> hidden q \<longrightarrow> q \<notin> set published \<longrightarrow> q \<notin> fst ` set bs \<longrightarrow> dk_files d q = f q"
  shows "case r of
      Inr _ \<Rightarrow> (\<forall>p\<in>set (published @ ps). dk_files d' p = new p) \<and>
        (\<forall>q. \<not> hidden q \<longrightarrow> q \<notin> set (published @ ps) \<longrightarrow> dk_files d' q = f q)
    | Inl e \<Rightarrow> rolled_back f e d'"
  using assms
proof (induction ps arbitrary: temps published d)
  case Nil
  then have "\<forall>q. \<not> hidden q \<longrightarrow> q \<notin> set published \<longrightarrow> dk_files d q = f q" by (metis append_Nil2 subset_iff)
  then show ?case using Nil by auto
next
  case (Cons p ps)
  then obtain t ts where t: "temps = t # ts" by (cases temps) auto
  obtain u d1 where u: "rename t p d = (u, d1)" by force
  have th: "hidden t" "t \<notin> set ts" "\<not> hidden p" "p \<notin> set published" "p \<notin> set ps"
    using Cons.prems t by (auto simp: backed_up_def list_all_iff)
  from u show ?case
  proof (cases rule: rename_cases)
    case (1 e)
    obtain errs d2 where rp: "remove_published published d1 = (errs, d2)" by force
    obtain errs' d3 where rb: "restore_backups (rev bs) d2 = (errs', d3)" by force
    have vis: "dk_files d2 q = dk_files d q" if "q \<notin> set published" for q
      using remove_published_files(1) [OF rp, of q] that 1 by auto
    then have "backed_up f staged bs d2"
      using Cons.prems(3,7) by (fastforce simp: backed_up_def)
    then have "rolled_back f (Publication e (errs @ errs')) (remove_all (t # ts) d3)"
    proof (rule rollback [OF _ rb])
      show "dk_files d2 q = f q" if "\<not> hidden q" "q \<notin> fst ` set bs" "q \<notin> set errs" for q
      proof (cases "q \<in> set published")
        case True
        then show ?thesis using remove_published_files(2) [OF rp, of q] that Cons.prems(7) by auto
      next
        case False
        then show ?thesis using vis Cons.prems(11) that by simp
      qed
    next
      show "f q = None" if "q \<in> set errs" "q \<notin> fst ` set bs" for q
      proof -
        show ?thesis using that Cons.prems(7) remove_published_errs [OF rp] by auto
      qed
    next
      show "set (t # ts) \<subseteq> set staged" using Cons.prems(4) t by simp
    qed
    moreover have "map snd (zip ps ts) = ts" using Cons.prems(2) t by simp
    ultimately show ?thesis using Cons.prems(1) t u 1(1) rp rb by auto
  next
    case (2 x)
    have rec: "rename_outputs (zip ps ts) (published @ [p]) bs d1 = (r, d')" using Cons.prems(1) t u 2(1) by simp
    have files: "dk_files d1 = (dk_files d)(t := None, p := new p)" using 2 Cons.prems(10) t by simp
    have ts: "dk_files d1 t' = dk_files d t'" if "t' \<in> set ts" for t'
      using that files th Cons.prems(3,4) t by (auto simp: backed_up_def list_all_iff)
    have "backed_up f staged bs d1"
    proof -
      have "dk_files d1 b = dk_files d b" if "(q, b) \<in> set bs" for q b
        using that files th Cons.prems(3,4) t by (fastforce simp: backed_up_def)
      then show ?thesis using Cons.prems(3) unfolding backed_up_def by fastforce
    qed
    moreover have "list_all2 (\<lambda>p t. dk_files d1 t = new p) ps ts"
    proof (rule list_all2_all_nthI)
      have all: "list_all2 (\<lambda>p t. dk_files d t = new p) ps ts" using Cons.prems(10) t by simp
      then show "length ps = length ts" by (rule list_all2_lengthD)
      then show "dk_files d1 (ts ! n) = new (ps ! n)" if "n < length ps" for n
        using list_all2_nthD [OF all that] ts [of "ts ! n"] that by simp
    qed
    moreover have "\<forall>q\<in>set (published @ [p]). dk_files d1 q = new q"
      using Cons.prems(7,9) files th by auto
    moreover have "\<forall>q. \<not> hidden q \<longrightarrow> q \<notin> set (published @ [p]) \<longrightarrow> q \<notin> fst ` set bs \<longrightarrow> dk_files d1 q = f q"
      using Cons.prems(11) files th by auto
    ultimately show ?thesis
      using Cons.IH [OF rec] Cons.prems(2,4-8) t by (auto split: sum.splits)
  qed
qed

section \<open>Publication is all or nothing\<close>

lemma publish_outputs_ok:
  assumes "distinct (map fst outputs)" and "list_all (\<lambda>(p, _). \<not> hidden p) outputs"
  shows "case publish_outputs outputs d of
      (Inr _, d') \<Rightarrow> (\<forall>q. \<not> hidden q \<longrightarrow> dk_files d' q =
        (case map_of outputs q of Some c \<Rightarrow> Some (Regular c) | None \<Rightarrow> dk_files d q))
    | (Inl e, d') \<Rightarrow> rolled_back (dk_files d) e d'"
proof (cases "non_regular outputs d")
  case (Some p)
  then show ?thesis by (simp add: publish_outputs_def rolled_backI)
next
  case None
  let ?f = "dk_files d" and ?ps = "map fst outputs"
  obtain r1 d1 where s1: "stage_outputs outputs [] d = (r1, d1)" by force
  note st = stage_outputs_files [OF s1]
  show ?thesis
  proof (cases r1)
    case (Inl e)
    then show ?thesis using st None s1 by (simp add: publish_outputs_def)
  next
    case (Inr staged)
    then have st: "list_all hidden staged" "list_all2 (\<lambda>(p, c) t. dk_files d1 t = Some (Regular c)) outputs staged"
      "distinct staged" "\<And>q. \<not> hidden q \<Longrightarrow> dk_files d1 q = ?f q"
      using st by (auto simp: list_all_iff)
    have "\<forall>t\<in>set staged. dk_files d1 t \<noteq> None"
    proof
      fix t assume "t \<in> set staged"
      then obtain n where "n < length staged" "staged ! n = t" by (auto simp: in_set_conv_nth)
      then show "dk_files d1 t \<noteq> None" using list_all2_nthD2 [OF st(2), of n] by (auto split: prod.splits)
    qed
    then have bu: "backing_up ?f staged (dk_files d1) [] d1"
      using st by (simp add: backing_up_def backed_up_def)
    have vis: "\<forall>p\<in>fst ` set outputs. \<not> hidden p" using assms(2) by (auto simp: list_all_iff)
    obtain r2 d2 where s2: "backup_outputs outputs staged [] d1 = (r2, d2)" by force
    note bk = backup_outputs_files [OF s2 bu assms(1)]
    show ?thesis
    proof (cases r2)
      case (Inl e)
      then show ?thesis using bk vis None s1 \<open>r1 = Inr staged\<close> s2 by (simp add: publish_outputs_def)
    next
      case (Inr bs)
      then have bk: "backed_up ?f staged bs d2" "\<And>t. t \<in> set staged \<Longrightarrow> dk_files d2 t = dk_files d1 t"
        "\<And>q. \<not> hidden q \<Longrightarrow> dk_files d2 q = (if q \<in> fst ` set bs then None else ?f q)"
        "fst ` set bs \<subseteq> set ?ps" and none: "\<forall>p\<in>set ?ps. dk_files d2 p = None"
        using bk vis unfolding backing_up_def by (simp, simp, simp, simp, force)
      have "\<forall>p\<in>set ?ps. p \<notin> fst ` set bs \<longrightarrow> ?f p = None" using none bk(3) vis by (metis list.set_map)
      note bk = bk this
      let ?new = "\<lambda>p. map_option Regular (map_of outputs p)"
      obtain r3 d3 where s3: "rename_outputs (zip ?ps staged) [] bs d2 = (r3, d3)" by force
      have "list_all2 (\<lambda>p t. dk_files d2 t = ?new p) ?ps staged"
      proof (rule list_all2_all_nthI)
        show "length ?ps = length staged" using list_all2_lengthD [OF st(2)] by simp
        show "dk_files d2 (staged ! n) = ?new (?ps ! n)" if "n < length ?ps" for n
        proof -
          have n: "n < length outputs" "n < length staged" using that list_all2_lengthD [OF st(2)] by auto
          have "map_of outputs (fst (outputs ! n)) = Some (snd (outputs ! n))"
            using n(1) assms(1) by (intro map_of_is_SomeI) auto
          then show ?thesis using list_all2_nthD [OF st(2) n(1)] bk(2) [of "staged ! n"] n by (simp add: case_prod_beta)
        qed
      qed
      then have rn: "case r3 of
          Inr _ \<Rightarrow> (\<forall>p\<in>set ([] @ ?ps). dk_files d3 p = ?new p) \<and> (\<forall>q. \<not> hidden q \<longrightarrow> q \<notin> set ([] @ ?ps) \<longrightarrow> dk_files d3 q = ?f q)
        | Inl e \<Rightarrow> rolled_back ?f e d3"
        using st(2,3) vis assms(1) bk(3-5) list_all2_lengthD [OF st(2)]
        by (intro rename_outputs_files [OF s3 _ bk(1)]) auto
      have hid: "list_all hidden (map snd bs)" using bk(1) by (auto simp: backed_up_def list_all_iff)
      have "dk_files (remove_all (map snd bs) d3) q = dk_files d3 q" if "\<not> hidden q" for q
        using that hid by (intro remove_all_other) (auto simp: list_all_iff)
      moreover have "map_of outputs q = None \<longleftrightarrow> q \<notin> set ?ps" for q by (simp add: map_of_eq_None_iff)
      moreover have "dk_files d3 q = Some (Regular x)" if "map_of outputs q = Some x" "r3 = Inr ()" for q x
      proof -
        have "(q, x) \<in> set outputs" using that(1) by (rule map_of_SomeD)
        moreover have "\<forall>p\<in>set outputs. dk_files d3 (fst p) = ?new (fst p)" using rn that(2) by simp
        ultimately have "dk_files d3 q = ?new q" by force
        then show ?thesis using that(1) by simp
      qed
      ultimately show ?thesis using rn None s1 \<open>r1 = Inr staged\<close> s2 Inr s3
        by (cases r3) (auto simp: publish_outputs_def split: option.splits)
    qed
  qed
qed


text \<open>Two outputs over one existing file, with the second rename failing.\<close>

definition sample_disk :: Disk where
  "sample_disk = \<lparr>dk_files = [Path [] ''a'' \<mapsto> Regular [1]],
     dk_faults = replicate 9 None @ [Some 0], dk_pid = 7, dk_next = 0\<rparr>"


end
