(* ===== verification/Drive.thy ===== *)
theory Drive
  imports Session Schema Publish Rust_Text
begin

text \<open>
  The driver of a live console (\<open>tools/wingdrive.rs\<close>), as far as it changes the console and has to put back what it
  found: the settled read, \<open>verify_restore\<close>, \<open>drive_restorable_write\<close>, and the capture of model parameters
  (\<open>capture_models\<close>), which switches a slot through every model under the protection of a recovery
  file. The reader and the writer are those of the session, the files those of \<open>Publish\<close>.
\<close>

section \<open>Values\<close>

datatype Snap = SnapStr string | SnapFloat f32 | SnapInt i32

text \<open>\<open>PartialEq\<close> of \<open>Snap\<close>: floats compare as floats.\<close>

fun snap_eq :: "Snap \<Rightarrow> Snap \<Rightarrow> bool" where
  "snap_eq (SnapFloat x) (SnapFloat y) = f32_eq x y"
| "snap_eq a b = (a = b)"

definition snap :: "(f32 \<Rightarrow> string) \<Rightarrow> WingNodeData \<Rightarrow> Snap" where
  "snap show_f32 data =
     (if has_string data then SnapStr (get_string show_f32 data)
      else if has_float data then SnapFloat (get_float data)
      else SnapInt (get_int data))"

definition snap_for_def :: "(f32 \<Rightarrow> string) \<Rightarrow> WingNodeDef \<Rightarrow> WingNodeData \<Rightarrow> Snap" where
  "snap_for_def show_f32 def data =
     (if nd_node_type def = StringEnumT then SnapStr (display_string show_f32 data def) else snap show_f32 data)"

text \<open>The left value is the text of a string enumeration that no label stands for.\<close>

definition restorable_snap_for_def :: "(f32 \<Rightarrow> string) \<Rightarrow> WingNodeDef \<Rightarrow> WingNodeData \<Rightarrow> string + Snap" where
  "restorable_snap_for_def show_f32 def data =
     (if nd_node_type def \<noteq> StringEnumT then Inr (snap show_f32 data)
      else case string_enum_item show_f32 data def of
          Some item \<Rightarrow> Inr (SnapStr item)
        | None \<Rightarrow> Inl (get_string show_f32 data))"

definition f32_is_finite :: "f32 \<Rightarrow> bool" where
  "f32_is_finite x \<longleftrightarrow> take_bit 31 x < 0x7f800000"

definition json_escape_char :: "char \<Rightarrow> string" where
  "json_escape_char c =
     (if c = CHR 0x22 then [CHR 0x5c, CHR 0x22]
      else if c = CHR 0x5c then [CHR 0x5c, CHR 0x5c]
      else if c = CHR 0x0a then [CHR 0x5c, CHR ''n'']
      else if c = CHR 0x0d then [CHR 0x5c, CHR ''r'']
      else if c = CHR 0x09 then [CHR 0x5c, CHR ''t'']
      else if of_char c < (0x20 :: nat) then CHR 0x5c # ''u00'' @ [hex_char (of_char c div 16), hex_char (of_char c mod 16)]
      else [c])"

definition json_escape :: "string \<Rightarrow> string" where
  "json_escape input = concat (map json_escape_char input)"

definition quoted :: "string \<Rightarrow> string" where
  "quoted s = CHR 0x22 # s @ [CHR 0x22]"

text \<open>\<open>{"type":"..","value":..}\<close>; a float that is not finite has none.\<close>

definition json_value :: "string \<Rightarrow> string \<Rightarrow> string" where
  "json_value type val = ''{'' @ quoted ''type'' @ '':'' @ quoted type @ '','' @ quoted ''value'' @ '':'' @ val @ ''}''"

definition snap_json :: "(f32 \<Rightarrow> string) \<Rightarrow> Snap \<Rightarrow> string option" where
  "snap_json show_f32 value =
     (case value of
        SnapInt v \<Rightarrow> Some (json_value ''int'' (show_int (sint v)))
      | SnapFloat v \<Rightarrow> if f32_is_finite v then Some (json_value ''float'' (show_f32 v)) else None
      | SnapStr s \<Rightarrow> Some (json_value ''string'' (quoted (json_escape s))))"

definition path_value_line :: "string \<Rightarrow> string \<Rightarrow> string" where
  "path_value_line node encoded =
     ''{'' @ quoted ''path'' @ '':'' @ quoted (json_escape node) @ '','' @ quoted ''value'' @ '':'' @ encoded @ ''}'' @ [CHR 0x0a]"

fun path_values :: "(f32 \<Rightarrow> string) \<Rightarrow> (string \<times> Snap) list \<Rightarrow> string" where
  "path_values show_f32 [] = []"
| "path_values show_f32 ((node, value) # vals) =
     (case snap_json show_f32 value of None \<Rightarrow> [] | Some encoded \<Rightarrow> path_value_line node encoded)
       @ path_values show_f32 vals"

definition write_path_values :: "(f32 \<Rightarrow> string) \<Rightarrow> path \<Rightarrow> (string \<times> Snap) list \<Rightarrow> Disk \<Rightarrow>
    (publish_error + unit) \<times> Disk" where
  "write_path_values show_f32 p vals = publish_outputs [(p, map of_char (path_values show_f32 vals))]"

section \<open>Settled reads\<close>

text \<open>The last value of the node that arrives within the window; \<open>None\<close>: the script ends while the read waits.\<close>

definition latest :: "i32 \<Rightarrow> (WingNodeData \<Rightarrow> Snap) \<Rightarrow> Snap option \<Rightarrow> WingResponse \<Rightarrow> Snap option" where
  "latest nid snapshot recent resp =
     (case resp of NodeDataR rid data \<Rightarrow> if rid = nid then Some (snapshot data) else recent | _ \<Rightarrow> recent)"

partial_function (option) settle_loop :: "i32 \<Rightarrow> (WingNodeData \<Rightarrow> Snap) \<Rightarrow> instant \<Rightarrow> Snap option \<Rightarrow> Main \<Rightarrow> World \<Rightarrow>
    (Snap option result \<times> Main \<times> World) option" where
  "settle_loop nid snapshot deadline recent r w =
     (case now w of (t, w) \<Rightarrow>
      if t \<ge> deadline then Some (Inr recent, r, w)
      else Option.bind (read_timeout (deadline - t) r w) (\<lambda>(x, r, w).
        case x of
          Inr resp \<Rightarrow> settle_loop nid snapshot deadline (latest nid snapshot recent resp) r w
        | Inl e \<Rightarrow> Some (if e = Timeout then Inr recent else Inl e, r, w)))"

declare settle_loop.simps [code]

definition read_settled_with :: "i32 \<Rightarrow> duration \<Rightarrow> (WingNodeData \<Rightarrow> Snap) \<Rightarrow> Main \<Rightarrow> World \<Rightarrow>
    (Snap result \<times> Main \<times> World) option" where
  "read_settled_with nid window snapshot r w =
     (case request_node_data nid w of
        (Inl e, w) \<Rightarrow> Some (Inl e, r, w)
      | (Inr _, w) \<Rightarrow>
          (case now w of (t, w) \<Rightarrow>
           map_option (\<lambda>(x, r, w).
             (and_then x (\<lambda>recent. case recent of Some v \<Rightarrow> Inr v | None \<Rightarrow> Inl Timeout), r, w))
             (settle_loop nid snapshot (t + window) None r w)))"

definition read_settled :: "(f32 \<Rightarrow> string) \<Rightarrow> i32 \<Rightarrow> duration \<Rightarrow> Main \<Rightarrow> World \<Rightarrow> (Snap result \<times> Main \<times> World) option" where
  "read_settled show_f32 nid window = read_settled_with nid window (snap show_f32)"

definition read_settled_for_def :: "(f32 \<Rightarrow> string) \<Rightarrow> WingNodeDef \<Rightarrow> duration \<Rightarrow> Main \<Rightarrow> World \<Rightarrow>
    (Snap result \<times> Main \<times> World) option" where
  "read_settled_for_def show_f32 def window = read_settled_with (nd_id def) window (snap_for_def show_f32 def)"

section \<open>Restoring one value\<close>

datatype drive_error =
    ConsoleFailed error
  | UnknownTarget string
  | RestoreWrite string error | RestoreRead string error | RestoreDiffers string Snap Snap
  | FinalDiffers string Snap Snap | FinalRead string error
  | NoOriginal string error | NotRestorable string string | NotAString string
  | UnknownModel string string | PseudoModel string string
  | NoSnapshot string error | NotFinite string
  | NotSettled string string
  | Restoring "drive_error list"
  | RecoveryExists path | PublishFailed publish_error | RecoveryKept fs_error

definition verify_restore :: "string \<Rightarrow> Snap \<Rightarrow> unit result \<Rightarrow> Snap result \<Rightarrow> drive_error + unit" where
  "verify_restore p original write_result readback =
     (case write_result of
        Inl e \<Rightarrow> Inl (RestoreWrite p e)
      | Inr _ \<Rightarrow>
          (case readback of
             Inl e \<Rightarrow> Inl (RestoreRead p e)
           | Inr v \<Rightarrow> if snap_eq v original then Inr () else Inl (RestoreDiffers p original v)))"

definition set_snap :: "i32 \<Rightarrow> Snap \<Rightarrow> World \<Rightarrow> unit result \<times> World" where
  "set_snap nid value =
     (case value of
        SnapStr s \<Rightarrow> set_string nid s
      | SnapFloat v \<Rightarrow> set_float nid v
      | SnapInt v \<Rightarrow> set_int nid v)"

datatype WriteVal = WriteInt i32 | WriteStr string

definition drive_restorable_write :: "(f32 \<Rightarrow> string) \<Rightarrow> propmap \<Rightarrow> string \<Rightarrow> WriteVal \<Rightarrow> duration \<Rightarrow> Main \<Rightarrow> World \<Rightarrow>
    ((drive_error + unit) \<times> Main \<times> World) option" where
  "drive_restorable_write show_f32 entries p val timeout r w =
     (case map_of entries p of
        None \<Rightarrow> Some (Inl (UnknownTarget p), r, w)
      | Some def \<Rightarrow>
          (let nid = nd_id def in
           case get_node_data nid timeout r w of
             None \<Rightarrow> None
           | Some (Inl e, r, w) \<Rightarrow> Some (Inl (ConsoleFailed e), r, w)
           | Some (Inr (data, _), r, w) \<Rightarrow>
               (let before = snap show_f32 data in
                case (case val of WriteInt v \<Rightarrow> set_int nid v w | WriteStr s \<Rightarrow> set_string nid s w) of
                  (Inl e, w) \<Rightarrow> Some (Inl (ConsoleFailed e), r, w)
                | (Inr _, w) \<Rightarrow>
                    (case set_snap nid before w of (write_result, w) \<Rightarrow>
                     map_option (\<lambda>(readback, r, w). (verify_restore p before write_result readback, r, w))
                       (read_settled show_f32 nid timeout r w)))))"

section \<open>Capturing the models of a slot\<close>

record Drive =
  dr_main :: Main
  dr_world :: World
  dr_disk :: Disk
  dr_captured :: "(string \<times> Snap) list"

definition on_reader :: "(Main \<Rightarrow> World \<Rightarrow> ('a \<times> Main \<times> World) option) \<Rightarrow> Drive \<Rightarrow> ('a \<times> Drive) option" where
  "on_reader f s = map_option (\<lambda>(x, r, w). (x, s\<lparr>dr_main := r, dr_world := w\<rparr>)) (f (dr_main s) (dr_world s))"

definition on_writer :: "(World \<Rightarrow> 'a \<times> World) \<Rightarrow> Drive \<Rightarrow> 'a \<times> Drive" where
  "on_writer f s = (case f (dr_world s) of (x, w) \<Rightarrow> (x, s\<lparr>dr_world := w\<rparr>))"

definition on_disk :: "(Disk \<Rightarrow> 'a \<times> Disk) \<Rightarrow> Drive \<Rightarrow> 'a \<times> Drive" where
  "on_disk f s = (case f (dr_disk s) of (x, d) \<Rightarrow> (x, s\<lparr>dr_disk := d\<rparr>))"

type_synonym saved = "string \<times> WingNodeDef \<times> Snap"

text \<open>The selector's value: the label of a model that can be selected again.\<close>

definition original_selector :: "(f32 \<Rightarrow> string) \<Rightarrow> string \<Rightarrow> WingNodeDef \<Rightarrow> WingNodeData \<Rightarrow> drive_error + string" where
  "original_selector show_f32 mdl_path mdl_def data =
     (case restorable_snap_for_def show_f32 mdl_def data of
        Inl unknown \<Rightarrow> Inl (NotRestorable mdl_path unknown)
      | Inr (SnapStr original) \<Rightarrow>
          if \<not> (case nd_string_enum mdl_def of None \<Rightarrow> False | Some items \<Rightarrow> original \<in> se_item ` set items)
          then Inl (UnknownModel original mdl_path)
          else if CHR ''*'' \<in> set original then Inl (PseudoModel mdl_path original)
          else Inr original
      | Inr _ \<Rightarrow> Inl (NotAString mdl_path))"

fun snapshot_leaves :: "(f32 \<Rightarrow> string) \<Rightarrow> duration \<Rightarrow> (string \<times> WingNodeDef) list \<Rightarrow> saved list \<Rightarrow> Drive \<Rightarrow>
    ((drive_error + saved list) \<times> Drive) option" where
  "snapshot_leaves show_f32 timeout [] saved s = Some (Inr saved, s)"
| "snapshot_leaves show_f32 timeout ((p, def) # leaves) saved s =
     (case on_reader (get_node_data (nd_id def) timeout) s of
        None \<Rightarrow> None
      | Some (Inl e, s) \<Rightarrow> Some (Inl (NoSnapshot p e), s)
      | Some (Inr (data, _), s) \<Rightarrow>
          (case restorable_snap_for_def show_f32 def data of
             Inl unknown \<Rightarrow> Some (Inl (NotRestorable p unknown), s)
           | Inr value \<Rightarrow>
               if (case value of SnapFloat v \<Rightarrow> \<not> f32_is_finite v | _ \<Rightarrow> False) then Some (Inl (NotFinite p), s)
               else snapshot_leaves show_f32 timeout leaves (saved @ [(p, def, value)]) s))"

definition get_node_data_by_name :: "propmap \<Rightarrow> string \<Rightarrow> duration \<Rightarrow> Main \<Rightarrow> World \<Rightarrow>
    ((WingNodeData \<times> WingResponse list) result \<times> Main \<times> World) option" where
  "get_node_data_by_name entries fullname timeout r w =
     (case name_to_id entries fullname of
        None \<Rightarrow> Some (Inl InvalidInput, r, w)
      | Some nid \<Rightarrow> get_node_data nid timeout r w)"

fun capture_params :: "(f32 \<Rightarrow> string) \<Rightarrow> propmap \<Rightarrow> duration \<Rightarrow> string list \<Rightarrow> Drive \<Rightarrow>
    ((drive_error + unit) \<times> Drive) option" where
  "capture_params show_f32 entries timeout [] s = Some (Inr (), s)"
| "capture_params show_f32 entries timeout (p # ps) s =
     (case on_reader (get_node_data_by_name entries p timeout) s of
        None \<Rightarrow> None
      | Some (Inl e, s) \<Rightarrow> Some (Inl (ConsoleFailed e), s)
      | Some (Inr (data, _), s) \<Rightarrow>
          capture_params show_f32 entries timeout ps (s\<lparr>dr_captured := dr_captured s @ [(p, snap show_f32 data)]\<rparr>))"

fun capture_each :: "(f32 \<Rightarrow> string) \<Rightarrow> propmap \<Rightarrow> duration \<Rightarrow> string \<Rightarrow> WingNodeDef \<Rightarrow> (string \<Rightarrow> string list) \<Rightarrow>
    string list \<Rightarrow> Drive \<Rightarrow> ((drive_error + unit) \<times> Drive) option" where
  "capture_each show_f32 entries timeout slot mdl_def params [] s = Some (Inr (), s)"
| "capture_each show_f32 entries timeout slot mdl_def params (model # models) s =
     (if CHR ''*'' \<in> set model then capture_each show_f32 entries timeout slot mdl_def params models s
      else case on_writer (set_string (nd_id mdl_def) model) s of
        (Inl e, s) \<Rightarrow> Some (Inl (ConsoleFailed e), s)
      | (Inr _, s) \<Rightarrow>
          (case on_reader (read_settled_for_def show_f32 mdl_def timeout) s of
             None \<Rightarrow> None
           | Some (Inl e, s) \<Rightarrow> Some (Inl (ConsoleFailed e), s)
           | Some (Inr selected, s) \<Rightarrow>
               if \<not> snap_eq selected (SnapStr model) then Some (Inl (NotSettled model slot), s)
               else (case capture_params show_f32 entries timeout (params model) s of
                   None \<Rightarrow> None
                 | Some (Inl e, s) \<Rightarrow> Some (Inl e, s)
                 | Some (Inr _, s) \<Rightarrow> capture_each show_f32 entries timeout slot mdl_def params models s)))"

text \<open>One write of the restore and its verification.\<close>

definition restore_one :: "(f32 \<Rightarrow> string) \<Rightarrow> duration \<Rightarrow> saved \<Rightarrow> Drive \<Rightarrow> ((drive_error + unit) \<times> Drive) option" where
  "restore_one show_f32 timeout entry s =
     (case entry of (p, def, value) \<Rightarrow>
      case on_writer (set_snap (nd_id def) value) s of
        (Inl e, s) \<Rightarrow> Some (verify_restore p value (Inl e) (Inl Timeout), s)
      | (Inr _, s) \<Rightarrow>
          map_option (\<lambda>(readback, s). (verify_restore p value (Inr ()) readback, s))
            (on_reader (read_settled_for_def show_f32 def timeout) s))"

text \<open>The values below the selector: a failure does not stop the rest.\<close>

fun restore_rest :: "(f32 \<Rightarrow> string) \<Rightarrow> duration \<Rightarrow> saved list \<Rightarrow> drive_error list \<Rightarrow> Drive \<Rightarrow> (drive_error list \<times> Drive) option" where
  "restore_rest show_f32 timeout [] failures s = Some (failures, s)"
| "restore_rest show_f32 timeout (entry # saved) failures s =
     (case restore_one show_f32 timeout entry s of
        None \<Rightarrow> None
      | Some (Inl e, s) \<Rightarrow> restore_rest show_f32 timeout saved (failures @ [e]) s
      | Some (Inr _, s) \<Rightarrow> restore_rest show_f32 timeout saved failures s)"

text \<open>The selector first; nothing below it is written unless it was confirmed.\<close>

definition restore_saved :: "(f32 \<Rightarrow> string) \<Rightarrow> duration \<Rightarrow> saved list \<Rightarrow> Drive \<Rightarrow> ((drive_error list \<times> bool) \<times> Drive) option" where
  "restore_saved show_f32 timeout saved s =
     (case saved of
        [] \<Rightarrow> Some (([], False), s)
      | selector # leaves \<Rightarrow>
          (case restore_one show_f32 timeout selector s of
             None \<Rightarrow> None
           | Some (Inl e, s) \<Rightarrow> Some (([e], False), s)
           | Some (Inr _, s) \<Rightarrow> map_option (\<lambda>(failures, s). ((failures, True), s)) (restore_rest show_f32 timeout leaves [] s)))"

text \<open>The read-only pass over everything saved.\<close>

fun final_check :: "(f32 \<Rightarrow> string) \<Rightarrow> duration \<Rightarrow> saved list \<Rightarrow> drive_error list \<Rightarrow> Drive \<Rightarrow> (drive_error list \<times> Drive) option" where
  "final_check show_f32 timeout [] failures s = Some (failures, s)"
| "final_check show_f32 timeout ((p, def, value) # saved) failures s =
     (case on_reader (read_settled_for_def show_f32 def timeout) s of
        None \<Rightarrow> None
      | Some (Inl e, s) \<Rightarrow> final_check show_f32 timeout saved (failures @ [FinalRead p e]) s
      | Some (Inr readback, s) \<Rightarrow>
          final_check show_f32 timeout saved (failures @ (if snap_eq readback value then [] else [FinalDiffers p value readback])) s)"

text \<open>From the snapshot on: publish it, capture, restore, check, and drop the recovery file.\<close>

definition finish_slot :: "(f32 \<Rightarrow> string) \<Rightarrow> duration \<Rightarrow> path \<Rightarrow> saved list \<Rightarrow> drive_error + unit \<Rightarrow> Drive \<Rightarrow>
    ((drive_error + unit) \<times> Drive) option" where
  "finish_slot show_f32 timeout recovery_path saved capture_result s =
     (case restore_saved show_f32 timeout saved s of
        None \<Rightarrow> None
      | Some ((failures, selector_restored), s) \<Rightarrow>
          (case (if selector_restored then final_check show_f32 timeout saved failures s else Some (failures, s)) of
             None \<Rightarrow> None
           | Some (failures, s) \<Rightarrow>
               if failures \<noteq> [] then Some (Inl (Restoring failures), s)
               else case on_disk (remove_file recovery_path) s of
                   (Inl e, s) \<Rightarrow> Some (Inl (RecoveryKept e), s)
                 | (Inr _, s) \<Rightarrow> Some (capture_result, s)))"

definition snapshot_slot :: "(f32 \<Rightarrow> string) \<Rightarrow> duration \<Rightarrow> string \<Rightarrow> WingNodeDef \<Rightarrow> (string \<Rightarrow> (string \<times> WingNodeDef) list) \<Rightarrow> Drive \<Rightarrow>
    ((drive_error + saved list) \<times> Drive) option" where
  "snapshot_slot show_f32 timeout mdl_path mdl_def active_leaves s =
     (case on_reader (get_node_data (nd_id mdl_def) timeout) s of
        None \<Rightarrow> None
      | Some (Inl e, s) \<Rightarrow> Some (Inl (NoOriginal mdl_path e), s)
      | Some (Inr (data, _), s) \<Rightarrow>
          (case original_selector show_f32 mdl_path mdl_def data of
             Inl e \<Rightarrow> Some (Inl e, s)
           | Inr original \<Rightarrow> snapshot_leaves show_f32 timeout (active_leaves original) [(mdl_path, mdl_def, SnapStr original)] s))"

definition capture_model_slot :: "(f32 \<Rightarrow> string) \<Rightarrow> propmap \<Rightarrow> string \<Rightarrow> WingNodeDef \<Rightarrow> string list \<Rightarrow> (string \<Rightarrow> string list) \<Rightarrow> path \<Rightarrow>
    duration \<Rightarrow> (string \<Rightarrow> (string \<times> WingNodeDef) list) \<Rightarrow> Drive \<Rightarrow> ((drive_error + unit) \<times> Drive) option" where
  "capture_model_slot show_f32 entries slot mdl_def models params recovery_path timeout active_leaves s =
     (case snapshot_slot show_f32 timeout (slot @ ''/mdl'') mdl_def active_leaves s of
        None \<Rightarrow> None
      | Some (Inl e, s) \<Rightarrow> Some (Inl e, s)
      | Some (Inr saved, s) \<Rightarrow>
          (case on_disk (write_path_values show_f32 recovery_path (map (\<lambda>(p, _, value). (p, value)) saved)) s of
             (Inl e, s) \<Rightarrow> Some (Inl (PublishFailed e), s)
           | (Inr _, s) \<Rightarrow>
               (case capture_each show_f32 entries timeout slot mdl_def params models s of
                  None \<Rightarrow> None
                | Some (capture_result, s) \<Rightarrow> finish_slot show_f32 timeout recovery_path saved capture_result s)))"

section \<open>Capturing all models\<close>

text \<open>
  The leaves of a slot under its model: the first path of every id, in the order of the ids.
\<close>

definition original_model_leaf :: "string \<Rightarrow> string \<Rightarrow> string \<times> WingNodeDef \<Rightarrow> bool" where
  "original_model_leaf slot model entry =
     (case entry of (p, def) \<Rightarrow>
      case Option.bind (strip_prefix slot p) (strip_prefix ''/'') of
        None \<Rightarrow> False
      | Some tail \<Rightarrow>
          \<not> (tail = ''mdl'' \<or> nd_read_only def \<or> nd_node_type def = NodeT \<or> CHR ''*'' \<in> set p \<or> CHR ''$'' \<in> set p) \<and>
          (CHR ''/'' \<in> set tail \<longrightarrow>
             (case Option.bind (strip_prefix model tail) (strip_prefix ''/'') of None \<Rightarrow> False | Some leaf \<Rightarrow> leaf \<noteq> [])))"

fun first_by :: "('a \<Rightarrow> 'k) \<Rightarrow> 'k set \<Rightarrow> 'a list \<Rightarrow> 'a list" where
  "first_by key seen [] = []"
| "first_by key seen (x # xs) = (if key x \<in> seen then first_by key seen xs else x # first_by key (insert (key x) seen) xs)"

definition original_model_leaves :: "propmap \<Rightarrow> string \<Rightarrow> string \<Rightarrow> (string \<times> WingNodeDef) list" where
  "original_model_leaves entries slot model =
     sort_key (\<lambda>(_, def). sint (nd_id def)) (first_by (\<lambda>(_, def). nd_id def) {} (filter (original_model_leaf slot model) entries))"

text \<open>The slot of lowest index of every family of slots.\<close>

type_synonym family = "string \<times> string"

definition slot_family :: "string \<times> WingNodeDef \<Rightarrow> (family \<times> nat \<times> string) option" where
  "slot_family entry =
     (case entry of (name, def) \<Rightarrow>
      if nd_string_enum def = None then None
      else case strip_suffix ''/mdl'' name of
          None \<Rightarrow> None
        | Some slot \<Rightarrow>
            (case split_on CHR ''/'' slot of
               _ # section # index # sub \<Rightarrow>
                 map_option (\<lambda>n. ((section, join_with CHR ''/'' sub), n, slot)) (parse_unsigned 4294967295 index)
             | _ \<Rightarrow> None))"

fun representatives :: "(family \<times> nat \<times> string) list \<Rightarrow> (family \<rightharpoonup> nat \<times> string) \<Rightarrow> (family \<rightharpoonup> nat \<times> string)" where
  "representatives [] reps = reps"
| "representatives ((family, index, slot) # slots) reps =
     (let (least, known) = (case reps family of Some entry \<Rightarrow> entry | None \<Rightarrow> (4294967295, [])) in
      representatives slots (reps(family \<mapsto> if index < least then (index, slot) else (least, known))))"

definition rep_slots :: "propmap \<Rightarrow> string list" where
  "rep_slots entries =
     (let slots = List.map_filter slot_family entries; reps = representatives slots Map.empty in
      sort (remdups (List.map_filter (\<lambda>(family, _). map_option snd (reps family)) slots)))"

text \<open>The model a parameter of a slot belongs to: the longest label that is a leading part of the rest of its path.\<close>

definition param_model :: "propmap \<Rightarrow> string \<Rightarrow> string \<Rightarrow> string option" where
  "param_model entries slot tail =
     (let items = (case Option.bind (map_of entries (slot @ ''/mdl'')) nd_string_enum of None \<Rightarrow> [] | Some items \<Rightarrow> items) in
      max_by_key length
        (filter (\<lambda>item. case Option.bind (strip_prefix item tail) (strip_prefix ''/'') of None \<Rightarrow> False | Some leaf \<Rightarrow> leaf \<noteq> [])
           (map se_item items)))"

fun param_owner :: "propmap \<Rightarrow> string list \<Rightarrow> string \<Rightarrow> (string \<times> string) option" where
  "param_owner entries [] name = None"
| "param_owner entries (slot # slots) name =
     (case Option.bind (strip_prefix slot name) (strip_prefix ''/'') of
        None \<Rightarrow> param_owner entries slots name
      | Some tail \<Rightarrow> map_option (Pair slot) (param_model entries slot tail))"

definition model_params :: "propmap \<Rightarrow> string list \<Rightarrow> string \<Rightarrow> string \<Rightarrow> string list" where
  "model_params entries slots slot model =
     map fst (filter (\<lambda>(name, def). nd_node_type def \<noteq> NodeT \<and> CHR ''*'' \<notin> set name \<and>
       param_owner entries slots name = Some (slot, model)) entries)"

fun capture_slots :: "(f32 \<Rightarrow> string) \<Rightarrow> propmap \<Rightarrow> path \<Rightarrow> duration \<Rightarrow> string list \<Rightarrow> string list \<Rightarrow> Drive \<Rightarrow>
    ((drive_error + unit) \<times> Drive) option" where
  "capture_slots show_f32 entries recovery_path timeout all [] s = Some (Inr (), s)"
| "capture_slots show_f32 entries recovery_path timeout all (slot # slots) s =
     (case map_of entries (slot @ ''/mdl'') of
        None \<Rightarrow> capture_slots show_f32 entries recovery_path timeout all slots s
      | Some mdl_def \<Rightarrow>
          (let models = (case nd_string_enum mdl_def of None \<Rightarrow> [] | Some items \<Rightarrow> map se_item items) in
           case capture_model_slot show_f32 entries slot mdl_def models (model_params entries all slot) recovery_path timeout
                  (original_model_leaves entries slot) s of
             None \<Rightarrow> None
           | Some (Inl e, s) \<Rightarrow> Some (Inl e, s)
           | Some (Inr _, s) \<Rightarrow> capture_slots show_f32 entries recovery_path timeout all slots s))"

definition recovery_of :: "path \<Rightarrow> path" where
  "recovery_of out_path = Path (parent_dir out_path) (file_name out_path @ ''.recovery.jsonl'')"

definition capture_models :: "(f32 \<Rightarrow> string) \<Rightarrow> propmap \<Rightarrow> path \<Rightarrow> duration \<Rightarrow> Drive \<Rightarrow> ((drive_error + unit) \<times> Drive) option" where
  "capture_models show_f32 entries out_path timeout s =
     (let slots = rep_slots entries; recovery_path = recovery_of out_path; s = s\<lparr>dr_captured := []\<rparr> in
      if dk_files (dr_disk s) recovery_path \<noteq> None then Some (Inl (RecoveryExists recovery_path), s)
      else case capture_slots show_f32 entries recovery_path timeout slots slots s of
          None \<Rightarrow> None
        | Some (Inl e, s) \<Rightarrow> Some (Inl e, s)
        | Some (Inr _, s) \<Rightarrow>
            (case on_disk (write_path_values show_f32 out_path (dr_captured s)) s of
               (Inl e, s) \<Rightarrow> Some (Inl (PublishFailed e), s)
             | (Inr _, s) \<Rightarrow> Some (Inr (), s)))"

section \<open>What reading writes\<close>

text \<open>Reading sends nothing but requests for values and keep-alives, whatever its outcome.\<close>

definition reads_only :: "World \<Rightarrow> World \<Rightarrow> bool" where
  "reads_only w w' \<longleftrightarrow>
     (\<exists>msgs. set msgs \<subseteq> insert keepalive_message (range node_data_message) \<and> w_written w' = w_written w @ concat msgs)"

lemma reads_only_refl [intro!, simp]: "reads_only w w"
  unfolding reads_only_def by (intro exI [where x = "[]"]) simp

lemma reads_only_same: "w_written w' = w_written w \<Longrightarrow> reads_only w w'"
  unfolding reads_only_def by (intro exI [where x = "[]"]) simp

lemma reads_only_trans: "reads_only w1 w2 \<Longrightarrow> reads_only w2 w3 \<Longrightarrow> reads_only w1 w3"
  unfolding reads_only_def
proof (elim exE conjE)
  fix ms ns assume "set ms \<subseteq> insert keepalive_message (range node_data_message)"
    "set ns \<subseteq> insert keepalive_message (range node_data_message)"
    "w_written w2 = w_written w1 @ concat ms" "w_written w3 = w_written w2 @ concat ns"
  then show "\<exists>msgs. set msgs \<subseteq> insert keepalive_message (range node_data_message) \<and> w_written w3 = w_written w1 @ concat msgs"
    by (intro exI [where x = "ms @ ns"]) auto
qed

lemma reads_only_message:
  "m \<in> insert keepalive_message (range node_data_message) \<Longrightarrow> write_all w m = (e, w') \<Longrightarrow> reads_only w w'"
  unfolding reads_only_def
  by (intro exI [where x = "if is_ok e then [m] else []"]) (auto dest: write_all_written)

lemma now_reads: "now w = (t, w') \<Longrightarrow> reads_only w w'"
  by (rule reads_only_same) (rule now_written)

lemma load_reconnecting_reads: "load_reconnecting w = (b, w') \<Longrightarrow> reads_only w w'"
  by (rule reads_only_same) (auto simp: load_reconnecting_def split: list.splits)

lemma deadline_passed_reads: "deadline_passed r w = (b, w') \<Longrightarrow> reads_only w w'"
  by (auto simp: deadline_passed_def Let_def split: option.splits prod.splits dest: now_reads)

lemma socket_timeout_reads: "socket_timeout r w = (d, w') \<Longrightarrow> reads_only w w'"
  by (auto simp: socket_timeout_def Let_def split: option.splits prod.splits dest!: now_reads intro: reads_only_trans)

lemma keep_alive_reads: "keep_alive r w = (e, r', w') \<Longrightarrow> reads_only w w'"
  by (auto simp: keep_alive_def Let_def split: if_splits prod.splits sum.splits
      dest!: now_reads reads_only_message [rotated] intro: reads_only_trans)

lemma read_socket_reads: "read_socket r w = (f, r', w') \<Longrightarrow> reads_only w w'"
proof -
  assume a: "read_socket r w = (f, r', w')"
  have "reads_only w (w\<lparr>w_input := i\<rparr>)" for i by (rule reads_only_same) simp
  with a show ?thesis
    by (auto simp: read_socket_def Let_def split: list.splits sock.splits if_splits prod.splits
        dest!: deadline_passed_reads intro: reads_only_trans)
qed

lemma fill_reads: "fill r w = (f, r', w') \<Longrightarrow> reads_only w w'"
  by (auto simp: fill_def Let_def split: if_splits prod.splits sum.splits
      dest!: keep_alive_reads deadline_passed_reads socket_timeout_reads read_socket_reads intro: reads_only_trans)

lemma take_byte_world: "take_byte r w = (x, r', w') \<Longrightarrow> w' = w"
  by (auto simp: take_byte_def Let_def deliver_def split: prod.splits sum.splits option.splits ChannelEvent.splits if_splits)

lemma decode_next_inner_reads: "decode_next_inner r w = Some (x, r', w') \<Longrightarrow> reads_only w w'"
proof (induction r w rule: decode_next_inner.induct)
  case (1 r w)
  obtain stop w1 where l: "load_reconnecting w = (stop, w1)" by force
  note start = load_reconnecting_reads [OF l]
  show ?case
  proof (cases "stop \<or> rm_replay r \<noteq> [] \<or> fst (pop_audio (rm_rx_events r)) \<noteq> None")
    case True
    then have "w' = w1" using "1.prems" l
      by (subst (asm) decode_next_inner.simps)
        (auto simp: deliver_def split: list.splits prod.splits sum.splits option.splits if_splits)
    then show ?thesis using start by simp
  next
    case False
    obtain evs where p: "pop_audio (rm_rx_events r) = (None, evs)" using False by (cases "pop_audio (rm_rx_events r)") auto
    obtain f r2 w2 where f: "fill (r\<lparr>rm_rx_events := evs\<rparr>) w1 = (f, r2, w2)" by (metis prod_cases3)
    have to2: "reads_only w w2" using start fill_reads [OF f] by (rule reads_only_trans)
    obtain y r3 w3 where t: "take_byte r2 w2 = (y, r3, w3)" by (metis prod_cases3)
    note same = take_byte_world [OF t]
    show ?thesis
      using "1.prems" "1.IH" l False p f t to2 same reads_only_trans
      by (subst (asm) decode_next_inner.simps) (auto split: filled.splits sum.splits option.splits)
  qed
qed

lemma decode_next_reads: "decode_next r w = Some (x, r', w') \<Longrightarrow> reads_only w w'"
  by (auto simp: decode_next_def split: option.splits sum.splits dest!: decode_next_inner_reads)

interpretation reading: source_trace console_source "\<lambda>s s'. reads_only (snd s) (snd s')" "{}"
proof
  show "reads_only (snd s) (snd s)" for s :: "Main \<times> World" by simp
  show "reads_only (snd s1) (snd s3)" if "reads_only (snd s1) (snd s2)" "reads_only (snd s2) (snd s3)" for s1 s2 s3 :: "Main \<times> World"
    using that by (rule reads_only_trans)
  fix s x s' assume "console_source s = Some (x, s')" and "unexcused {} x"
  then show "reads_only (snd s) (snd s')" by (auto simp: console_source_def split: option.splits dest!: decode_next_reads)
qed

lemma read_locked_reads: "read_locked r w = Some (x, r', w') \<Longrightarrow> reads_only w w'"
proof -
  assume a: "read_locked r w = Some (x, r', w')"
  have inner: "reads_only w w'" if "read_inner r w = Some (x, r', w')" for r w x r' w'
    using that by (auto simp: read_inner_def split: option.splits dest!: reading.response_rel)
  from a show ?thesis
    by (auto simp: read_locked_def Let_def split: if_splits prod.splits list.splits option.splits
        dest!: load_reconnecting_reads inner intro: reads_only_trans)
qed

lemma read_timeout_reads: "read_timeout d r w = Some (x, r', w') \<Longrightarrow> reads_only w w'"
  by (auto simp: read_timeout_def split: prod.splits option.splits dest!: now_reads read_locked_reads intro: reads_only_trans)

lemma attended_loop_reads: "attended_loop m d buffered r w = Some (x, buffered', r', w') \<Longrightarrow> reads_only w w'"
proof (induction m d buffered r w rule: attended_loop.induct)
  case (1 m d buffered r w)
  from "1.prems" obtain y r1 w1 where l: "read_locked r w = Some (y, r1, w1)"
    by (subst (asm) attended_loop.simps) (auto split: option.splits)
  note to1 = read_locked_reads [OF l]
  obtain t w2 where n: "now w1 = (t, w2)" by force
  have to2: "reads_only w w2" using to1 now_reads [OF n] by (rule reads_only_trans)
  show ?case
    using "1.prems" "1.IH" l n to1 to2 reads_only_trans
    by (subst (asm) attended_loop.simps) (auto split: sum.splits if_splits)
qed

lemma request_node_data_reads: "request_node_data nid w = (e, w') \<Longrightarrow> reads_only w w'"
  by (auto simp: request_node_data_def send_def split: sum.splits dest!: reads_only_message [rotated])

lemma attended_read_until_reads: "attended_read_until d m r w = Some (x, r', w') \<Longrightarrow> reads_only w w'"
proof -
  assume a: "attended_read_until d m r w = Some (x, r', w')"
  then obtain y b r1 where "attended_loop m d [] r w = Some (y, b, r1, w')"
    by (auto simp: attended_read_until_def split: option.splits sum.splits error.splits)
  then show ?thesis by (rule attended_loop_reads)
qed

lemma get_node_data_reads:
  assumes "get_node_data nid d r w = Some (x, r', w')"
  shows "reads_only w w'"
proof -
  obtain e w1 where q: "request_node_data nid w = (e, w1)" by force
  obtain t w2 where n: "now w1 = (t, w2)" by force
  note to1 = request_node_data_reads [OF q]
  have to2: "reads_only w w2" using to1 now_reads [OF n] by (rule reads_only_trans)
  show ?thesis
  proof (cases e)
    case (Inl err)
    then show ?thesis using assms q to1 by (simp add: get_node_data_def attended_get_def)
  next
    case (Inr u)
    then obtain r1 where "attended_read_until (t + d) (match_data nid) (r\<lparr>rm_op_deadline := Some (t + d)\<rparr>) w2 = Some (x, r1, w')"
      using assms q n by (auto simp: get_node_data_def attended_get_def split: option.splits)
    from attended_read_until_reads [OF this] to2 show ?thesis by (blast intro: reads_only_trans)
  qed
qed

section \<open>Settled reads give the latest value\<close>

lemma settle_loop_latest:
  assumes "settle_loop nid snapshot deadline recent r w = Some y"
  shows "case y of (x, r', w') \<Rightarrow> reads_only w w' \<and>
    (\<forall>v. x = Inr v \<longrightarrow> reader_ok r \<longrightarrow> reader_ok r' \<and>
       (\<exists>rs. delivers (view r w) rs (view r' w') \<and> v = foldl (latest nid snapshot) recent rs))"
  using assms
proof (rule settle_loop.raw_induct [rotated], goal_cases)
  case (1 loop nid snapshot deadline recent r w y)
  obtain t w1 where n: "now w = (t, w1)" by force
  note w1 = now_reads [OF n] now_view [OF n]
  show ?case
  proof (cases "deadline \<le> t")
    case True
    then have "y = (Inr recent, r, w1)" using 1(2) n by simp
    moreover have "delivers (view r w) [] (view r w1)" using w1 by simp
    ultimately show ?thesis using w1(1) by (auto intro!: exI [where x = "[]"])
  next
    case False
    then obtain x r2 w2 where t: "read_timeout (deadline - t) r w1 = Some (x, r2, w2)"
      using 1(2) n by (auto split: Option.bind_splits)
    have w2: "reads_only w w2" using w1(1) read_timeout_reads [OF t] by (rule reads_only_trans)
    show ?thesis
    proof (cases x)
      case (Inl e)
      then have y: "y = (if e = Timeout then Inr recent else Inl e, r2, w2)" using 1(2) n t False by simp
      then show ?thesis using w2 w1 t Inl read_timeout_timeout [of "deadline - t" r w1 r2 w2]
        by (auto intro!: exI [where x = "[]"])
    next
      case (Inr resp)
      let ?recent = "latest nid snapshot recent resp"
      have rec: "loop nid snapshot deadline ?recent r2 w2 = Some y" using 1(2) n t False Inr by simp
      obtain v r3 w3 where y: "y = (v, r3, w3)" by (metis prod_cases3)
      from 1(1) [OF rec] y have ih: "reads_only w2 w3"
        "\<And>u. v = Inr u \<Longrightarrow> reader_ok r2 \<Longrightarrow> reader_ok r3 \<and>
           (\<exists>rs. delivers (view r2 w2) rs (view r3 w3) \<and> u = foldl (latest nid snapshot) ?recent rs)"
        by auto
      have "\<exists>rs. delivers (view r w) rs (view r3 w3) \<and> u = foldl (latest nid snapshot) recent rs \<and> reader_ok r3"
        if "v = Inr u" "reader_ok r" for u
      proof -
        from read_timeout_next [of "deadline - t" r w1 resp r2 w2] t Inr that(2) w1
        have nx: "reader_ok r2" "next_response (view r w) = Some (resp, view r2 w2)" by simp_all
        with ih(2) [OF that(1)] obtain rs where "delivers (view r2 w2) rs (view r3 w3)" "u = foldl (latest nid snapshot) ?recent rs"
          "reader_ok r3" by auto
        then show ?thesis using nx by (intro exI [where x = "resp # rs"]) simp
      qed
      moreover have "reads_only w w3" using w2 ih(1) by (rule reads_only_trans)
      ultimately show ?thesis using y by auto
    qed
  qed
qed

lemma read_settled_with_latest:
  assumes "read_settled_with nid window snapshot r w = Some (x, r', w')"
  shows "reads_only w w'"
    and "x = Inr v \<Longrightarrow> reader_ok r \<Longrightarrow> reader_ok r' \<and>
      (\<exists>rs. delivers (view r w) rs (view r' w') \<and> foldl (latest nid snapshot) None rs = Some v)"
proof -
  obtain e w1 where q: "request_node_data nid w = (e, w1)" by force
  obtain t w2 where n: "now w1 = (t, w2)" by force
  note to1 = request_node_data_reads [OF q]
  have to2: "reads_only w w2" using to1 now_reads [OF n] by (rule reads_only_trans)
  have vw: "view r w2 = view r w"
    using now_view [OF n] send_view q unfolding request_node_data_def by metis
  have "reads_only w w' \<and> (x = Inr v \<longrightarrow> reader_ok r \<longrightarrow> reader_ok r' \<and>
      (\<exists>rs. delivers (view r w) rs (view r' w') \<and> foldl (latest nid snapshot) None rs = Some v))"
  proof (cases e)
    case (Inl err)
    then show ?thesis using assms q to1 by (auto simp: read_settled_with_def)
  next
    case (Inr u)
    then obtain y where l: "settle_loop nid snapshot (t + window) None r w2 = Some (y, r', w')"
      and x: "x = and_then y (\<lambda>recent. case recent of Some v \<Rightarrow> Inr v | None \<Rightarrow> Inl Timeout)"
      using assms q n by (auto simp: read_settled_with_def)
    from settle_loop_latest [OF l] vw reads_only_trans [OF to2, of w'] x show ?thesis
      by (cases y) (fastforce split: option.splits)+
  qed
  then show "reads_only w w'" "x = Inr v \<Longrightarrow> reader_ok r \<Longrightarrow> reader_ok r' \<and>
      (\<exists>rs. delivers (view r w) rs (view r' w') \<and> foldl (latest nid snapshot) None rs = Some v)" by auto
qed

section \<open>What is found is put back\<close>

lemma on_reader_frame:
  "on_reader f s = Some (x, s') \<Longrightarrow> \<exists>r w. f (dr_main s) (dr_world s) = Some (x, r, w) \<and> s' = s\<lparr>dr_main := r, dr_world := w\<rparr>"
  by (auto simp: on_reader_def)

lemma on_disk_frame: "on_disk f s = (x, s') \<Longrightarrow> \<exists>d. f (dr_disk s) = (x, d) \<and> s' = s\<lparr>dr_disk := d\<rparr>"
  by (cases "f (dr_disk s)") (simp add: on_disk_def)

lemma on_frames [simp]:
  "on_writer f s = (y, s') \<Longrightarrow> dr_disk s' = dr_disk s"
  "on_reader g s = Some (x, s') \<Longrightarrow> dr_disk s' = dr_disk s"
  "on_disk h s = (z, s') \<Longrightarrow> dr_main s' = dr_main s \<and> dr_world s' = dr_world s"
  by (auto simp: on_writer_def on_reader_def on_disk_def split: prod.splits)

lemma get_node_data_on: "on_reader (get_node_data nid d) s = Some (x, s') \<Longrightarrow> reads_only (dr_world s) (dr_world s')"
  by (auto dest!: on_reader_frame get_node_data_reads)

lemma read_settled_on: "on_reader (read_settled_for_def show_f32 def d) s = Some (x, s') \<Longrightarrow> reads_only (dr_world s) (dr_world s')"
  by (auto simp: read_settled_for_def_def dest!: on_reader_frame read_settled_with_latest(1))

text \<open>
  \<open>observed\<close>: every saved value is what the console gave for its node, one request after another.
  \<open>confirmed\<close>: a settled read of every saved node, one after another, gives its saved value.
\<close>

fun observed :: "(f32 \<Rightarrow> string) \<Rightarrow> duration \<Rightarrow> saved list \<Rightarrow> Drive \<Rightarrow> Drive \<Rightarrow> bool" where
  "observed show_f32 timeout [] s s' \<longleftrightarrow> s' = s"
| "observed show_f32 timeout ((p, def, value) # saved) s s' \<longleftrightarrow>
     (\<exists>data others s1. on_reader (get_node_data (nd_id def) timeout) s = Some (Inr (data, others), s1) \<and>
        restorable_snap_for_def show_f32 def data = Inr value \<and> observed show_f32 timeout saved s1 s')"

fun confirmed :: "(f32 \<Rightarrow> string) \<Rightarrow> duration \<Rightarrow> saved list \<Rightarrow> Drive \<Rightarrow> Drive \<Rightarrow> bool" where
  "confirmed show_f32 timeout [] s s' \<longleftrightarrow> s' = s"
| "confirmed show_f32 timeout ((p, def, value) # saved) s s' \<longleftrightarrow>
     (\<exists>v s1. on_reader (read_settled_for_def show_f32 def timeout) s = Some (Inr v, s1) \<and>
        snap_eq v value \<and> confirmed show_f32 timeout saved s1 s')"

lemma observed_append:
  "observed show_f32 timeout (xs @ ys) s s' \<longleftrightarrow> (\<exists>s1. observed show_f32 timeout xs s s1 \<and> observed show_f32 timeout ys s1 s')"
proof (induction xs arbitrary: s)
  case (Cons x xs)
  then show ?case by (cases x) (simp, blast)
qed simp

definition leaves_of :: "saved list \<Rightarrow> (string \<times> WingNodeDef) list" where
  "leaves_of saved = map (\<lambda>(p, def, _). (p, def)) saved"

lemma snapshot_leaves_observed:
  "snapshot_leaves show_f32 timeout leaves saved s = Some (x, s') \<Longrightarrow>
     reads_only (dr_world s) (dr_world s') \<and> dr_disk s' = dr_disk s \<and>
     (\<forall>saved'. x = Inr saved' \<longrightarrow> (\<exists>new. saved' = saved @ new \<and> observed show_f32 timeout new s s' \<and> leaves_of new = leaves \<and>
        (\<forall>(_, _, v)\<in>set new. snap_json show_f32 v \<noteq> None)))"
proof (induction leaves arbitrary: saved s)
  case (Cons leaf leaves)
  obtain p def where l: "leaf = (p, def)" by force
  from Cons.prems l obtain y s1 where g: "on_reader (get_node_data (nd_id def) timeout) s = Some (y, s1)"
    by (auto split: option.splits)
  note to1 = get_node_data_on [OF g] on_frames(2) [OF g]
  show ?case
  proof (cases "\<exists>data others val. y = Inr (data, others) \<and> restorable_snap_for_def show_f32 def data = Inr val \<and>
      \<not> (case val of SnapFloat v \<Rightarrow> \<not> f32_is_finite v | _ \<Rightarrow> False)")
    case True
    then obtain data others val where y: "y = Inr (data, others)" and v: "restorable_snap_for_def show_f32 def data = Inr val"
      and fin: "\<not> (case val of SnapFloat v \<Rightarrow> \<not> f32_is_finite v | _ \<Rightarrow> False)" by blast
    have rec: "snapshot_leaves show_f32 timeout leaves (saved @ [(p, def, val)]) s1 = Some (x, s')"
      using Cons.prems l g y v fin by simp
    have "snap_json show_f32 val \<noteq> None" using fin by (cases val) (auto simp: snap_json_def)
    then have "\<exists>new. saved' = saved @ new \<and> observed show_f32 timeout new s s' \<and> leaves_of new = leaf # leaves \<and>
        (\<forall>(_, _, v)\<in>set new. snap_json show_f32 v \<noteq> None)" if "x = Inr saved'" for saved'
    proof -
      from Cons.IH [OF rec] that obtain new where "saved' = (saved @ [(p, def, val)]) @ new" "observed show_f32 timeout new s1 s'"
        "leaves_of new = leaves" "\<forall>(_, _, v)\<in>set new. snap_json show_f32 v \<noteq> None" by blast
      then show ?thesis using \<open>snap_json show_f32 val \<noteq> None\<close> g y v l
        by (intro exI [where x = "(p, def, val) # new"]) (auto simp: leaves_of_def)
    qed
    moreover have "reads_only (dr_world s) (dr_world s')" using to1(1) Cons.IH [OF rec] reads_only_trans by blast
    ultimately show ?thesis using to1(2) Cons.IH [OF rec] by simp
  next
    case False
    then have "s' = s1 \<and> (\<exists>e. x = Inl e)" using Cons.prems l g by (auto split: sum.splits if_splits)
    then show ?thesis using to1 by auto
  qed
qed (auto simp: leaves_of_def)

text \<open>A snapshot: the selector, whose val is a label that can be set again, then the leaves below it.\<close>

definition snapshot_ok :: "(f32 \<Rightarrow> string) \<Rightarrow> string \<Rightarrow> WingNodeDef \<Rightarrow> (string \<Rightarrow> (string \<times> WingNodeDef) list) \<Rightarrow> saved list \<Rightarrow> bool" where
  "snapshot_ok show_f32 mdl_path mdl_def active_leaves saved \<longleftrightarrow>
     (\<exists>original items leaves. saved = (mdl_path, mdl_def, SnapStr original) # leaves \<and>
        nd_string_enum mdl_def = Some items \<and> original \<in> se_item ` set items \<and> CHR ''*'' \<notin> set original \<and>
        leaves_of leaves = active_leaves original) \<and>
     (\<forall>(_, _, v)\<in>set saved. snap_json show_f32 v \<noteq> None)"

lemma original_selector_ok:
  assumes "original_selector show_f32 mdl_path mdl_def data = Inr original"
  shows "restorable_snap_for_def show_f32 mdl_def data = Inr (SnapStr original) \<and>
    (\<exists>items. nd_string_enum mdl_def = Some items \<and> original \<in> se_item ` set items) \<and> CHR ''*'' \<notin> set original"
  using assms by (auto simp: original_selector_def split: sum.splits Snap.splits option.splits if_splits)

lemma snapshot_slot_observed:
  assumes "snapshot_slot show_f32 timeout mdl_path mdl_def active_leaves s = Some (x, s')"
  shows "reads_only (dr_world s) (dr_world s') \<and> dr_disk s' = dr_disk s \<and>
    (\<forall>saved. x = Inr saved \<longrightarrow> observed show_f32 timeout saved s s' \<and> snapshot_ok show_f32 mdl_path mdl_def active_leaves saved)"
proof -
  from assms obtain y s1 where g: "on_reader (get_node_data (nd_id mdl_def) timeout) s = Some (y, s1)"
    by (auto simp: snapshot_slot_def split: option.splits)
  note to1 = get_node_data_on [OF g] on_frames(2) [OF g]
  show ?thesis
  proof (cases "\<exists>data others original. y = Inr (data, others) \<and> original_selector show_f32 mdl_path mdl_def data = Inr original")
    case True
    then obtain data others original where y: "y = Inr (data, others)"
      and o: "original_selector show_f32 mdl_path mdl_def data = Inr original" by blast
    note sel = original_selector_ok [OF o]
    have "snapshot_leaves show_f32 timeout (active_leaves original) [(mdl_path, mdl_def, SnapStr original)] s1 = Some (x, s')"
      using assms g y o by (simp add: snapshot_slot_def)
    note sl = snapshot_leaves_observed [OF this]
    have "observed show_f32 timeout saved s s' \<and> snapshot_ok show_f32 mdl_path mdl_def active_leaves saved" if "x = Inr saved" for saved
    proof -
      from sl that obtain new where "saved = [(mdl_path, mdl_def, SnapStr original)] @ new" "observed show_f32 timeout new s1 s'"
        "leaves_of new = active_leaves original" "\<forall>(_, _, v)\<in>set new. snap_json show_f32 v \<noteq> None" by blast
      then show ?thesis using g y sel by (auto simp: snapshot_ok_def snap_json_def)
    qed
    moreover have "reads_only (dr_world s) (dr_world s')" using to1(1) sl reads_only_trans by blast
    ultimately show ?thesis using to1(2) sl by simp
  next
    case False
    then have "s' = s1 \<and> (\<exists>e. x = Inl e)" using assms g by (auto simp: snapshot_slot_def split: sum.splits)
    then show ?thesis using to1 by auto
  qed
qed

lemma capture_params_disk:
  "capture_params show_f32 entries timeout ps s = Some (x, s') \<Longrightarrow> dr_disk s' = dr_disk s"
proof (induction ps arbitrary: s)
  case (Cons p ps)
  then show ?case by (fastforce split: option.splits sum.splits dest!: on_frames(2))
qed simp

lemma capture_each_disk:
  "capture_each show_f32 entries timeout slot mdl_def params models s = Some (x, s') \<Longrightarrow> dr_disk s' = dr_disk s"
proof (induction models arbitrary: s)
  case (Cons model models)
  then show ?case
    by (auto split: if_splits option.splits sum.splits prod.splits dest!: capture_params_disk on_frames(1,2))
qed simp

lemma restore_one_disk: "restore_one show_f32 timeout entry s = Some (x, s') \<Longrightarrow> dr_disk s' = dr_disk s"
  by (auto simp: restore_one_def split: prod.splits sum.splits dest!: on_frames(1,2))

lemma restore_rest_disk: "restore_rest show_f32 timeout saved failures s = Some (fs, s') \<Longrightarrow> dr_disk s' = dr_disk s"
proof (induction saved arbitrary: failures s)
  case (Cons entry saved)
  then show ?case by (auto split: option.splits sum.splits dest!: restore_one_disk)
qed simp

lemma restore_saved_disk: "restore_saved show_f32 timeout saved s = Some (x, s') \<Longrightarrow> dr_disk s' = dr_disk s"
  by (auto simp: restore_saved_def split: list.splits option.splits sum.splits dest!: restore_one_disk restore_rest_disk)

lemma final_check_frame:
  "final_check show_f32 timeout saved failures s = Some (fs, s') \<Longrightarrow>
     dr_disk s' = dr_disk s \<and> (fs = [] \<longrightarrow> failures = [] \<and> confirmed show_f32 timeout saved s s')"
proof (induction saved arbitrary: failures s)
  case (Cons entry saved)
  obtain p def v where e: "entry = (p, def, v)" by (metis prod_cases3)
  from Cons.prems e obtain x s1 where r: "on_reader (read_settled_for_def show_f32 def timeout) s = Some (x, s1)"
    by (auto split: option.splits)
  then show ?case
    using Cons.prems Cons.IH [of _ s1] e on_frames(2) [OF r] by (cases x) (force split: if_splits)+
qed simp

text \<open>
  Once the recovery file is written: it is removed only after the last thing done was to confirm every saved
  value; in every other case it is still there and an error is reported.
\<close>

lemma finish_slot_kept:
  assumes "finish_slot show_f32 timeout recovery saved capture_result s = Some (result, s')"
    and "saved \<noteq> []"
  shows "dk_files (dr_disk s') = dk_files (dr_disk s) \<and> (\<exists>e. result = Inl e) \<or>
    dk_files (dr_disk s') = (dk_files (dr_disk s))(recovery := None) \<and> result = capture_result \<and>
      (\<exists>s1. confirmed show_f32 timeout saved s1 (s'\<lparr>dr_disk := dr_disk s1\<rparr>))"
proof -
  from assms(1) obtain failures restored s1 where r: "restore_saved show_f32 timeout saved s = Some ((failures, restored), s1)"
    by (auto simp: finish_slot_def split: option.splits)
  have d1: "dr_disk s1 = dr_disk s" by (rule restore_saved_disk [OF r])
  from assms(1) r obtain fs s2 where
    f: "(if restored then final_check show_f32 timeout saved failures s1 else Some (failures, s1)) = Some (fs, s2)"
    by (auto simp: finish_slot_def split: option.splits)
  have d2: "dr_disk s2 = dr_disk s" using f d1 by (auto split: if_splits dest!: final_check_frame)
  show ?thesis
  proof (cases "fs = []")
    case False
    then have "s' = s2 \<and> (\<exists>e. result = Inl e)" using assms(1) r f by (auto simp: finish_slot_def)
    then show ?thesis using d2 by simp
  next
    case True
    have "failures \<noteq> []" if "\<not> restored"
      using r that assms(2) by (auto simp: restore_saved_def split: list.splits option.splits sum.splits)
    then have "restored" using f True by (auto split: if_splits)
    then have c: "confirmed show_f32 timeout saved s1 s2" using f True by (auto dest!: final_check_frame)
    obtain x s3 where rm: "on_disk (remove_file recovery) s2 = (x, s3)" by force
    from on_disk_frame [OF this] obtain d where d: "remove_file recovery (dr_disk s2) = (x, d)" "s3 = s2\<lparr>dr_disk := d\<rparr>" by blast
    have s': "s' = s3" "case x of Inl e \<Rightarrow> result = Inl (RecoveryKept e) | Inr _ \<Rightarrow> result = capture_result"
      using assms(1) r f True rm by (auto simp: finish_slot_def split: sum.splits)
    have "s3\<lparr>dr_disk := dr_disk s1\<rparr> = s2" using d(2) d1 d2 by simp
    then have "confirmed show_f32 timeout saved s1 (s'\<lparr>dr_disk := dr_disk s1\<rparr>)" using c s'(1) by simp
    with d(1) show ?thesis
      using s' d(2) d2 by (cases rule: remove_file_cases) auto
  qed
qed

definition recovery_bytes :: "(f32 \<Rightarrow> string) \<Rightarrow> saved list \<Rightarrow> byte list" where
  "recovery_bytes show_f32 saved = map of_char (path_values show_f32 (map (\<lambda>(p, _, value). (p, value)) saved))"

lemma write_path_values_files:
  assumes "write_path_values show_f32 p vals d = (x, d')" and "\<not> hidden p"
  shows "case x of
      Inr _ \<Rightarrow> (\<forall>q. \<not> hidden q \<longrightarrow> dk_files d' q = (if q = p then Some (Regular (map of_char (path_values show_f32 vals))) else dk_files d q))
    | Inl e \<Rightarrow> rolled_back (dk_files d) e d'"
  using publish_outputs_ok [of "[(p, map of_char (path_values show_f32 vals))]" d] assms
  by (auto simp: write_path_values_def split: sum.splits if_splits)

lemma capture_model_slot_safe:
  assumes "capture_model_slot show_f32 entries slot mdl_def models params recovery timeout active_leaves s = Some (result, s')"
    and "\<not> hidden recovery"
  shows "reads_only (dr_world s) (dr_world s') \<and> dr_disk s' = dr_disk s \<and> (\<exists>e. result = Inl e) \<or>
    reads_only (dr_world s) (dr_world s') \<and> (\<exists>e. result = Inl (PublishFailed e) \<and> rolled_back (dk_files (dr_disk s)) e (dr_disk s')) \<or>
    (\<exists>saved s1. observed show_f32 timeout saved s s1 \<and> reads_only (dr_world s) (dr_world s1) \<and>
       snapshot_ok show_f32 (slot @ ''/mdl'') mdl_def active_leaves saved \<and>
       (\<forall>q. \<not> hidden q \<longrightarrow> q \<noteq> recovery \<longrightarrow> dk_files (dr_disk s') q = dk_files (dr_disk s) q) \<and>
       (dk_files (dr_disk s') recovery = Some (Regular (recovery_bytes show_f32 saved)) \<and> (\<exists>e. result = Inl e) \<or>
        dk_files (dr_disk s') recovery = None \<and> (\<exists>s2. confirmed show_f32 timeout saved s2 (s'\<lparr>dr_disk := dr_disk s2\<rparr>))))"
proof -
  from assms(1) obtain x s1 where sn: "snapshot_slot show_f32 timeout (slot @ ''/mdl'') mdl_def active_leaves s = Some (x, s1)"
    by (auto simp: capture_model_slot_def split: option.splits)
  note snap = snapshot_slot_observed [OF sn]
  show ?thesis
  proof (cases x)
    case (Inl e)
    then have "s' = s1" "result = Inl e" using assms(1) sn by (simp_all add: capture_model_slot_def)
    then show ?thesis using snap by auto
  next
    case (Inr saved)
    with snap have ok: "observed show_f32 timeout saved s s1" "snapshot_ok show_f32 (slot @ ''/mdl'') mdl_def active_leaves saved" by auto
    then have ne: "saved \<noteq> []" by (auto simp: snapshot_ok_def)
    obtain y s2 where wr: "on_disk (write_path_values show_f32 recovery (map (\<lambda>(p, _, value). (p, value)) saved)) s1 = (y, s2)" by force
    from on_disk_frame [OF this] obtain d where
      d: "write_path_values show_f32 recovery (map (\<lambda>(p, _, value). (p, value)) saved) (dr_disk s1) = (y, d)"
      "s2 = s1\<lparr>dr_disk := d\<rparr>" by blast
    note files = write_path_values_files [OF d(1) assms(2)]
    show ?thesis
    proof (cases y)
      case (Inl e)
      then have "s' = s2" "result = Inl (PublishFailed e)"
        using assms(1) sn wr \<open>x = Inr saved\<close> by (simp_all add: capture_model_slot_def)
      then show ?thesis using snap files Inl d by auto
    next
      case (Inr u)
      then obtain cr s3 where ce: "capture_each show_f32 entries timeout slot mdl_def params models s2 = Some (cr, s3)"
        and fin: "finish_slot show_f32 timeout recovery saved cr s3 = Some (result, s')"
        using assms(1) sn wr \<open>x = Inr saved\<close> by (auto simp: capture_model_slot_def split: option.splits)
      have "dk_files (dr_disk s3) q = (if q = recovery then Some (Regular (recovery_bytes show_f32 saved)) else dk_files (dr_disk s) q)"
        if "\<not> hidden q" for q
        using that files Inr capture_each_disk [OF ce] d(2) snap by (simp add: recovery_bytes_def)
      then show ?thesis
        using finish_slot_kept [OF fin ne] ok snap assms(2) by (intro disjI2 exI [where x = saved] exI [where x = s1]) auto
    qed
  qed
qed


text \<open>A selector with two models, switched from the first to the second and back.\<close>

definition two_models :: WingNodeDef where
  "two_models = (plain_leaf 1)\<lparr>nd_node_type := StringEnumT,
     nd_string_enum := Some [\<lparr>se_item = ''A'', se_long_item = []\<rparr>, \<lparr>se_item = ''B'', se_long_item = []\<rparr>]\<rparr>"

definition replies :: "byte list \<Rightarrow> sock list" where
  "replies vs = map (\<lambda>v. Received [0xd7, 0, 0, 0, 1, v]) vs"

definition slot_drive :: Drive where
  "slot_drive = \<lparr>dr_main = new_main 0,
     dr_world = \<lparr>w_clock = replicate 12 0 @ replicate 8 1000 @ replicate 8 2000 @ [3000], w_now = 0, w_reconnecting = [],
       w_tainted = False, w_input = replies [0, 1, 0, 0], w_write_errors = [], w_written = []\<rparr>,
     dr_disk = \<lparr>dk_files = Map.empty, dk_faults = [], dk_pid = 1, dk_next = 0\<rparr>, dr_captured = []\<rparr>"

definition slot_run :: "((drive_error + unit) \<times> Drive) option" where
  "slot_run = capture_model_slot (\<lambda>_. []) [] ''/fx/1'' two_models [''B''] (\<lambda>_. []) (Path [] ''r'') 1000 (\<lambda>_. []) slot_drive"


section \<open>A single write and its restore\<close>

lemma verify_restore_ok [simp]:
  "verify_restore p original write_result readback = Inr () \<longleftrightarrow>
     write_result = Inr () \<and> (\<exists>v. readback = Inr v \<and> snap_eq v original)"
  by (auto simp: verify_restore_def split: sum.splits)

text \<open>
  A driven write that reports success ends with a settled read of the value the node had before: the latest reply
  the console gave for it.
\<close>

lemma restorable_write_verified:
  assumes "drive_restorable_write show_f32 entries p val timeout r w = Some (Inr (), r', w')"
  shows "\<exists>def data others r1 w1 w2 v rs. map_of entries p = Some def \<and>
    get_node_data (nd_id def) timeout r w = Some (Inr (data, others), r1, w1) \<and> reads_only w w1 \<and>
    read_settled show_f32 (nd_id def) timeout r1 w2 = Some (Inr v, r', w') \<and> snap_eq v (snap show_f32 data) \<and>
    (reader_ok r1 \<longrightarrow> delivers (view r1 w2) rs (view r' w') \<and>
       foldl (latest (nd_id def) (snap show_f32)) None rs = Some v)"
proof -
  from assms obtain def data others r1 w1 w2 v where d: "map_of entries p = Some def"
    and g: "get_node_data (nd_id def) timeout r w = Some (Inr (data, others), r1, w1)"
    and s: "read_settled show_f32 (nd_id def) timeout r1 w2 = Some (Inr v, r', w')" "snap_eq v (snap show_f32 data)"
    unfolding drive_restorable_write_def Let_def
    by (auto split: option.splits sum.splits prod.splits)
  from read_settled_with_latest(2) [OF s(1) [unfolded read_settled_def]] d g s get_node_data_reads [OF g]
  show ?thesis by blast
qed

section \<open>All slots\<close>

lemma capture_slots_clear:
  "capture_slots show_f32 entries recovery timeout every slots s = Some (Inr (), s') \<Longrightarrow> \<not> hidden recovery \<Longrightarrow>
     dk_files (dr_disk s) recovery = None \<Longrightarrow> dk_files (dr_disk s') recovery = None"
proof (induction slots arbitrary: s)
  case (Cons slot slots)
  show ?case
  proof (cases "map_of entries (slot @ ''/mdl'')")
    case None
    then show ?thesis using Cons by simp
  next
    case (Some mdl_def)
    then obtain s1 where one: "capture_model_slot show_f32 entries slot mdl_def
        (case nd_string_enum mdl_def of None \<Rightarrow> [] | Some items \<Rightarrow> map se_item items) (model_params entries every slot) recovery timeout
        (original_model_leaves entries slot) s = Some (Inr (), s1)"
      and rest: "capture_slots show_f32 entries recovery timeout every slots s1 = Some (Inr (), s')"
      using Cons.prems(1) by (auto simp: Let_def split: option.splits sum.splits)
    from capture_model_slot_safe [OF one Cons.prems(2)] have "dk_files (dr_disk s1) recovery = None" by auto
    with Cons.IH [OF rest Cons.prems(2)] show ?thesis by simp
  qed
qed simp

text \<open>
  A capture of all models refuses to start over an unresolved recovery file, sending nothing and changing nothing; one that
  succeeds leaves no recovery file and has published what it captured.
\<close>

lemma capture_models_guarded:
  assumes "capture_models show_f32 entries out_path timeout s = Some (result, s')" and "\<not> hidden (recovery_of out_path)"
  shows "if dk_files (dr_disk s) (recovery_of out_path) \<noteq> None
    then result = Inl (RecoveryExists (recovery_of out_path)) \<and> s' = s\<lparr>dr_captured := []\<rparr>
    else result = Inr () \<longrightarrow> dk_files (dr_disk s') (recovery_of out_path) = None \<and>
      dk_files (dr_disk s') out_path = Some (Regular (map of_char (path_values show_f32 (dr_captured s'))))"
proof (cases "dk_files (dr_disk s) (recovery_of out_path)")
  case None
  have out: "\<not> hidden out_path" "out_path \<noteq> recovery_of out_path"
    using assms(2) by (cases out_path; auto simp: hidden_def recovery_of_def starts_with_iff neq_Nil_conv)+
  have "dk_files (dr_disk s') (recovery_of out_path) = None \<and>
      dk_files (dr_disk s') out_path = Some (Regular (map of_char (path_values show_f32 (dr_captured s'))))" if "result = Inr ()"
  proof -
    from assms(1) None that obtain s1 where
      all: "capture_slots show_f32 entries (recovery_of out_path) timeout (rep_slots entries) (rep_slots entries) (s\<lparr>dr_captured := []\<rparr>) = Some (Inr (), s1)"
      and wr: "on_disk (write_path_values show_f32 out_path (dr_captured s1)) s1 = (Inr (), s')"
      by (auto simp: capture_models_def Let_def split: option.splits sum.splits prod.splits)
    from on_disk_frame [OF wr] obtain d where d: "write_path_values show_f32 out_path (dr_captured s1) (dr_disk s1) = (Inr (), d)"
      "s' = s1\<lparr>dr_disk := d\<rparr>" by blast
    have "dk_files (dr_disk s1) (recovery_of out_path) = None"
      using capture_slots_clear [OF all assms(2)] None by simp
    then show ?thesis using write_path_values_files [OF d(1) out(1)] d(2) out assms(2) by auto
  qed
  then show ?thesis using None by simp
next
  case (Some f)
  then show ?thesis using assms(1) by (simp add: capture_models_def Let_def)
qed

end
