(* ===== verification/Fidelity.thy ===== *)
theory Fidelity
  imports Capture Schema
begin

text \<open>
  The fidelity comparison of two captures (\<open>tools/compare.rs\<close>): the decoded values and definitions of the
  console's side, the requests, the shapes of the meter frames and the verdict on how many meter subscriptions
  a console serves. The console's side is decoded by the session's own reader over a transport that
  hands out the captured bytes one at a time. The lines of the report are the constructors of \<open>deviation\<close>;
  decimal and quoted renderings of values are left to it.
\<close>

section \<open>The decoded control stream\<close>

datatype Value = IntegerV i32 | FloatBits u32 | StringVal string

definition from_node :: "(f32 \<Rightarrow> string) \<Rightarrow> WingNodeData \<Rightarrow> Value" where
  "from_node show_f32 data =
     (if has_string data then StringVal (get_string show_f32 data)
      else if has_float data then FloatBits (get_float data)
      else IntegerV (get_int data))"

text \<open>The maps hold their entries in the order of arrival; a set of definitions is a list without repetitions.\<close>

record Control =
  ct_values :: "(i32 \<times> Value list) list"
  ct_definitions :: "(i32 \<times> byte list list) list"
  ct_request_ends :: nat

definition no_control :: Control where
  "no_control = \<lparr>ct_values = [], ct_definitions = [], ct_request_ends = 0\<rparr>"

text \<open>\<open>map.entry(k).or_default()\<close>, modified in place.\<close>

fun entry_update :: "'k \<Rightarrow> 'v \<Rightarrow> ('v \<Rightarrow> 'v) \<Rightarrow> ('k \<times> 'v) list \<Rightarrow> ('k \<times> 'v) list" where
  "entry_update k d f [] = [(k, f d)]"
| "entry_update k d f ((k', v) # m) = (if k' = k then (k', f v) # m else (k', v) # entry_update k d f m)"

datatype decode_error = DecodeFailed error | Truncated

definition observe :: "(f32 \<Rightarrow> string) \<Rightarrow> Control \<Rightarrow> WingResponse \<Rightarrow> decode_error + Control" where
  "observe show_f32 c resp =
     (case resp of
        NodeDataR nid data \<Rightarrow> Inr (c\<lparr>ct_values := entry_update nid [] (\<lambda>vs. vs @ [from_node show_f32 data]) (ct_values c)\<rparr>)
      | NodeDefR def \<Rightarrow>
          (case to_wire_bytes def of
             Inl e \<Rightarrow> Inl (DecodeFailed e)
           | Inr bytes \<Rightarrow> Inr (c\<lparr>ct_definitions := entry_update (nd_id def) [] (List.insert bytes) (ct_definitions c)\<rparr>))
      | RequestEnd \<Rightarrow> Inr (c\<lparr>ct_request_ends := ct_request_ends c + 1\<rparr>))"

text \<open>
  The \<open>MemoryTransport\<close>: one captured byte for each read, then the end of the capture; writes and
  timeouts are accepted. \<open>started\<close> is the reading of the clock at the construction of the console.
\<close>

definition memory_world :: "instant \<Rightarrow> instant list \<Rightarrow> byte list \<Rightarrow> World" where
  "memory_world started clock bytes = \<lparr>w_clock = clock, w_now = started, w_reconnecting = [], w_tainted = False,
     w_input = map (\<lambda>b. Received [b]) bytes @ [Failed UnexpectedEof], w_write_errors = [], w_written = []\<rparr>"

definition bytes_left :: "World \<Rightarrow> nat" where
  "bytes_left w = length (filter (\<lambda>i. case i of Received _ \<Rightarrow> True | Failed _ \<Rightarrow> False) (w_input w))"

definition READ_WINDOW :: duration where
  "READ_WINDOW = 30 * nanos_per_second"

partial_function (option) decode_loop :: "(f32 \<Rightarrow> string) \<Rightarrow> Control \<Rightarrow> Main \<Rightarrow> World \<Rightarrow> (decode_error + Control) option" where
  "decode_loop show_f32 c r w =
     Option.bind (read_timeout READ_WINDOW r w) (\<lambda>(x, r', w').
       case x of
         Inr resp \<Rightarrow> (case observe show_f32 c resp of Inl e \<Rightarrow> Some (Inl e) | Inr c \<Rightarrow> decode_loop show_f32 c r' w')
       | Inl e \<Rightarrow>
           if e = Io UnexpectedEof
           then Some (if bytes_left w' = bytes_left w then Inr c else Inl Truncated)
           else Some (Inl (DecodeFailed e)))"

declare decode_loop.simps [code]

definition channel_bytes :: "string \<Rightarrow> event list \<Rightarrow> byte list list" where
  "channel_bytes channel events = map snd (filter (\<lambda>(c, _). c = channel) events)"

definition decode_control :: "(f32 \<Rightarrow> string) \<Rightarrow> instant \<Rightarrow> instant list \<Rightarrow> event list \<Rightarrow> (decode_error + Control) option" where
  "decode_control show_f32 started clock events =
     decode_loop show_f32 no_control (new_main started) (memory_world started clock (concat (channel_bytes ''N<'' events)))"

section \<open>The requests and the meters\<close>

fun push_parts :: "NativeRequestDecoder \<Rightarrow> byte list list \<Rightarrow> NativeRequest list \<Rightarrow> NativeRequest list result \<times> NativeRequestDecoder" where
  "push_parts d [] requests = (Inr requests, d)"
| "push_parts d (bytes # parts) requests =
     (case push_requests d bytes of
        (Inl e, d) \<Rightarrow> (Inl e, d)
      | (Inr new, d) \<Rightarrow> push_parts d parts (requests @ new))"

fun is_keep_alive :: "NativeRequest \<Rightarrow> bool" where
  "is_keep_alive (NativeRequest.KeepAlive _) = True"
| "is_keep_alive _ = False"

definition decode_requests :: "event list \<Rightarrow> string \<Rightarrow> NativeRequest list result" where
  "decode_requests events channel =
     (case push_parts default_decoder (channel_bytes channel events) [] of
        (Inl e, _) \<Rightarrow> Inl e
      | (Inr requests, d) \<Rightarrow>
          (case flush_decoder d of
             (Inl e, _) \<Rightarrow> Inl e
           | (Inr new, d) \<Rightarrow>
               and_then (finish_decoder d) (\<lambda>_. Inr (filter (\<lambda>q. \<not> is_keep_alive q) (requests @ new)))))"

definition requests_of :: "NativeRequest list result \<Rightarrow> NativeRequest list result \<Rightarrow> NativeRequest list" where
  "requests_of native meter =
     (case native of Inr rs \<Rightarrow> rs | Inl _ \<Rightarrow> []) @ (case meter of Inr rs \<Rightarrow> rs | Inl _ \<Rightarrow> [])"

record MeterShape =
  ms_report_token :: bool
  ms_payload_bytes :: nat

definition shape_words :: "MeterShape \<Rightarrow> nat option" where
  "shape_words s = (if even (ms_payload_bytes s) then Some (ms_payload_bytes s div 2) else None)"

definition format_shape :: "MeterShape \<Rightarrow> string" where
  "format_shape s =
     (let token = (if ms_report_token s then ''present'' else ''missing'') in
      case shape_words s of
        Some words \<Rightarrow> ''token='' @ token @ '' words='' @ show_nat words
      | None \<Rightarrow> ''token='' @ token @ '' payload_bytes='' @ show_nat (ms_payload_bytes s) @ '' (odd)'')"

datatype MeterCardinality = Replaces | Concurrent | Ambiguous

fun cardinality_str :: "MeterCardinality \<Rightarrow> string" where
  "cardinality_str Replaces = ''replaces''"
| "cardinality_str Concurrent = ''concurrent''"
| "cardinality_str Ambiguous = ''ambiguous''"

record MeterEvidence =
  mv_shapes :: "MeterShape list"
  mv_cardinality :: MeterCardinality

fun subscribed_report :: "NativeRequest \<Rightarrow> u32 option" where
  "subscribed_report (NativeRequest.MeterSubscribe _ rid _) = Some (and rid 0xffff0000)"
| "subscribed_report _ = None"

definition meter_shape :: "byte list \<Rightarrow> MeterShape" where
  "meter_shape bytes = (let report_token = length bytes \<ge> 4 in
     \<lparr>ms_report_token = report_token, ms_payload_bytes = length bytes - (if report_token then 4 else 0)\<rparr>)"

definition meter_tokens :: "byte list list \<Rightarrow> u32 list" where
  "meter_tokens frames = remdups (map (\<lambda>bytes. u32_from_be (take 4 bytes)) (filter (\<lambda>bytes. length bytes \<ge> 4) frames))"

definition meter_evidence :: "event list \<Rightarrow> NativeRequest list \<Rightarrow> MeterEvidence" where
  "meter_evidence events requests =
     (let subscribed = List.map_filter subscribed_report requests;
          frames = channel_bytes ''M<'' events;
          tokens = meter_tokens frames;
          subscriptions = remdups subscribed in
      \<lparr>mv_shapes = map meter_shape frames,
       mv_cardinality =
         (if length subscriptions < 2 then Ambiguous
          else if length (filter (\<lambda>t. t \<in> set subscriptions) tokens) \<ge> 2 then Concurrent
          else if subscribed \<noteq> [] \<and> length tokens = 1 \<and> last subscribed \<in> set tokens then Replaces
          else Ambiguous)\<rparr>)"

section \<open>Names of ids\<close>

fun common_prefix :: "'a list \<Rightarrow> 'a list \<Rightarrow> nat" where
  "common_prefix (a # as) (b # bs) = (if a = b then Suc (common_prefix as bs) else 0)"
| "common_prefix _ _ = 0"

definition common_slot :: "string list \<Rightarrow> string" where
  "common_slot paths =
     (let first = split_on CHR ''/'' (hd paths);
          shared = foldl (\<lambda>shared p. min shared (common_prefix first (split_on CHR ''/'' p))) (length first) (tl paths) in
      join_with CHR ''/'' (take shared first))"

definition describe_id :: "propmap \<Rightarrow> i32 \<Rightarrow> string" where
  "describe_id entries nid =
     (let shown = show_int (sint nid) in
      case id_to_defs entries nid of
        Some [(p, _)] \<Rightarrow> ''path='' @ p @ '' id='' @ shown
      | Some (d # ds) \<Rightarrow>
          (let paths = sort (map fst (d # ds)) in
           ''slot='' @ common_slot paths @ ''/* id='' @ shown @ '' ('' @ show_nat (length paths) @
             '' model variants, e.g. '' @ hd paths @ '')'')
      | _ \<Rightarrow> ''id='' @ shown)"

section \<open>The comparison\<close>

datatype deviation =
    ControlBoth decode_error | ControlHardware decode_error | ControlEmulator decode_error
  | RequestsBoth string error | RequestsHardware string error | RequestsEmulator string error
  | MissingInEmulator string | MissingInHardware string
  | ValuesDiffer string "Value list" "Value list" | DataNotInEmulator string | DataNotInHardware string
  | DefinitionNotInEmulator string | DefinitionNotInHardware string | DefinitionDiffers string
  | RequestEndCount nat nat
  | FrameCount nat nat | FrameShape nat string string
  | CardinalityDiffers string string

definition observed_ids :: "Control \<Rightarrow> i32 list" where
  "observed_ids c = sort_key sint (remdups (map fst (ct_values c) @ map fst (ct_definitions c)))"

definition value_deviation :: "propmap \<Rightarrow> Control \<Rightarrow> Control \<Rightarrow> i32 \<Rightarrow> deviation list" where
  "value_deviation entries hw emu nid =
     (case (map_of (ct_values hw) nid, map_of (ct_values emu) nid) of
        (Some h, Some e) \<Rightarrow> if h \<noteq> e then [ValuesDiffer (describe_id entries nid) h e] else []
      | (Some _, None) \<Rightarrow> [DataNotInEmulator (describe_id entries nid)]
      | (None, Some _) \<Rightarrow> [DataNotInHardware (describe_id entries nid)]
      | (None, None) \<Rightarrow> [])"

definition definition_deviation :: "propmap \<Rightarrow> Control \<Rightarrow> Control \<Rightarrow> i32 \<Rightarrow> deviation list" where
  "definition_deviation entries hw emu nid =
     (case (map_of (ct_definitions hw) nid, map_of (ct_definitions emu) nid) of
        (Some _, None) \<Rightarrow> [DefinitionNotInEmulator (describe_id entries nid)]
      | (None, Some _) \<Rightarrow> [DefinitionNotInHardware (describe_id entries nid)]
      | (Some h, Some e) \<Rightarrow> if set h \<noteq> set e then [DefinitionDiffers (describe_id entries nid)] else []
      | (None, None) \<Rightarrow> [])"

definition compare_control :: "propmap \<Rightarrow> Control \<Rightarrow> Control \<Rightarrow> deviation list" where
  "compare_control entries hw emu =
     (let hardware_ids = observed_ids hw; emulator_ids = observed_ids emu;
          shared = filter (\<lambda>nid. nid \<in> set emulator_ids) hardware_ids in
      map (\<lambda>nid. MissingInEmulator (describe_id entries nid)) (filter (\<lambda>nid. nid \<notin> set emulator_ids) hardware_ids) @
      map (\<lambda>nid. MissingInHardware (describe_id entries nid)) (filter (\<lambda>nid. nid \<notin> set hardware_ids) emulator_ids) @
      concat (map (value_deviation entries hw emu) shared) @
      concat (map (definition_deviation entries hw emu) shared) @
      (if ct_request_ends hw \<noteq> ct_request_ends emu then [RequestEndCount (ct_request_ends hw) (ct_request_ends emu)] else []))"

definition control_deviations :: "propmap \<Rightarrow> decode_error + Control \<Rightarrow> decode_error + Control \<Rightarrow> deviation list" where
  "control_deviations entries hw emu =
     (case (hw, emu) of
        (Inr h, Inr e) \<Rightarrow> compare_control entries h e
      | (Inl h, Inl e) \<Rightarrow> if h = e then [ControlBoth h] else [ControlHardware h]
      | (Inl h, Inr _) \<Rightarrow> [ControlHardware h]
      | (Inr _, Inl e) \<Rightarrow> [ControlEmulator e])"

definition report_decode_failures :: "string \<Rightarrow> NativeRequest list result \<Rightarrow> NativeRequest list result \<Rightarrow> deviation list" where
  "report_decode_failures channel hw emu =
     (case (hw, emu) of
        (Inl h, Inl e) \<Rightarrow> if h = e then [RequestsBoth channel h] else [RequestsHardware channel h]
      | (Inl h, Inr _) \<Rightarrow> [RequestsHardware channel h]
      | (Inr _, Inl e) \<Rightarrow> [RequestsEmulator channel e]
      | (Inr _, Inr _) \<Rightarrow> [])"

fun shape_deviations :: "nat \<Rightarrow> MeterShape list \<Rightarrow> MeterShape list \<Rightarrow> deviation list" where
  "shape_deviations index (h # hs) (e # es) =
     (if h \<noteq> e then [FrameShape (index + 1) (format_shape h) (format_shape e)] else []) @ shape_deviations (index + 1) hs es"
| "shape_deviations index _ _ = []"

definition compare_meters :: "MeterShape list \<Rightarrow> MeterShape list \<Rightarrow> deviation list" where
  "compare_meters hw emu =
     (if length hw \<noteq> length emu then [FrameCount (length hw) (length emu)] else []) @ shape_deviations 0 hw emu"

record Side =
  sd_control :: "decode_error + Control"
  sd_requests :: "NativeRequest list result"
  sd_meter_requests :: "NativeRequest list result"
  sd_meters :: MeterEvidence

definition decode_side :: "(f32 \<Rightarrow> string) \<Rightarrow> instant \<Rightarrow> instant list \<Rightarrow> event list \<Rightarrow> Side option" where
  "decode_side show_f32 started clock events =
     map_option (\<lambda>control.
       let requests = decode_requests events ''N>''; meter_requests = decode_requests events ''M>'' in
       \<lparr>sd_control = control, sd_requests = requests, sd_meter_requests = meter_requests,
        sd_meters = meter_evidence events (requests_of requests meter_requests)\<rparr>)
       (decode_control show_f32 started clock events)"

definition side_deviations :: "propmap \<Rightarrow> Side \<Rightarrow> Side \<Rightarrow> deviation list" where
  "side_deviations entries hw emu =
     control_deviations entries (sd_control hw) (sd_control emu) @
     report_decode_failures ''N> request'' (sd_requests hw) (sd_requests emu) @
     report_decode_failures ''M> request'' (sd_meter_requests hw) (sd_meter_requests emu) @
     compare_meters (mv_shapes (sd_meters hw)) (mv_shapes (sd_meters emu)) @
     (if mv_cardinality (sd_meters hw) \<noteq> mv_cardinality (sd_meters emu)
      then [CardinalityDiffers (cardinality_str (mv_cardinality (sd_meters hw))) (cardinality_str (mv_cardinality (sd_meters emu)))]
      else [])"

definition compare_fidelity :: "(f32 \<Rightarrow> string) \<Rightarrow> propmap \<Rightarrow> instant \<times> instant list \<Rightarrow> instant \<times> instant list \<Rightarrow>
    event list \<Rightarrow> event list \<Rightarrow> deviation list option" where
  "compare_fidelity show_f32 entries hw_clock emu_clock hardware emulator =
     (case (decode_side show_f32 (fst hw_clock) (snd hw_clock) hardware, decode_side show_f32 (fst emu_clock) (snd emu_clock) emulator) of
        (Some hw, Some emu) \<Rightarrow> Some (side_deviations entries hw emu)
      | _ \<Rightarrow> None)"

section \<open>No deviation means the same evidence\<close>

definition same_control :: "Control \<Rightarrow> Control \<Rightarrow> bool" where
  "same_control h e \<longleftrightarrow>
     (\<forall>nid. map_of (ct_values h) nid = map_of (ct_values e) nid \<and>
        map_option set (map_of (ct_definitions h) nid) = map_option set (map_of (ct_definitions e) nid)) \<and>
     ct_request_ends h = ct_request_ends e"

definition same_evidence :: "Side \<Rightarrow> Side \<Rightarrow> bool" where
  "same_evidence hw emu \<longleftrightarrow>
     (\<exists>h e. sd_control hw = Inr h \<and> sd_control emu = Inr e \<and> same_control h e) \<and>
     is_ok (sd_requests hw) \<and> is_ok (sd_requests emu) \<and> is_ok (sd_meter_requests hw) \<and> is_ok (sd_meter_requests emu) \<and>
     sd_meters hw = sd_meters emu"

lemma observed_ids_set: "nid \<in> set (observed_ids c) \<longleftrightarrow> map_of (ct_values c) nid \<noteq> None \<or> map_of (ct_definitions c) nid \<noteq> None"
  by (auto simp: observed_ids_def map_of_eq_None_iff)

lemma value_deviation_Nil: "value_deviation entries hw emu nid = [] \<longleftrightarrow> map_of (ct_values hw) nid = map_of (ct_values emu) nid"
  by (auto simp: value_deviation_def split: option.splits)

lemma definition_deviation_Nil:
  "definition_deviation entries hw emu nid = [] \<longleftrightarrow>
     map_option set (map_of (ct_definitions hw) nid) = map_option set (map_of (ct_definitions emu) nid)"
  by (auto simp: definition_deviation_def split: option.splits)

lemma compare_control_Nil: "compare_control entries hw emu = [] \<longleftrightarrow> same_control hw emu"
proof
  assume c: "compare_control entries hw emu = []"
  then have ids: "set (observed_ids hw) = set (observed_ids emu)"
    by (auto simp: compare_control_def Let_def filter_empty_conv)
  have "map_of (ct_values hw) nid = map_of (ct_values emu) nid \<and>
      map_option set (map_of (ct_definitions hw) nid) = map_option set (map_of (ct_definitions emu) nid)" for nid
  proof (cases "nid \<in> set (observed_ids hw)")
    case True
    then show ?thesis using c ids
      by (auto simp: compare_control_def Let_def value_deviation_Nil definition_deviation_Nil)
  next
    case False
    then have "nid \<notin> set (observed_ids emu)" using ids by simp
    with False show ?thesis by (auto simp: observed_ids_set)
  qed
  then show "same_control hw emu" using c by (auto simp: same_control_def compare_control_def Let_def split: if_splits)
next
  assume s: "same_control hw emu"
  have "nid \<in> set (observed_ids hw) \<longleftrightarrow> nid \<in> set (observed_ids emu)" for nid
    using s by (auto simp: same_control_def observed_ids_set) (metis option.map_disc_iff option.distinct(1))+
  then show "compare_control entries hw emu = []"
    using s by (auto simp: compare_control_def Let_def filter_empty_conv value_deviation_Nil definition_deviation_Nil same_control_def)
qed

lemma shape_deviations_Nil: "length hw = length emu \<Longrightarrow> shape_deviations index hw emu = [] \<longleftrightarrow> hw = emu"
  by (induction index hw emu rule: shape_deviations.induct) auto

lemma compare_meters_Nil: "compare_meters hw emu = [] \<longleftrightarrow> hw = emu"
  by (auto simp: compare_meters_def shape_deviations_Nil)

lemma decode_failures_Nil: "report_decode_failures channel hw emu = [] \<longleftrightarrow> is_ok hw \<and> is_ok emu"
  by (auto simp: report_decode_failures_def split: sum.splits)

lemma side_deviations_Nil: "side_deviations entries hw emu = [] \<longleftrightarrow> same_evidence hw emu"
proof -
  have "control_deviations entries (sd_control hw) (sd_control emu) = [] \<longleftrightarrow>
      (\<exists>h e. sd_control hw = Inr h \<and> sd_control emu = Inr e \<and> same_control h e)"
    by (auto simp: control_deviations_def compare_control_Nil split: sum.splits)
  moreover have "sd_meters hw = sd_meters emu \<longleftrightarrow>
      mv_shapes (sd_meters hw) = mv_shapes (sd_meters emu) \<and> mv_cardinality (sd_meters hw) = mv_cardinality (sd_meters emu)"
    by (cases "sd_meters hw"; cases "sd_meters emu") auto
  ultimately show ?thesis
    by (auto simp: side_deviations_def same_evidence_def compare_meters_Nil decode_failures_Nil)
qed

text \<open>
  C38. The comparison reports no deviation exactly when both captures decode completely and agree: on the sequence of
  values and the set of definitions of every node, on the number of completed requests, on the shape of every
  meter frame, and on the verdict about concurrent meters.
\<close>

theorem fidelity_exact:
  "compare_fidelity show_f32 entries hw_clock emu_clock hardware emulator = Some [] \<longleftrightarrow>
     (\<exists>hw emu. decode_side show_f32 (fst hw_clock) (snd hw_clock) hardware = Some hw \<and>
        decode_side show_f32 (fst emu_clock) (snd emu_clock) emulator = Some emu \<and> same_evidence hw emu)"
  by (auto simp: compare_fidelity_def side_deviations_Nil split: option.splits)

section \<open>A served stream decodes to what was served\<close>

text \<open>Readings of the clock within the window before a limit, and no interference with the session.\<close>

definition timely :: "instant \<Rightarrow> World \<Rightarrow> bool" where
  "timely limit w \<longleftrightarrow> (\<forall>t\<in>set (w_now w # w_clock w). limit \<le> t + READ_WINDOW \<and> t < limit) \<and> w_reconnecting w = [] \<and> w_write_errors w = [] \<and> \<not> w_tainted w"

lemma now_timely:
  assumes "now w = (t, w')" and "timely limit w"
  shows "t < limit" "timely limit w'" "w_input w' = w_input w" "limit \<le> t + READ_WINDOW"
  using assms by (auto simp: now_def timely_def split: list.splits)

lemma write_timely: "timely limit w \<Longrightarrow> write_all w bs = (Inr (), w\<lparr>w_written := w_written w @ bs\<rparr>) \<and> timely limit (w\<lparr>w_written := w_written w @ bs\<rparr>)"
  by (simp add: timely_def write_all_def)

text \<open>A reader between two bytes: nothing buffered, a deadline after the limit.\<close>

definition between :: "instant \<Rightarrow> Main \<Rightarrow> bool" where
  "between limit r \<longleftrightarrow> rm_rx_buf r = [] \<and> rm_rx_events r = [] \<and> rm_replay r = [] \<and> rm_capture r = None \<and>
     (\<exists>d. rm_op_deadline r = Some d \<and> limit \<le> d)"

lemma keep_alive_timely:
  assumes "timely limit w"
  shows "\<exists>tm w1. keep_alive r w = (Inr (), r\<lparr>rm_keep_alive_timer := tm\<rparr>, w1) \<and> timely limit w1 \<and> w_input w1 = w_input w"
proof -
  obtain t w1 where n: "now w = (t, w1)" by force
  note 1 = now_timely [OF n assms]
  show ?thesis
  proof (cases "rm_keep_alive_timer r \<le> t")
    case True
    let ?w = "w1\<lparr>w_written := w_written w1 @ keepalive_message\<rparr>"
    obtain t2 w2 where n2: "now ?w = (t2, w2)" by force
    have t: "timely limit ?w" using write_timely [OF 1(2)] by blast
    from now_timely [OF n2 t] write_timely [OF 1(2)] 1(3) show ?thesis
      using n True n2 by (auto simp: keep_alive_def)
  next
    case False
    then show ?thesis using n 1
      by (intro exI [where x = "rm_keep_alive_timer r"] exI [where x = w1]) (simp add: keep_alive_def)
  qed
qed

lemma fill_fed:
  assumes "between limit r" and "timely limit w" and "w_input w = Received [x] # rest"
  shows "\<exists>tm w1. fill r w = (Ready, r\<lparr>rm_keep_alive_timer := tm, rm_rx_buf := [x]\<rparr>, w1) \<and> timely limit w1 \<and> w_input w1 = rest"
proof -
  obtain tm w1 where k: "keep_alive r w = (Inr (), r\<lparr>rm_keep_alive_timer := tm\<rparr>, w1)" "timely limit w1" "w_input w1 = w_input w"
    using keep_alive_timely [OF assms(2)] by blast
  let ?r = "r\<lparr>rm_keep_alive_timer := tm\<rparr>"
  obtain d where d: "rm_op_deadline r = Some d" "limit \<le> d" using assms(1) by (auto simp: between_def)
  obtain t2 w2 where n2: "now w1 = (t2, w2)" by force
  note 2 = now_timely [OF n2 k(2)]
  obtain t3 w3 where n3: "now w2 = (t3, w3)" by force
  note 3 = now_timely [OF n3 2(2)]
  obtain t4 w4 where n4: "now w3 = (t4, w4)" by force
  note 4 = now_timely [OF n4 3(2)]
  have "deadline_passed ?r w1 = (False, w2)" using d n2 2 by (simp add: deadline_passed_def)
  moreover obtain u where "socket_timeout ?r w2 = (u, w4)" "u \<noteq> 0"
    using d n3 n4 by (auto simp: socket_timeout_def one_millisecond_def)
  moreover have "read_socket ?r w4 = (Ready, ?r\<lparr>rm_rx_buf := [x]\<rparr>, w4\<lparr>w_input := rest\<rparr>)"
    using assms(3) k(3) 2 3 4 by (simp add: read_socket_def)
  moreover have "timely limit (w4\<lparr>w_input := rest\<rparr>)" using 4(2) by (simp add: timely_def)
  ultimately show ?thesis
    using k(1) assms(1) by (intro exI [where x = tm] exI [where x = "w4\<lparr>w_input := rest\<rparr>"])
      (simp add: fill_def between_def set_read_timeout_def)
qed

lemma byte_fed:
  assumes "between limit r" and "timely limit w" and "w_input w = Received [x] # rest"
  shows "\<exists>tm w1. timely limit w1 \<and> w_input w1 = rest \<and>
    decode_next_inner r w = (case take_byte (r\<lparr>rm_rx_events := [], rm_keep_alive_timer := tm, rm_rx_buf := [x]\<rparr>) w1 of
        (Inl e, r, w) \<Rightarrow> Some (Inl e, r, w)
      | (Inr (Some v), r, w) \<Rightarrow> Some (Inr v, r, w)
      | (Inr None, r, w) \<Rightarrow> decode_next_inner r w)"
proof -
  have r: "load_reconnecting w = (False, w)" using assms(2) by (simp add: load_reconnecting_def timely_def)
  have b: "between limit (r\<lparr>rm_rx_events := []\<rparr>)" using assms(1) by (simp add: between_def)
  from fill_fed [OF b assms(2,3)] obtain tm w1 where
    "fill (r\<lparr>rm_rx_events := []\<rparr>) w = (Ready, r\<lparr>rm_rx_events := [], rm_keep_alive_timer := tm, rm_rx_buf := [x]\<rparr>, w1)"
    "timely limit w1" "w_input w1 = rest" by auto
  then show ?thesis
    using r assms(1) by (intro exI [where x = tm] exI [where x = w1])
      (subst decode_next_inner.simps, simp add: between_def)
qed

text \<open>The console decoder on a wire, at a byte boundary of the payload still to come.\<close>

definition feed :: "byte list \<Rightarrow> sock list" where
  "feed bytes = map (\<lambda>b. Received [b]) bytes @ [Failed UnexpectedEof]"

lemma feed_simps [simp]: "feed [] = [Failed UnexpectedEof]" "feed (b # bs) = Received [b] # feed bs"
  by (simp_all add: feed_def)

definition on_audio :: ChannelDecoder where
  "on_audio = \<lparr>cd_escaped = False, cd_channel = Some AUDIO_ENGINE_CHANNEL\<rparr>"

definition fed :: "instant \<Rightarrow> byte list \<Rightarrow> Main \<Rightarrow> World \<Rightarrow> bool" where
  "fed limit bytes r w \<longleftrightarrow> between limit r \<and> timely limit w \<and> w_input w = feed (escape bytes) \<and> rm_rx_channels r = on_audio \<and>
     length (rm_read_capture r) + length bytes \<le> MAX_NATIVE_RESPONSE_BYTES"

lemmas take_byte_simps = take_byte_def push_byte_def on_audio_def AUDIO_ENGINE_CHANNEL_def deliver_room Let_def

lemma take_plain:
  assumes "rm_rx_channels r = on_audio" and "b \<noteq> ESCAPE" and "length (rm_read_capture r) < MAX_NATIVE_RESPONSE_BYTES"
  shows "take_byte (r\<lparr>rm_rx_events := [], rm_keep_alive_timer := tm, rm_rx_buf := [b]\<rparr>) w =
    (Inr (Some b), r\<lparr>rm_rx_events := [], rm_keep_alive_timer := tm, rm_rx_buf := [],
       rm_read_capture := rm_read_capture r @ [(AUDIO_ENGINE_CHANNEL, b)]\<rparr>, w)"
  using assms by (simp add: take_byte_simps)

lemma take_escape:
  assumes "rm_rx_channels r = on_audio"
  shows "take_byte (r\<lparr>rm_rx_events := [], rm_keep_alive_timer := tm, rm_rx_buf := [ESCAPE]\<rparr>) w =
    (Inr None, r\<lparr>rm_rx_events := [], rm_keep_alive_timer := tm, rm_rx_buf := [], rm_rx_channels := on_audio\<lparr>cd_escaped := True\<rparr>\<rparr>, w)"
  using assms by (simp add: take_byte_simps)

lemma take_escaped:
  assumes "rm_rx_channels r = on_audio\<lparr>cd_escaped := True\<rparr>" and "length (rm_read_capture r) < MAX_NATIVE_RESPONSE_BYTES"
  shows "take_byte (r\<lparr>rm_rx_events := [], rm_keep_alive_timer := tm, rm_rx_buf := [ESCAPED_ESCAPE]\<rparr>) w =
    (Inr (Some ESCAPE), r\<lparr>rm_rx_events := [], rm_keep_alive_timer := tm, rm_rx_buf := [], rm_rx_channels := on_audio,
       rm_read_capture := rm_read_capture r @ [(AUDIO_ENGINE_CHANNEL, ESCAPE)]\<rparr>, w)"
  using assms by (simp add: take_byte_simps)

lemma take_selection:
  assumes "rm_rx_channels r = on_audio\<lparr>cd_escaped := True\<rparr>"
  shows "take_byte (r\<lparr>rm_rx_events := [], rm_keep_alive_timer := tm, rm_rx_buf := [0xd1]\<rparr>) w =
    (Inr None, r\<lparr>rm_rx_events := [], rm_keep_alive_timer := tm, rm_rx_buf := [], rm_rx_channels := on_audio\<rparr>, w)"
  using assms by (simp add: take_byte_simps)

lemma decode_fed:
  assumes "fed limit (b # bytes) r w"
  shows "\<exists>r' w'. decode_next_inner r w = Some (Inr b, r', w') \<and> fed limit bytes r' w'"
proof -
  from assms have f: "between limit r" "timely limit w" "w_input w = feed (escape (b # bytes))" "rm_rx_channels r = on_audio"
    "length (rm_read_capture r) < MAX_NATIVE_RESPONSE_BYTES"
    "length (rm_read_capture r) + Suc (length bytes) \<le> MAX_NATIVE_RESPONSE_BYTES" by (auto simp: fed_def)
  show ?thesis
  proof (cases "b = ESCAPE")
    case False
    then have "w_input w = Received [b] # feed (escape bytes)" using f(3) by simp
    from byte_fed [OF f(1,2) this] obtain tm w1 where 1: "timely limit w1" "w_input w1 = feed (escape bytes)"
      and d: "decode_next_inner r w = Some (Inr b, r\<lparr>rm_rx_events := [], rm_keep_alive_timer := tm, rm_rx_buf := [],
       rm_read_capture := rm_read_capture r @ [(AUDIO_ENGINE_CHANNEL, b)]\<rparr>, w1)"
      using take_plain [OF f(4) False f(5)] by auto
    then show ?thesis using f by (auto simp: fed_def between_def)
  next
    case True
    then have "w_input w = Received [ESCAPE] # Received [ESCAPED_ESCAPE] # feed (escape bytes)" using f(3) by simp
    from byte_fed [OF f(1,2) this] obtain tm w1 where 1: "timely limit w1" "w_input w1 = Received [ESCAPED_ESCAPE] # feed (escape bytes)"
      and d: "decode_next_inner r w = decode_next_inner (r\<lparr>rm_rx_events := [], rm_keep_alive_timer := tm, rm_rx_buf := [],
        rm_rx_channels := on_audio\<lparr>cd_escaped := True\<rparr>\<rparr>) w1"
      using take_escape [OF f(4)] by auto
    let ?r = "r\<lparr>rm_rx_events := [], rm_keep_alive_timer := tm, rm_rx_buf := [], rm_rx_channels := on_audio\<lparr>cd_escaped := True\<rparr>\<rparr>"
    have b: "between limit ?r" using f(1) by (simp add: between_def)
    from byte_fed [OF b 1] obtain tm2 w2 where 2: "timely limit w2" "w_input w2 = feed (escape bytes)"
      and d2: "decode_next_inner ?r w1 = Some (Inr ESCAPE, ?r\<lparr>rm_rx_events := [], rm_keep_alive_timer := tm2, rm_rx_buf := [],
        rm_rx_channels := on_audio, rm_read_capture := rm_read_capture ?r @ [(AUDIO_ENGINE_CHANNEL, ESCAPE)]\<rparr>, w2)"
      using take_escaped [of ?r] f(5) by auto
    then show ?thesis using f d True by (auto simp: fed_def between_def)
  qed
qed

text \<open>The channel selection at the head of a frame is absorbed.\<close>

lemma decode_selected:
  assumes "between limit r" and "timely limit w" and "w_input w = feed ([0xdf, 0xd1] @ escape (b # bytes))" and "rm_rx_channels r = on_audio"
    and "length (rm_read_capture r) + Suc (length bytes) \<le> MAX_NATIVE_RESPONSE_BYTES"
  shows "\<exists>r' w'. decode_next_inner r w = Some (Inr b, r', w') \<and> fed limit bytes r' w'"
proof -
  have "w_input w = Received [ESCAPE] # Received [0xd1] # feed (escape (b # bytes))" using assms(3) by simp
  from byte_fed [OF assms(1,2) this] obtain tm w1 where 1: "timely limit w1" "w_input w1 = Received [0xd1] # feed (escape (b # bytes))"
    and d: "decode_next_inner r w = decode_next_inner (r\<lparr>rm_rx_events := [], rm_keep_alive_timer := tm, rm_rx_buf := [],
        rm_rx_channels := on_audio\<lparr>cd_escaped := True\<rparr>\<rparr>) w1"
    using take_escape [OF assms(4)] by auto
  let ?r = "r\<lparr>rm_rx_events := [], rm_keep_alive_timer := tm, rm_rx_buf := [], rm_rx_channels := on_audio\<lparr>cd_escaped := True\<rparr>\<rparr>"
  have b: "between limit ?r" using assms(1) by (simp add: between_def)
  from byte_fed [OF b 1] obtain tm2 w2 where 2: "timely limit w2" "w_input w2 = feed (escape (b # bytes))"
    and d2: "decode_next_inner ?r w1 = decode_next_inner (?r\<lparr>rm_rx_events := [], rm_keep_alive_timer := tm2, rm_rx_buf := [],
        rm_rx_channels := on_audio\<rparr>) w2"
    using take_selection [of ?r] by auto
  have "fed limit (b # bytes) (?r\<lparr>rm_rx_events := [], rm_keep_alive_timer := tm2, rm_rx_buf := [], rm_rx_channels := on_audio\<rparr>) w2"
    using 2 assms by (simp add: fed_def between_def)
  from decode_fed [OF this] d d2 show ?thesis by simp
qed

lemma stream_escape: "stream on_audio (escape bytes) = bytes"
proof (induction bytes)
  case (Cons b bytes)
  then show ?case by (simp add: push_byte_def on_audio_def AUDIO_ENGINE_CHANNEL_def)
qed simp

lemma stream_selected: "stream on_audio ([0xdf, 0xd1] @ escape bytes) = bytes"
  using stream_escape [of bytes] by (simp add: push_byte_def on_audio_def AUDIO_ENGINE_CHANNEL_def)

lemma received_feed: "concat (map received (feed bytes)) = bytes"
  by (simp add: feed_def comp_def)

text \<open>The two positions a feeding transport can be in, and the bytes it holds.\<close>

definition wire :: "bool \<Rightarrow> byte list \<Rightarrow> byte list" where
  "wire selecting bytes = (if selecting then [0xdf, 0xd1] else []) @ escape bytes"

definition feeding :: "instant \<Rightarrow> Main \<times> World \<Rightarrow> bool" where
  "feeding limit s \<longleftrightarrow> between limit (fst s) \<and> timely limit (snd s) \<and> rm_rx_channels (fst s) = on_audio \<and>
     (\<exists>selecting bytes. w_input (snd s) = feed (wire selecting bytes) \<and> (selecting \<longrightarrow> bytes \<noteq> []) \<and>
        length (rm_read_capture (fst s)) + length bytes \<le> MAX_NATIVE_RESPONSE_BYTES)"

lemma stream_wire: "stream on_audio (wire selecting bytes) = bytes"
  using stream_escape [of bytes] stream_selected [of bytes] unfolding wire_def
  by (cases selecting) (simp_all only: if_True if_False append.left_neutral)

lemma feeding_logical:
  assumes "between limit r" and "rm_rx_channels r = on_audio" and "w_input w = feed (wire selecting bytes)"
  shows "logical r w = bytes"
  using assms by (simp add: logical_def between_def received_feed stream_wire)

lemma between_logical:
  "rm_rx_buf r = [] \<Longrightarrow> rm_rx_events r = [] \<Longrightarrow> rm_replay r = [] \<Longrightarrow> rm_rx_channels r = on_audio \<Longrightarrow>
     w_input w = feed (wire selecting bytes) \<Longrightarrow> logical r w = bytes"
  by (simp add: logical_def received_feed stream_wire)

interpretation served: live_source console_source "\<lambda>s. logical (fst s) (snd s)" "feeding limit" for limit
proof
  fix s b bs assume g: "feeding limit s" and h: "logical (fst s) (snd s) = b # bs"
  obtain r w where s: "s = (r, w)" by force
  from g s obtain selecting bytes where f: "between limit r" "timely limit w" "rm_rx_channels r = on_audio"
    "w_input w = feed (wire selecting bytes)" "length (rm_read_capture r) + length bytes \<le> MAX_NATIVE_RESPONSE_BYTES"
    by (auto simp: feeding_def)
  from feeding_logical [OF f(1,3,4)] h s have bytes: "bytes = b # bs" by simp
  have "\<exists>r' w'. decode_next_inner r w = Some (Inr b, r', w') \<and> fed limit bs r' w'"
  proof (cases selecting)
    case True
    then show ?thesis using decode_selected [OF f(1,2) _ f(3)] f(4,5) bytes by (simp add: wire_def)
  next
    case False
    then show ?thesis using decode_fed [of limit b bs r w] f bytes by (simp add: wire_def fed_def)
  qed
  then obtain r' w' where d: "decode_next_inner r w = Some (Inr b, r', w')" and fd: "fed limit bs r' w'" by blast
  have cap: "rm_capture r' = None" using fd by (simp add: fed_def between_def)
  have "feeding limit (r', w')" using fd unfolding feeding_def fed_def
    by (auto simp: wire_def intro!: exI [where x = False])
  moreover have "logical r' w' = bs"
    using fd feeding_logical [of limit r' w' False bs] by (simp add: fed_def wire_def)
  ultimately show "\<exists>s'. console_source s = Some (Inr b, s') \<and> feeding limit s' \<and> logical (fst s') (snd s') = bs"
    using d cap s by (auto simp: console_source_def decode_next_def)
qed

text \<open>A reader between two responses.\<close>

definition idle :: "instant \<Rightarrow> bool \<Rightarrow> byte list \<Rightarrow> Main \<Rightarrow> World \<Rightarrow> bool" where
  "idle limit selecting bytes r w \<longleftrightarrow> timely limit w \<and> rm_rx_buf r = [] \<and> rm_rx_events r = [] \<and> rm_replay r = [] \<and>
     rm_capture r = None \<and> rm_pending r = [] \<and> rm_rx_channels r = on_audio \<and>
     w_input w = feed (wire selecting bytes) \<and> (selecting \<longrightarrow> bytes \<noteq> []) \<and> length bytes \<le> MAX_NATIVE_RESPONSE_BYTES"

lemma idle_ok: "idle limit selecting bytes r w \<Longrightarrow> reader_ok r"
  by (simp add: idle_def reader_ok_def on_audio_def)

lemma read_idle:
  assumes "idle limit selecting bytes r w"
    and "read_response uncons (rm_current_node_id r) bytes = Some ((Inr resp, cur), rest)"
  shows "\<exists>selecting' r' w'. read_timeout READ_WINDOW r w = Some (Inr resp, r', w') \<and> idle limit selecting' rest r' w' \<and> rm_current_node_id r' = cur"
proof -
  obtain t w1 where n: "now w = (t, w1)" by force
  from assms(1) have i: "timely limit w" "rm_pending r = []" "w_input w = feed (wire selecting bytes)"
    "rm_rx_channels r = on_audio" "length bytes \<le> MAX_NATIVE_RESPONSE_BYTES" by (auto simp: idle_def)
  note 1 = now_timely [OF n i(1)]
  have lr: "load_reconnecting w1 = (False, w1)" "\<not> w_tainted w1" using 1(2) by (auto simp: timely_def load_reconnecting_def)
  let ?r = "r\<lparr>rm_op_deadline := Some (t + READ_WINDOW), rm_read_capture := []\<rparr>"
  have good: "feeding limit (?r, w1)" using assms(1) 1 by (auto simp: feeding_def idle_def between_def)
  have log: "logical ?r w1 = bytes" using between_logical [of ?r w1 selecting bytes] assms(1) 1(3) by (simp add: idle_def)
  from served.completes_response [OF assms(2) good] log obtain r1 w2 where
    rr: "read_response console_source (rm_current_node_id r) (?r, w1) = Some ((Inr resp, cur), (r1, w2))"
    and g1: "feeding limit (r1, w2)" and l1: "logical r1 w2 = rest" by auto
  have ri: "read_inner ?r w1 = Some (Inr resp, r1\<lparr>rm_current_node_id := cur\<rparr>, w2)" using rr by (simp add: read_inner_def)
  have pend: "rm_pending r1 = []" using read_inner_ok [OF ri] idle_ok [OF assms(1)] i(2) by (simp add: reader_ok_def)
  let ?r' = "r1\<lparr>rm_current_node_id := cur, rm_read_capture := [], rm_op_deadline := None\<rparr>"
  have "read_timeout READ_WINDOW r w = Some (Inr resp, ?r', w2)"
    using n lr ri i(2) by (simp add: read_timeout_def read_locked_def settle_read_def Let_def)
  moreover from g1 obtain sel2 bytes2 where f: "between limit r1" "timely limit w2" "rm_rx_channels r1 = on_audio"
    "w_input w2 = feed (wire sel2 bytes2)" "length bytes2 \<le> MAX_NATIVE_RESPONSE_BYTES" "sel2 \<longrightarrow> bytes2 \<noteq> []"
    by (auto simp: feeding_def)
  moreover have "bytes2 = rest" using feeding_logical [OF f(1,3,4)] l1 by simp
  ultimately show ?thesis using pend
    by (intro exI [where x = sel2] exI [where x = ?r'] exI [where x = w2]) (auto simp: idle_def between_def)
qed

lemma read_exhausted:
  assumes "idle limit selecting [] r w"
  shows "\<exists>r' w'. read_timeout READ_WINDOW r w = Some (Inl (Io UnexpectedEof), r', w') \<and> bytes_left w' = bytes_left w"
proof -
  from assms have i: "timely limit w" "rm_pending r = []" "w_input w = [Failed UnexpectedEof]" "rm_rx_buf r = []"
    "rm_rx_events r = []" "rm_replay r = []" by (auto simp: idle_def wire_def)
  obtain t w1 where n: "now w = (t, w1)" by force
  note 1 = now_timely [OF n i(1)]
  let ?r = "r\<lparr>rm_op_deadline := Some (t + READ_WINDOW), rm_read_capture := []\<rparr>"
  let ?q = "?r\<lparr>rm_rx_events := []\<rparr>"
  obtain tm w2 where k: "keep_alive ?q w1 = (Inr (), ?q\<lparr>rm_keep_alive_timer := tm\<rparr>, w2)" "timely limit w2" "w_input w2 = w_input w1"
    using keep_alive_timely [OF 1(2)] by blast
  obtain t3 w3 where n3: "now w2 = (t3, w3)" by force
  note 3 = now_timely [OF n3 k(2)]
  obtain t4 w4 where n4: "now w3 = (t4, w4)" by force
  note 4 = now_timely [OF n4 3(2)]
  obtain t5 w5 where n5: "now w4 = (t5, w5)" by force
  note 5 = now_timely [OF n5 4(2)]
  have inp: "w_input w5 = [Failed UnexpectedEof]" using i(3) 1 3 4 5 k(3) by simp
  have "deadline_passed (?q\<lparr>rm_keep_alive_timer := tm\<rparr>) w2 = (False, w3)" using n3 3 1(4) by (simp add: deadline_passed_def)
  moreover obtain u where "socket_timeout (?q\<lparr>rm_keep_alive_timer := tm\<rparr>) w3 = (u, w5)" "u \<noteq> 0"
    using n4 n5 by (auto simp: socket_timeout_def one_millisecond_def)
  ultimately have f: "fill ?q w1 = (Fails (Io UnexpectedEof), ?q\<lparr>rm_keep_alive_timer := tm\<rparr>, w5\<lparr>w_input := []\<rparr>)"
    using k(1) i(4) inp by (simp add: fill_def set_read_timeout_def read_socket_def)
  have lr: "load_reconnecting w1 = (False, w1)" "\<not> w_tainted w1" using 1(2) by (auto simp: timely_def load_reconnecting_def)
  have "decode_next_inner ?r w1 = Some (Inl (Io UnexpectedEof), ?q\<lparr>rm_keep_alive_timer := tm\<rparr>, w5\<lparr>w_input := []\<rparr>)"
    using lr f i(5,6) by (subst decode_next_inner.simps) simp
  then have ri: "\<exists>r'. read_inner ?r w1 = Some (Inl (Io UnexpectedEof), r', w5\<lparr>w_input := []\<rparr>)"
    by (auto simp: read_inner_def read_response_case console_source_def decode_next_def)
  have "w_reconnecting w5 = []" using 5(2) by (simp add: timely_def)
  then have "\<exists>r'. read_timeout READ_WINDOW r w = Some (Inl (Io UnexpectedEof), r', w5\<lparr>w_input := []\<rparr>)"
    using n lr i(2) ri by (auto simp: read_timeout_def read_locked_def settle_read_def Let_def load_reconnecting_def)
  moreover have "bytes_left (w5\<lparr>w_input := []\<rparr>) = bytes_left w" using i(3) by (simp add: bytes_left_def)
  ultimately show ?thesis by blast
qed

text \<open>What a list of responses says of a node.\<close>

fun native_value :: "NativeValue \<Rightarrow> Value" where
  "native_value (Integer v) = IntegerV v"
| "native_value (Float v) = FloatBits v"
| "native_value (RawFloat v) = FloatBits v"
| "native_value (String s) = StringVal s"

fun value_for :: "i32 \<Rightarrow> NativeResponse \<Rightarrow> Value list" where
  "value_for nid (NNodeData i v) = (if i = nid then [native_value v] else [])"
| "value_for nid (NAuthoritativeEvent i v) = (if i = nid then [native_value v] else [])"
| "value_for nid _ = []"

definition values_of :: "i32 \<Rightarrow> NativeResponse list \<Rightarrow> Value list" where
  "values_of nid rs = concat (map (value_for nid) rs)"

definition definitions_of :: "i32 \<Rightarrow> NativeResponse list \<Rightarrow> byte list set" where
  "definitions_of nid rs = {def_raw d | d. NNodeDef d \<in> set rs \<and> nd_id d = nid}"

definition records :: "Control \<Rightarrow> NativeResponse list \<Rightarrow> bool" where
  "records c rs \<longleftrightarrow>
     (\<forall>nid. map_of (ct_values c) nid = (if values_of nid rs = [] then None else Some (values_of nid rs)) \<and>
        map_option set (map_of (ct_definitions c) nid) = (if definitions_of nid rs = {} then None else Some (definitions_of nid rs))) \<and>
     ct_request_ends c = count_list rs NRequestEnd"

lemma map_of_entry_update:
  "map_of (entry_update k d f m) = (map_of m)(k \<mapsto> f (case map_of m k of None \<Rightarrow> d | Some v \<Rightarrow> v))"
  by (induction m) auto

lemma no_control_records: "records no_control []"
  by (simp add: records_def no_control_def values_of_def definitions_of_def)

lemma observe_value:
  assumes "records c rs" and "\<And>i. value_for i r = (if i = nid then [from_node show_f32 data] else [])"
    and "\<And>d. r \<noteq> NNodeDef d" and "r \<noteq> NRequestEnd"
  shows "records (c\<lparr>ct_values := entry_update nid [] (\<lambda>vs. vs @ [from_node show_f32 data]) (ct_values c)\<rparr>) (rs @ [r])"
proof -
  have "definitions_of i (rs @ [r]) = definitions_of i rs" for i using assms(3) by (auto simp: definitions_of_def)
  moreover have "values_of i (rs @ [r]) = values_of i rs @ (if i = nid then [from_node show_f32 data] else [])" for i
    using assms(2) by (simp add: values_of_def)
  ultimately show ?thesis using assms(1,4) by (auto simp: records_def map_of_entry_update)
qed

lemma observe_definition:
  assumes "records c rs"
  shows "records (c\<lparr>ct_definitions := entry_update (nd_id d) [] (List.insert (def_raw d)) (ct_definitions c)\<rparr>) (rs @ [NNodeDef d])"
proof -
  have d: "definitions_of i (rs @ [NNodeDef d]) = definitions_of i rs \<union> (if i = nd_id d then {def_raw d} else {})" for i
    by (auto simp: definitions_of_def)
  have v: "values_of i (rs @ [NNodeDef d]) = values_of i rs" for i by (simp add: values_of_def)
  have known: "map_option set (map_of (ct_definitions c) i) = (if definitions_of i rs = {} then None else Some (definitions_of i rs))" for i
    using assms by (simp add: records_def)
  then have now: "set (case map_of (ct_definitions c) i of None \<Rightarrow> [] | Some v \<Rightarrow> v) = definitions_of i rs" for i
    by (cases "map_of (ct_definitions c) i"; cases "definitions_of i rs = {}") (metis option.map option.distinct(1) option.inject list.set(1) option.case)+
  have "map_option set (map_of (entry_update (nd_id d) [] (List.insert (def_raw d)) (ct_definitions c)) i) =
      (if definitions_of i (rs @ [NNodeDef d]) = {} then None else Some (definitions_of i (rs @ [NNodeDef d])))" for i
  proof (cases "i = nd_id d")
    case True
    then show ?thesis using now [of i] by (simp add: map_of_entry_update d)
  next
    case False
    then show ?thesis using known [of i] by (simp add: map_of_entry_update d)
  qed
  then show ?thesis using assms v by (simp add: records_def)
qed

lemma observe_records:
  assumes "records c rs" and "response_ok r"
  shows "\<exists>c'. observe show_f32 c (client_view r) = Inr c' \<and> records c' (rs @ [r])"
proof (cases r)
  case NRequestEnd
  have "values_of i (rs @ [NRequestEnd]) = values_of i rs" "definitions_of i (rs @ [NRequestEnd]) = definitions_of i rs" for i
    by (auto simp: values_of_def definitions_of_def)
  then show ?thesis using assms NRequestEnd by (auto simp: observe_def records_def)
next
  case (NNodeDef d)
  have "to_wire_bytes (d\<lparr>nd_raw := b\<rparr>) = to_wire_bytes d" for b
    by (cases "nd_node_type d") (simp_all add: to_wire_bytes_def wire_flags_def push_type_payload_def)
  moreover have "to_wire_bytes d = Inr (def_raw d)" using to_wire_bytes_ok assms(2) NNodeDef by (simp add: def_raw_def)
  ultimately show ?thesis using observe_definition [OF assms(1), of d] NNodeDef by (simp add: observe_def)
next
  case (NNodeData i v)
  have "from_node show_f32 (data_of v) = native_value v" by (cases v) (simp_all add: from_node_def data_defs)
  then show ?thesis using observe_value [OF assms(1), of r i show_f32 "data_of v"] NNodeData by (simp add: observe_def)
next
  case (NAuthoritativeEvent i v)
  have "from_node show_f32 (data_of v) = native_value v" by (cases v) (simp_all add: from_node_def data_defs)
  then show ?thesis using observe_value [OF assms(1), of r i show_f32 "data_of v"] NAuthoritativeEvent by (simp add: observe_def)
qed

lemma decode_loop_records:
  assumes "encoded_all rs = Inr bytes" and "list_all response_ok rs" and "idle limit selecting bytes r w" and "records c seen"
  shows "\<exists>c'. decode_loop show_f32 c r w = Some (Inr c') \<and> records c' (seen @ rs)"
  using assms
proof (induction rs arbitrary: bytes selecting r w c seen)
  case Nil
  then have "idle limit selecting [] r w" by simp
  from read_exhausted [OF this] Nil.prems(4) show ?case by (auto simp: decode_loop.simps [of show_f32 c r w])
next
  case (Cons x xs)
  then obtain b bs where e: "encode_response x = Inr b" "encoded_all xs = Inr bs" "bytes = b @ bs" by (auto simp: and_then_iffs)
  have "read_response uncons (rm_current_node_id r) bytes = Some ((Inr (client_view x), id_after (rm_current_node_id r) x), bs)"
    using read_encoded [of x b "rm_current_node_id r" bs] e Cons.prems(2) by simp
  from read_idle [OF Cons.prems(3) this] obtain selecting' r' w' where
    rt: "read_timeout READ_WINDOW r w = Some (Inr (client_view x), r', w')" "idle limit selecting' bs r' w'" by blast
  from observe_records [OF Cons.prems(4), of x] Cons.prems(2) obtain c' where
    o: "observe show_f32 c (client_view x) = Inr c'" "records c' (seen @ [x])" by auto
  from Cons.IH [OF e(2) _ rt(2) o(2)] Cons.prems(2) rt(1) o(1) show ?case
    by (simp add: decode_loop.simps [of show_f32 c r w])
qed

text \<open>
  C14. A capture of a served stream decodes to exactly what was served: for any batch of responses the server encodes, however the
  frame is split over the events of the capture and whatever other events lie between, the decoder of the comparison finishes
  and holds, for every node, its values in order and its definitions, and the number of completed requests.
\<close>

theorem served_capture_decodes:
  assumes "encode_responses_bounded rs mx = Inr frame" and "mx < usize_max" and "list_all response_ok rs" and "rs \<noteq> []"
    and "concat (channel_bytes ''N<'' events) = frame" and "length frame \<le> MAX_NATIVE_RESPONSE_BYTES"
    and "\<forall>t\<in>set clock. started \<le> t \<and> t < started + READ_WINDOW"
  shows "\<exists>c. decode_control show_f32 started clock events = Some (Inr c) \<and>
    (\<forall>nid. map_of (ct_values c) nid = (if values_of nid rs = [] then None else Some (values_of nid rs)) \<and>
       map_option set (map_of (ct_definitions c) nid) = (if definitions_of nid rs = {} then None else Some (definitions_of nid rs))) \<and>
    ct_request_ends c = count_list rs NRequestEnd"
proof -
  have "2 \<le> mx" by (rule encode_bounded_min [OF assms(1)])
  from encode_bounded_cases [OF assms(2) this, of rs] assms(1) obtain bs where
    bs: "encoded_all rs = Inr bs" "frame = [0xdf, 0xd1] @ escape bs" by auto
  have "read_many uncons (length rs) 0 bs = Some (Inr (map client_view rs), [])"
    using read_many_encoded [OF assms(3) bs(1), of 0 "[]"] by simp
  then have ne: "bs \<noteq> []" using assms(4) by (cases rs) (auto simp: read_response_case)
  have len: "length bs \<le> length (escape bs)" by (induction bs) auto
  have "idle (started + READ_WINDOW) True bs (new_main started) (memory_world started clock frame)"
    using assms(6,7) bs(2) ne len
    by (auto simp: idle_def timely_def new_main_def memory_world_def on_audio_def audio_engine_decoder_def wire_def feed_def
        READ_WINDOW_def nanos_per_second_def)
  from decode_loop_records [OF bs(1) assms(3) this no_control_records, of show_f32] show ?thesis
    using assms(5) by (auto simp: decode_control_def records_def)
qed

text \<open>The sample frame of \<open>Response\<close> in two events, with a meter frame between them.\<close>

definition split_events :: "event list" where
  "split_events = [(''N<'', take 6 sample_frame), (''M<'', [1, 2, 3, 4]), (''N<'', drop 6 sample_frame)]"

theorem served_capture_decodes_witness:
  "\<exists>c. decode_control (\<lambda>_. []) 0 [1, 2] split_events = Some (Inr c) \<and>
     map_of (ct_values c) 0xdf = Some [StringVal ''ok''] \<and> map_of (ct_values c) 7 = Some [IntegerV (- 300)] \<and> ct_request_ends c = 1"
proof -
  have frame: "concat (channel_bytes ''N<'' split_events) = sample_frame"
    by (simp add: split_events_def channel_bytes_def)
  have rest: "(20 :: nat) < usize_max" "sample_batch \<noteq> []" "length sample_frame \<le> MAX_NATIVE_RESPONSE_BYTES"
    "\<forall>t\<in>set [1, 2]. (0 :: int) \<le> t \<and> t < 0 + READ_WINDOW"
    by (simp_all add: usize_max_def sample_batch_def sample_frame_def MAX_NATIVE_RESPONSE_BYTES_def READ_WINDOW_def nanos_per_second_def)
  have vals: "values_of 0xdf sample_batch = [StringVal ''ok'']" "values_of 7 sample_batch = [IntegerV (- 300)]"
    "count_list sample_batch NRequestEnd = 1"
    by (simp_all add: values_of_def sample_batch_def)
  from served_capture_decodes [OF sample_batch_encodes rest(1) sample_batch_ok rest(2) frame rest(3,4), of "\<lambda>_. []"] vals
  show ?thesis by auto
qed

text \<open>
  A complete stream whose last bytes select a channel, as a keep-alive does, counts as cut off: the read that meets
  the end of the capture has consumed them.
\<close>

lemma trailing_selection_is_truncated:
  "decode_control (\<lambda>_. []) 0 [] [(''N<'', sample_frame @ [0xdf, 0xd1])] = Some (Inl Truncated)"
  by code_simp

end
