(* ===== verification/Quarantine.thy ===== *)
theory Quarantine
  imports Capture
begin

text \<open>
  The quarantine of raw captures (\<open>tools/wingcapture.rs\<close>, on Unix): the directory tree with symbolic links and permissions, the
  preparation of a root, the path of an output below it, private writes and the check of a review candidate. System calls
  that change the tree fail by script; no other process changes it meanwhile, and the process may read every entry. A new
  entry has the mode the call asks for, that is, the mask of the process is zero.
\<close>

section \<open>The tree\<close>

text \<open>A path is what \<open>Path::components\<close> gives; an absolute name is the list of its parts.\<close>

datatype component = RootDir | CurDir | ParentDir | Normal string

type_synonym name = "string list"

text \<open>A file has its mode, contents and modification time; \<open>Link\<close> holds the target.\<close>

datatype node = Dir u32 | File u32 "byte list" int | Link "component list"

record Tree =
  tr_entries :: "(name \<times> node) list"
  tr_cwd :: name
  tr_faults :: "nat option list"

definition lookup :: "Tree \<Rightarrow> name \<Rightarrow> node option" where
  "lookup t p = (if p = [] then Some (Dir 0x1ed) else map_of (tr_entries t) p)"

definition put :: "name \<Rightarrow> node \<Rightarrow> Tree \<Rightarrow> Tree" where
  "put p e t = t\<lparr>tr_entries := (p, e) # tr_entries t\<rparr>"

text \<open>A fault of a write leaves that many bytes written.\<close>

definition fault :: "Tree \<Rightarrow> nat option \<times> Tree" where
  "fault t = (case tr_faults t of [] \<Rightarrow> (None, t) | b # bs \<Rightarrow> (b, t\<lparr>tr_faults := bs\<rparr>))"

text \<open>Resolution of a path from a directory, through at most as many links as the system follows.\<close>

function (sequential) resolve :: "nat \<Rightarrow> Tree \<Rightarrow> name \<Rightarrow> component list \<Rightarrow> name option" where
  "resolve n t d [] = Some d"
| "resolve n t d (RootDir # cs) = resolve n t [] cs"
| "resolve n t d (CurDir # cs) = resolve n t d cs"
| "resolve n t d (ParentDir # cs) = resolve n t (butlast d) cs"
| "resolve n t d (Normal c # cs) =
     (case lookup t (d @ [c]) of
        None \<Rightarrow> None
      | Some (Dir _) \<Rightarrow> resolve n t (d @ [c]) cs
      | Some (File _ _ _) \<Rightarrow> if cs = [] then Some (d @ [c]) else None
      | Some (Link target) \<Rightarrow> (case n of 0 \<Rightarrow> None | Suc n \<Rightarrow> resolve n t d (target @ cs)))"
  by pat_completeness auto

termination resolve
  by (relation "inv_image (less_than <*lex*> less_than) (\<lambda>(n, t, d, cs). (n, length cs))") auto

definition MAX_LINKS :: nat where
  "MAX_LINKS = 40"

definition canonicalize :: "Tree \<Rightarrow> component list \<Rightarrow> name option" where
  "canonicalize t p = (if p = [] then None else resolve MAX_LINKS t (tr_cwd t) p)"

text \<open>The directory a path is in; it may be given by no part at all.\<close>

definition directory_of :: "Tree \<Rightarrow> component list \<Rightarrow> name option" where
  "directory_of t p = resolve MAX_LINKS t (tr_cwd t) (butlast p)"

definition absolute :: "name \<Rightarrow> component list" where
  "absolute p = RootDir # map Normal p"

definition is_absolute :: "component list \<Rightarrow> bool" where
  "is_absolute p \<longleftrightarrow> (case p of RootDir # _ \<Rightarrow> True | _ \<Rightarrow> False)"

text \<open>\<open>Path::exists\<close> and \<open>metadata\<close> follow links; \<open>symlink_metadata\<close> does not follow the last part.\<close>

definition path_exists :: "Tree \<Rightarrow> component list \<Rightarrow> bool" where
  "path_exists t p \<longleftrightarrow> canonicalize t p \<noteq> None"

definition metadata_of :: "Tree \<Rightarrow> component list \<Rightarrow> node option" where
  "metadata_of t p = Option.bind (canonicalize t p) (lookup t)"

definition symlink_metadata :: "Tree \<Rightarrow> component list \<Rightarrow> node option" where
  "symlink_metadata t p =
     (if p = [] then None
      else case last p of
          Normal c \<Rightarrow> Option.bind (directory_of t p) (\<lambda>d. lookup t (d @ [c]))
        | _ \<Rightarrow> metadata_of t p)"

definition starts_with_path :: "'a list \<Rightarrow> 'a list \<Rightarrow> bool" where
  "starts_with_path base p \<longleftrightarrow> take (length base) p = base"

text \<open>The changing calls.\<close>

definition create_dir :: "component list \<Rightarrow> Tree \<Rightarrow> bool \<times> Tree" where
  "create_dir p t =
     (case fault t of (failed, t) \<Rightarrow>
      if failed \<noteq> None \<or> p = [] then (False, t)
      else case last p of
          Normal c \<Rightarrow>
            (case directory_of t p of
               None \<Rightarrow> (False, t)
             | Some d \<Rightarrow>
                 if lookup t (d @ [c]) \<noteq> None \<or> (case lookup t d of Some (Dir _) \<Rightarrow> False | _ \<Rightarrow> True) then (False, t)
                 else (True, put (d @ [c]) (Dir 0x1ff) t))
        | _ \<Rightarrow> (False, t))"

text \<open>\<open>create_dir_all\<close>: every part that is not yet a directory is made.\<close>

fun create_dirs :: "component list \<Rightarrow> component list \<Rightarrow> Tree \<Rightarrow> bool \<times> Tree" where
  "create_dirs made [] t = (True, t)"
| "create_dirs made (c # cs) t =
     (case metadata_of t (made @ [c]) of
        Some (Dir _) \<Rightarrow> create_dirs (made @ [c]) cs t
      | _ \<Rightarrow>
          (case create_dir (made @ [c]) t of
             (False, t) \<Rightarrow> (False, t)
           | (True, t) \<Rightarrow> create_dirs (made @ [c]) cs t))"

definition set_mode :: "u32 \<Rightarrow> node \<Rightarrow> node" where
  "set_mode m e = (case e of Dir _ \<Rightarrow> Dir m | File _ bs time \<Rightarrow> File m bs time | Link target \<Rightarrow> Link target)"

definition set_permissions :: "component list \<Rightarrow> u32 \<Rightarrow> Tree \<Rightarrow> bool \<times> Tree" where
  "set_permissions p m t =
     (case fault t of (failed, t) \<Rightarrow>
      if failed \<noteq> None then (False, t)
      else case canonicalize t p of
          None \<Rightarrow> (False, t)
        | Some q \<Rightarrow> (case lookup t q of None \<Rightarrow> (False, t) | Some e \<Rightarrow> (True, put q (set_mode m e) t)))"

section \<open>The checks\<close>

datatype quarantine_error =
    SynchronizedRoot | InsideRepository | RootIsLink | NotOwnerOnly | NotPlainRelative | NoParent
  | UnsafeEntry | EscapesThroughLink | CandidateIsLink | Escapes
  | SynchronizedCandidate | ReviewInsideRepository
  | NotACapture | SystemFailed

definition SYNCHRONIZED :: "string list" where
  "SYNCHRONIZED = [''dropbox'', ''onedrive'', ''google drive'', ''googledrive'', ''icloud drive'', ''mobile documents'',
     ''syncthing'', ''box sync'']"

fun component_str :: "component \<Rightarrow> string" where
  "component_str RootDir = ''/''"
| "component_str CurDir = ''.''"
| "component_str ParentDir = ''..''"
| "component_str (Normal c) = c"

definition is_synchronized :: "component list \<Rightarrow> bool" where
  "is_synchronized p \<longleftrightarrow> (\<exists>c\<in>set p. \<exists>n\<in>set SYNCHRONIZED. contains n (ascii_lower (component_str c)))"

definition mode_of :: "node \<Rightarrow> u32" where
  "mode_of e = (case e of Dir m \<Rightarrow> m | File m _ _ \<Rightarrow> m | Link _ \<Rightarrow> 0x1ff)"

definition validate_private_permissions :: "Tree \<Rightarrow> component list \<Rightarrow> quarantine_error + unit" where
  "validate_private_permissions t p =
     (case metadata_of t p of
        None \<Rightarrow> Inl SystemFailed
      | Some e \<Rightarrow> if and (mode_of e) 0x3f \<noteq> 0 then Inl NotOwnerOnly else Inr ())"

text \<open>The root: created where it is missing, resolved, outside the repository, and owner-only.\<close>

definition prepare_quarantine :: "component list \<Rightarrow> component list \<Rightarrow> Tree \<Rightarrow> (quarantine_error + name) \<times> Tree" where
  "prepare_quarantine home repository t =
     (if is_synchronized home then (Inl SynchronizedRoot, t)
      else case canonicalize t repository of
          None \<Rightarrow> (Inl SystemFailed, t)
        | Some repo \<Rightarrow>
            if is_absolute home \<and> starts_with_path (absolute repo) home then (Inl InsideRepository, t)
            else if path_exists t home \<and> (case symlink_metadata t home of Some (Link _) \<Rightarrow> True | _ \<Rightarrow> False) then (Inl RootIsLink, t)
            else (case create_dirs [] home t of
                (False, t) \<Rightarrow> (Inl SystemFailed, t)
              | (True, t) \<Rightarrow>
                  (case canonicalize t home of
                     None \<Rightarrow> (Inl SystemFailed, t)
                   | Some base \<Rightarrow>
                       if is_synchronized (absolute base) then (Inl SynchronizedRoot, t)
                       else if starts_with_path repo base \<or> starts_with_path base repo then (Inl InsideRepository, t)
                       else (case set_permissions (absolute base) 0x1c0 t of (ok, t) \<Rightarrow>
                         if \<not> ok then (Inl SystemFailed, t)
                         else (map_sum id (\<lambda>_. base) (validate_private_permissions t (absolute base)), t)))))"

text \<open>
  A sanitized candidate stays out of synchronized directories and of the repository until it is reviewed. A candidate that
  is missing passes the first look; one whose parent is a file does not, and nor does one whose parent does not resolve.
\<close>

definition validate_review_candidate :: "component list \<Rightarrow> component list \<Rightarrow> Tree \<Rightarrow> quarantine_error + unit" where
  "validate_review_candidate candidate repository t =
     (if is_synchronized candidate then Inl SynchronizedCandidate
      else case symlink_metadata t candidate of
          Some (Link _) \<Rightarrow> Inl CandidateIsLink
        | _ \<Rightarrow>
            (case canonicalize t repository of
               None \<Rightarrow> Inl SystemFailed
             | Some repo \<Rightarrow>
                 (let full = (if is_absolute candidate then candidate else absolute (tr_cwd t) @ candidate) in
                  if full = [RootDir] then Inl NoParent
                  else (case canonicalize t (butlast full) of
                      None \<Rightarrow> Inl SystemFailed
                    | Some parent \<Rightarrow>
                        if (case lookup t parent of Some (Dir _) \<Rightarrow> False | _ \<Rightarrow> True) then Inl SystemFailed
                        else if starts_with_path repo parent \<or> starts_with_path parent repo then Inl ReviewInsideRepository
                        else Inr ()))))"

fun normal_part :: "component \<Rightarrow> string option" where
  "normal_part (Normal c) = Some c"
| "normal_part _ = None"

text \<open>The directories of an output, from the root down: each is there already or made, secured, and resolved again.\<close>

definition enter_dir :: "name \<Rightarrow> Tree \<Rightarrow> (quarantine_error + unit) \<times> Tree" where
  "enter_dir parent t =
     (if path_exists t (absolute parent) then
        (case symlink_metadata t (absolute parent) of
           Some (Dir _) \<Rightarrow> (Inr (), t)
         | Some _ \<Rightarrow> (Inl UnsafeEntry, t)
         | None \<Rightarrow> (Inl SystemFailed, t))
      else (case create_dir (absolute parent) t of (ok, t) \<Rightarrow> (if ok then Inr () else Inl SystemFailed, t)))"

definition secure_dir :: "name \<Rightarrow> name \<Rightarrow> Tree \<Rightarrow> (quarantine_error + unit) \<times> Tree" where
  "secure_dir base parent t =
     (case enter_dir parent t of
        (Inl e, t) \<Rightarrow> (Inl e, t)
      | (Inr _, t) \<Rightarrow>
          (case set_permissions (absolute parent) 0x1c0 t of (ok, t) \<Rightarrow>
           if \<not> ok then (Inl SystemFailed, t)
           else (case validate_private_permissions t (absolute parent) of
               Inl e \<Rightarrow> (Inl e, t)
             | Inr _ \<Rightarrow>
                 (case canonicalize t (absolute parent) of
                    None \<Rightarrow> (Inl SystemFailed, t)
                  | Some resolved \<Rightarrow>
                      (if starts_with_path base resolved then Inr () else Inl EscapesThroughLink, t)))))"

fun secure_parents :: "name \<Rightarrow> name \<Rightarrow> string list \<Rightarrow> Tree \<Rightarrow> (quarantine_error + unit) \<times> Tree" where
  "secure_parents base parent [] t = (Inr (), t)"
| "secure_parents base parent (c # cs) t =
     (case secure_dir base (parent @ [c]) t of
        (Inl e, t) \<Rightarrow> (Inl e, t)
      | (Inr _, t) \<Rightarrow> secure_parents base (parent @ [c]) cs t)"

definition quarantine_output :: "component list \<Rightarrow> component list \<Rightarrow> Tree \<Rightarrow> (quarantine_error + name) \<times> Tree" where
  "quarantine_output home relative t =
     (if is_absolute relative \<or> (\<exists>c\<in>set relative. normal_part c = None) then (Inl NotPlainRelative, t)
      else case canonicalize t home of
          None \<Rightarrow> (Inl SystemFailed, t)
        | Some base \<Rightarrow>
            (case validate_private_permissions t (absolute base) of
               Inl e \<Rightarrow> (Inl e, t)
             | Inr _ \<Rightarrow>
                 (let parts = List.map_filter normal_part relative; candidate = base @ parts in
                  if parts = [] then (Inl NoParent, t)
                  else case secure_parents base base (butlast parts) t of
                      (Inl e, t) \<Rightarrow> (Inl e, t)
                    | (Inr _, t) \<Rightarrow>
                        if path_exists t (absolute candidate) then
                          (case symlink_metadata t (absolute candidate) of
                             Some (Link _) \<Rightarrow> (Inl CandidateIsLink, t)
                           | _ \<Rightarrow>
                               (case canonicalize t (absolute candidate) of
                                  None \<Rightarrow> (Inl SystemFailed, t)
                                | Some resolved \<Rightarrow>
                                    if \<not> starts_with_path base resolved then (Inl Escapes, t) else (Inr candidate, t)))
                        else (Inr candidate, t))))"

text \<open>\<open>create_new\<close> follows no link in the last part: an entry of any kind there is an error.\<close>

definition create_new :: "name \<Rightarrow> int \<Rightarrow> Tree \<Rightarrow> name option \<times> Tree" where
  "create_new p time t =
     (case fault t of (failed, t) \<Rightarrow>
      case canonicalize t (absolute (butlast p)) of
        None \<Rightarrow> (None, t)
      | Some d \<Rightarrow>
          (let q = d @ [last p] in
           if failed \<noteq> None \<or> p = [] \<or> lookup t q \<noteq> None \<or> (case lookup t d of Some (Dir _) \<Rightarrow> False | _ \<Rightarrow> True) then (None, t)
           else (Some q, put q (File 0x1b6 [] time) t)))"

text \<open>Permissions, contents and \<open>sync_all\<close> go through the open file.\<close>

definition fill_private :: "name \<Rightarrow> byte list \<Rightarrow> int \<Rightarrow> Tree \<Rightarrow> bool \<times> Tree" where
  "fill_private q bytes time t =
     (case fault t of
        (Some _, t) \<Rightarrow> (False, t)
      | (None, t) \<Rightarrow>
          (case fault t of
             (Some n, t) \<Rightarrow> (False, put q (File 0x180 (take n bytes) time) t)
           | (None, t) \<Rightarrow>
               (case fault (put q (File 0x180 bytes time) t) of (failed, t) \<Rightarrow> (failed = None, t))))"

definition write_private :: "component list \<Rightarrow> component list \<Rightarrow> byte list \<Rightarrow> int \<Rightarrow> Tree \<Rightarrow> (quarantine_error + name) \<times> Tree" where
  "write_private home relative bytes time t =
     (case quarantine_output home relative t of
        (Inl e, t) \<Rightarrow> (Inl e, t)
      | (Inr p, t) \<Rightarrow>
          (case create_new p time t of
             (None, t) \<Rightarrow> (Inl SystemFailed, t)
           | (Some q, t) \<Rightarrow> (case fill_private q bytes time t of (ok, t) \<Rightarrow> (if ok then Inr p else Inl SystemFailed, t))))"

text \<open>
  A script is recorded when its text has the structure of a capture. The text is what was read from the script's file; an
  absent one is a failed read.
\<close>

definition record_script ::
    "string option \<Rightarrow> component list \<Rightarrow> component list \<Rightarrow> component list \<Rightarrow> int \<Rightarrow> Tree \<Rightarrow> ((quarantine_error + name) \<times> Tree) option" where
  "record_script script home repository relative time t =
     (case script of
        None \<Rightarrow> Some (Inl SystemFailed, t)
      | Some s \<Rightarrow>
          (case parse_capture_structure s of
             None \<Rightarrow> None
           | Some (Inl _) \<Rightarrow> Some (Inl NotACapture, t)
           | Some (Inr _) \<Rightarrow>
               (case prepare_quarantine home repository t of
                  (Inl e, t) \<Rightarrow> Some (Inl e, t)
                | (Inr base, t) \<Rightarrow> Some (write_private (absolute base) relative (as_bytes s) time t))))"

section \<open>Resolution\<close>

text \<open>A name all of whose parts are directories, none of them a link.\<close>

definition plain :: "Tree \<Rightarrow> name \<Rightarrow> bool" where
  "plain t p \<longleftrightarrow> (\<forall>i. 0 < i \<longrightarrow> i \<le> length p \<longrightarrow> (\<exists>m. lookup t (take i p) = Some (Dir m)))"

lemma plain_Nil [simp]: "plain t []"
  by (simp add: plain_def)

lemma plain_snoc: "plain t (p @ [c]) \<longleftrightarrow> plain t p \<and> (\<exists>m. lookup t (p @ [c]) = Some (Dir m))"
  by (auto simp: plain_def less_Suc_eq_le le_Suc_eq)

lemma plain_butlast: "plain t p \<Longrightarrow> plain t (butlast p)"
  by (cases p rule: rev_cases) (simp_all add: plain_snoc)

lemma plain_dir: "plain t p \<Longrightarrow> \<exists>m. lookup t p = Some (Dir m)"
  by (cases p rule: rev_cases) (simp_all add: plain_snoc lookup_def)

lemma plain_cong: "(\<And>i. 0 < i \<Longrightarrow> i \<le> length p \<Longrightarrow> lookup t' (take i p) = lookup t (take i p)) \<Longrightarrow> plain t' p = plain t p"
  by (auto simp: plain_def)

lemma resolve_plain:
  assumes "plain t (d @ cs)"
  shows "resolve n t d (map Normal cs @ rest) = resolve n t (d @ cs) rest"
  using assms
proof (induction cs arbitrary: d)
  case (Cons c cs)
  then have "plain t ((d @ [c]) @ cs)" by simp
  then have "plain t (d @ [c])" by (induction cs rule: rev_induct) (auto simp: plain_snoc simp flip: append_assoc)
  then obtain m where "lookup t (d @ [c]) = Some (Dir m)" by (auto simp: plain_snoc)
  then show ?case using Cons.IH [of "d @ [c]"] Cons.prems by simp
qed simp

lemma canonicalize_resolve: "canonicalize t p = Some q \<Longrightarrow> resolve MAX_LINKS t (tr_cwd t) p = Some q"
  by (simp add: canonicalize_def split: if_splits)

lemma directory_of_snoc [simp]: "p \<noteq> [] \<Longrightarrow> directory_of t (p @ [c]) = canonicalize t p"
  by (simp add: directory_of_def canonicalize_def)

lemma canonicalize_plain: "plain t p \<Longrightarrow> canonicalize t (absolute p) = Some p"
  using resolve_plain [of t "[]" p MAX_LINKS "[]"] by (simp add: canonicalize_def absolute_def)

lemma resolve_result:
  "resolve n t d cs = Some p \<Longrightarrow> plain t d \<Longrightarrow> plain t (butlast p) \<and> (\<exists>e. lookup t p = Some e \<and> (\<forall>target. e \<noteq> Link target))"
proof (induction n t d cs rule: resolve.induct)
  case (1 n t d)
  then show ?case using plain_dir [of t d] plain_butlast by fastforce
next
  case (4 n t d cs)
  then show ?case using plain_butlast by simp
next
  case (5 n t d c cs)
  then show ?case by (auto split: option.splits node.splits if_splits nat.splits simp: plain_snoc)
qed auto

section \<open>A private write stays inside\<close>

lemma fault_same: "fault t = (f, t') \<Longrightarrow> lookup t' = lookup t \<and> tr_cwd t' = tr_cwd t"
  by (auto simp: fault_def lookup_def fun_eq_iff split: list.splits)

lemma lookup_put: "p \<noteq> [] \<Longrightarrow> lookup (put p e t) q = (if q = p then Some e else lookup t q)"
  by (simp add: lookup_def put_def)

lemma plain_same: "lookup t' = lookup t \<Longrightarrow> plain t' p = plain t p"
  by (simp add: plain_def)

lemma plain_put_dir: "plain t p \<Longrightarrow> p \<noteq> [] \<Longrightarrow> plain (put q (Dir m) t) p \<or> q = []"
  by (cases "q = []") (auto simp: plain_def lookup_put)

lemma absolute_snoc: "absolute (p @ [c]) = absolute p @ [Normal c]" "absolute p \<noteq> []"
  by (simp_all add: absolute_def)

lemma enter_dir_plain:
  assumes "enter_dir (p @ [c]) t = (x, t')" and "plain t p"
  shows "(\<forall>q. q \<noteq> p @ [c] \<longrightarrow> lookup t' q = lookup t q) \<and>
    (if x = Inr () then plain t' (p @ [c]) else lookup t' = lookup t)"
proof (cases "path_exists t (absolute (p @ [c]))")
  case True
  have "symlink_metadata t (absolute (p @ [c])) = lookup t (p @ [c])"
    using canonicalize_plain [OF assms(2)] by (simp add: symlink_metadata_def absolute_snoc)
  with True assms show ?thesis
    by (auto simp: enter_dir_def plain_snoc split: option.splits node.splits)
next
  case False
  obtain f t1 where f: "fault t = (f, t1)" by force
  note same = fault_same [OF f]
  have pl: "plain t1 p" using assms(2) same plain_same [of t1 t p] by simp
  show ?thesis
  proof (cases "x = Inr ()")
    case True
    then have "t' = put (p @ [c]) (Dir 0x1ff) t1"
      using False assms(1) f canonicalize_plain [OF pl] by (auto simp: enter_dir_def create_dir_def absolute_snoc split: if_splits)
    moreover have "plain (put (p @ [c]) (Dir 0x1ff) t1) p"
      using pl plain_put_dir [OF pl, of "p @ [c]"] by (cases p) auto
    ultimately show ?thesis using True same by (simp add: lookup_put plain_snoc)
  next
    case no: False
    then have "t' = t1"
      using False assms(1) f canonicalize_plain [OF pl] by (auto simp: enter_dir_def create_dir_def absolute_snoc split: if_splits)
    then show ?thesis using no same by simp
  qed
qed

lemma set_permissions_plain:
  assumes "set_permissions (absolute p) m t = (ok, t')" and "plain t p" and "p \<noteq> []"
  shows "(\<forall>q. q \<noteq> p \<longrightarrow> lookup t' q = lookup t q) \<and> plain t' p \<and> (ok \<longrightarrow> lookup t' p = Some (Dir m))"
proof -
  obtain f t1 where f: "fault t = (f, t1)" by force
  note same = fault_same [OF f]
  have pl: "plain t1 p" using assms(2) same plain_same [of t1 t p] by simp
  obtain m' where m': "lookup t1 p = Some (Dir m')" using plain_dir [OF pl] by blast
  show ?thesis
  proof (cases f)
    case None
    then have "ok" "t' = put p (Dir m) t1"
      using assms(1) f m' canonicalize_plain [OF pl] by (simp_all add: set_permissions_def set_mode_def)
    then show ?thesis using same plain_put_dir [OF pl assms(3), of p m] assms(3) by (simp add: lookup_put)
  next
    case (Some n)
    then have "\<not> ok" "t' = t1" using assms(1) f by (simp_all add: set_permissions_def)
    then show ?thesis using same pl by simp
  qed
qed

lemma secure_dir_plain:
  assumes "secure_dir base (p @ [c]) t = (x, t')" and "plain t p"
  shows "(\<forall>q. q \<noteq> p @ [c] \<longrightarrow> lookup t' q = lookup t q) \<and>
    (x = Inr () \<longrightarrow> plain t' (p @ [c]) \<and> lookup t' (p @ [c]) = Some (Dir 0x1c0))"
proof -
  obtain y t1 where e: "enter_dir (p @ [c]) t = (y, t1)" by force
  note en = enter_dir_plain [OF e assms(2)]
  show ?thesis
  proof (cases y)
    case (Inl err)
    then show ?thesis using assms(1) e en by (auto simp: secure_dir_def)
  next
    case (Inr u)
    then have pl: "plain t1 (p @ [c])" using en by simp
    obtain ok t2 where s: "set_permissions (absolute (p @ [c])) 0x1c0 t1 = (ok, t2)" by force
    note sp = set_permissions_plain [OF s pl]
    have "t' = t2" "x = Inr () \<Longrightarrow> ok" using assms(1) e Inr s by (auto simp: secure_dir_def split: if_splits sum.splits option.splits)
    then show ?thesis using en sp by auto
  qed
qed

lemma secure_parents_confined:
  "secure_parents base p cs t = (x, t') \<Longrightarrow> plain t p \<Longrightarrow>
     (\<forall>q. lookup t' q \<noteq> lookup t q \<longrightarrow> (\<exists>i. 0 < i \<and> i \<le> length cs \<and> q = p @ take i cs)) \<and>
     (x = Inr () \<longrightarrow> plain t' (p @ cs) \<and> (\<forall>i. 0 < i \<longrightarrow> i \<le> length cs \<longrightarrow> lookup t' (p @ take i cs) = Some (Dir 0x1c0)))"
proof (induction cs arbitrary: p t)
  case (Cons c cs)
  obtain y t1 where e: "secure_dir base (p @ [c]) t = (y, t1)" by force
  note sd = secure_dir_plain [OF e Cons.prems(2)]
  have one: "\<exists>i. 0 < i \<and> i \<le> length (c # cs) \<and> p @ [c] = p @ take i (c # cs)" by (intro exI [where x = 1]) simp
  show ?case
  proof (cases y)
    case (Inl err)
    then have "x = Inl err" "t' = t1" using Cons.prems(1) e by auto
    moreover have "\<exists>i. 0 < i \<and> i \<le> length (c # cs) \<and> q = p @ take i (c # cs)" if "lookup t1 q \<noteq> lookup t q" for q
      using sd one that by metis
    ultimately show ?thesis by auto
  next
    case (Inr u)
    then have rec: "secure_parents base (p @ [c]) cs t1 = (x, t')" and pl: "plain t1 (p @ [c])" "lookup t1 (p @ [c]) = Some (Dir 0x1c0)"
      using Cons.prems(1) e sd by auto
    note ih = Cons.IH [OF rec pl(1)]
    have shift: "\<exists>j. 0 < j \<and> j \<le> length (c # cs) \<and> (p @ [c]) @ take i cs = p @ take j (c # cs)" if "i \<le> length cs" for i
      using that by (intro exI [where x = "Suc i"]) simp
    have "\<exists>i. 0 < i \<and> i \<le> length (c # cs) \<and> q = p @ take i (c # cs)" if "lookup t' q \<noteq> lookup t q" for q
      using ih sd that shift one by (metis Inr)
    moreover have "lookup t' (p @ take i (c # cs)) = Some (Dir 0x1c0)" if "x = Inr ()" "0 < i" "i \<le> length (c # cs)" for i
    proof (cases "i = 1")
      case True
      have "lookup t' (p @ [c]) = lookup t1 (p @ [c])"
      proof (rule ccontr)
        assume "lookup t' (p @ [c]) \<noteq> lookup t1 (p @ [c])"
        then obtain j where "0 < j" "j \<le> length cs" "p @ [c] = (p @ [c]) @ take j cs" using ih by blast
        then show False by auto
      qed
      then show ?thesis using True pl(2) by simp
    next
      case False
      then have j: "i = Suc (i - 1)" "0 < i - 1" "i - 1 \<le> length cs" using that(2,3) by auto
      have "lookup t' ((p @ [c]) @ take (i - 1) cs) = Some (Dir 0x1c0)" using ih that(1) j(2,3) by blast
      then show ?thesis by (subst j(1)) simp
    qed
    ultimately show ?thesis using ih by auto
  qed
qed simp

text \<open>Below a regular file nothing is made.\<close>

lemma secure_parents_file:
  assumes "secure_parents base p cs t = (x, t')" and "plain t (butlast p)" and "lookup t p = Some (File m bs time)" and "cs \<noteq> []"
  shows "lookup t' = lookup t \<and> (\<exists>e. x = Inl e)"
proof -
  obtain c cs' where cs: "cs = c # cs'" using assms(4) by (cases cs) auto
  obtain q l where p: "p = q @ [l]" using assms(3) by (cases p rule: rev_cases) (auto simp: lookup_def)
  obtain f t1 where f: "fault t = (f, t1)" by force
  note same = fault_same [OF f]
  have pl: "plain t q" using assms(2) p by simp
  have none: "canonicalize t (absolute (p @ [c])) = None"
    using resolve_plain [of t "[]" q MAX_LINKS "[Normal l, Normal c]"] pl assms(3) p by (simp add: canonicalize_def absolute_def)
  have at: "canonicalize t1 (absolute p) = Some p"
    using resolve_plain [of t1 "[]" q MAX_LINKS "[Normal l]"] plain_same [of t1 t q] pl assms(3) p same
    by (simp add: canonicalize_def absolute_def)
  have "create_dir (absolute (p @ [c])) t = (False, t1)"
    using f at assms(3) same by (simp add: create_dir_def absolute_snoc)
  then have "secure_dir base (p @ [c]) t = (Inl SystemFailed, t1)"
    using none by (simp add: secure_dir_def enter_dir_def path_exists_def)
  then show ?thesis using assms(1) cs same by auto
qed

lemma normal_parts:
  "(\<forall>c\<in>set relative. normal_part c \<noteq> None) \<Longrightarrow> relative = map Normal (List.map_filter normal_part relative)"
proof (induction relative)
  case (Cons c cs)
  then show ?case by (cases c) (auto simp: map_filter_simps)
qed (simp add: map_filter_simps)

text \<open>The root an output lies under, and what the way down to it looks like when it is granted.\<close>

lemma quarantine_output_confined:
  assumes "quarantine_output home relative t = (x, t')" and "plain t (tr_cwd t)"
  shows "(\<forall>q. lookup t' q \<noteq> lookup t q \<longrightarrow> (\<exists>base parts i. canonicalize t home = Some base \<and> relative = map Normal parts \<and>
      0 < i \<and> i < length parts \<and> q = base @ take i parts)) \<and>
    (\<forall>p. x = Inr p \<longrightarrow> (\<exists>base parts. canonicalize t home = Some base \<and> relative = map Normal parts \<and> parts \<noteq> [] \<and> p = base @ parts \<and>
      (\<exists>e. lookup t base = Some e \<and> and (mode_of e) 0x3f = 0 \<and>
        ((\<exists>m. e = Dir m) \<longrightarrow> plain t' (base @ butlast parts) \<and>
          (\<forall>i. 0 < i \<longrightarrow> i < length parts \<longrightarrow> lookup t' (base @ take i parts) = Some (Dir 0x1c0))) \<and>
        ((\<nexists>m. e = Dir m) \<longrightarrow> butlast parts = [] \<and> plain t (butlast base) \<and> t' = t))))"
proof (cases "is_absolute relative \<or> (\<exists>c\<in>set relative. normal_part c = None) \<or> canonicalize t home = None")
  case True
  then have "t' = t" "\<exists>e. x = Inl e" using assms(1) unfolding quarantine_output_def by (auto split: if_splits)
  then show ?thesis by auto
next
  case False
  then obtain base where base: "canonicalize t home = Some base" by auto
  define parts where "parts = List.map_filter normal_part relative"
  have rel: "relative = map Normal parts" using False normal_parts [of relative] by (auto simp: parts_def)
  from resolve_result [OF canonicalize_resolve [OF base] assms(2)] obtain e where
    e: "plain t (butlast base)" "lookup t base = Some e" "\<And>target. e \<noteq> Link target" by blast
  have pb: "plain t base" if "e = Dir m" for m
    using that e(1,2) by (cases base rule: rev_cases) (auto simp: plain_snoc)
  have at: "metadata_of t (absolute base) = Some e"
  proof (cases "\<exists>m. e = Dir m")
    case True
    then show ?thesis using pb canonicalize_plain [of t base] e(2) by (auto simp: metadata_of_def)
  next
    case False
    then obtain m bs time where "e = File m bs time" using e(3) by (cases e) auto
    moreover from this obtain q l where p: "base = q @ [l]" using e(2) by (cases base rule: rev_cases) (auto simp: lookup_def)
    ultimately show ?thesis
      using resolve_plain [of t "[]" q MAX_LINKS "[Normal l]"] e(1,2) by (simp add: metadata_of_def canonicalize_def absolute_def)
  qed
  obtain y t1 where sec: "secure_parents base base (butlast parts) t = (y, t1)" by force
  have t': "(t' = t \<and> (\<exists>err. x = Inl err)) \<or> (parts \<noteq> [] \<and> and (mode_of e) 0x3f = 0 \<and> t' = t1 \<and> (\<forall>p. x = Inr p \<longrightarrow> y = Inr () \<and> p = base @ parts))"
    using assms(1) False base at sec
    by (auto simp: quarantine_output_def validate_private_permissions_def Let_def parts_def [symmetric]
        split: if_splits sum.splits option.splits node.splits prod.splits)
  have step: "take i (butlast parts) = take i parts" if "i \<le> length (butlast parts)" for i
    using that by (cases parts rule: rev_cases) auto
  show ?thesis
  proof (cases "\<exists>m. e = Dir m")
    case True
    then have conf: "(\<forall>q. lookup t1 q \<noteq> lookup t q \<longrightarrow> (\<exists>i. 0 < i \<and> i \<le> length (butlast parts) \<and> q = base @ take i (butlast parts))) \<and>
      (y = Inr () \<longrightarrow> plain t1 (base @ butlast parts) \<and>
         (\<forall>i. 0 < i \<longrightarrow> i \<le> length (butlast parts) \<longrightarrow> lookup t1 (base @ take i (butlast parts)) = Some (Dir 0x1c0)))"
      using secure_parents_confined [OF sec] pb by auto
    have way: "lookup t1 (base @ take i parts) = Some (Dir 0x1c0)" if "y = Inr ()" "0 < i" "i < length parts" for i
    proof -
      have "i \<le> length (butlast parts)" using that(3) by simp
      with conf that(1,2) step [of i] show ?thesis by metis
    qed
    have "\<exists>i. 0 < i \<and> i < length parts \<and> q = base @ take i parts" if "parts \<noteq> []" "lookup t1 q \<noteq> lookup t q" for q
    proof -
      from conf that(2) obtain i where i: "0 < i" "i \<le> length (butlast parts)" "q = base @ take i (butlast parts)" by blast
      have "i < length parts" using i(2) that(1) by (cases parts rule: rev_cases) auto
      with i step [of i] show ?thesis by auto
    qed
    with t' base rel have "\<exists>base parts i. canonicalize t home = Some base \<and> relative = map Normal parts \<and> 0 < i \<and> i < length parts \<and> q = base @ take i parts"
      if "lookup t' q \<noteq> lookup t q" for q using that by blast
    moreover have "parts \<noteq> [] \<and> p = base @ parts \<and> and (mode_of e) 0x3f = 0 \<and> plain t' (base @ butlast parts) \<and>
        (\<forall>i. 0 < i \<longrightarrow> i < length parts \<longrightarrow> lookup t' (base @ take i parts) = Some (Dir 0x1c0))" if "x = Inr p" for p
      using t' conf way that by auto
    ultimately show ?thesis using base rel e(2) True by blast
  next
    case reg: False
    then obtain m bs time where ef: "e = File m bs time" using e(3) by (cases e) auto
    show ?thesis
    proof (cases "butlast parts = []")
      case True
      then have "t1 = t" using sec by simp
      then show ?thesis using t' base rel e(1,2) reg True by auto
    next
      case ne: False
      from secure_parents_file [OF sec e(1)] e(2) ef ne have "lookup t1 = lookup t" "\<exists>err. y = Inl err" by auto
      then show ?thesis using t' by auto
    qed
  qed
qed

lemma fill_private_lookup:
  assumes "fill_private q bytes time t = (ok, t')" and "q \<noteq> []"
  shows "(\<forall>r. r \<noteq> q \<longrightarrow> lookup t' r = lookup t r) \<and> (ok \<longrightarrow> lookup t' q = Some (File 0x180 bytes time))"
proof -
  obtain f1 t1 where f1: "fault t = (f1, t1)" by force
  obtain f2 t2 where f2: "fault t1 = (f2, t2)" by force
  obtain f3 t3 where f3: "fault (put q (File 0x180 bytes time) t2) = (f3, t3)" by force
  note same = fault_same [OF f1] fault_same [OF f2] fault_same [OF f3]
  show ?thesis
    using assms f1 f2 f3 same by (auto simp: fill_private_def lookup_put split: option.splits)
qed

lemma create_new_lookup:
  assumes "create_new (d @ [c]) time t = (x, t')" and "plain t d \<or> (\<exists>m bs tm. lookup t d = Some (File m bs tm)) \<and> plain t (butlast d)"
  shows "if x = None then lookup t' = lookup t
    else x = Some (d @ [c]) \<and> plain t d \<and> lookup t (d @ [c]) = None \<and> lookup t' = (lookup t)(d @ [c] \<mapsto> File 0x1b6 [] time)"
proof -
  obtain f t1 where f: "fault t = (f, t1)" by force
  note same = fault_same [OF f]
  have at: "canonicalize t1 (absolute d) = Some d"
    using assms(2)
  proof
    assume "plain t d"
    then show ?thesis using canonicalize_plain [of t1 d] plain_same [of t1 t d] same by simp
  next
    assume reg: "(\<exists>m bs tm. lookup t d = Some (File m bs tm)) \<and> plain t (butlast d)"
    then obtain q l where d: "d = q @ [l]" by (cases d rule: rev_cases) (auto simp: lookup_def)
    then show ?thesis
      using resolve_plain [of t1 "[]" q MAX_LINKS "[Normal l]"] plain_same [of t1 t q] same reg
      by (auto simp: canonicalize_def absolute_def)
  qed
  show ?thesis
  proof (cases x)
    case None
    then have "t' = t1" using assms(1) f at by (auto simp: create_new_def Let_def split: if_splits)
    then show ?thesis using None same by simp
  next
    case (Some q)
    then have q: "q = d @ [c]" "lookup t1 (d @ [c]) = None" "t' = put (d @ [c]) (File 0x1b6 [] time) t1" "\<exists>m. lookup t1 d = Some (Dir m)"
      using assms(1) f at by (auto simp: create_new_def Let_def split: if_splits option.splits node.splits)
    then have "plain t d" using assms(2) same by auto
    then show ?thesis using Some q same by (auto simp: lookup_put fun_eq_iff)
  qed
qed

text \<open>
  C18. A private write stays inside the quarantine. Whatever fails, and whatever links the tree holds, it changes nothing but
  the parts of the output path below the resolved root. When it succeeds the path is plain and relative, every directory
  on the way is a real directory (those below the root for the owner only), the root itself is for the owner only, and the file is new, holds exactly
  the bytes given and is readable by its owner only.
\<close>

theorem private_write_inside:
  assumes "write_private home relative bytes time t = (x, t')" and "plain t (tr_cwd t)"
  shows "(\<forall>q. lookup t' q \<noteq> lookup t q \<longrightarrow> (\<exists>base parts i. canonicalize t home = Some base \<and> relative = map Normal parts \<and>
      0 < i \<and> i \<le> length parts \<and> q = base @ take i parts)) \<and>
    (\<forall>p. x = Inr p \<longrightarrow> (\<exists>base parts m. canonicalize t home = Some base \<and> relative = map Normal parts \<and> p = base @ parts \<and>
      lookup t base = Some (Dir m) \<and> and m 0x3f = 0 \<and> plain t' (butlast p) \<and>
      (\<forall>i. 0 < i \<longrightarrow> i < length parts \<longrightarrow> lookup t' (base @ take i parts) = Some (Dir 0x1c0)) \<and>
      lookup t p = None \<and> lookup t' p = Some (File 0x180 bytes time)))"
proof -
  obtain y t1 where out: "quarantine_output home relative t = (y, t1)" by force
  note qo = quarantine_output_confined [OF out assms(2)]
  show ?thesis
  proof (cases y)
    case (Inl e)
    then have "t' = t1" "x = Inl e" using assms(1) out by (simp_all add: write_private_def)
    moreover have "\<exists>base parts i. canonicalize t home = Some base \<and> relative = map Normal parts \<and> 0 < i \<and> i \<le> length parts \<and> q = base @ take i parts"
      if "lookup t1 q \<noteq> lookup t q" for q
      using qo that less_imp_le by blast
    ultimately show ?thesis by simp
  next
    case (Inr p)
    with qo obtain base parts e where b: "canonicalize t home = Some base" "relative = map Normal parts" "parts \<noteq> []" "p = base @ parts"
      and e: "lookup t base = Some e" "and (mode_of e) 0x3f = 0"
      and dir: "(\<exists>m. e = Dir m) \<Longrightarrow> plain t1 (base @ butlast parts) \<and>
          (\<forall>i. 0 < i \<longrightarrow> i < length parts \<longrightarrow> lookup t1 (base @ take i parts) = Some (Dir 0x1c0))"
      and nodir: "(\<nexists>m. e = Dir m) \<Longrightarrow> butlast parts = [] \<and> plain t (butlast base) \<and> t1 = t"
      by blast
    have inj: "parts' = parts" if "relative = map Normal parts'" for parts'
      using that b(2) by (metis component.inject list.inj_map_strong)
    have changed1: "\<exists>i. 0 < i \<and> i < length parts \<and> q = base @ take i parts" if "lookup t1 q \<noteq> lookup t q" for q
    proof -
      from conjunct1 [OF qo] that obtain base' parts' i where "canonicalize t home = Some base'" "relative = map Normal parts'"
        "0 < i" "i < length parts'" "q = base' @ take i parts'" by blast
      then show ?thesis using b(1) inj [of parts'] by auto
    qed
    let ?d = "base @ butlast parts" and ?c = "last parts"
    have p: "p = ?d @ [?c]" using b(3,4) by simp
    have nolink: "\<not> (\<exists>target. e = Link target)"
      using resolve_result [OF canonicalize_resolve [OF b(1)] assms(2)] e(1) by auto
    have way: "plain t1 ?d \<or> (\<exists>m bs tm. lookup t1 ?d = Some (File m bs tm)) \<and> plain t1 (butlast ?d)"
    proof (cases "\<exists>m. e = Dir m")
      case False
      then obtain m bs tm where "e = File m bs tm" using nolink by (cases e) auto
      then show ?thesis using nodir [OF False] e(1) by simp
    qed (use dir in blast)
    obtain z t2 where cn: "create_new p time t1 = (z, t2)" by force
    note cr = create_new_lookup [OF cn [unfolded p] way]
    show ?thesis
    proof (cases z)
      case None
      then have "t' = t2" "x = Inl SystemFailed" "lookup t2 = lookup t1" using assms(1) out Inr cn cr by (simp_all add: write_private_def)
      moreover have "\<exists>base parts i. canonicalize t home = Some base \<and> relative = map Normal parts \<and> 0 < i \<and> i \<le> length parts \<and> r = base @ take i parts"
        if "lookup t1 r \<noteq> lookup t r" for r using changed1 [OF that] b(1,2) less_imp_le by blast
      ultimately show ?thesis by simp
    next
      case (Some q)
      then have z: "q = p" "plain t1 ?d" "lookup t1 p = None" "lookup t2 = (lookup t1)(p \<mapsto> File 0x1b6 [] time)" using cr p by auto
      obtain ok t3 where fp: "fill_private p bytes time t2 = (ok, t3)" by force
      have "p \<noteq> []" using p by simp
      note fl = fill_private_lookup [OF fp this]
      have r: "t' = t3" "x = (if ok then Inr p else Inl SystemFailed)"
        using assms(1) out Inr cn Some z(1) fp by (simp_all add: write_private_def)
      have other: "lookup t' r = lookup t1 r" if "r \<noteq> p" for r using that fl z(4) r(1) by simp
      have changed: "\<exists>i. 0 < i \<and> i \<le> length parts \<and> r = base @ take i parts" if "lookup t' r \<noteq> lookup t r" for r
      proof (cases "r = p")
        case True
        then show ?thesis using b(3,4) by (intro exI [where x = "length parts"]) simp
      next
        case False
        then have "lookup t1 r \<noteq> lookup t r" using other [of r] that by simp
        from changed1 [OF this] show ?thesis using less_imp_le by blast
      qed
      have fresh: "lookup t p = None"
      proof (rule ccontr)
        assume "lookup t p \<noteq> None"
        then obtain i where "i < length parts" "base @ parts = base @ take i parts" using changed1 [of p] z(3) b(4) by auto
        then show False by (metis append_same_eq length_take min.strict_order_iff same_append_eq nat_less_le min.absorb2)
      qed
      have isdir: "\<exists>m. e = Dir m"
      proof (rule ccontr)
        assume n: "\<nexists>m. e = Dir m"
        then have "plain t base" using nodir [OF n] z(2) by simp
        then show False using plain_dir [of t base] e(1) n by auto
      qed
      have pl: "plain t' ?d"
      proof -
        have "take i ?d \<noteq> p" for i using p by (metis append_eq_conv_conj length_append_singleton length_take min.cobounded1 not_less_eq_eq order_refl)
        then show ?thesis using z(2) other by (auto simp: plain_def)
      qed
      have mid: "lookup t' (base @ take i parts) = Some (Dir 0x1c0)" if "0 < i" "i < length parts" for i
      proof -
        have "base @ take i parts \<noteq> p" using that(2) b(4) by (auto dest: arg_cong [where f = length])
        then show ?thesis using other dir [OF isdir] that by simp
      qed
      obtain m where m: "e = Dir m" using isdir by blast
      have bp: "butlast p = ?d" using b(3,4) by (simp add: butlast_append)
      show ?thesis
      proof (intro conjI allI impI)
        show "\<exists>base parts i. canonicalize t home = Some base \<and> relative = map Normal parts \<and> 0 < i \<and> i \<le> length parts \<and> q = base @ take i parts"
          if "lookup t' q \<noteq> lookup t q" for q using changed [OF that] b(1,2) by blast
        show "\<exists>base parts m. canonicalize t home = Some base \<and> relative = map Normal parts \<and> p' = base @ parts \<and>
            lookup t base = Some (Dir m) \<and> and m 0x3f = 0 \<and> plain t' (butlast p') \<and>
            (\<forall>i. 0 < i \<longrightarrow> i < length parts \<longrightarrow> lookup t' (base @ take i parts) = Some (Dir 0x1c0)) \<and>
            lookup t p' = None \<and> lookup t' p' = Some (File 0x180 bytes time)" if "x = Inr p'" for p'
        proof -
          have "ok" "p' = p" using that r(2) by (auto split: if_splits)
          then show ?thesis
            using b(1,2,4) e m pl bp mid fresh fl r(1)
            by (intro exI [where x = base] exI [where x = parts] exI [where x = m]) (simp add: mode_of_def)
        qed
      qed
    qed
  qed
qed

text \<open>A quarantine under the working directory, with one directory of the output still to be made.\<close>

definition sample_tree :: Tree where
  "sample_tree = \<lparr>tr_entries = [([''h''], Dir 0x1ed), ([''h'', ''q''], Dir 0x1c0), ([''h'', ''l''], Link [Normal ''q''])],
     tr_cwd = [''h''], tr_faults = []\<rparr>"

theorem private_write_inside_witness:
  "\<exists>t'. write_private [Normal ''l''] [Normal ''a'', Normal ''b''] [1, 2] 0 sample_tree = (Inr [''h'', ''q'', ''a'', ''b''], t') \<and>
     lookup t' [''h'', ''q'', ''a''] = Some (Dir 0x1c0) \<and> lookup t' [''h'', ''q'', ''a'', ''b''] = Some (File 0x180 [1, 2] 0)"
proof -
  let ?p = "[''h'', ''q'', ''a'', ''b'']"
  have "fst (write_private [Normal ''l''] [Normal ''a'', Normal ''b''] [1, 2] 0 sample_tree) = Inr ?p" by code_simp
  then obtain t' where run: "write_private [Normal ''l''] [Normal ''a'', Normal ''b''] [1, 2] 0 sample_tree = (Inr ?p, t')"
    by (metis prod.collapse)
  have cwd: "plain sample_tree (tr_cwd sample_tree)"
    by (auto simp: plain_def sample_tree_def lookup_def le_Suc_eq)
  have home: "canonicalize sample_tree [Normal ''l''] = Some [''h'', ''q'']" by code_simp
  from private_write_inside [OF run cwd, THEN conjunct2, rule_format, OF refl] show ?thesis
  proof (elim exE conjE)
    fix base parts
    assume "canonicalize sample_tree [Normal ''l''] = Some base" and b: "[Normal ''a'', Normal ''b''] = map Normal parts"
      and way: "\<forall>i. 0 < i \<longrightarrow> i < length parts \<longrightarrow> lookup t' (base @ take i parts) = Some (Dir 0x1c0)"
      and written: "lookup t' ?p = Some (File 0x180 [1, 2] 0)"
    then have base: "base = [''h'', ''q'']" using home by simp
    have parts: "parts = [''a'', ''b'']" using b by auto
    have "lookup t' [''h'', ''q'', ''a''] = Some (Dir 0x1c0)" using way [rule_format, of 1] by (simp add: base parts)
    with run written show ?thesis by (intro exI [where x = t'] conjI)
  qed
qed

text \<open>A prepared root is resolved, outside the repository and not around it, not synchronized, and for its owner only.\<close>

lemma validated_private:
  "validate_private_permissions t p = Inr u \<Longrightarrow> \<exists>e. metadata_of t p = Some e \<and> and (mode_of e) 0x3f = 0"
  by (cases "metadata_of t p") (simp_all add: validate_private_permissions_def split: if_splits)

lemma prepared_root_private:
  assumes "prepare_quarantine home repository t = (Inr base, t')"
  shows "\<not> is_synchronized (absolute base) \<and>
    (\<exists>repo. canonicalize t repository = Some repo \<and> \<not> starts_with_path repo base \<and> \<not> starts_with_path base repo) \<and>
    (\<exists>e. metadata_of t' (absolute base) = Some e \<and> and (mode_of e) 0x3f = 0)"
proof -
  note prep = assms [unfolded prepare_quarantine_def]
  obtain repo where r: "canonicalize t repository = Some repo"
    using prep by (cases "canonicalize t repository") (simp_all split: if_splits)
  obtain ok t1 where c: "create_dirs [] home t = (ok, t1)" by force
  have ok: "ok" using prep r c by (cases ok) (simp_all split: if_splits)
  obtain b where b: "canonicalize t1 home = Some b"
    using prep r c ok by (cases "canonicalize t1 home") (simp_all split: if_splits)
  obtain ok2 t2 where s: "set_permissions (absolute b) 0x1c0 t1 = (ok2, t2)" by force
  have sync: "\<not> is_synchronized (absolute b)" and rep: "\<not> starts_with_path repo b" "\<not> starts_with_path b repo"
    and last: "ok2" "map_sum id (\<lambda>_. b) (validate_private_permissions t2 (absolute b)) = Inr base" "t' = t2"
    using prep r c ok b s by (clarsimp split: if_splits)+
  obtain u where u: "validate_private_permissions t2 (absolute b) = Inr u" and "b = base"
    using last(2) by (cases "validate_private_permissions t2 (absolute b)") simp_all
  then show ?thesis using sync rep r validated_private [OF u] last(3) by blast
qed

text \<open>An accepted candidate is in a directory outside the repository and not around it, and is no link.\<close>

lemma accepted_candidate_outside:
  assumes "validate_review_candidate candidate repository t = Inr u"
  shows "\<not> is_synchronized candidate \<and> (\<nexists>target. symlink_metadata t candidate = Some (Link target)) \<and>
    (\<exists>repo parent m. canonicalize t repository = Some repo \<and>
      canonicalize t (butlast (if is_absolute candidate then candidate else absolute (tr_cwd t) @ candidate)) = Some parent \<and>
      lookup t parent = Some (Dir m) \<and> \<not> starts_with_path repo parent \<and> \<not> starts_with_path parent repo)"
proof -
  let ?full = "if is_absolute candidate then candidate else absolute (tr_cwd t) @ candidate"
  note val = assms [unfolded validate_review_candidate_def Let_def]
  have sync: "\<not> is_synchronized candidate" using val by (simp split: if_splits)
  have link: "symlink_metadata t candidate \<noteq> Some (Link target)" for target using val sync by auto
  have rest: "(case canonicalize t repository of None \<Rightarrow> Inl SystemFailed | Some repo \<Rightarrow>
      if ?full = [RootDir] then Inl NoParent
      else case canonicalize t (butlast ?full) of None \<Rightarrow> Inl SystemFailed | Some parent \<Rightarrow>
        if (case lookup t parent of Some (Dir _) \<Rightarrow> False | _ \<Rightarrow> True) then Inl SystemFailed
        else if starts_with_path repo parent \<or> starts_with_path parent repo then Inl ReviewInsideRepository
        else Inr ()) = Inr u"
  proof (cases "symlink_metadata t candidate")
    case None
    show ?thesis using val by (simp only: sync None if_False option.case)
  next
    case (Some e)
    show ?thesis
    proof (cases e)
      case (Link target)
      then show ?thesis using link [of target] Some by simp
    qed (use val in \<open>simp_all only: sync Some if_False option.case node.case\<close>)
  qed
  then obtain repo where r: "canonicalize t repository = Some repo" by (cases "canonicalize t repository") simp_all
  with rest obtain parent where p: "canonicalize t (butlast ?full) = Some parent"
    by (cases "canonicalize t (butlast ?full)") (simp_all only: option.case sum.distinct split: if_splits)
  have "(if (case lookup t parent of Some (Dir _) \<Rightarrow> False | _ \<Rightarrow> True) then Inl SystemFailed
        else if starts_with_path repo parent \<or> starts_with_path parent repo then Inl ReviewInsideRepository
        else Inr ()) = Inr u"
    using rest r p by (simp_all only: option.case sum.distinct split: if_splits) simp_all
  then have "\<not> starts_with_path repo parent" "\<not> starts_with_path parent repo" "\<exists>m. lookup t parent = Some (Dir m)"
    by (auto split: if_splits option.splits node.splits)
  then show ?thesis using sync link r p by blast
qed

text \<open>What is recorded is the text of a capture, below a prepared root.\<close>

lemma recorded_script_written:
  assumes "record_script script home repository relative time t = Some (Inr p, t')"
  obtains s summary base t1 where "script = Some s" and "parse_capture_structure s = Some (Inr summary)"
    and "prepare_quarantine home repository t = (Inr base, t1)"
    and "write_private (absolute base) relative (as_bytes s) time t1 = (Inr p, t')"
  using assms by (auto simp: record_script_def split: option.splits sum.splits prod.splits)

end
