(* ===== verification/Spec2Isabelle.thy ===== *)
theory Spec2Isabelle
  imports Schema PropIndex OscClient Sanitize Publish BinaryValues Meter Drive Fidelity Quarantine
begin

text \<open>
  \<^bold>\<open>libwing\<close> is a client library for the Behringer WING digital mixing consoles, with the server side of
  the same protocol, an OSC client, a schema of the console's parameters and the tools that maintain it. This
  development models its protocol and session logic and proves what a caller relies on.

  \<^bold>\<open>The program.\<close> A console is a tree of nodes, each with a 32-bit id and a definition. A client opens a TCP
  connection carrying the Native protocol: fourteen multiplexed channels escaped by \<open>0xdf\<close>
  (\<open>src/native.rs\<close>), on one of them a token stream of requests and of values and definitions
  (\<open>src/console.rs\<close>, \<open>src/node.rs\<close>). Meters arrive as UDP datagrams (\<open>src/meters.rs\<close>), consoles are found by a
  UDP broadcast, and \<open>src/osc.rs\<close> speaks OSC over UDP. \<open>src/propindex.rs\<close> reads the map of all parameters
  embedded as a binary blob, which \<open>tools/wingschema.rs\<close> writes; \<open>src/schema.rs\<close> resolves an id or a path with
  it against the live model of a slot, and \<open>src/safety.rs\<close> classifies operations. Of the tools, \<open>tools/wingcapture.rs\<close>
  records, merges, sanitizes (\<open>tools/redact.rs\<close>) and compares (\<open>tools/compare.rs\<close>) captures of the traffic, \<open>tools/wingdrive.rs\<close>
  drives a live console and puts back what it found, and \<open>tools/atomic_write.rs\<close> publishes their files.

  \<^bold>\<open>The theories\<close>, in the order in which they build on each other:

  \<^item> \<open>Wing_Prelude\<close>, \<open>Rust_Str\<close>, \<open>Rust_Num\<close>, \<open>Rust_Split\<close>, \<open>Rust_Text\<close>: integers at their width, the crate's errors and
    \<open>?\<close>, UTF-8 strings, decimal and hexadecimal numbers, white space, lines and the other \<open>str\<close> methods. The locales \<open>cursor_codec\<close> (a reader inverts an encoder at any
    position), \<open>bounded_reader\<close> (a reader never looks past what it consumes) and \<open>chunked_decoder\<close> (fragments do
    not matter) are interpreted on the readers and decoders below.
  \<^item> \<open>Channel\<close>: \<open>ChannelDecoder\<close>, \<open>encode_channel\<close>. Encoding and decoding are inverse, however the stream is split.
  \<^item> \<open>NodeDef\<close>, \<open>NodeData\<close>: \<open>WingNodeDef\<close>, its serializer and bounds-checked parser; values and enum helpers.
    Round trips both ways, and every truncation is rejected.
  \<^item> \<open>NativeValue\<close>, \<open>Request\<close>, \<open>ClientMessages\<close>: the server's incremental \<open>NativeRequestDecoder\<close> with its limits, and
    every message the client writes. The decoder is bounded on any input and decodes what the client sends.
  \<^item> \<open>BinaryValues\<close>, \<open>Meter\<close>: the value stream of a raw capture, the meter families, subscriptions and frames.
  \<^item> \<open>TokenReader\<close>, \<open>Response\<close>: the client's response parser over an abstract byte source (locales
    \<open>byte_source\<close>, \<open>source_trace\<close>, \<open>live_source\<close>), and the server's bounded encoder proved against it.
  \<^item> \<open>Reader\<close>, \<open>ReaderView\<close>: the source the console uses (replay queue, event queue, receive buffer, keep-alive,
    deadline) as an interpretation of those locales, and \<open>read_locked\<close> with its rollback on a timeout. \<open>ReaderView\<close>
    is the specification, a queue of responses, and the proof that reading refines it.
  \<^item> \<open>Attended\<close>: requests followed by reads until their reply; subtree definitions; raw captures and the fence
    they raise on a timeout.
  \<^item> \<open>Writer\<close>, \<open>Session\<close>, \<open>Dump\<close>: batched writes and restore under one session generation; meter subscriptions,
    meter reads and reconnection; subtree dumps and the verification of a restored binary node.
  \<^item> \<open>PropIndex\<close>: the writer of the embedded blob and the in-place reader (linear probing, bisection).
  \<^item> \<open>Udp\<close>, \<open>Discovery\<close>, \<open>Osc\<close>, \<open>OscClient\<close>: the scan and the firmware probe; OSC messages; the OSC client with its
    retries, its queue of unsolicited messages and its subscriptions.
  \<^item> \<open>Schema\<close>: risk classes, versions, resolution by model and the overlay of live definitions.
  \<^item> \<open>Redact\<close>, \<open>Capture\<close>, \<open>Sanitize\<close>: the redaction scanner and rewriter, also over reassembled streams; the text of captures,
    its parser with the promotion policy, recording, merging and the comparison event by event; the sanitizer. What is
    recorded or merged reads back; what is sanitized is clean, and sanitizing again changes nothing.
  \<^item> \<open>Publish\<close>: the staging, backups and rollback of published files; all or nothing, whichever system calls fail.
  \<^item> \<open>Drive\<close>: settled reads, verified restores, and the capture of all models of a slot under a recovery file. What was
    found is read back before the file goes; \<open>source_trace\<close>, interpreted on the reader, shows that reading sends only requests.
  \<^item> \<open>Fidelity\<close>: the comparison of two captures by what they decode to. \<open>live_source\<close>, interpreted on the captured bytes, shows
    that the session's reader decodes a served stream to exactly what was served.
  \<^item> \<open>Quarantine\<close>: the directories of raw captures, on a tree with symbolic links, permissions and failing system calls; a
    resolution follows at most \<open>MAX_LINKS\<close> = 40 links, the limit of Linux. A private write stays inside, for its owner only.
  \<^item> this theory: the embedded blob refines the map that \<open>Schema\<close> resolves against, and the sanitizer of a whole file.

  \<^bold>\<open>How the code is rendered.\<close> A method taking \<open>&mut self\<close> returns its result and the new state, on error
  paths too; errors are the left values of a sum. An \<open>f32\<close> is its bit pattern. What a session observes of
  the outside is a script: clock readings, the outcome of each socket read, which writes fail, and the values
  that flags shared with other clones show at each load, so that a theorem for every script covers every
  interleaving of those loads. A disk is a map from paths to files whose changing system calls fail by script; its queries
  do not fail. An operation that would wait for an outcome its script does not hold is
  \<open>None\<close>; the theorems that a read or a scan returns state that it is \<open>Some\<close>. In \<open>PropIndex\<close>, \<open>None\<close> is a panic or an
  endless probe, and the properties exclude both; in \<open>Capture\<close> and \<open>Sanitize\<close> it is a panic on a slice inside a character. No loop has fuel chosen for the proof: loops are structural,
  carry a termination measure, or consume a script; the four passes of \<open>redact_bytes\<close> are the source's own bound.

  \<^bold>\<open>Parameters.\<close> The decimal rendering of a float (\<open>show_f32\<close>), the tolerance comparison of floats in the
  verification of a binary node (\<open>float_close\<close>), the rendering of an IP address (\<open>show_ip\<close>), the names an id
  has in the embedded map for the OSC client (\<open>id_names\<close>), the embedded map for dumps, schema and overlay (\<open>propmap\<close>,
  which this theory ties to the blob), and the predicate of the confirmation guard.

  \<^bold>\<open>Not modelled.\<close> Opening sockets and the TCP handshake (operating system calls; their outcomes are inputs);
  the mutexes and atomics as memory (their observable loads are scripted); JSON and prose renderings of
  definitions (built by the \<open>jzon\<close> crate); the table of icon names and the bindings; the sockets of the capture proxy
  and the purge of expired captures; the echo probe of \<open>wingdrive\<close> (floating-point
  arithmetic) and its read-only sweeps; the recursive crawl of \<open>wingschema\<close>, whose rows are built with \<open>jzon\<close>; the command lines
  and the tools that only print.
\<close>

section \<open>The embedded map behind the schema\<close>

text \<open>The map that \<open>Schema\<close> resolves against, as the records of a sweep in the order of their names.\<close>

definition embedded_map :: "entry list \<Rightarrow> propmap" where
  "embedded_map es = map (\<lambda>e. (fst (snd e), entry_def e)) (name_order es)"

lemma read_header_id: "read_header raw 0 = Inr (d, i) \<Longrightarrow> nd_id d = did_of raw"
  by (auto simp: read_header_def read_i32_def take_bytes_def did_of_def and_then_iffs split: if_splits)

lemma read_type_payload_id: "read_type_payload d raw i = Inr (d', j) \<Longrightarrow> nd_id d' = nd_id d"
  by (auto simp: read_type_payload_def read_float_range_def and_then_iffs split: NodeType.splits if_splits)

lemma def_id_decoded: "from_bytes_without_raw d = Inr def \<Longrightarrow> nd_id def = did_of d"
  by (auto simp: from_bytes_without_raw_def from_bytes_inner_def and_then_iffs dest!: read_header_id read_type_payload_id)

lemma entry_def_id: "decodable e \<Longrightarrow> nd_id (entry_def e) = did_of (snd (snd e))"
  by (cases "from_bytes_without_raw (snd (snd e))") (auto simp: decodable_def def_id_decoded)

lemma embedded_map_of:
  assumes "entries_ok es"
  shows "e \<in> set es \<Longrightarrow> map_of (embedded_map es) (fst (snd e)) = Some (entry_def e)"
    and "name \<notin> (\<lambda>e. fst (snd e)) ` set es \<Longrightarrow> map_of (embedded_map es) name = None"
proof -
  have "distinct (map (\<lambda>e. fst (snd e)) (name_order es))"
    using assms by (simp add: entries_ok_def name_order_def distinct_map)
  then have "distinct (map fst (embedded_map es))" by (simp add: embedded_map_def comp_def)
  then show "e \<in> set es \<Longrightarrow> map_of (embedded_map es) (fst (snd e)) = Some (entry_def e)"
    by (intro map_of_is_SomeI) (auto simp: embedded_map_def name_order_def)
  show "name \<notin> (\<lambda>e. fst (snd e)) ` set es \<Longrightarrow> map_of (embedded_map es) name = None"
    by (force simp: map_of_eq_None_iff embedded_map_def name_order_def)
qed

lemma embedded_by_id:
  assumes "list_all decodable es"
  shows "id_to_defs (embedded_map es) nid =
    (let hits = filter (\<lambda>e. did_of (snd (snd e)) = nid) (name_order es) in
     if hits = [] then None else Some (map (\<lambda>e. (fst (snd e), entry_def e)) hits))"
proof -
  have "filter (\<lambda>(name, def). nd_id def = nid) (embedded_map es) =
      map (\<lambda>e. (fst (snd e), entry_def e)) (filter (\<lambda>e. nd_id (entry_def e) = nid) (name_order es))"
    by (simp add: embedded_map_def filter_map comp_def)
  moreover have "filter (\<lambda>e. nd_id (entry_def e) = nid) (name_order es) = filter (\<lambda>e. did_of (snd (snd e)) = nid) (name_order es)"
    using assms by (intro filter_cong) (simp_all add: entry_def_id list_all_iff name_order_def)
  ultimately show ?thesis by (simp add: id_to_defs_def Let_def)
qed

text \<open>
  C6. The blob behind the embedded map refines the abstract map of the schema: written from the records of a
  sweep (distinct names, lengths that fit their fields, at most 4 GiB), it is accepted by the reader, and on it
  the hash probe and the bisection end without reading outside it and answer every name and every id as the
  association list of those records does, so a resolution over the blob is the resolution the schema specifies.
\<close>

theorem embedded_map_refined:
  assumes "entries_ok es" and "list_all decodable es"
  shows "\<exists>ix. written_index es = Some ix \<and>
    (\<forall>name. get_def ix name = Some (map_of (embedded_map es) name)) \<and>
    (\<forall>name. id_of ix name = Some (embedded_id (embedded_map es) name)) \<and>
    (\<forall>nid. by_id ix nid = Some (id_to_defs (embedded_map es) nid))"
proof -
  obtain ix where ix: "written_index es = Some ix"
    and hit: "\<And>e. e \<in> set es \<Longrightarrow> get_def ix (fst (snd e)) = Some (Some (entry_def e)) \<and>
       id_of ix (fst (snd e)) = Some (Some (did_of (snd (snd e))))"
    and miss: "\<And>name. name \<notin> (\<lambda>e. fst (snd e)) ` set es \<Longrightarrow> get_def ix name = Some None \<and> id_of ix name = Some None"
    using propmap_lookup [OF assms] by blast
  have "get_def ix name = Some (map_of (embedded_map es) name) \<and> id_of ix name = Some (embedded_id (embedded_map es) name)" for name
  proof (cases "name \<in> (\<lambda>e. fst (snd e)) ` set es")
    case True
    then obtain e where e: "e \<in> set es" "name = fst (snd e)" by blast
    moreover have "decodable e" using assms(2) e(1) by (simp add: list_all_iff)
    ultimately show ?thesis using hit embedded_map_of(1) [OF assms(1)] by (simp add: embedded_id_def entry_def_id)
  next
    case False
    then show ?thesis using miss [OF False] embedded_map_of(2) [OF assms(1) False] by (simp add: embedded_id_def)
  qed
  moreover have "by_id ix nid = Some (id_to_defs (embedded_map es) nid)" for nid
    using propmap_by_id [OF assms] ix by (simp add: embedded_by_id [OF assms(2)] Let_def filter_map comp_def shown_pair)
  ultimately show ?thesis using ix by blast
qed

theorem embedded_map_refined_witness:
  "\<exists>ix. written_index sample_entries = Some ix \<and> by_id ix 0x1234 =
      Some (Some [(''/ch/1/g'', sample_parsed\<lparr>nd_raw := []\<rparr>), (''/ch/2/g'', sample_parsed\<lparr>nd_raw := []\<rparr>)]) \<and>
     id_of ix ''/ch/3/g'' = Some None"
proof -
  obtain ix where ix: "written_index sample_entries = Some ix"
    "\<forall>name. id_of ix name = Some (embedded_id (embedded_map sample_entries) name)"
    "\<forall>nid. by_id ix nid = Some (id_to_defs (embedded_map sample_entries) nid)"
    using embedded_map_refined [OF sample_entries_ok] by blast
  have m: "embedded_map sample_entries = [(''/ch/1/g'', sample_parsed\<lparr>nd_raw := []\<rparr>), (''/ch/2/g'', sample_parsed\<lparr>nd_raw := []\<rparr>)]"
    by (simp add: embedded_map_def sample_entries_order sample_entry_def)
  have "nd_id (sample_parsed\<lparr>nd_raw := []\<rparr>) = 0x1234" by code_simp
  with ix show ?thesis by (intro exI [of _ ix]) (simp add: m id_to_defs_def embedded_id_def)
qed

section \<open>Sanitizing a file\<close>

text \<open>
  \<open>sanitize_file\<close> (\<open>tools/wingcapture.rs\<close>): the input is read and decoded, sanitized, and published over the
  output. The \<open>None\<close> of the result is a panic. An input that is no regular file is an error here: the
  target of a symbolic link is not part of the disk model.
\<close>

datatype sanitize_error = Unreadable | Rejected capture_error | Unpublished publish_error

definition read_to_string :: "path \<Rightarrow> Disk \<Rightarrow> (sanitize_error + string) \<times> Disk" where
  "read_to_string p d =
     (case draw d of
        (Some _, d) \<Rightarrow> (Inl Unreadable, d)
      | (None, d) \<Rightarrow>
          (case dk_files d p of
             Some (Regular bytes) \<Rightarrow> (ok_or (from_utf8 bytes) Unreadable, d)
           | _ \<Rightarrow> (Inl Unreadable, d)))"

definition sanitize_file :: "path \<Rightarrow> path \<Rightarrow> Disk \<Rightarrow> (sanitize_error + unit) option \<times> Disk" where
  "sanitize_file input_path output_path d =
     (case read_to_string input_path d of
        (Inl e, d) \<Rightarrow> (Some (Inl e), d)
      | (Inr contents, d) \<Rightarrow>
          (case sanitize_text contents of
             None \<Rightarrow> (None, d)
           | Some (Inl e) \<Rightarrow> (Some (Inl (Rejected e)), d)
           | Some (Inr cleaned) \<Rightarrow>
               (case publish_outputs [(output_path, as_bytes cleaned)] d of
                  (Inl e, d) \<Rightarrow> (Some (Inl (Unpublished e)), d)
                | (Inr _, d) \<Rightarrow> (Some (Inr ()), d))))"

fun rollback_failures :: "(sanitize_error + unit) option \<Rightarrow> path set" where
  "rollback_failures (Some (Inl (Unpublished e))) = unrestored e"
| "rollback_failures _ = {}"

lemma read_to_string_files: "read_to_string p d = (r, d') \<Longrightarrow> dk_files d' = dk_files d"
  by (auto simp: read_to_string_def split: prod.splits option.splits dirent.splits dest!: draw_eq)

lemma publish_single:
  assumes "\<not> hidden p"
  shows "case publish_outputs [(p, c)] d of
      (Inr _, d') \<Rightarrow> (\<forall>q. \<not> hidden q \<longrightarrow> dk_files d' q = (if q = p then Some (Regular c) else dk_files d q))
    | (Inl e, d') \<Rightarrow> rolled_back (dk_files d) e d'"
  using publish_outputs_ok [of "[(p, c)]" d] assms by (auto split: prod.splits sum.splits if_splits)

text \<open>
  C17. Sanitizing a file never leaves an unsanitized output behind: when it succeeds, the output holds a text that the
  sanitizer itself accepts unchanged, and no other visible file differs; when it fails or panics, every
  visible file is as it was, apart from those whose rollback the error names.
\<close>

theorem sanitize_file_safe:
  assumes "\<not> hidden output_path"
  shows "case sanitize_file input_path output_path d of
      (Some (Inr _), d') \<Rightarrow>
        (\<exists>cleaned. dk_files d' output_path = Some (Regular (as_bytes cleaned)) \<and> sanitize_text cleaned = Some (Inr cleaned)) \<and>
        (\<forall>q. \<not> hidden q \<longrightarrow> q \<noteq> output_path \<longrightarrow> dk_files d' q = dk_files d q)
    | (r, d') \<Rightarrow> \<forall>q. \<not> hidden q \<longrightarrow> q \<notin> rollback_failures r \<longrightarrow> dk_files d' q = dk_files d q"
proof -
  obtain r d1 where r: "read_to_string input_path d = (r, d1)" by force
  have f: "dk_files d1 = dk_files d" by (rule read_to_string_files [OF r])
  show ?thesis
  proof (cases r)
    case (Inl e)
    then have "sanitize_file input_path output_path d = (Some (Inl e), d1)" using r by (simp add: sanitize_file_def)
    then show ?thesis using f by simp
  next
    case (Inr contents)
    show ?thesis
    proof (cases "sanitize_text contents")
      case None
      then have "sanitize_file input_path output_path d = (None, d1)" using r Inr by (simp add: sanitize_file_def)
      then show ?thesis using f by simp
    next
      case (Some s)
      show ?thesis
      proof (cases s)
        case (Inl e)
        then have "sanitize_file input_path output_path d = (Some (Inl (Rejected e)), d1)" using r Inr Some \<open>r = Inr contents\<close> by (simp add: sanitize_file_def)
        then show ?thesis using f by simp
      next
        case cleaned: (Inr cleaned)
        have idem: "sanitize_text cleaned = Some (Inr cleaned)" using sanitize_text_idem Some cleaned by simp
        obtain u d2 where u: "publish_outputs [(output_path, as_bytes cleaned)] d1 = (u, d2)" by force
        have eq: "sanitize_file input_path output_path d = (Some (case u of Inl e \<Rightarrow> Inl (Unpublished e) | Inr _ \<Rightarrow> Inr ()), d2)"
          using r \<open>r = Inr contents\<close> Some cleaned u by (simp add: sanitize_file_def split: sum.split)
        show ?thesis using publish_single [OF assms, where c = "as_bytes cleaned" and d = d1] u idem f assms unfolding eq
          by (cases u) (auto simp: rolled_back_def)
      qed
    qed
  qed
qed

definition sample_files :: Disk where
  "sample_files = \<lparr>dk_files = [Path [] ''raw'' \<mapsto> Regular (as_bytes (with_nl ''N< 4e474331''))], dk_faults = [], dk_pid = 7, dk_next = 0\<rparr>"

theorem sanitize_file_safe_witness:
  "fst (sanitize_file (Path [] ''raw'') (Path [] ''clean'') sample_files) = Some (Inr ()) \<and>
   (\<exists>cleaned. dk_files (snd (sanitize_file (Path [] ''raw'') (Path [] ''clean'') sample_files)) (Path [] ''clean'') =
      Some (Regular (as_bytes cleaned)) \<and> sanitize_text cleaned = Some (Inr cleaned))"
proof -
  have ok: "fst (sanitize_file (Path [] ''raw'') (Path [] ''clean'') sample_files) = Some (Inr ())" by code_simp
  have "\<not> hidden (Path [] ''clean'')" by code_simp
  from sanitize_file_safe [OF this, where input_path = "Path [] ''raw''" and d = sample_files] ok show ?thesis by (auto split: prod.splits)
qed

end
